(* ===== verification/Prelude.thy ===== *)
theory Prelude
  imports Main "HOL-Library.Word" "HOL-Library.Monad_Syntax"
begin

unbundle bit_operations_syntax

text \<open>
  What every component shares: the machine types of \<open>include/types.h\<close>, the constants of
  \<open>include/mm_address.h\<close> and \<open>include/errno.h\<close>, the collections the component proofs use, and
  generic lemmas on loops over arrays. An array is a function from indices; every
  definition that indexes one writes out the bounds its code checks.
  A pointer of type \<open>'a option\<close> is \<open>None\<close> for \<open>NULL\<close>, and an operation whose
  result is \<open>None\<close> is one that touches memory through \<open>NULL\<close> or through an unmapped page:
  the processor raises a page fault, whose handler never returns.
\<close>

section \<open>Machine types\<close>

type_synonym byte = "8 word"
type_synonym hword = "16 word"
type_synonym dword = "32 word"

section \<open>Constants of mm_address.h\<close>

abbreviation (input) TOTAL_PAGES :: nat where
  "TOTAL_PAGES \<equiv> 2048"

abbreviation (input) PT_ENTRIES :: nat where
  "PT_ENTRIES \<equiv> 1024"

abbreviation (input) NUM_PAG_CODE :: nat where
  "NUM_PAG_CODE \<equiv> 8"

abbreviation (input) NUM_PAG_DATA :: nat where
  "NUM_PAG_DATA \<equiv> 20"

abbreviation (input) NUM_SHARED_PAGES :: nat where
  "NUM_SHARED_PAGES \<equiv> 10"

abbreviation (input) PAGE_SIZE :: nat where
  "PAGE_SIZE \<equiv> 4096"

abbreviation (input) KERNEL_START :: dword where
  "KERNEL_START \<equiv> 0x10000"

abbreviation (input) L_USER_START :: dword where
  "L_USER_START \<equiv> 0x800000"

abbreviation (input) PAG_LOG_INIT_DATA :: dword where
  "PAG_LOG_INIT_DATA \<equiv> 0x800"

section \<open>Error numbers of errno.h\<close>

abbreviation (input) EBADF :: int where
  "EBADF \<equiv> 9"

abbreviation (input) EAGAIN :: int where
  "EAGAIN \<equiv> 11"

abbreviation (input) ENOMEM :: int where
  "ENOMEM \<equiv> 12"

abbreviation (input) EACCES :: int where
  "EACCES \<equiv> 13"

abbreviation (input) EFAULT :: int where
  "EFAULT \<equiv> 14"

abbreviation (input) EINVAL :: int where
  "EINVAL \<equiv> 22"

abbreviation (input) ENOSYS :: int where
  "ENOSYS \<equiv> 38"

section \<open>Collections\<close>

text \<open>
  \<open>ring_simps\<close> holds the effect of the list primitives on the heap of list nodes,
  \<open>pte_simps\<close> the field reads of a page table entry after its field writes.
\<close>

named_theorems ring_simps
named_theorems pte_simps

section \<open>Loops over arrays\<close>

text \<open>A \<open>for (i = a; i < b; i++)\<close> loop that stores \<open>v i\<close> into slot \<open>g i\<close>.\<close>

lemma fold_fill:
  "fold (\<lambda>i m. m(i := v i)) [a..<b] m = (\<lambda>j. if a \<le> j \<and> j < b then v j else m j)"
proof (induction b)
  case 0
  then show ?case by simp
next
  case (Suc b)
  then show ?case by (auto simp: fun_eq_iff)
qed

lemma fold_fill_shift:
  "fold (\<lambda>i m. m(c + i := v i)) [0..<b] m
     = (\<lambda>j. if c \<le> j \<and> j < c + b then v (j - c) else m j)"
proof (induction b)
  case 0
  then show ?case by (auto simp: fun_eq_iff)
next
  case (Suc b)
  then show ?case by (auto simp: fun_eq_iff)
qed

lemma fold_invariant_upt:
  assumes "P s" and "\<And>i s. a \<le> i \<Longrightarrow> i < b \<Longrightarrow> P s \<Longrightarrow> P (f i s)"
  shows "P (fold f [a..<b] s)"
proof (cases "a \<le> b")
  case True
  then have "P (fold f [a..<c] s)" if "a \<le> c" "c \<le> b" for c
    using that
  proof (induction c)
    case 0
    then show ?case using assms(1) by simp
  next
    case (Suc c)
    show ?case
    proof (cases "a \<le> c")
      case True
      with Suc assms(2) [of c] show ?thesis by simp
    next
      case False
      with Suc.prems have "[a..<Suc c] = []" by simp
      then show ?thesis using assms(1) by simp
    qed
  qed
  then show ?thesis using True by blast
next
  case False
  then show ?thesis using assms(1) by simp
qed

text \<open>The bytes of a string constant, without its terminator.\<close>

definition text_bytes :: "string \<Rightarrow> byte list" where
  "text_bytes s = map (\<lambda>c. of_nat (of_char c)) s"

text \<open>A sum of one changed entry.\<close>

lemma card_upd_one:
  assumes "finite A" and "k \<in> A" and "k \<in> P" and "Q = P - {k}"
  shows "card (A \<inter> P) = Suc (card (A \<inter> Q))"
proof -
  have "A \<inter> P = insert k (A \<inter> Q)" using assms by auto
  moreover have "k \<notin> A \<inter> Q" using assms by auto
  ultimately show ?thesis using assms(1) by simp
qed

end
