(* ===== verification/Build.thy ===== *)
theory Build
  imports Prelude
begin

text \<open>
  The image builder \<open>build.c\<close>, the host tool that the Makefile runs to put the boot sector, the kernel
  and the user program into \<open>zeos.bin\<close>. The files of the host are a parameter: what opening a name
  gives, the size \<open>fstat\<close> reports, the bytes a read delivers and the offsets where a read fails. The
  standard output is a record with a position, a size limit (a write that passes it is short) and a
  flag that tells whether it can seek. Each \<open>die\<close> is a value of the error type; the message with the
  file name, the progress lines on the standard error and what was written before the error are left
  out. \<open>buf\<close> is a global array that is never cleared, so that it is passed along.
\<close>

section \<open>Host files\<close>

record host_file =
  file_bytes :: "byte list"
  stat_size :: "nat option"
  read_error :: "nat \<Rightarrow> bool"

record out_stream =
  written :: "byte list"
  out_pos :: nat
  out_room :: nat
  seekable :: bool

datatype build_error = Usage | Unable_to_open string | Unable_to_read_header | Non_Minix_header
  | Illegal_data_segment | Illegal_bss_segment | Illegal_symbol_table | Boot_block_size
  | No_boot_flag | Unable_to_stat string | Error_reading string | Unexpected_EOF string
  | Write_failed | Seek_failed

text \<open>\<open>read\<close> at an offset: at most \<open>n\<close> bytes, and \<open>None\<close> for the result \<open>-1\<close>.\<close>

definition host_read :: "host_file \<Rightarrow> nat \<Rightarrow> nat \<Rightarrow> byte list option" where
  "host_read f pos n = (if read_error f pos then None else Some (take n (drop pos (file_bytes f))))"

text \<open>The bytes a call stores at the start of \<open>buf\<close>.\<close>

definition into_buf :: "byte list \<Rightarrow> byte list \<Rightarrow> byte list" where
  "into_buf bs buf = bs @ drop (length bs) buf"

text \<open>A write at the position of the stream; a hole is filled with zeros.\<close>

definition out_write :: "byte list \<Rightarrow> out_stream \<Rightarrow> build_error + out_stream" where
  "out_write bs out =
     (let p = out_pos out; old = written out in
      if p + length bs > out_room out then Inl Write_failed
      else Inr (out\<lparr>written := take p old @ replicate (p - length old) 0 @ bs @ drop (p + length bs) old,
                    out_pos := p + length bs\<rparr>))"

definition out_seek :: "nat \<Rightarrow> out_stream \<Rightarrow> build_error + out_stream" where
  "out_seek p out = (if seekable out then Inr (out\<lparr>out_pos := p\<rparr>) else Inl Seek_failed)"

text \<open>Each call either dies or goes on.\<close>

fun and_then :: "build_error + 'a \<Rightarrow> ('a \<Rightarrow> build_error + 'b) \<Rightarrow> build_error + 'b" where
  "and_then (Inl e) g = Inl e"
| "and_then (Inr x) g = g x"

lemma and_then_Inr_iff: "and_then m g = Inr y \<longleftrightarrow> (\<exists>x. m = Inr x \<and> g x = Inr y)"
  by (cases m) auto

section \<open>The boot sector\<close>

text \<open>\<open>lb\<close> is \<open>buf\<close> read as little-endian words.\<close>

definition lb :: "byte list \<Rightarrow> nat \<Rightarrow> dword" where
  "lb buf i = ucast (buf ! (4 * i)) OR push_bit 8 (ucast (buf ! (4 * i + 1)))
     OR push_bit 16 (ucast (buf ! (4 * i + 2))) OR push_bit 24 (ucast (buf ! (4 * i + 3)))"

definition minix_open :: "(string \<Rightarrow> host_file option) \<Rightarrow> string \<Rightarrow> byte list \<Rightarrow>
    build_error + (host_file \<times> byte list)" where
  "minix_open fs name buf =
     (case fs name of None \<Rightarrow> Inl (Unable_to_open name)
      | Some f \<Rightarrow>
        (case host_read f 0 32 of None \<Rightarrow> Inl Unable_to_read_header
         | Some bs \<Rightarrow>
           let buf = into_buf bs buf in
           if length bs \<noteq> 32 then Inl Unable_to_read_header
           else if take 8 buf \<noteq> [0x01, 0x03, 0x10, 0x04, 0x20, 0x00, 0x00, 0x00] \<or> lb buf 5 \<noteq> 0
             then Inl Non_Minix_header
           else if lb buf 3 \<noteq> 0 then Inl Illegal_data_segment
           else if lb buf 4 \<noteq> 0 then Inl Illegal_bss_segment
           else if lb buf 7 \<noteq> 0 then Inl Illegal_symbol_table
           else Inr (f, buf)))"

definition copy_boot_sector :: "(string \<Rightarrow> host_file option) \<Rightarrow> string \<Rightarrow> byte list \<Rightarrow> out_stream \<Rightarrow>
    build_error + (byte list \<times> out_stream)" where
  "copy_boot_sector fs name buf out =
     and_then (minix_open fs name buf) (\<lambda>(f, buf).
       case host_read f 32 1024 of None \<Rightarrow> Inl Boot_block_size
       | Some bs \<Rightarrow>
         let buf = into_buf bs buf in
         if length bs \<noteq> 512 then Inl Boot_block_size
         else if buf ! 510 \<noteq> 0x55 \<or> buf ! 511 \<noteq> 0xaa then Inl No_boot_flag
         else let buf = buf[508 := 0];
                  buf = buf[509 := 0]
              in and_then (out_write (take 512 buf) out) (\<lambda>out. Inr (buf, out)))"

section \<open>The kernel and the user program\<close>

function copy_chunks :: "string \<Rightarrow> host_file \<Rightarrow> nat \<Rightarrow> dword \<Rightarrow> byte list \<Rightarrow> out_stream \<Rightarrow>
    build_error + (byte list \<times> out_stream)" where
  "copy_chunks name f pos sz buf out =
     (if sz > 0 then
        let l = (if sz > 1024 then 1024 else unat sz) in
        case host_read f pos l of None \<Rightarrow> Inl (Error_reading name)
        | Some bs \<Rightarrow>
          if length bs \<noteq> l then Inl (Unexpected_EOF name)
          else let buf = into_buf bs buf in
               and_then (out_write (take l buf) out) (copy_chunks name f (pos + l) (sz - of_nat l) buf)
      else Inr (buf, out))"
  by pat_completeness auto

termination
  by (relation "measure (\<lambda>(name, f, pos, sz, buf, out). unat sz)")
    (auto simp: word_less_nat_alt unat_sub_if_size)

declare copy_chunks.simps [simp del]

definition copy_file :: "(string \<Rightarrow> host_file option) \<Rightarrow> string \<Rightarrow> byte list \<Rightarrow> out_stream \<Rightarrow>
    build_error + (dword \<times> byte list \<times> out_stream)" where
  "copy_file fs name buf out =
     (case fs name of None \<Rightarrow> Inl (Unable_to_open name)
      | Some f \<Rightarrow>
        (case stat_size f of None \<Rightarrow> Inl (Unable_to_stat name)
         | Some n \<Rightarrow>
           let size = of_nat n in
           and_then (copy_chunks name f 0 size buf out) (\<lambda>(buf, out). Inr (size, buf, out))))"

section \<open>main\<close>

definition write_at :: "nat \<Rightarrow> byte list \<Rightarrow> out_stream \<Rightarrow> build_error + out_stream" where
  "write_at p bs out = and_then (out_seek p out) (out_write bs)"

text \<open>The lengths are written over what has been copied. \<open>im_size\<close> is the number of paragraphs of 16 bytes.\<close>

definition put_length :: "dword \<Rightarrow> byte list \<Rightarrow> byte list" where
  "put_length n buf =
     (let buf = buf[0 := ucast (n AND 0xff)];
          buf = buf[1 := ucast (drop_bit 8 n AND 0xff)];
          buf = buf[2 := ucast (drop_bit 16 n AND 0xff)]
      in buf[3 := 0])"

definition write_sizes :: "dword \<Rightarrow> dword \<Rightarrow> byte list \<Rightarrow> out_stream \<Rightarrow> build_error + out_stream" where
  "write_sizes sys_size usr_size buf out =
     (let im_size = (sys_size + usr_size + 15) div 16;
          buf = buf[0 := ucast (im_size AND 0xff)];
          buf = buf[1 := ucast (drop_bit 8 im_size AND 0xff)]
      in and_then (write_at 500 (take 2 buf) out) (\<lambda>out.
      let buf = put_length sys_size buf
      in and_then (write_at 512 (take 4 buf) out) (\<lambda>out.
      let buf = put_length usr_size buf
      in and_then (write_at 516 (take 4 buf) out) (\<lambda>out.
      let buf = put_length 0x7E6A buf
      in write_at 520 (take 4 buf) out))))"

text \<open>\<open>argv\<close> starts with the name of the program, so that \<open>argc\<close> is its length.\<close>

definition build_main :: "(string \<Rightarrow> host_file option) \<Rightarrow> string list \<Rightarrow> byte list \<Rightarrow> out_stream \<Rightarrow>
    build_error + out_stream" where
  "build_main fs argv buf out =
     (if length argv \<noteq> 4 then Inl Usage
      else and_then (copy_boot_sector fs (argv ! 1) buf out) (\<lambda>(buf, out).
           and_then (copy_file fs (argv ! 2) buf out) (\<lambda>(sys_size, buf, out).
           and_then (copy_file fs (argv ! 3) buf out) (\<lambda>(usr_size, buf, out).
           write_sizes sys_size usr_size buf out))))"

section \<open>Copying\<close>

text \<open>A file whose size and bytes do not change while it is read.\<close>

definition holds_file :: "(string \<Rightarrow> host_file option) \<Rightarrow> string \<Rightarrow> byte list \<Rightarrow> bool" where
  "holds_file fs name bs =
     (\<exists>f. fs name = Some f \<and> file_bytes f = bs \<and> stat_size f = Some (length bs) \<and> (\<forall>p. \<not> read_error f p))"

text \<open>The stream after \<open>bs\<close> was added at its end.\<close>

definition extended :: "byte list \<Rightarrow> out_stream \<Rightarrow> out_stream" where
  "extended bs out = out\<lparr>written := written out @ bs, out_pos := out_pos out + length bs\<rparr>"

definition at_end :: "out_stream \<Rightarrow> bool" where
  "at_end out = (out_pos out = length (written out))"

lemma extended_simps [simp]:
  "written (extended bs out) = written out @ bs"
  "out_pos (extended bs out) = out_pos out + length bs"
  "out_room (extended bs out) = out_room out"
  "seekable (extended bs out) = seekable out"
  "at_end (extended bs out) = at_end out"
  by (simp_all add: extended_def at_end_def)

lemma extended_twice [simp]: "extended cs (extended bs out) = extended (bs @ cs) out"
  by (simp add: extended_def)

lemma extended_nothing [simp]: "extended [] out = out"
  by (simp add: extended_def)

lemma out_write_at_end:
  assumes "at_end out" and "out_pos out + length bs \<le> out_room out"
  shows "out_write bs out = Inr (extended bs out)"
  using assms by (simp add: out_write_def at_end_def extended_def Let_def)

lemma length_into_buf: "length bs \<le> length buf \<Longrightarrow> length (into_buf bs buf) = length buf"
  by (simp add: into_buf_def)

lemma take_into_buf [simp]: "length bs = n \<Longrightarrow> take n (into_buf bs buf) = bs"
  by (auto simp: into_buf_def)

lemma copy_chunks_copies:
  assumes "\<forall>p. \<not> read_error f p" and "pos + unat sz \<le> length (file_bytes f)"
    and "at_end out" and "out_pos out + unat sz \<le> out_room out" and "length buf = 1024"
  shows "\<exists>buf'. copy_chunks name f pos sz buf out
      = Inr (buf', extended (take (unat sz) (drop pos (file_bytes f))) out) \<and> length buf' = 1024"
  using assms
proof (induction name f pos sz buf out rule: copy_chunks.induct)
  case (1 name f pos sz buf out)
  define l where "l = (if sz > 1024 then 1024 else unat sz)"
  define bs where "bs = take l (drop pos (file_bytes f))"
  show ?case
  proof (cases "sz > 0")
    case True
    have l: "l \<le> unat sz" "l \<le> 1024"
      by (auto simp: l_def word_less_nat_alt)
    have "unat (of_nat l :: dword) = l"
      using l by (simp add: unat_of_nat take_bit_nat_eq_self)
    then have rest: "unat (sz - of_nat l) = unat sz - l"
      using l by (simp add: unat_sub_if_size)
    have len: "length bs = l"
      using l "1.prems"(2) by (simp add: bs_def)
    have read: "host_read f pos l = Some bs"
      using "1.prems"(1) by (simp add: host_read_def bs_def)
    have wrote: "out_write bs out = Inr (extended bs out)"
      using "1.prems"(3,4) l len by (intro out_write_at_end) simp_all
    have all: "take (unat sz) (drop pos (file_bytes f))
        = bs @ take (unat sz - l) (drop (pos + l) (file_bytes f))"
      using l take_add [of l "unat sz - l" "drop pos (file_bytes f)"]
      by (simp add: bs_def add.commute)
    have buf: "length (into_buf bs buf) = 1024"
      using len l "1.prems"(5) by (simp add: length_into_buf)
    have "\<exists>buf'. copy_chunks name f (pos + l) (sz - of_nat l) (into_buf bs buf) (extended bs out)
        = Inr (buf', extended (take (unat (sz - of_nat l)) (drop (pos + l) (file_bytes f))) (extended bs out))
        \<and> length buf' = 1024"
      by (rule "1.IH" [OF True l_def read]) (use "1.prems" len l rest buf in simp_all)
    then show ?thesis
      using True read len wrote
      by (subst (1) copy_chunks.simps) (simp add: l_def [symmetric] rest all Let_def)
  next
    case False
    then have "sz = 0" by (simp add: word_gt_0)
    then show ?thesis using "1.prems"(5) by (subst (1) copy_chunks.simps) simp
  qed
qed

lemma copy_file_copies:
  assumes "holds_file fs name bs" and "length bs < 2 ^ 32" and "at_end out"
    and "out_pos out + length bs \<le> out_room out" and "length buf = 1024"
  shows "\<exists>buf'. copy_file fs name buf out = Inr (of_nat (length bs), buf', extended bs out) \<and> length buf' = 1024"
proof -
  obtain f where f: "fs name = Some f" "file_bytes f = bs" "stat_size f = Some (length bs)"
      "\<forall>p. \<not> read_error f p"
    using assms(1) by (auto simp: holds_file_def)
  have size: "unat (of_nat (length bs) :: dword) = length bs"
    using assms(2) by (simp add: unat_of_nat take_bit_nat_eq_self)
  obtain buf' where "copy_chunks name f 0 (of_nat (length bs)) buf out = Inr (buf', extended bs out)"
      "length buf' = 1024"
    using copy_chunks_copies [of f 0 "of_nat (length bs)" out buf name] f assms size by auto
  then show ?thesis using f by (simp add: copy_file_def Let_def)
qed

section \<open>The lengths\<close>

definition patch :: "nat \<Rightarrow> byte list \<Rightarrow> byte list \<Rightarrow> byte list" where
  "patch p bs xs = take p xs @ bs @ drop (p + length bs) xs"

lemma length_patch [simp]: "p + length bs \<le> length xs \<Longrightarrow> length (patch p bs xs) = length xs"
  by (simp add: patch_def)

lemma nth_patch:
  "p + length bs \<le> length xs \<Longrightarrow> i < length xs \<Longrightarrow>
     patch p bs xs ! i = (if p \<le> i \<and> i < p + length bs then bs ! (i - p) else xs ! i)"
  by (auto simp: patch_def nth_append)

lemma write_at_patches:
  assumes "seekable out" and "p + length bs \<le> length (written out)" and "p + length bs \<le> out_room out"
  shows "write_at p bs out = Inr (out\<lparr>written := patch p bs (written out), out_pos := p + length bs\<rparr>)"
  using assms by (simp add: write_at_def out_seek_def out_write_def patch_def Let_def)

text \<open>The field of a length: three bytes of it and a zero.\<close>

definition length_field :: "dword \<Rightarrow> byte list" where
  "length_field n = [ucast (n AND 0xff), ucast (drop_bit 8 n AND 0xff), ucast (drop_bit 16 n AND 0xff), 0]"

definition paragraphs_field :: "dword \<Rightarrow> byte list" where
  "paragraphs_field n = [ucast (n AND 0xff), ucast (drop_bit 8 n AND 0xff)]"

lemma length_fields [simp]: "length (length_field n) = 4" "length (paragraphs_field n) = 2"
  by (simp_all add: length_field_def paragraphs_field_def)

definition patched :: "dword \<Rightarrow> dword \<Rightarrow> byte list \<Rightarrow> byte list" where
  "patched s u xs = patch 520 (length_field 0x7E6A) (patch 516 (length_field u)
     (patch 512 (length_field s) (patch 500 (paragraphs_field ((s + u + 15) div 16)) xs)))"

lemma take_put_length:
  assumes "4 \<le> length buf"
  shows "take 4 (put_length n buf) = length_field n"
proof -
  have nonempty: "buf \<noteq> []" using assms by auto
  show ?thesis
  proof (rule nth_equalityI)
  fix i
  assume "i < length (take 4 (put_length n buf))"
  then have "i = 0 \<or> i = 1 \<or> i = 2 \<or> i = 3" by auto
  then show "take 4 (put_length n buf) ! i = length_field n ! i"
    using assms nonempty by (auto simp: put_length_def length_field_def Let_def)
qed (use assms in \<open>simp add: put_length_def Let_def\<close>)
qed

lemma length_put_length [simp]: "length (put_length n buf) = length buf"
  by (simp add: put_length_def Let_def)

lemma take_paragraphs:
  assumes "2 \<le> length buf"
  shows "take 2 (buf[0 := ucast (n AND 0xff), 1 := ucast (drop_bit 8 n AND 0xff)]) = paragraphs_field n"
proof -
  have nonempty: "buf \<noteq> []" using assms by auto
  show ?thesis
  proof (rule nth_equalityI)
  fix i
  assume "i < length (take 2 (buf[0 := ucast (n AND 0xff), 1 := ucast (drop_bit 8 n AND 0xff)]))"
  then have "i = 0 \<or> i = 1" by auto
  then show "take 2 (buf[0 := ucast (n AND 0xff), 1 := ucast (drop_bit 8 n AND 0xff)]) ! i
      = paragraphs_field n ! i"
    using assms nonempty by (auto simp: paragraphs_field_def)
qed (use assms in simp)
qed

lemma write_sizes_patches:
  assumes "seekable out" and "524 \<le> length (written out)" and "524 \<le> out_room out" and "length buf = 1024"
  shows "write_sizes s u buf out = Inr (out\<lparr>written := patched s u (written out), out_pos := 524\<rparr>)"
  unfolding write_sizes_def Let_def patched_def
  using assms by (simp add: write_at_patches take_put_length take_paragraphs del: One_nat_def)

lemma mask8: "(0xff :: dword) = mask 8"
  by (simp add: mask_eq_exp_minus_1)

lemma lb_length_field:
  assumes "\<And>i. i < 4 \<Longrightarrow> xs ! (4 * k + i) = length_field n ! i"
  shows "lb xs k = n AND mask 24"
proof -
   have "lb xs k = lb (length_field n) 0"
    using assms [of 0] assms [of 1] assms [of 2] assms [of 3] by (simp add: lb_def numeral_2_eq_2)
  also have "\<dots> = n AND mask 24"
  proof (rule bit_word_eqI)
    fix i
    assume "i < LENGTH(32)"
    moreover have "i < 8 \<or> (8 \<le> i \<and> i < 16) \<or> (16 \<le> i \<and> i < 24) \<or> 24 \<le> i" by linarith
    ultimately show "bit (lb (length_field n) 0) i = bit (n AND mask 24) i"
      unfolding lb_def length_field_def mask8 by (auto simp: bit_simps)
  qed
  finally show ?thesis .
qed

section \<open>The whole image\<close>

definition minix_header :: "byte list \<Rightarrow> bool" where
  "minix_header h = (length h = 32 \<and> take 8 h = [0x01, 0x03, 0x10, 0x04, 0x20, 0x00, 0x00, 0x00]
     \<and> lb h 3 = 0 \<and> lb h 4 = 0 \<and> lb h 5 = 0 \<and> lb h 7 = 0)"

definition boot_file :: "byte list \<Rightarrow> bool" where
  "boot_file bs = (minix_header (take 32 bs) \<and> length bs = 544 \<and> bs ! 542 = 0x55 \<and> bs ! 543 = 0xaa)"

lemma lb_into_buf:
  assumes "4 * i + 3 < length h"
  shows "lb (into_buf h buf) i = lb h i"
  using assms by (simp add: lb_def into_buf_def nth_append)

lemma minix_open_cases:
  assumes "holds_file fs name bs" and "length buf = 1024"
  shows "if minix_header (take 32 bs)
         then \<exists>f buf'. minix_open fs name buf = Inr (f, buf') \<and> file_bytes f = bs
           \<and> (\<forall>p. \<not> read_error f p) \<and> length buf' = 1024
         else \<exists>e. minix_open fs name buf = Inl e"
proof -
  obtain f where f: "fs name = Some f" "file_bytes f = bs" "\<forall>p. \<not> read_error f p"
    using assms(1) by (auto simp: holds_file_def)
  define h where "h = take 32 bs"
  have read: "host_read f 0 32 = Some h"
    using f by (simp add: host_read_def h_def)
  have same: "take 8 (into_buf h buf) = take 8 h" "lb (into_buf h buf) 3 = lb h 3"
      "lb (into_buf h buf) 4 = lb h 4" "lb (into_buf h buf) 5 = lb h 5" "lb (into_buf h buf) 7 = lb h 7"
      "length (into_buf h buf) = 1024" if "length h = 32"
    using that assms(2) by (simp_all add: lb_into_buf length_into_buf) (simp add: into_buf_def)
  show ?thesis
    unfolding h_def [symmetric]
    using f same by (auto simp: minix_open_def read minix_header_def Let_def)
qed

lemma copy_boot_sector_cases:
  assumes "holds_file fs name bs" and "length buf = 1024" and "at_end out" and "out_pos out + 512 \<le> out_room out"
  shows "if boot_file bs
         then \<exists>buf'. copy_boot_sector fs name buf out
           = Inr (buf', extended ((drop 32 bs)[508 := 0, 509 := 0]) out) \<and> length buf' = 1024
         else \<exists>e. copy_boot_sector fs name buf out = Inl e"
proof (cases "minix_header (take 32 bs)")
  case False
  with minix_open_cases [OF assms(1,2)] show ?thesis
    by (auto simp: copy_boot_sector_def boot_file_def)
next
  case True
  with minix_open_cases [OF assms(1,2)] obtain f buf' where
    f: "minix_open fs name buf = Inr (f, buf')" "file_bytes f = bs" "\<forall>p. \<not> read_error f p"
       "length buf' = 1024" by auto
  define b where "b = take 1024 (drop 32 bs)"
  have read: "host_read f 32 1024 = Some b"
    using f by (simp add: host_read_def b_def)
  have len: "length bs = 544 \<longleftrightarrow> length b = 512" "length bs = 544 \<Longrightarrow> b = drop 32 bs"
    by (auto simp: b_def)
  have buf: "into_buf b buf' ! i = b ! i" if "i < 512" "length b = 512" for i
    using that by (simp add: into_buf_def nth_append)
  have flag: "bs ! 542 = b ! 510" "bs ! 543 = b ! 511" if "length b = 512"
    using that len by simp_all
  have out: "out_write (b[508 := 0, 509 := 0]) out = Inr (extended (b[508 := 0, 509 := 0]) out)"
    if "length b = 512"
    using that assms(3,4) by (intro out_write_at_end) simp_all
  have "take 512 ((into_buf b buf')[508 := 0, 509 := 0]) = b[508 := 0, 509 := 0]" if "length b = 512"
    using that by (simp add: take_update_swap)
  moreover have "length (into_buf b buf') = 1024" if "length b = 512"
    using that f(4) by (simp add: length_into_buf)
  ultimately show ?thesis
    using f True len buf flag out
    by (auto simp: copy_boot_sector_def read boot_file_def Let_def)
qed

definition disk_image :: "byte list \<Rightarrow> byte list \<Rightarrow> byte list \<Rightarrow> byte list" where
  "disk_image bs s u = (drop 32 bs)[508 := 0, 509 := 0] @ s @ u"

text \<open>What a host must be like for the build to depend on the files alone.\<close>

definition good_host :: "(string \<Rightarrow> host_file option) \<Rightarrow> string list \<Rightarrow> byte list \<Rightarrow> byte list \<Rightarrow> byte list
    \<Rightarrow> byte list \<Rightarrow> out_stream \<Rightarrow> bool" where
  "good_host fs argv bs s u buf out =
     (length argv = 4 \<and> holds_file fs (argv ! 1) bs \<and> holds_file fs (argv ! 2) s \<and> holds_file fs (argv ! 3) u
      \<and> 12 \<le> length s \<and> length s + length u + 15 < 2 ^ 32 \<and> length buf = 1024 \<and> seekable out
      \<and> written out = [] \<and> out_pos out = 0 \<and> 512 + length s + length u \<le> out_room out)"

lemma build_main_cases:
  assumes "good_host fs argv bs s u buf out"
  shows "if boot_file bs
         then \<exists>out'. build_main fs argv buf out = Inr out'
           \<and> written out' = patched (of_nat (length s)) (of_nat (length u)) (disk_image bs s u)
         else \<exists>e. build_main fs argv buf out = Inl e"
proof -
  note host = assms [unfolded good_host_def]
  have end0: "at_end out" using host by (simp add: at_end_def)
  note boot = copy_boot_sector_cases [of fs "argv ! 1" bs buf out]
  show ?thesis
  proof (cases "boot_file bs")
    case False
    with boot host end0 show ?thesis by (auto simp: build_main_def)
  next
    case True
    let ?b = "(drop 32 bs)[508 := 0, 509 := 0]"
    have len: "length ?b = 512" using True by (simp add: boot_file_def)
    obtain buf1 where 1: "copy_boot_sector fs (argv ! 1) buf out = Inr (buf1, extended ?b out)" "length buf1 = 1024"
      using boot host end0 True by auto
    obtain buf2 where 2: "copy_file fs (argv ! 2) buf1 (extended ?b out)
        = Inr (of_nat (length s), buf2, extended (?b @ s) out)" "length buf2 = 1024"
      using copy_file_copies [of fs "argv ! 2" s "extended ?b out" buf1] host end0 len 1(2) by auto
    obtain buf3 where 3: "copy_file fs (argv ! 3) buf2 (extended (?b @ s) out)
        = Inr (of_nat (length u), buf3, extended (disk_image bs s u) out)" "length buf3 = 1024"
      using copy_file_copies [of fs "argv ! 3" u "extended (?b @ s) out" buf2] host end0 len 2(2)
      by (auto simp: disk_image_def)
    have "length (disk_image bs s u) = 512 + length s + length u"
      using len by (simp add: disk_image_def)
    then have "write_sizes (of_nat (length s)) (of_nat (length u)) buf3 (extended (disk_image bs s u) out)
        = Inr ((extended (disk_image bs s u) out)\<lparr>written := patched (of_nat (length s)) (of_nat (length u)) (disk_image bs s u),
            out_pos := 524\<rparr>)"
      using write_sizes_patches [of "extended (disk_image bs s u) out" buf3] host 3(2) by simp
    then show ?thesis
      using host True 1 2 3 by (auto simp: build_main_def)
  qed
qed

lemma patched_nth:
  assumes "524 \<le> length xs" and "i < length xs"
  shows "patched s u xs ! i =
     (if 500 \<le> i \<and> i < 502 then paragraphs_field ((s + u + 15) div 16) ! (i - 500)
      else if 512 \<le> i \<and> i < 516 then length_field s ! (i - 512)
      else if 516 \<le> i \<and> i < 520 then length_field u ! (i - 516)
      else if 520 \<le> i \<and> i < 524 then length_field 0x7E6A ! (i - 520)
      else xs ! i)"
  unfolding patched_def using assms by (simp add: nth_patch)

lemma length_patched: "524 \<le> length xs \<Longrightarrow> length (patched s u xs) = length xs"
  by (simp add: patched_def)

lemma disk_image_facts:
  assumes "boot_file bs"
  shows "length (disk_image bs s u) = 512 + length s + length u"
    and "\<And>i. i < 512 \<Longrightarrow> disk_image bs s u ! i = (if i = 508 \<or> i = 509 then 0 else bs ! (32 + i))"
    and "\<And>i. disk_image bs s u ! (512 + i) = (s @ u) ! i"
  using assms by (auto simp: disk_image_def boot_file_def nth_append nth_list_update)

lemma lb_length:
  assumes "n < 2 ^ 32" and "\<And>i. i < 4 \<Longrightarrow> xs ! (4 * k + i) = length_field (of_nat n) ! i"
  shows "unat (lb xs k) = n mod 2 ^ 24"
proof -
  have "unat (lb xs k) = take_bit 24 (unat (of_nat n :: dword))"
    by (simp add: lb_length_field [OF assms(2)] flip: take_bit_eq_mask unsigned_take_bit_eq)
  then show ?thesis
    using assms(1) by (simp add: take_bit_eq_mod unat_of_nat mod_mod_cancel)
qed

lemma unat_low_byte: "unat (ucast (n AND mask 8) :: byte) = unat (n :: dword) mod 256"
  by (simp add: unsigned_ucast_eq unsigned_take_bit_eq take_bit_eq_mod unat_mod flip: take_bit_eq_mask)

lemma unat_second_byte: "unat (drop_bit 8 n :: dword) = unat n div 256"
  by (simp add: drop_bit_eq_div unat_div)

lemma built_image:
  assumes "good_host fs argv bs s u buf out" and "build_main fs argv buf out = Inr out'"
  shows "boot_file bs" and "written out' = patched (of_nat (length s)) (of_nat (length u)) (disk_image bs s u)"
    and "length (written out') = 512 + length s + length u"
    and "\<And>i. i < 500 \<Longrightarrow> written out' ! i = bs ! (32 + i)"
    and "\<And>i. 12 \<le> i \<Longrightarrow> i < length s \<Longrightarrow> written out' ! (512 + i) = s ! i"
    and "\<And>i. i < length u \<Longrightarrow> written out' ! (512 + length s + i) = u ! i"
    and "unat (lb (written out') 128) = length s mod 2 ^ 24"
    and "unat (lb (written out') 129) = length u mod 2 ^ 24"
proof -
  show bs: "boot_file bs" and
    out': "written out' = patched (of_nat (length s)) (of_nat (length u)) (disk_image bs s u)"
    using build_main_cases [OF assms(1)] assms(2) by (auto split: if_splits)
  have len: "12 \<le> length s" "length s + length u + 15 < 2 ^ 32"
    using assms(1) by (simp_all add: good_host_def)
  note im = disk_image_facts(1) [OF bs, of s u] disk_image_facts(2) [OF bs, of _ s u] disk_image_facts(3) [OF bs, of s u]
  have us: "disk_image bs s u ! (512 + length s + i) = u ! i" for i
    using im(3) [of "length s + i"] by (simp add: nth_append add.assoc)
  show "length (written out') = 512 + length s + length u"
    using im(1) len by (simp add: out' length_patched)
  show "written out' ! i = bs ! (32 + i)" if "i < 500" for i
    using im(1,2) len that by (simp add: out' patched_nth)
  show "written out' ! (512 + i) = s ! i" if "12 \<le> i" "i < length s" for i
    using im(1,3) len that by (simp add: out' patched_nth nth_append)
  show "written out' ! (512 + length s + i) = u ! i" if "i < length u" for i
    using us im(1) len that by (simp add: out' patched_nth)
  show "unat (lb (written out') 128) = length s mod 2 ^ 24"
    by (rule lb_length) (use out' im len in \<open>auto simp: patched_nth\<close>)
  show "unat (lb (written out') 129) = length u mod 2 ^ 24"
    by (rule lb_length) (use out' im len in \<open>auto simp: patched_nth\<close>)
qed

section \<open>A host with three files\<close>

definition plain_file :: "byte list \<Rightarrow> host_file" where
  "plain_file bs = \<lparr>file_bytes = bs, stat_size = Some (length bs), read_error = (\<lambda>p. False)\<rparr>"

definition empty_boot_file :: "byte list" where
  "empty_boot_file = [0x01, 0x03, 0x10, 0x04, 0x20, 0, 0, 0] @ replicate 24 0 @ replicate 510 0 @ [0x55, 0xaa]"

definition small_host :: "string \<Rightarrow> host_file option" where
  "small_host = [''bootsect'' \<mapsto> plain_file empty_boot_file, ''system'' \<mapsto> plain_file (replicate 1500 9),
     ''user'' \<mapsto> plain_file [5, 6, 7]]"

definition build_args :: "string list" where
  "build_args = [''build'', ''bootsect'', ''system'', ''user'']"

definition fresh_out :: out_stream where
  "fresh_out = \<lparr>written = [], out_pos = 0, out_room = 1474560, seekable = True\<rparr>"

lemma holds_plain_file: "fs name = Some (plain_file bs) \<Longrightarrow> holds_file fs name bs"
  by (simp add: holds_file_def plain_file_def)

lemma empty_boot_file_ok: "boot_file empty_boot_file"
  by (simp add: boot_file_def empty_boot_file_def minix_header_def lb_def nth_append take_Cons')

lemma small_host_good:
  "good_host small_host build_args empty_boot_file (replicate 1500 9) [5, 6, 7] (replicate 1024 0) fresh_out"
  by (simp add: good_host_def build_args_def fresh_out_def small_host_def holds_plain_file)

section \<open>Properties\<close>

text \<open> C32. The image that \<open>build\<close> writes from a boot sector, a kernel and a user program: its length is the
  sum of the three, the code of the boot sector stands at the start up to offset 500 and its boot flag at
  510, the kernel from offset 512 on (its first 12 bytes are where the lengths go), and the user program
  directly behind the kernel, which is where \<open>main\<close> of \<open>system.c\<close> copies it from.\<close>

theorem image_layout:
  assumes "good_host fs argv bs s u buf out" and "boot_file bs"
  shows "\<exists>out'. build_main fs argv buf out = Inr out'
    \<and> length (written out') = 512 + length s + length u
    \<and> (\<forall>i. i < 500 \<longrightarrow> written out' ! i = bs ! (32 + i))
    \<and> written out' ! 508 = 0 \<and> written out' ! 509 = 0 \<and> written out' ! 510 = 0x55 \<and> written out' ! 511 = 0xaa
    \<and> (\<forall>i. 12 \<le> i \<and> i < length s \<longrightarrow> written out' ! (512 + i) = s ! i)
    \<and> (\<forall>i. i < length u \<longrightarrow> written out' ! (512 + length s + i) = u ! i)"
proof -
  obtain out' where out': "build_main fs argv buf out = Inr out'"
    using build_main_cases [OF assms(1)] assms(2) by auto
  note b = built_image [OF assms(1) out']
  have "written out' ! i = disk_image bs s u ! i" if "508 \<le> i" "i < 512" for i
    using disk_image_facts(1) [OF assms(2), of s u] assms(1) that by (simp add: b(2) patched_nth good_host_def)
  then show ?thesis
    using out' b(3-6) disk_image_facts(2) [OF assms(2), of _ s u] assms(2) by (auto simp: boot_file_def)
qed

theorem image_layout_witness:
  "\<exists>out'. build_main small_host build_args (replicate 1024 0) fresh_out = Inr out'
    \<and> length (written out') = 2015 \<and> written out' ! 2013 = 6"
proof -
  obtain out' where "build_main small_host build_args (replicate 1024 0) fresh_out = Inr out'"
      "length (written out') = 2015" "\<forall>i. i < 3 \<longrightarrow> written out' ! (2012 + i) = [5, 6, 7] ! i"
    using image_layout [OF small_host_good empty_boot_file_ok] by auto
  then show ?thesis by (intro exI [of _ out']) (use \<open>\<forall>i. _ i\<close> in \<open>auto dest: spec [of _ 1]\<close>)
qed

lemma built_paragraphs:
  assumes "good_host fs argv bs s u buf out" and "build_main fs argv buf out = Inr out'"
  shows "unat (written out' ! 500) + 256 * unat (written out' ! 501) = (length s + length u + 15) div 16 mod 2 ^ 16"
proof -
  note b = built_image [OF assms]
  have len: "12 \<le> length s" "length s + length u + 15 < 2 ^ 32"
    using assms(1) by (simp_all add: good_host_def)
  define n where "n = (of_nat (length s) + of_nat (length u) + 15 :: dword) div 16"
  have "of_nat (length s) + of_nat (length u) + 15 = (of_nat (length s + length u + 15) :: dword)" by simp
  then have "unat n = (length s + length u + 15) div 16"
    using len(2) by (simp add: n_def unat_div unat_of_nat take_bit_nat_eq_self del: of_nat_add of_nat_numeral)
  moreover have "unat (written out' ! 500) = unat n mod 256" "unat (written out' ! 501) = unat n div 256 mod 256"
    using b(2) disk_image_facts(1) [OF b(1), of s u] len
    by (simp_all add: patched_nth paragraphs_field_def n_def [symmetric] mask8 unat_low_byte unat_second_byte)
  ultimately show ?thesis
    using mod_mult2_eq [of "(length s + length u + 15) div 16" 256 256] by simp
qed

text \<open> C33. The lengths in the image. Behind the boot sector stand the length of the kernel and that of the user
  program, cut to 24 bits, although the fields have 32; offset 500 has the number of paragraphs of the two,
  cut to 16 bits. So the image describes itself exactly when each part is shorter than 16 MB and both
  together fill less than 65536 paragraphs (1 MB); the tool checks neither.\<close>

theorem image_lengths:
  assumes "good_host fs argv bs s u buf out" and "build_main fs argv buf out = Inr out'"
  shows "unat (lb (written out') 128) = length s mod 2 ^ 24
    \<and> unat (lb (written out') 129) = length u mod 2 ^ 24
    \<and> unat (written out' ! 500) + 256 * unat (written out' ! 501) = (length s + length u + 15) div 16 mod 2 ^ 16"
  using built_image(7,8) [OF assms] built_paragraphs [OF assms] by simp

theorem image_lengths_witness:
  "\<exists>out'. build_main small_host build_args (replicate 1024 0) fresh_out = Inr out'
    \<and> unat (lb (written out') 128) = 1500 \<and> unat (lb (written out') 129) = 3"
proof -
  obtain out' where "build_main small_host build_args (replicate 1024 0) fresh_out = Inr out'"
    using build_main_cases [OF small_host_good] empty_boot_file_ok by auto
  then show ?thesis
    using image_lengths [OF small_host_good] by auto
qed

text \<open> Which boot sectors the tool takes: on a host that works it writes an image exactly when the first file
  has the Minix header of \<open>ld86\<close> without data, bss and symbols, 512 bytes behind it, and the boot flag.\<close>

theorem image_needs_boot_sector:
  assumes "good_host fs argv bs s u buf out"
  shows "(\<exists>out'. build_main fs argv buf out = Inr out') \<longleftrightarrow> boot_file bs"
  using build_main_cases [OF assms] by (auto split: if_splits)

theorem image_needs_boot_sector_witness:
  "(\<exists>out'. build_main small_host build_args (replicate 1024 0) fresh_out = Inr out')
    \<longleftrightarrow> boot_file empty_boot_file"
  by (rule image_needs_boot_sector [OF small_host_good])

end
