(* ===== verification/Queue_Interface.thy ===== *)
theory Queue_Interface
  imports Prelude
begin

text \<open>
  The contract between \<open>list.c\<close> and its clients. A client owns several rings at once
  (the ready queue, the blocked queues, the children lists of every process) and moves
  entries between them; \<open>fam rep h F\<close> says that the heap \<open>h\<close> holds exactly the rings of the
  finite or infinite map \<open>F\<close> from anchors to contents, no two of them sharing a node. The
  locale derives what one call does to the whole family, so that a client reasons about
  the map \<open>F\<close> and never about pointers.
\<close>

definition fam ::
  "('h \<Rightarrow> 'n \<Rightarrow> 'n list \<Rightarrow> bool) \<Rightarrow> 'h \<Rightarrow> ('n \<Rightarrow> 'n list option) \<Rightarrow> bool" where
  "fam rep h F \<longleftrightarrow>
     (\<forall>q xs. F q = Some xs \<longrightarrow> rep h q xs) \<and>
     (\<forall>q xs q' ys. F q = Some xs \<longrightarrow> F q' = Some ys \<longrightarrow> q \<noteq> q' \<longrightarrow>
        set (q # xs) \<inter> set (q' # ys) = {})"

text \<open>A node that is neither an anchor nor an entry of the family.\<close>

definition fresh :: "('n \<Rightarrow> 'n list option) \<Rightarrow> 'n \<Rightarrow> bool" where
  "fresh F n \<longleftrightarrow> (\<forall>q xs. F q = Some xs \<longrightarrow> n \<notin> set (q # xs))"

lemma freshD: "fresh F n \<Longrightarrow> F q = Some xs \<Longrightarrow> n \<notin> set (q # xs)"
  unfolding fresh_def by blast

lemma fresh_upd: "fresh F n \<Longrightarrow> n \<notin> set (q # xs) \<Longrightarrow> fresh (F(q \<mapsto> xs)) n"
  unfolding fresh_def by auto

lemma famI:
  assumes "\<And>q xs. F q = Some xs \<Longrightarrow> rep h q xs"
    and "\<And>q xs q' ys. F q = Some xs \<Longrightarrow> F q' = Some ys \<Longrightarrow> q \<noteq> q' \<Longrightarrow>
           set (q # xs) \<inter> set (q' # ys) = {}"
  shows "fam rep h F"
  using assms unfolding fam_def by blast

lemma fam_rep: "fam rep h F \<Longrightarrow> F q = Some xs \<Longrightarrow> rep h q xs"
  by (simp add: fam_def)

lemma fam_disjoint:
  "fam rep h F \<Longrightarrow> F q = Some xs \<Longrightarrow> F q' = Some ys \<Longrightarrow> q \<noteq> q' \<Longrightarrow>
     set (q # xs) \<inter> set (q' # ys) = {}"
  unfolding fam_def by blast

lemma fam_upd:
  assumes F: "fam rep h F"
    and new: "rep h' q xs"
    and others: "\<And>q' ys. F q' = Some ys \<Longrightarrow> q' \<noteq> q \<Longrightarrow> rep h' q' ys"
    and disj: "\<And>q' ys. F q' = Some ys \<Longrightarrow> q' \<noteq> q \<Longrightarrow> set (q # xs) \<inter> set (q' # ys) = {}"
  shows "fam rep h' (F(q \<mapsto> xs))"
proof (rule famI)
  fix a as assume "(F(q \<mapsto> xs)) a = Some as"
  then show "rep h' a as" using new others by (auto split: if_splits)
next
  fix a as b bs
  assume a: "(F(q \<mapsto> xs)) a = Some as" and b: "(F(q \<mapsto> xs)) b = Some bs" and ab: "a \<noteq> b"
  consider "a = q" | "b = q" | "a \<noteq> q" "b \<noteq> q" by blast
  then show "set (a # as) \<inter> set (b # bs) = {}"
  proof cases
    case 1
    then show ?thesis using a b ab disj [of b bs] by auto
  next
    case 2
    then show ?thesis using a b ab disj [of a as] by auto
  next
    case 3
    then show ?thesis using a b ab fam_disjoint [OF F] by auto
  qed
qed

locale node_queues =
  fixes rep :: "'h \<Rightarrow> 'n \<Rightarrow> 'n list \<Rightarrow> bool"
    and det :: "'h \<Rightarrow> 'n \<Rightarrow> bool"
    and add_tail :: "'n \<Rightarrow> 'n \<Rightarrow> 'h \<Rightarrow> 'h option"
    and del :: "'n \<Rightarrow> 'h \<Rightarrow> 'h option"
    and is_empty :: "'n \<Rightarrow> 'h \<Rightarrow> bool"
    and first :: "'n \<Rightarrow> 'h \<Rightarrow> 'n option"
  assumes rep_distinct: "rep h q xs \<Longrightarrow> distinct (q # xs)"
    and rep_not_det: "rep h q xs \<Longrightarrow> x \<in> set (q # xs) \<Longrightarrow> \<not> det h x"
    and add_tail_ok: "rep h q xs \<Longrightarrow> n \<notin> set (q # xs) \<Longrightarrow>
          \<exists>h'. add_tail n q h = Some h' \<and> rep h' q (xs @ [n])"
    and add_tail_rep: "rep h q xs \<Longrightarrow> n \<notin> set (q # xs) \<Longrightarrow> add_tail n q h = Some h' \<Longrightarrow>
          set (q' # ys) \<inter> insert n (set (q # xs)) = {} \<Longrightarrow> rep h' q' ys = rep h q' ys"
    and add_tail_det: "rep h q xs \<Longrightarrow> n \<notin> set (q # xs) \<Longrightarrow> add_tail n q h = Some h' \<Longrightarrow>
          a \<notin> insert n (set (q # xs)) \<Longrightarrow> det h' a = det h a"
    and del_ok: "rep h q (as @ n # bs) \<Longrightarrow>
          \<exists>h'. del n h = Some h' \<and> rep h' q (as @ bs) \<and> det h' n"
    and del_rep: "rep h q (as @ n # bs) \<Longrightarrow> del n h = Some h' \<Longrightarrow>
          set (q' # ys) \<inter> set (q # as @ n # bs) = {} \<Longrightarrow> rep h' q' ys = rep h q' ys"
    and del_det: "rep h q (as @ n # bs) \<Longrightarrow> del n h = Some h' \<Longrightarrow>
          a \<notin> set (q # as @ n # bs) \<Longrightarrow> det h' a = det h a"
    and is_empty_iff: "rep h q xs \<Longrightarrow> is_empty q h \<longleftrightarrow> xs = []"
    and first_ok: "rep h q (x # xs) \<Longrightarrow> first q h = Some x"
begin

lemma fam_add_tail:
  assumes F: "fam rep h F" and q: "F q = Some xs" and n: "fresh F n"
  obtains h' where "add_tail n q h = Some h'" and "fam rep h' (F(q \<mapsto> xs @ [n]))"
    and "\<And>a. fresh F a \<Longrightarrow> a \<noteq> n \<Longrightarrow> det h' a = det h a"
proof -
  have r: "rep h q xs" and nq: "n \<notin> set (q # xs)"
    using F q n by (auto simp: fam_def fresh_def)
  then obtain h' where h': "add_tail n q h = Some h'" "rep h' q (xs @ [n])"
    using add_tail_ok by blast
  have away: "set (q' # ys) \<inter> insert n (set (q # xs)) = {}" if "F q' = Some ys" "q' \<noteq> q" for q' ys
    using fam_disjoint [OF F that(1) q that(2)] n that(1) by (auto simp: fresh_def)
  have "fam rep h' (F(q \<mapsto> xs @ [n]))"
  proof (rule fam_upd [OF F h'(2)])
    fix q' ys assume q': "F q' = Some ys" "q' \<noteq> q"
    then show "rep h' q' ys"
      using add_tail_rep [OF r nq h'(1) away] fam_rep [OF F] by blast
    show "set (q # xs @ [n]) \<inter> set (q' # ys) = {}" using away [OF q'] by auto
  qed
  moreover have "det h' a = det h a" if "fresh F a" "a \<noteq> n" for a
    using add_tail_det [OF r nq h'(1)] that q by (auto simp: fresh_def)
  ultimately show ?thesis using that h'(1) by blast
qed

lemma fam_del:
  assumes F: "fam rep h F" and q: "F q = Some (as @ n # bs)"
  obtains h' where "del n h = Some h'" and "fam rep h' (F(q \<mapsto> as @ bs))" and "det h' n"
    and "fresh (F(q \<mapsto> as @ bs)) n"
    and "\<And>a. fresh F a \<Longrightarrow> det h' a = det h a"
proof -
  have r: "rep h q (as @ n # bs)" using F q by (rule fam_rep)
  then obtain h' where h': "del n h = Some h'" "rep h' q (as @ bs)" "det h' n"
    using del_ok by blast
  have away: "set (q' # ys) \<inter> set (q # as @ n # bs) = {}" if "F q' = Some ys" "q' \<noteq> q" for q' ys
    using fam_disjoint [OF F that(1) q that(2)] .
  have "fam rep h' (F(q \<mapsto> as @ bs))"
  proof (rule fam_upd [OF F h'(2)])
    fix q' ys assume q': "F q' = Some ys" "q' \<noteq> q"
    then show "rep h' q' ys"
      using del_rep [OF r h'(1) away] fam_rep [OF F] by blast
    show "set (q # as @ bs) \<inter> set (q' # ys) = {}" using away [OF q'] by auto
  qed
  moreover have "fresh (F(q \<mapsto> as @ bs)) n"
    unfolding fresh_def
  proof (intro allI impI)
    fix p zs assume p: "(F(q \<mapsto> as @ bs)) p = Some zs"
    show "n \<notin> set (p # zs)"
    proof (cases "p = q")
      case True
      then show ?thesis using p rep_distinct [OF r] by auto
    next
      case False
      then show ?thesis using p away [of p zs] by auto
    qed
  qed
  moreover have "det h' a = det h a" if "fresh F a" for a
    by (rule del_det [OF r h'(1) freshD [OF that q]])
  ultimately show ?thesis using that h' by blast
qed

lemma fam_not_det: "fam rep h F \<Longrightarrow> F q = Some xs \<Longrightarrow> x \<in> set (q # xs) \<Longrightarrow> \<not> det h x"
  by (rule rep_not_det, erule (1) fam_rep)

lemma fam_empty: "fam rep h F \<Longrightarrow> F q = Some xs \<Longrightarrow> is_empty q h \<longleftrightarrow> xs = []"
  by (rule is_empty_iff, erule (1) fam_rep)

lemma fam_first: "fam rep h F \<Longrightarrow> F q = Some (x # xs) \<Longrightarrow> first q h = Some x"
  by (rule first_ok, erule (1) fam_rep)

text \<open>Moving one entry from a ring to the tail of another.\<close>

lemma fam_move:
  assumes F: "fam rep h F" and q: "F q = Some (as @ n # bs)" and q': "F q' = Some ys"
    and qq: "q \<noteq> q'"
  obtains h1 h2 where "del n h = Some h1" and "add_tail n q' h1 = Some h2"
    and "fam rep h2 (F(q \<mapsto> as @ bs, q' \<mapsto> ys @ [n]))"
    and "\<And>a. fresh F a \<Longrightarrow> det h2 a = det h a" and "det h1 n"
proof -
  obtain h1 where h1: "del n h = Some h1" "fam rep h1 (F(q \<mapsto> as @ bs))" "det h1 n"
      "fresh (F(q \<mapsto> as @ bs)) n" "\<And>a. fresh F a \<Longrightarrow> det h1 a = det h a"
    using fam_del [OF F q] by metis
  have "(F(q \<mapsto> as @ bs)) q' = Some ys" using q' qq by simp
  then obtain h2 where h2: "add_tail n q' h1 = Some h2"
      "fam rep h2 (F(q \<mapsto> as @ bs, q' \<mapsto> ys @ [n]))"
      "\<And>a. fresh (F(q \<mapsto> as @ bs)) a \<Longrightarrow> a \<noteq> n \<Longrightarrow> det h2 a = det h1 a"
    using fam_add_tail [OF h1(2) _ h1(4)] by metis
  have "det h2 a = det h a" if a: "fresh F a" for a
  proof -
    have "fresh (F(q \<mapsto> as @ bs)) a" and "a \<noteq> n"
      using freshD [OF a q] by (auto intro!: fresh_upd [OF a])
    then show ?thesis using h1(5) h2(3) a by simp
  qed
  then show ?thesis using that h1(1,3) h2(1,2) by blast
qed

text \<open>
  A whole batch of entries enqueued one after the other comes out in the same order:
  the ring is a first-in first-out queue.
\<close>

lemma fifo_enqueue:
  assumes "rep h q xs" and "distinct ns" and "set ns \<inter> set (q # xs) = {}"
  shows "\<exists>h'. fold (\<lambda>n r. Option.bind r (add_tail n q)) ns (Some h) = Some h'
           \<and> rep h' q (xs @ ns)"
  using assms
proof (induction ns arbitrary: h xs)
  case Nil
  then show ?case by simp
next
  case (Cons n ns)
  then obtain h1 where "add_tail n q h = Some h1" "rep h1 q (xs @ [n])"
    using add_tail_ok [of h q xs n] by auto
  then show ?case using Cons.IH [of h1 "xs @ [n]"] Cons.prems by auto
qed

end

end
