(* ===== verification/Lists.thy ===== *)
theory Lists
  imports Queue_Interface
begin

text \<open>
  The intrusive doubly linked rings of \<open>list.c\<close> and \<open>include/list.h\<close>. The heap maps the
  address of each \<open>struct list_head\<close> to its two pointers; \<open>ring h q xs\<close> says that the
  anchor \<open>q\<close> and the entries \<open>xs\<close>, in this order, form one well-linked ring. Every
  primitive is total over such rings and acts on \<open>xs\<close> as its comment promises. The
  locale \<open>node_queues\<close> states that contract for the clients (scheduler, system calls,
  keyboard), which use it through its interpretation at the end of the file.
\<close>

section \<open>The heap of list nodes\<close>

record 'a list_heap =
  nxt :: "'a \<Rightarrow> 'a option"
  prv :: "'a \<Rightarrow> 'a option"

text \<open>Stores \<open>p->next = v\<close> and \<open>p->prev = v\<close>; a store through \<open>NULL\<close> faults.\<close>

definition set_nxt :: "'a option \<Rightarrow> 'a option \<Rightarrow> 'a list_heap \<Rightarrow> 'a list_heap option" where
  "set_nxt p v h = (case p of None \<Rightarrow> None | Some a \<Rightarrow> Some (h\<lparr>nxt := (nxt h)(a := v)\<rparr>))"

definition set_prv :: "'a option \<Rightarrow> 'a option \<Rightarrow> 'a list_heap \<Rightarrow> 'a list_heap option" where
  "set_prv p v h = (case p of None \<Rightarrow> None | Some a \<Rightarrow> Some (h\<lparr>prv := (prv h)(a := v)\<rparr>))"

lemma set_nxt_Some [simp]: "set_nxt (Some a) v h = Some (h\<lparr>nxt := (nxt h)(a := v)\<rparr>)"
  by (simp add: set_nxt_def)

lemma set_prv_Some [simp]: "set_prv (Some a) v h = Some (h\<lparr>prv := (prv h)(a := v)\<rparr>)"
  by (simp add: set_prv_def)

lemma set_None [simp]: "set_nxt None v h = None" "set_prv None v h = None"
  by (simp_all add: set_nxt_def set_prv_def)

section \<open>The primitives of list.c\<close>

definition INIT_LIST_HEAD :: "'a \<Rightarrow> 'a list_heap \<Rightarrow> 'a list_heap" where
  "INIT_LIST_HEAD l h = h\<lparr>nxt := (nxt h)(l := Some l), prv := (prv h)(l := Some l)\<rparr>"

text \<open>\<open>__list_add\<close>\<close>

definition list_add_raw ::
  "'a \<Rightarrow> 'a option \<Rightarrow> 'a option \<Rightarrow> 'a list_heap \<Rightarrow> 'a list_heap option" where
  "list_add_raw new prev next h = do {
     h \<leftarrow> set_prv next (Some new) h;
     h \<leftarrow> set_nxt (Some new) next h;
     h \<leftarrow> set_prv (Some new) prev h;
     set_nxt prev (Some new) h }"

definition list_add :: "'a \<Rightarrow> 'a \<Rightarrow> 'a list_heap \<Rightarrow> 'a list_heap option" where
  "list_add new head h = list_add_raw new (Some head) (nxt h head) h"

definition list_add_tail :: "'a \<Rightarrow> 'a \<Rightarrow> 'a list_heap \<Rightarrow> 'a list_heap option" where
  "list_add_tail new head h = list_add_raw new (prv h head) (Some head) h"

text \<open>\<open>__list_del\<close>\<close>

definition list_del_raw ::
  "'a option \<Rightarrow> 'a option \<Rightarrow> 'a list_heap \<Rightarrow> 'a list_heap option" where
  "list_del_raw prev next h = do {
     h \<leftarrow> set_prv next prev h;
     set_nxt prev next h }"

definition list_del :: "'a \<Rightarrow> 'a list_heap \<Rightarrow> 'a list_heap option" where
  "list_del entry h = do {
     h \<leftarrow> list_del_raw (prv h entry) (nxt h entry) h;
     h \<leftarrow> set_nxt (Some entry) None h;
     set_prv (Some entry) None h }"

definition list_is_last :: "'a \<Rightarrow> 'a \<Rightarrow> 'a list_heap \<Rightarrow> bool" where
  "list_is_last l head h = (nxt h l = Some head)"

definition list_empty :: "'a \<Rightarrow> 'a list_heap \<Rightarrow> bool" where
  "list_empty head h = (nxt h head = Some head)"

definition list_first :: "'a \<Rightarrow> 'a list_heap \<Rightarrow> 'a option" where
  "list_first head h = nxt h head"

text \<open>
  The loop \<open>list_for_each (pos, head)\<close> with a body that leaves the loop at the first
  \<open>pos\<close> satisfying \<open>p\<close>: \<open>Some (Some pos)\<close> where it left, \<open>Some None\<close> when it ran to
  the end, \<open>None\<close> when it follows a \<open>NULL\<close> link or never returns to the anchor.
\<close>

partial_function (option) list_search ::
  "('a \<Rightarrow> bool) \<Rightarrow> 'a \<Rightarrow> 'a option \<Rightarrow> 'a list_heap \<Rightarrow> 'a option option" where
  "list_search p head pos h =
     (case pos of
        None \<Rightarrow> None
      | Some a \<Rightarrow>
          (if a = head then Some None
           else if p a then Some (Some a)
           else list_search p head (nxt h a) h))"

definition list_for_each :: "('a \<Rightarrow> bool) \<Rightarrow> 'a \<Rightarrow> 'a list_heap \<Rightarrow> 'a option option" where
  "list_for_each p head h = list_search p head (nxt h head) h"

section \<open>Well-linked rings\<close>

fun linked :: "'a list_heap \<Rightarrow> 'a list \<Rightarrow> bool" where
  "linked h (a # b # r) = (nxt h a = Some b \<and> prv h b = Some a \<and> linked h (b # r))"
| "linked h _ = True"

definition ring :: "'a list_heap \<Rightarrow> 'a \<Rightarrow> 'a list \<Rightarrow> bool" where
  "ring h q xs \<longleftrightarrow> distinct (q # xs) \<and> linked h (q # xs @ [q])"

text \<open>The state \<open>list_del\<close> leaves an entry in, tested by \<open>update_process_state_rr\<close>.\<close>

definition detached :: "'a list_heap \<Rightarrow> 'a \<Rightarrow> bool" where
  "detached h a \<longleftrightarrow> prv h a = None \<and> nxt h a = None"

lemma linked_split: "linked h (xs @ a # ys) \<longleftrightarrow> linked h (xs @ [a]) \<and> linked h (a # ys)"
proof (induction xs)
  case Nil
  then show ?case by simp
next
  case (Cons x xs)
  then show ?case by (cases xs) auto
qed

lemma linked_snoc2: "linked h (xs @ [a, b]) \<longleftrightarrow>
    linked h (xs @ [a]) \<and> nxt h a = Some b \<and> prv h b = Some a"
  using linked_split [of h xs a "[b]"] by simp

lemma linked_snoc: "linked h (xs @ [a] @ [b]) \<longleftrightarrow>
    linked h (xs @ [a]) \<and> nxt h a = Some b \<and> prv h b = Some a"
  using linked_snoc2 [of h xs a b] by simp

lemma linked_cong:
  assumes "\<And>a. a \<in> set (butlast p) \<Longrightarrow> nxt h' a = nxt h a"
    and "\<And>a. a \<in> set (tl p) \<Longrightarrow> prv h' a = prv h a"
  shows "linked h' p = linked h p"
  using assms by (induction h p rule: linked.induct) auto

lemma ring_distinct: "ring h q xs \<Longrightarrow> distinct (q # xs)"
  by (simp add: ring_def)

lemma ring_cong:
  assumes "\<And>a. a \<in> set (q # xs) \<Longrightarrow> nxt h' a = nxt h a \<and> prv h' a = prv h a"
  shows "ring h' q xs = ring h q xs"
proof -
  have "linked h' (q # xs @ [q]) = linked h (q # xs @ [q])"
    by (rule linked_cong) (use assms in \<open>auto simp: butlast_append\<close>)
  then show ?thesis by (simp add: ring_def)
qed

lemma ring_last_link:
  assumes "ring h q xs"
  shows "prv h q = Some (last (q # xs))" and "nxt h (last (q # xs)) = Some q"
proof -
  obtain ys l where yl: "q # xs = ys @ [l]" by (cases "q # xs" rule: rev_cases) auto
  then have "linked h (ys @ [l, q])" using assms
    unfolding ring_def append_Cons [symmetric] by simp
  then show "prv h q = Some (last (q # xs))" "nxt h (last (q # xs)) = Some q"
    unfolding yl by (simp_all add: linked_snoc2)
qed

lemma ring_first_link:
  assumes "ring h q xs"
  shows "nxt h q = Some (hd (xs @ [q]))"
  using assms by (cases xs) (auto simp: ring_def)

lemma ring_not_null:
  assumes "ring h q xs" and "x \<in> set (q # xs)"
  shows "nxt h x \<noteq> None" and "prv h x \<noteq> None"
proof -
  from assms(2) consider "x = q" | as bs where "xs = as @ x # bs"
    by (auto dest: split_list)
  then have "nxt h x \<noteq> None \<and> prv h x \<noteq> None"
  proof cases
    case 1
    then show ?thesis using ring_first_link ring_last_link assms(1) by fastforce
  next
    case 2
    then have "linked h ((q # as) @ [x])" "linked h (x # bs @ [q])"
      using assms(1) linked_split [of h "q # as" x "bs @ [q]"] by (auto simp: ring_def)
    moreover have "prv h x \<noteq> None" if "linked h ((q # as) @ [x])"
      using that by (cases "q # as" rule: rev_cases) (auto simp: linked_snoc simp del: append_Cons)
    moreover have "nxt h x \<noteq> None" if "linked h (x # bs @ [q])"
      using that by (cases bs) auto
    ultimately show ?thesis by blast
  qed
  then show "nxt h x \<noteq> None" and "prv h x \<noteq> None" by blast+
qed

section \<open>The primitives on well-linked rings\<close>

lemma list_add_raw_Some [ring_simps]:
  "list_add_raw n (Some p) (Some x) h =
     Some (h\<lparr>nxt := (nxt h)(n := Some x, p := Some n), prv := (prv h)(x := Some n, n := Some p)\<rparr>)"
  by (simp add: list_add_raw_def)

lemma list_del_Some [ring_simps]:
  assumes "prv h e = Some p" and "nxt h e = Some x"
  shows "list_del e h =
     Some (h\<lparr>nxt := (nxt h)(p := Some x, e := None), prv := (prv h)(x := Some p, e := None)\<rparr>)"
  using assms by (simp add: list_del_def list_del_raw_def)

text \<open>One insertion and one removal lemma, at any position of the ring.\<close>

lemma ring_insert:
  assumes r: "ring h q (as @ bs)" and n: "n \<notin> set (q # as @ bs)"
  shows "ring (h\<lparr>nxt := (nxt h)(n := Some (hd (bs @ [q])), last (q # as) := Some n),
                prv := (prv h)(hd (bs @ [q]) := Some n, n := Some (last (q # as)))\<rparr>) q (as @ n # bs)"
    (is "ring ?h' _ _")
proof -
  obtain ys l where yl: "q # as = ys @ [l]" by (cases "q # as" rule: rev_cases) auto
  obtain f zs where fz: "bs @ [q] = f # zs" by (cases "bs @ [q]") auto
  have dist: "distinct (q # as @ bs)" and "linked h ((q # as) @ (bs @ [q]))"
    using r by (simp_all add: ring_def)
  then have "linked h (ys @ l # f # zs)" by (simp only: yl fz append_assoc append_Cons append_Nil)
  then have L: "linked h (ys @ [l])" and R: "linked h (f # zs)"
    using linked_split [of h ys l "f # zs"] by auto
  have lf: "last (q # as) = l" "hd (bs @ [q]) = f" by (simp_all only: yl fz last_snoc list.sel)
  have sets: "set (ys @ [l]) = set (q # as)" "set (f # zs) = insert q (set bs)"
    "tl (ys @ [l]) = as" "butlast (f # zs) = bs"
    by (simp_all flip: yl fz add: butlast_append)
  have l: "l \<in> set (q # as)" and f: "f \<in> insert q (set bs)"
    unfolding sets(1,2) [symmetric] by simp_all
  have "distinct (ys @ [l])" using dist by (simp flip: yl)
  then have lb: "l \<notin> set (butlast (ys @ [l]))" by simp
  have nn: "n \<notin> set (ys @ [l])" "n \<notin> set (f # zs)" "f \<notin> set as" "l \<notin> set bs"
    using n l f dist unfolding sets by auto
  have "linked ?h' (ys @ [l])"
  proof (rule linked_cong [THEN iffD2, OF _ _ L])
    fix a assume "a \<in> set (butlast (ys @ [l]))"
    then show "nxt ?h' a = nxt h a" using nn(1) lb unfolding lf by auto
  next
    fix a assume "a \<in> set (tl (ys @ [l]))"
    then have "a \<in> set as" "a \<noteq> n" using n unfolding sets by auto
    then show "prv ?h' a = prv h a" using nn(3) unfolding lf by auto
  qed
  moreover have "linked ?h' (f # zs)"
  proof (rule linked_cong [THEN iffD2, OF _ _ R])
    fix a assume "a \<in> set (butlast (f # zs))"
    then have "a \<in> set bs" "a \<noteq> n" using n unfolding sets by auto
    then show "nxt ?h' a = nxt h a" using nn(4) unfolding lf by auto
  next
    fix a assume "a \<in> set (tl (f # zs))"
    moreover have "distinct (f # zs)" using dist unfolding fz [symmetric] by simp
    ultimately have "a \<noteq> f" "a \<noteq> n" using nn(2) by auto
    then show "prv ?h' a = prv h a" unfolding lf by auto
  qed
  ultimately have "linked ?h' (ys @ l # n # f # zs)"
    unfolding lf linked_split [of _ ys l "n # f # zs"] using nn by auto
  then have "linked ?h' ((q # as) @ n # (bs @ [q]))"
    unfolding yl fz by simp
  then show ?thesis using n dist by (auto simp: ring_def)
qed

lemma ring_neighbours:
  assumes "ring h q (as @ e # bs)"
  shows "prv h e = Some (last (q # as))" and "nxt h e = Some (hd (bs @ [q]))"
    and "linked h (q # as)" and "linked h (bs @ [q])"
proof -
  obtain ys l where yl: "q # as = ys @ [l]" by (cases "q # as" rule: rev_cases) auto
  obtain f zs where fz: "bs @ [q] = f # zs" by (cases "bs @ [q]") auto
  have "linked h ((q # as) @ e # (bs @ [q]))"
    using assms by (simp add: ring_def)
  then have "linked h (ys @ [l, e])" "linked h (e # f # zs)"
    unfolding yl fz using linked_split [of h "ys @ [l]" e "f # zs"] by auto
  then show "prv h e = Some (last (q # as))" "nxt h e = Some (hd (bs @ [q]))"
      "linked h (q # as)" "linked h (bs @ [q])"
    unfolding yl fz by (simp_all add: linked_snoc2)
qed

lemma ring_remove:
  assumes r: "ring h q (as @ e # bs)"
  shows "ring (h\<lparr>nxt := (nxt h)(last (q # as) := Some (hd (bs @ [q])), e := None),
                prv := (prv h)(hd (bs @ [q]) := Some (last (q # as)), e := None)\<rparr>) q (as @ bs)"
    (is "ring ?h' _ _")
proof -
  obtain ys l where yl: "q # as = ys @ [l]" by (cases "q # as" rule: rev_cases) auto
  obtain f zs where fz: "bs @ [q] = f # zs" by (cases "bs @ [q]") auto
  have dist: "distinct (q # as @ e # bs)" using r by (rule ring_distinct)
  have L: "linked h (ys @ [l])" and R: "linked h (f # zs)"
    using ring_neighbours(3,4) [OF r] by (simp_all only: yl fz)
  have lf: "last (q # as) = l" "hd (bs @ [q]) = f" by (simp_all only: yl fz last_snoc list.sel)
  have sets: "set (ys @ [l]) = set (q # as)" "set (f # zs) = insert q (set bs)"
    "tl (ys @ [l]) = as" "butlast (f # zs) = bs"
    by (simp_all flip: yl fz add: butlast_append)
  have l: "l \<in> set (q # as)" and f: "f \<in> insert q (set bs)"
    unfolding sets(1,2) [symmetric] by simp_all
  have lb: "l \<notin> set (butlast (ys @ [l]))" "distinct (f # zs)"
    using arg_cong [OF yl, of distinct] arg_cong [OF fz, of distinct] dist by auto
  have nn: "e \<notin> set (ys @ [l])" "e \<notin> set (f # zs)" "f \<notin> set as" "l \<notin> set bs"
    using l f dist unfolding sets by auto
  have "linked ?h' (ys @ [l])"
  proof (rule linked_cong [THEN iffD2, OF _ _ L])
    fix a assume "a \<in> set (butlast (ys @ [l]))"
    then show "nxt ?h' a = nxt h a" using nn(1) lb(1) unfolding lf by auto
  next
    fix a assume "a \<in> set (tl (ys @ [l]))"
    then have "a \<in> set as" "a \<noteq> e" using dist unfolding sets by auto
    then show "prv ?h' a = prv h a" using nn(3) unfolding lf by auto
  qed
  moreover have "linked ?h' (f # zs)"
  proof (rule linked_cong [THEN iffD2, OF _ _ R])
    fix a assume "a \<in> set (butlast (f # zs))"
    then have "a \<in> set bs" "a \<noteq> e" using dist unfolding sets by auto
    then show "nxt ?h' a = nxt h a" using nn(4) unfolding lf by auto
  next
    fix a assume "a \<in> set (tl (f # zs))"
    then have "a \<noteq> f" "a \<noteq> e" using nn(2) lb(2) by auto
    then show "prv ?h' a = prv h a" unfolding lf by auto
  qed
  ultimately have "linked ?h' (ys @ l # f # zs)"
    unfolding lf linked_split [of _ ys l "f # zs"] using nn by auto
  then have "linked ?h' ((q # as) @ (bs @ [q]))"
    unfolding yl fz by simp
  then show ?thesis using dist by (auto simp: ring_def)
qed

text \<open>\<open>same_outside S h h'\<close>: the two heaps agree on every node outside \<open>S\<close>.\<close>

definition same_outside :: "'a set \<Rightarrow> 'a list_heap \<Rightarrow> 'a list_heap \<Rightarrow> bool" where
  "same_outside S h h' \<longleftrightarrow> (\<forall>a. a \<notin> S \<longrightarrow> nxt h' a = nxt h a \<and> prv h' a = prv h a)"

lemma ring_same_outside:
  "same_outside S h h' \<Longrightarrow> set (q # xs) \<inter> S = {} \<Longrightarrow> ring h' q xs = ring h q xs"
  by (rule ring_cong) (auto simp: same_outside_def)

lemma detached_same_outside:
  "same_outside S h h' \<Longrightarrow> a \<notin> S \<Longrightarrow> detached h' a = detached h a"
  by (auto simp: same_outside_def detached_def)

lemma INIT_LIST_HEAD_ring: "ring (INIT_LIST_HEAD q h) q []"
  by (simp add: INIT_LIST_HEAD_def ring_def)

lemma INIT_LIST_HEAD_same: "same_outside {q} h (INIT_LIST_HEAD q h)"
  by (simp add: INIT_LIST_HEAD_def same_outside_def)

lemma list_add_tail_ring:
  assumes r: "ring h q xs" and n: "n \<notin> set (q # xs)"
  obtains h' where "list_add_tail n q h = Some h'" and "ring h' q (xs @ [n])"
    and "same_outside (insert n (set (q # xs))) h h'"
proof -
  let ?h' = "h\<lparr>nxt := (nxt h)(n := Some q, last (q # xs) := Some n),
               prv := (prv h)(q := Some n, n := Some (last (q # xs)))\<rparr>"
  have "list_add_tail n q h = Some ?h'"
    using ring_last_link [OF r] by (simp add: list_add_tail_def ring_simps)
  moreover have "ring ?h' q (xs @ [n])"
    using ring_insert [where as = xs and bs = "[]"] r n by simp
  moreover have "same_outside (insert n (set (q # xs))) h ?h'"
    by (auto simp: same_outside_def)
  ultimately show ?thesis using that by blast
qed

lemma list_add_ring:
  assumes r: "ring h q xs" and n: "n \<notin> set (q # xs)"
  obtains h' where "list_add n q h = Some h'" and "ring h' q (n # xs)"
    and "same_outside (insert n (set (q # xs))) h h'"
proof -
  let ?h' = "h\<lparr>nxt := (nxt h)(n := Some (hd (xs @ [q])), q := Some n),
               prv := (prv h)(hd (xs @ [q]) := Some n, n := Some q)\<rparr>"
  have "list_add n q h = Some ?h'"
    using ring_first_link [OF r] by (simp add: list_add_def ring_simps)
  moreover have "ring ?h' q (n # xs)"
    using ring_insert [where as = "[]" and bs = xs] r n by simp
  moreover have "same_outside (insert n (set (q # xs))) h ?h'"
    by (cases xs) (auto simp: same_outside_def)
  ultimately show ?thesis using that by blast
qed

lemma list_del_ring:
  assumes r: "ring h q (as @ e # bs)"
  obtains h' where "list_del e h = Some h'" and "ring h' q (as @ bs)" and "detached h' e"
    and "same_outside (set (q # as @ e # bs)) h h'"
proof -
  let ?h' = "h\<lparr>nxt := (nxt h)(last (q # as) := Some (hd (bs @ [q])), e := None),
               prv := (prv h)(hd (bs @ [q]) := Some (last (q # as)), e := None)\<rparr>"
  have "list_del e h = Some ?h'"
    using ring_neighbours(1,2) [OF r] by (simp add: ring_simps)
  moreover have "ring ?h' q (as @ bs)" using r by (rule ring_remove)
  moreover have "detached ?h' e" by (simp add: detached_def)
  moreover have "same_outside (set (q # as @ e # bs)) h ?h'"
    by (cases bs; cases as rule: rev_cases) (auto simp: same_outside_def)
  ultimately show ?thesis using that by blast
qed

lemma list_empty_ring: "ring h q xs \<Longrightarrow> list_empty q h \<longleftrightarrow> xs = []"
  by (cases xs) (auto simp: list_empty_def ring_def)

lemma list_first_ring: "ring h q (x # xs) \<Longrightarrow> list_first q h = Some x"
  by (simp add: list_first_def ring_def)

lemma list_is_last_ring:
  assumes r: "ring h q xs" and x: "x \<in> set xs"
  shows "list_is_last x q h \<longleftrightarrow> x = last xs"
proof -
  obtain as bs where xs: "xs = as @ x # bs" using x by (auto dest: split_list)
  have "nxt h x = Some (hd (bs @ [q]))" and "distinct (q # as @ x # bs)"
    using ring_neighbours(2) ring_distinct r unfolding xs by metis+
  then show ?thesis by (cases bs) (auto simp: list_is_last_def xs)
qed

text \<open>The loop over a well-linked ring ends, and visits the entries in order.\<close>

lemma list_search_ring:
  assumes "linked h (xs @ [q])" and "q \<notin> set xs"
  shows "list_search p q (Some (hd (xs @ [q]))) h = Some (List.find p xs)"
  using assms
proof (induction xs)
  case Nil
  then show ?case by (simp add: list_search.simps)
next
  case (Cons x xs)
  then have "nxt h x = Some (hd (xs @ [q]))" by (cases xs) auto
  moreover have "linked h (xs @ [q])" using Cons.prems(1) by (cases xs) auto
  ultimately show ?case using Cons by (subst list_search.simps) auto
qed

lemma list_for_each_ring:
  assumes r: "ring h q xs"
  shows "list_for_each p q h = Some (List.find p xs)"
proof -
  have "linked h (xs @ [q])" using r by (cases xs) (auto simp: ring_def)
  then show ?thesis
    using list_search_ring [of h xs q p] ring_first_link [OF r] ring_distinct [OF r]
    by (simp add: list_for_each_def)
qed

section \<open>The interface, provided\<close>

interpretation lq: node_queues ring detached list_add_tail list_del list_empty list_first
proof unfold_locales
  fix h :: "'a list_heap" and q xs
  assume "ring h q xs"
  then show "distinct (q # xs)" by (rule ring_distinct)
next
  fix h :: "'a list_heap" and q xs x
  assume "ring h q xs" "x \<in> set (q # xs)"
  then show "\<not> detached h x" using ring_not_null(1) by (fastforce simp: detached_def)
next
  fix h :: "'a list_heap" and q xs n
  assume "ring h q xs" "n \<notin> set (q # xs)"
  then show "\<exists>h'. list_add_tail n q h = Some h' \<and> ring h' q (xs @ [n])"
    by (metis list_add_tail_ring)
next
  fix h h' :: "'a list_heap" and q xs n q' ys
  assume "ring h q xs" "n \<notin> set (q # xs)" "list_add_tail n q h = Some h'"
    and "set (q' # ys) \<inter> insert n (set (q # xs)) = {}"
  then show "ring h' q' ys = ring h q' ys"
    by (metis list_add_tail_ring option.inject ring_same_outside)
next
  fix h h' :: "'a list_heap" and q xs n a
  assume "ring h q xs" "n \<notin> set (q # xs)" "list_add_tail n q h = Some h'"
    and "a \<notin> insert n (set (q # xs))"
  then show "detached h' a = detached h a"
    by (metis list_add_tail_ring option.inject detached_same_outside)
next
  fix h :: "'a list_heap" and q as n bs
  assume "ring h q (as @ n # bs)"
  then show "\<exists>h'. list_del n h = Some h' \<and> ring h' q (as @ bs) \<and> detached h' n"
    by (metis list_del_ring)
next
  fix h h' :: "'a list_heap" and q as n bs q' ys
  assume "ring h q (as @ n # bs)" "list_del n h = Some h'"
    and "set (q' # ys) \<inter> set (q # as @ n # bs) = {}"
  then show "ring h' q' ys = ring h q' ys"
    by (metis list_del_ring option.inject ring_same_outside)
next
  fix h h' :: "'a list_heap" and q as n bs a
  assume "ring h q (as @ n # bs)" "list_del n h = Some h'" "a \<notin> set (q # as @ n # bs)"
  then show "detached h' a = detached h a"
    by (metis list_del_ring option.inject detached_same_outside)
next
  fix h :: "'a list_heap" and q xs
  assume "ring h q xs"
  then show "list_empty q h \<longleftrightarrow> xs = []" by (rule list_empty_ring)
next
  fix h :: "'a list_heap" and q x xs
  assume "ring h q (x # xs)"
  then show "list_first q h = Some x" by (rule list_first_ring)
qed

section \<open>Properties\<close>

text \<open>A search that reaches an entry linked to itself never ends.\<close>

lemma list_search_self_loop:
  fixes h :: "'a list_heap"
  assumes "nxt h n = Some n" and "n \<noteq> q" and "\<not> p n"
  shows "list_search p q (Some n) h = None"
proof (rule ccontr)
  assume "list_search p q (Some n) h \<noteq> None"
  then obtain r where r: "list_search p q (Some n) h = Some r" by blast
  define P where "P p' q' pos h' (y :: 'a option) \<longleftrightarrow>
      \<not> (p' = p \<and> q' = q \<and> h' = h \<and> pos = Some n)" for p' q' pos h' y
  have "P p q (Some n) h r"
    by (rule list_search.raw_induct [where P = P, OF _ r]) (use assms in \<open>auto simp: P_def split: option.splits if_splits\<close>)
  then show False by (simp add: P_def)
qed

text \<open>
  C35. On a well-linked ring the primitives of \<open>list.c\<close> act as operations on a list: \<open>list_add_tail\<close> appends,
  \<open>list_add\<close> puts in front, \<open>list_del\<close> removes exactly the entry it is given, wherever it stands, and
  leaves it with both pointers \<open>NULL\<close>; none of them faults.
\<close>

theorem list_primitives_refine:
  assumes "ring h q (as @ e # bs)" and "n \<notin> set (q # as @ e # bs)"
  shows "(\<exists>h'. list_add_tail n q h = Some h' \<and> ring h' q (as @ e # bs @ [n])) \<and>
         (\<exists>h'. list_add n q h = Some h' \<and> ring h' q (n # as @ e # bs)) \<and>
         (\<exists>h'. list_del e h = Some h' \<and> ring h' q (as @ bs) \<and> detached h' e)"
  using list_add_tail_ring [OF assms] list_add_ring [OF assms] list_del_ring [OF assms(1)]
  by (metis append.assoc append_Cons)

theorem list_primitives_refine_witness:
  "\<exists>h'. list_del (1::nat) \<lparr>nxt = [0 \<mapsto> 1, 1 \<mapsto> 2, 2 \<mapsto> 0], prv = [1 \<mapsto> 0, 2 \<mapsto> 1, 0 \<mapsto> 2]\<rparr> = Some h' \<and>
     ring h' 0 [2] \<and> detached h' 1"
  using list_primitives_refine [of "\<lparr>nxt = [0 \<mapsto> 1, 1 \<mapsto> 2, 2 \<mapsto> 0], prv = [1 \<mapsto> 0, 2 \<mapsto> 1, 0 \<mapsto> 2]\<rparr>"
      "0::nat" "[]" 1 "[2]" 3]
  by (simp add: ring_def)

text \<open>
  Entries put at the tail one after the other are found in the ring in that order, behind those already
  there: the queues of the scheduler are first in, first out.
\<close>

theorem list_is_fifo:
  assumes "ring h q xs" and "distinct ns" and "set ns \<inter> set (q # xs) = {}"
  shows "\<exists>h'. fold (\<lambda>n r. Option.bind r (list_add_tail n q)) ns (Some h) = Some h' \<and> ring h' q (xs @ ns)"
  using assms by (rule lq.fifo_enqueue)

theorem list_is_fifo_witness:
  "\<exists>h'. fold (\<lambda>n r. Option.bind r (list_add_tail n (0::nat))) [1, 2, 3]
       (Some (INIT_LIST_HEAD 0 \<lparr>nxt = Map.empty, prv = Map.empty\<rparr>)) = Some h' \<and> ring h' 0 [1, 2, 3]"
  using list_is_fifo [OF INIT_LIST_HEAD_ring, of "[1, 2, 3]" "0::nat"] by simp

text \<open>
  C36. \<open>list_for_each\<close> over a well-linked ring visits the entries in order, stops at the first one the body
  accepts, and otherwise ends at the anchor; but once an entry that is already the last of the ring has been
  added to it again, a walk in which no entry is accepted never ends.
\<close>

theorem list_walk_ends_unless_added_twice:
  assumes "ring h q (xs @ [n])"
  shows "list_for_each p q h = Some (List.find p (xs @ [n])) \<and>
         (\<exists>h'. list_add_tail n q h = Some h' \<and>
            ((\<exists>x \<in> set (xs @ [n]). p x) \<or> list_for_each p q h' = None))"
proof
  show "list_for_each p q h = Some (List.find p (xs @ [n]))" by (rule list_for_each_ring [OF assms])
  have d: "distinct (q # xs @ [n])" by (rule ring_distinct [OF assms])
  have "prv h q = Some n"
    using assms linked_snoc2 [of h "q # xs" n q] by (simp add: ring_def)
  then have a: "list_add_tail n q h =
      Some (h\<lparr>nxt := (nxt h)(n := Some n), prv := (prv h)(q := Some n, n := Some n)\<rparr>)"
    by (simp add: list_add_tail_def list_add_raw_def)
  define h' where "h' = h\<lparr>nxt := (nxt h)(n := Some n), prv := (prv h)(q := Some n, n := Some n)\<rparr>"
  have nh: "nxt h' x = (if x = n then Some n else nxt h x)" for x by (simp add: h'_def)
  have "list_for_each p q h' = None" if np: "\<forall>x \<in> set (xs @ [n]). \<not> p x"
  proof -
    have walk: "list_search p q (Some (hd (ys @ [n]))) h' = None"
      if "linked h (ys @ [n])" "set ys \<subseteq> set xs" "distinct ys" for ys
      using that
    proof (induction ys)
      case Nil
      have "list_search p q (Some n) h' = None"
        by (rule list_search_self_loop) (use d np in \<open>auto simp: nh\<close>)
      then show ?case by simp
    next
      case (Cons y ys)
      have "nxt h y = Some (hd (ys @ [n]))" "linked h (ys @ [n])"
        using Cons.prems(1) by (cases ys, auto)+
      moreover have "y \<noteq> n" "y \<noteq> q" "\<not> p y" using Cons.prems(2) d np by auto
      ultimately show ?case using Cons by (simp add: list_search.simps [of p q "Some y"] nh)
    qed
    have "linked h (q # xs @ [n])" using assms linked_snoc2 [of h "q # xs" n q] by (simp add: ring_def)
    then have "nxt h q = Some (hd (xs @ [n]))" "linked h (xs @ [n])" by (cases xs, auto)+
    then show ?thesis using walk [of xs] d by (auto simp: list_for_each_def nh)
  qed
  then show "\<exists>h'. list_add_tail n q h = Some h' \<and>
      ((\<exists>x \<in> set (xs @ [n]). p x) \<or> list_for_each p q h' = None)"
    using a unfolding h'_def [symmetric] by blast
qed

theorem list_walk_ends_unless_added_twice_witness:
  "list_for_each (\<lambda>x. x = 2) 0 \<lparr>nxt = [0 \<mapsto> 1, 1 \<mapsto> 0], prv = [1 \<mapsto> 0, 0 \<mapsto> (1::nat)]\<rparr> = Some None \<and>
   (\<exists>h'. list_add_tail 1 0 \<lparr>nxt = [0 \<mapsto> 1, 1 \<mapsto> 0], prv = [1 \<mapsto> 0, 0 \<mapsto> (1::nat)]\<rparr> = Some h' \<and>
      list_for_each (\<lambda>x. x = 2) 0 h' = None)"
  using list_walk_ends_unless_added_twice [of "\<lparr>nxt = [0 \<mapsto> 1, 1 \<mapsto> 0], prv = [1 \<mapsto> 0, 0 \<mapsto> (1::nat)]\<rparr>" 0 "[]" 1
      "\<lambda>x. x = 2"]
  by (simp add: ring_def)

end
