(* ===== verification/Frames.thy ===== *)
theory Frames
  imports Prelude
begin

text \<open>
  The physical frame allocator of \<open>mm.c\<close>: the byte map \<open>phys_mem\<close>, its initialisation,
  \<open>alloc_frame\<close>, \<open>free_frame\<close>, and the counter \<open>sys_get_stats\<close> of \<open>sys.c\<close> that reads the
  map. The kernel page bounds \<open>first_kernel\<close> and \<open>last_kernel\<close> are non-negative by their
  computation in \<open>init_mm\<close> and are kept as naturals. \<open>frames_ok\<close> is the allocator's
  invariant: every slot of the map is one of the two marks, and the kernel image lies
  inside the map.
\<close>

abbreviation (input) FREE_FRAME :: byte where
  "FREE_FRAME \<equiv> 0"

abbreviation (input) USED_FRAME :: byte where
  "USED_FRAME \<equiv> 1"

record mm =
  phys_mem :: "nat \<Rightarrow> byte"
  first_kernel :: nat
  last_kernel :: nat

section \<open>The operations\<close>

text \<open>
  The stores of the four loops and of the single line for frame \<open>0x90\<close>, in order. The
  code returns the constant 0.
\<close>

definition init_frames :: "mm \<Rightarrow> int \<times> mm" where
  "init_frames s =
     (let pm = fold (\<lambda>i m. m(i := FREE_FRAME)) [0..<TOTAL_PAGES] (phys_mem s);
          pm = fold (\<lambda>i m. m(i := USED_FRAME)) [first_kernel s..<last_kernel s] pm;
          pm = pm(0x90 := USED_FRAME);
          pm = fold (\<lambda>i m. m(i := USED_FRAME)) [0xA0..<0x100] pm
      in (0, s\<lparr>phys_mem := pm\<rparr>))"

text \<open>The scanning loop of \<open>alloc_frame\<close>, from index \<open>i\<close> on.\<close>

function alloc_scan :: "(nat \<Rightarrow> byte) \<Rightarrow> nat \<Rightarrow> nat option" where
  "alloc_scan pm i =
     (if i < TOTAL_PAGES then (if pm i = FREE_FRAME then Some i else alloc_scan pm (Suc i))
      else None)"
  by pat_completeness auto
termination
  by (relation "measure (\<lambda>(pm, i). TOTAL_PAGES - i)") auto

declare alloc_scan.simps [simp del]

definition alloc_frame :: "mm \<Rightarrow> int \<times> mm" where
  "alloc_frame s =
     (case alloc_scan (phys_mem s) (last_kernel s) of
        Some i \<Rightarrow> (int i, s\<lparr>phys_mem := (phys_mem s)(i := USED_FRAME)\<rparr>)
      | None \<Rightarrow> (-1, s))"

definition free_frame :: "nat \<Rightarrow> mm \<Rightarrow> mm" where
  "free_frame frame s =
     (if frame < TOTAL_PAGES then s\<lparr>phys_mem := (phys_mem s)(frame := FREE_FRAME)\<rparr> else s)"

definition sys_get_stats :: "int \<Rightarrow> mm \<Rightarrow> int" where
  "sys_get_stats type s =
     (if type = 0 then int TOTAL_PAGES
      else if type = 1 then
        fold (\<lambda>i count. if phys_mem s i = USED_FRAME then count else count + 1) [0..<TOTAL_PAGES] 0
      else - EINVAL)"

section \<open>Abstraction: the set of free frames\<close>

definition free_frames :: "mm \<Rightarrow> nat set" where
  "free_frames s = {i. i < TOTAL_PAGES \<and> phys_mem s i = FREE_FRAME}"

text \<open>The frames \<open>alloc_frame\<close> may hand out.\<close>

definition allocatable :: "mm \<Rightarrow> nat set" where
  "allocatable s = {i \<in> free_frames s. last_kernel s \<le> i}"

definition frames_ok :: "mm \<Rightarrow> bool" where
  "frames_ok s \<longleftrightarrow> last_kernel s \<le> TOTAL_PAGES \<and> first_kernel s \<le> last_kernel s \<and>
     (\<forall>i<TOTAL_PAGES. phys_mem s i = FREE_FRAME \<or> phys_mem s i = USED_FRAME)"

lemma finite_free_frames [simp]: "finite (free_frames s)"
  by (simp add: free_frames_def)

lemma finite_allocatable [simp]: "finite (allocatable s)"
  by (simp add: allocatable_def)

section \<open>Allocation\<close>

lemma alloc_scan_Some:
  "alloc_scan pm i = Some j \<Longrightarrow>
     i \<le> j \<and> j < TOTAL_PAGES \<and> pm j = FREE_FRAME \<and> (\<forall>k. i \<le> k \<and> k < j \<longrightarrow> pm k \<noteq> FREE_FRAME)"
proof (induction pm i rule: alloc_scan.induct)
  case (1 pm i)
  show ?case
  proof (cases "i < TOTAL_PAGES \<and> pm i \<noteq> FREE_FRAME")
    case True
    then have "Suc i \<le> j \<and> j < TOTAL_PAGES \<and> pm j = FREE_FRAME \<and>
        (\<forall>k. Suc i \<le> k \<and> k < j \<longrightarrow> pm k \<noteq> FREE_FRAME)"
      using 1 by (simp add: alloc_scan.simps [of pm i])
    moreover have "pm k \<noteq> FREE_FRAME" if "i \<le> k" "k < j" for k
      using calculation that True by (cases "k = i") simp_all
    ultimately show ?thesis by simp
  next
    case False
    then show ?thesis using 1(2) by (auto simp: alloc_scan.simps [of pm i] split: if_splits)
  qed
qed

lemma alloc_scan_None:
  "alloc_scan pm i = None \<longleftrightarrow> (\<forall>k. i \<le> k \<and> k < TOTAL_PAGES \<longrightarrow> pm k \<noteq> FREE_FRAME)"
proof (induction pm i rule: alloc_scan.induct)
  case (1 pm i)
  show ?case
  proof (cases "i < TOTAL_PAGES \<and> pm i \<noteq> FREE_FRAME")
    case True
    have "alloc_scan pm i = alloc_scan pm (Suc i)"
      using True by (simp add: alloc_scan.simps [of pm i])
    moreover have "(\<forall>k. i \<le> k \<and> k < TOTAL_PAGES \<longrightarrow> pm k \<noteq> FREE_FRAME) \<longleftrightarrow>
        (\<forall>k. Suc i \<le> k \<and> k < TOTAL_PAGES \<longrightarrow> pm k \<noteq> FREE_FRAME)"
      using True by (metis Suc_leD Suc_leI le_neq_implies_less)
    ultimately show ?thesis using 1 True by simp
  next
    case False
    then show ?thesis by (auto simp: alloc_scan.simps [of pm i])
  qed
qed

lemma alloc_scan_least:
  assumes "\<exists>k. i \<le> k \<and> k < TOTAL_PAGES \<and> pm k = FREE_FRAME"
  shows "alloc_scan pm i = Some (LEAST k. i \<le> k \<and> k < TOTAL_PAGES \<and> pm k = FREE_FRAME)"
proof -
  obtain j where j: "alloc_scan pm i = Some j"
    using assms alloc_scan_None [of pm i] by (cases "alloc_scan pm i") auto
  have "(LEAST k. i \<le> k \<and> k < TOTAL_PAGES \<and> pm k = FREE_FRAME) = j"
    using alloc_scan_Some [OF j] by (intro Least_equality) (auto simp: not_less [symmetric])
  then show ?thesis using j by simp
qed

lemma alloc_frame_None: "allocatable s = {} \<Longrightarrow> alloc_frame s = (-1, s)"
  using alloc_scan_None [of "phys_mem s" "last_kernel s"]
  by (auto simp: alloc_frame_def allocatable_def free_frames_def)

lemma alloc_frame_Some:
  assumes "allocatable s \<noteq> {}"
  shows "alloc_frame s = (int (Min (allocatable s)),
           s\<lparr>phys_mem := (phys_mem s)(Min (allocatable s) := USED_FRAME)\<rparr>)"
proof -
  obtain j where j: "alloc_scan (phys_mem s) (last_kernel s) = Some j"
    using assms alloc_scan_None [of "phys_mem s" "last_kernel s"]
    by (cases "alloc_scan (phys_mem s) (last_kernel s)") (auto simp: allocatable_def free_frames_def)
  have "Min (allocatable s) = j"
    using alloc_scan_Some [OF j]
    by (intro Min_eqI) (auto simp: allocatable_def free_frames_def not_less [symmetric])
  then show ?thesis using j by (simp add: alloc_frame_def)
qed

lemma alloc_frame_cases:
  obtains "allocatable s = {}" and "alloc_frame s = (-1, s)"
  | f where "f \<in> allocatable s" and "f = Min (allocatable s)"
      and "alloc_frame s = (int f, s\<lparr>phys_mem := (phys_mem s)(f := USED_FRAME)\<rparr>)"
  using alloc_frame_None alloc_frame_Some Min_in finite_allocatable by metis

lemma free_frames_mark_used [simp]:
  "free_frames (s\<lparr>phys_mem := (phys_mem s)(f := USED_FRAME)\<rparr>) = free_frames s - {f}"
  by (auto simp: free_frames_def)

lemma free_frames_free [simp]:
  "f < TOTAL_PAGES \<Longrightarrow> free_frames (free_frame f s) = insert f (free_frames s)"
  by (auto simp: free_frames_def free_frame_def)

lemma last_kernel_frames [simp]:
  "last_kernel (free_frame f s) = last_kernel s"
  "last_kernel (snd (alloc_frame s)) = last_kernel s"
  by (auto simp: free_frame_def alloc_frame_def split: option.splits)

lemma frames_ok_alloc: "frames_ok s \<Longrightarrow> frames_ok (snd (alloc_frame s))"
  by (cases s rule: alloc_frame_cases) (auto simp: frames_ok_def)

lemma frames_ok_free: "frames_ok s \<Longrightarrow> frames_ok (free_frame f s)"
  by (auto simp: frames_ok_def free_frame_def)

section \<open>Counting\<close>

lemma fold_count:
  "fold (\<lambda>i c. if P i then c else c + 1) [0..<n] (k::int) = k + int (card {i. i < n \<and> \<not> P i})"
proof (induction n)
  case 0
  then show ?case by simp
next
  case (Suc n)
  have "{i. i < Suc n \<and> \<not> P i} =
      (if P n then {i. i < n \<and> \<not> P i} else insert n {i. i < n \<and> \<not> P i})"
    by (auto simp: less_Suc_eq)
  then show ?case using Suc by simp
qed

lemma sys_get_stats_free:
  assumes "frames_ok s"
  shows "sys_get_stats 1 s = int (card (free_frames s))"
proof -
  have "{i. i < TOTAL_PAGES \<and> phys_mem s i \<noteq> USED_FRAME} = free_frames s"
    using assms by (auto simp: frames_ok_def free_frames_def)
  then show ?thesis by (simp add: sys_get_stats_def fold_count)
qed

lemma stats_alloc:
  assumes "frames_ok s" and "fst (alloc_frame s) \<ge> 0"
  shows "sys_get_stats 1 (snd (alloc_frame s)) = sys_get_stats 1 s - 1"
proof (cases s rule: alloc_frame_cases)
  case 1
  then show ?thesis using assms(2) by simp
next
  case (2 f)
  then have "f \<in> free_frames s" by (simp add: allocatable_def)
  then have "int (card (free_frames s - {f})) = int (card (free_frames s)) - 1"
    using card_Suc_Diff1 [OF finite_free_frames, of f s] by linarith
  then show ?thesis
    using 2 sys_get_stats_free [OF assms(1)] sys_get_stats_free [OF frames_ok_alloc [OF assms(1)]]
    by simp
qed

lemma stats_free:
  assumes "frames_ok s" and "f < TOTAL_PAGES"
  shows "sys_get_stats 1 (free_frame f s) =
           sys_get_stats 1 s + (if phys_mem s f = USED_FRAME then 1 else 0)"
proof -
  have "f \<in> free_frames s \<longleftrightarrow> phys_mem s f \<noteq> USED_FRAME"
    using assms by (auto simp: frames_ok_def free_frames_def)
  then show ?thesis
    using sys_get_stats_free [OF assms(1)] sys_get_stats_free [OF frames_ok_free [OF assms(1)], of f] assms(2)
    by (auto simp: card_insert_if)
qed

section \<open>Properties\<close>

text \<open>
  \<open>alloc_frame\<close> hands out the lowest free frame outside the kernel image, marks this
  frame and no other, and answers -1, with no change, exactly when there is none.
\<close>

theorem alloc_frame_first_fit:
  "alloc_frame s =
     (if allocatable s = {} then (-1, s)
      else (int (Min (allocatable s)),
            s\<lparr>phys_mem := (phys_mem s)(Min (allocatable s) := USED_FRAME)\<rparr>))"
  using alloc_frame_None alloc_frame_Some by simp

text \<open>The results of \<open>n\<close> allocations in a row, and the allocator after them.\<close>

fun alloc_many :: "nat \<Rightarrow> mm \<Rightarrow> int list \<times> mm" where
  "alloc_many 0 s = ([], s)"
| "alloc_many (Suc n) s =
     (let (f, s) = alloc_frame s; (fs, s) = alloc_many n s in (f # fs, s))"

lemma alloc_many_sorted:
  "fst (alloc_many n s) =
     map int (take n (sorted_list_of_set (allocatable s)))
       @ replicate (n - card (allocatable s)) (- 1)"
proof (induction n arbitrary: s)
  case 0
  then show ?case by simp
next
  case (Suc n)
  show ?case
  proof (cases s rule: alloc_frame_cases)
    case 1
    then show ?thesis using Suc [of s] by (simp add: case_prod_beta)
  next
    case (2 f)
    let ?s = "s\<lparr>phys_mem := (phys_mem s)(f := USED_FRAME)\<rparr>"
    have a: "allocatable ?s = allocatable s - {f}" by (auto simp: allocatable_def free_frames_def)
    have "sorted_list_of_set (allocatable s) = f # sorted_list_of_set (allocatable s - {f})"
      using 2 by (metis empty_iff finite_allocatable sorted_list_of_set_nonempty)
    moreover have "card (allocatable s) = Suc (card (allocatable s - {f}))"
      using card_Suc_Diff1 [OF finite_allocatable 2(1)] by simp
    ultimately show ?thesis
      using 2(3) Suc [of ?s] a by (simp add: case_prod_beta)
  qed
qed

text \<open>
  A run of allocations with no frame freed in between hands out pairwise distinct frames, all free before
  the run and none in the kernel image; the first \<open>card (allocatable s)\<close> requests succeed
  and every later one fails.
\<close>

theorem alloc_run_distinct:
  "let fs = filter (\<lambda>f. f \<ge> 0) (fst (alloc_many n s)) in
     distinct fs \<and> set fs \<subseteq> int ` allocatable s \<and>
     length fs = min n (card (allocatable s))"
proof -
  have "filter (\<lambda>f. f \<ge> 0) (fst (alloc_many n s)) =
      map int (take n (sorted_list_of_set (allocatable s)))"
    unfolding alloc_many_sorted by (simp add: filter_map comp_def)
  moreover have "set (take n (sorted_list_of_set (allocatable s))) \<subseteq> allocatable s"
    using set_take_subset [of n "sorted_list_of_set (allocatable s)"] by simp
  ultimately show ?thesis
    by (auto simp: Let_def distinct_map distinct_take inj_on_def min.commute)
qed

text \<open>
  \<open>sys_get_stats (1)\<close> counts the free frames: an allocation that succeeds lowers it by
  one, freeing a used frame raises it by one, and freeing a free frame leaves it.
\<close>

theorem get_stats_counts_free_frames:
  assumes "frames_ok s" and "f < TOTAL_PAGES"
  shows "sys_get_stats 1 s = int (card (free_frames s)) \<and>
         sys_get_stats 1 (snd (alloc_frame s)) =
           sys_get_stats 1 s - (if fst (alloc_frame s) \<ge> 0 then 1 else 0) \<and>
         sys_get_stats 1 (free_frame f s) =
           sys_get_stats 1 s + (if phys_mem s f = USED_FRAME then 1 else 0)"
proof -
  have "snd (alloc_frame s) = s" if "\<not> fst (alloc_frame s) \<ge> 0"
    using that by (cases s rule: alloc_frame_cases) auto
  then show ?thesis
    using assms sys_get_stats_free stats_alloc stats_free by simp
qed

lemma init_frames_slot:
  "phys_mem (snd (init_frames s)) i =
     (if first_kernel s \<le> i \<and> i < last_kernel s \<or> i = 0x90 \<or> 0xA0 \<le> i \<and> i < 0x100 then USED_FRAME
      else if i < TOTAL_PAGES then FREE_FRAME else phys_mem s i)"
  unfolding init_frames_def Let_def snd_conv fold_fill by simp

lemma init_frames_kernel [simp]:
  "last_kernel (snd (init_frames s)) = last_kernel s"
  "first_kernel (snd (init_frames s)) = first_kernel s"
  unfolding init_frames_def Let_def snd_conv by simp_all

lemma frames_ok_init:
  "first_kernel s \<le> last_kernel s \<Longrightarrow> last_kernel s \<le> TOTAL_PAGES \<Longrightarrow>
     frames_ok (snd (init_frames s))"
  by (simp add: frames_ok_def init_frames_slot)

lemma free_frames_init:
  "free_frames (snd (init_frames s)) =
     {i. i < TOTAL_PAGES} - {first_kernel s..<last_kernel s} - {0x90} - {0xA0..<0x100}"
  unfolding free_frames_def init_frames_slot by auto

text \<open>
  \<open>init_frames\<close> establishes the allocator's invariant, and leaves used exactly the
  kernel image, the frame of the GDT and the hole of video memory and BIOS.
\<close>

theorem init_frames_map:
  assumes "first_kernel s \<le> last_kernel s" and "last_kernel s \<le> TOTAL_PAGES"
  shows "fst (init_frames s) = 0 \<and> frames_ok (snd (init_frames s)) \<and>
         free_frames (snd (init_frames s)) =
           {i. i < TOTAL_PAGES} - {first_kernel s..<last_kernel s} - {0x90} - {0xA0..<0x100}"
proof -
  have "fst (init_frames s) = 0" unfolding init_frames_def Let_def by (rule fst_conv)
  then show ?thesis using frames_ok_init [OF assms] free_frames_init by blast
qed

theorem init_frames_map_witness:
  "0x91 \<in> free_frames (snd (init_frames \<lparr>phys_mem = (\<lambda>_. 1), first_kernel = 16, last_kernel = 80\<rparr>))"
proof -
  let ?s = "\<lparr>phys_mem = (\<lambda>_. 1), first_kernel = 16, last_kernel = 80\<rparr>"
  have "free_frames (snd (init_frames ?s)) =
      {i. i < TOTAL_PAGES} - {first_kernel ?s..<last_kernel ?s} - {0x90} - {0xA0..<0x100}"
    by (rule init_frames_map [THEN conjunct2, THEN conjunct2]) simp_all
  then show ?thesis by (simp only:) simp
qed

text \<open>An allocator just after boot, with the kernel image in frames 16 to 255.\<close>

definition boot_mm :: mm where
  "boot_mm = snd (init_frames \<lparr>phys_mem = (\<lambda>_. 0), first_kernel = 16, last_kernel = 256\<rparr>)"

lemma boot_mm_kernel [simp]: "last_kernel boot_mm = 256"
  by (simp add: boot_mm_def)

lemma boot_mm_ok: "frames_ok boot_mm"
  unfolding boot_mm_def by (rule frames_ok_init) simp_all

lemma boot_mm_free: "free_frames boot_mm = {..<16} \<union> {256..<TOTAL_PAGES}"
  unfolding boot_mm_def free_frames_init by auto

lemma boot_mm_allocatable: "allocatable boot_mm = {256..<TOTAL_PAGES}"
  by (auto simp: allocatable_def boot_mm_free)

theorem get_stats_counts_free_frames_witness:
  "sys_get_stats 1 (free_frame 300 boot_mm) = sys_get_stats 1 boot_mm"
proof -
  have "300 \<in> free_frames boot_mm" unfolding boot_mm_free by simp
  then have "phys_mem boot_mm 300 \<noteq> USED_FRAME" by (simp add: free_frames_def)
  then show ?thesis
    using get_stats_counts_free_frames [OF boot_mm_ok, of 300] by simp
qed

end
