(* ===== verification/Paging.thy ===== *)
theory Paging
  imports Prelude
begin

text \<open>
  Page table entries (\<open>page_table_entry\<close> of \<open>include/types.h\<close>) and the operations of
  \<open>mm.c\<close> on one table. An entry is the 32-bit word \<open>entry\<close> of the union; the members of its
  bit field view are read and written at the bit positions the compiler gives them
  (\<open>present\<close> at bit 0 up to \<open>pbase_addr\<close> in bits 12 to 31). A page table, and the page
  directory, is a function from indices below \<open>PT_ENTRIES\<close>.
\<close>

section \<open>Bit fields\<close>

definition get_field :: "nat \<Rightarrow> nat \<Rightarrow> dword \<Rightarrow> dword" where
  "get_field lo len e = take_bit len (drop_bit lo e)"

definition set_field :: "nat \<Rightarrow> nat \<Rightarrow> dword \<Rightarrow> dword \<Rightarrow> dword" where
  "set_field lo len v e =
     (e AND NOT (push_bit lo (mask len))) OR push_bit lo (take_bit len v)"

lemma get_set_field_same:
  "lo + len \<le> 32 \<Longrightarrow> get_field lo len (set_field lo len v e) = take_bit len v"
  by (rule bit_word_eqI) (auto simp: get_field_def set_field_def bit_simps)

lemma get_set_field_other:
  "lo + len \<le> lo' \<or> lo' + len' \<le> lo \<Longrightarrow>
     get_field lo len (set_field lo' len' v e) = get_field lo len e"
  by (rule bit_word_eqI)
    (auto simp: get_field_def set_field_def bit_simps dest: bit_imp_le_length)

lemma get_field_0 [simp]: "get_field lo len 0 = 0"
  by (simp add: get_field_def)

section \<open>The members of page\_table\_entry\<close>

type_synonym pte = dword

definition pte_present :: "pte \<Rightarrow> dword" where "pte_present e = get_field 0 1 e"
definition pte_rw :: "pte \<Rightarrow> dword" where "pte_rw e = get_field 1 1 e"
definition pte_user :: "pte \<Rightarrow> dword" where "pte_user e = get_field 2 1 e"
definition pte_pbase_addr :: "pte \<Rightarrow> dword" where "pte_pbase_addr e = get_field 12 20 e"

definition set_present :: "dword \<Rightarrow> pte \<Rightarrow> pte" where "set_present v e = set_field 0 1 v e"
definition set_rw :: "dword \<Rightarrow> pte \<Rightarrow> pte" where "set_rw v e = set_field 1 1 v e"
definition set_user :: "dword \<Rightarrow> pte \<Rightarrow> pte" where "set_user v e = set_field 2 1 v e"
definition set_pbase_addr :: "dword \<Rightarrow> pte \<Rightarrow> pte" where "set_pbase_addr v e = set_field 12 20 v e"

lemma pte_set_present [pte_simps]:
  "pte_present (set_present v e) = take_bit 1 v" "pte_rw (set_present v e) = pte_rw e"
  "pte_user (set_present v e) = pte_user e"
  "pte_pbase_addr (set_present v e) = pte_pbase_addr e"
  by (simp_all add: pte_present_def pte_rw_def pte_user_def pte_pbase_addr_def set_present_def
      get_set_field_same get_set_field_other)

lemma pte_set_rw [pte_simps]:
  "pte_present (set_rw v e) = pte_present e" "pte_rw (set_rw v e) = take_bit 1 v"
  "pte_user (set_rw v e) = pte_user e" "pte_pbase_addr (set_rw v e) = pte_pbase_addr e"
  by (simp_all add: pte_present_def pte_rw_def pte_user_def pte_pbase_addr_def set_rw_def
      get_set_field_same get_set_field_other)

lemma pte_set_user [pte_simps]:
  "pte_present (set_user v e) = pte_present e" "pte_rw (set_user v e) = pte_rw e"
  "pte_user (set_user v e) = take_bit 1 v" "pte_pbase_addr (set_user v e) = pte_pbase_addr e"
  by (simp_all add: pte_present_def pte_rw_def pte_user_def pte_pbase_addr_def set_user_def
      get_set_field_same get_set_field_other)

lemma pte_set_pbase_addr [pte_simps]:
  "pte_present (set_pbase_addr v e) = pte_present e" "pte_rw (set_pbase_addr v e) = pte_rw e"
  "pte_user (set_pbase_addr v e) = pte_user e"
  "pte_pbase_addr (set_pbase_addr v e) = take_bit 20 v"
  by (simp_all add: pte_present_def pte_rw_def pte_user_def pte_pbase_addr_def set_pbase_addr_def
      get_set_field_same get_set_field_other)

lemma pte_zero [simp]:
  "pte_present 0 = 0" "pte_rw 0 = 0" "pte_user 0 = 0" "pte_pbase_addr 0 = 0"
  by (simp_all add: pte_present_def pte_rw_def pte_user_def pte_pbase_addr_def)

section \<open>Operations on one table\<close>

type_synonym page_table = "nat \<Rightarrow> pte"

definition clear_page_table :: "page_table \<Rightarrow> page_table" where
  "clear_page_table process_PT = fold (\<lambda>i t. t(i := 0)) [0..<PT_ENTRIES] process_PT"

definition set_ss_pag :: "page_table \<Rightarrow> nat \<Rightarrow> nat \<Rightarrow> int \<Rightarrow> page_table" where
  "set_ss_pag PT page frame user =
     (let PT = PT(page := 0);
          PT = PT(page := set_pbase_addr (of_nat frame) (PT page));
          PT = PT(page := set_user (of_int user) (PT page));
          PT = PT(page := set_rw 1 (PT page))
      in PT(page := set_present 1 (PT page)))"

definition del_ss_pag :: "page_table \<Rightarrow> nat \<Rightarrow> page_table" where
  "del_ss_pag PT logical_page = PT(logical_page := 0)"

definition get_frame :: "page_table \<Rightarrow> nat \<Rightarrow> nat" where
  "get_frame PT logical_page = unat (pte_pbase_addr (PT logical_page))"

text \<open>\<open>PT[page].bits.present\<close> read as a truth value.\<close>

definition present :: "page_table \<Rightarrow> nat \<Rightarrow> bool" where
  "present PT page \<longleftrightarrow> pte_present (PT page) \<noteq> 0"

section \<open>What they do\<close>

lemma clear_page_table_eq:
  "clear_page_table t = (\<lambda>i. if i < PT_ENTRIES then 0 else t i)"
  by (simp add: clear_page_table_def fold_fill fun_eq_iff)

lemma take_bit_20_of_nat:
  "f < 1048576 \<Longrightarrow> unat (take_bit 20 (of_nat f :: dword)) = f"
  by (simp add: unsigned_take_bit_eq take_bit_nat_def unat_of_nat)

lemma set_ss_pag_other [simp]: "j \<noteq> page \<Longrightarrow> set_ss_pag t page f u j = t j"
  by (simp add: set_ss_pag_def Let_def)

lemma set_ss_pag_entry:
  "pte_present (set_ss_pag t page f u page) = 1"
  "pte_rw (set_ss_pag t page f u page) = 1"
  "pte_user (set_ss_pag t page f u page) = take_bit 1 (of_int u)"
  "pte_pbase_addr (set_ss_pag t page f u page) = take_bit 20 (of_nat f)"
  by (simp_all add: set_ss_pag_def Let_def pte_simps)

lemma get_frame_set_ss_pag [simp]:
  "f < 1048576 \<Longrightarrow> get_frame (set_ss_pag t page f u) page = f"
  by (simp add: get_frame_def set_ss_pag_entry take_bit_20_of_nat)

lemma get_frame_set_ss_pag_other [simp]:
  "j \<noteq> page \<Longrightarrow> get_frame (set_ss_pag t page f u) j = get_frame t j"
  by (simp add: get_frame_def)

lemma present_set_ss_pag [simp]:
  "present (set_ss_pag t page f u) j \<longleftrightarrow> j = page \<or> present t j"
  by (cases "j = page") (simp_all add: present_def set_ss_pag_entry)

lemma present_del_ss_pag [simp]:
  "present (del_ss_pag t page) j \<longleftrightarrow> j \<noteq> page \<and> present t j"
  by (simp add: present_def del_ss_pag_def)

lemma get_frame_del_ss_pag_other [simp]:
  "j \<noteq> page \<Longrightarrow> get_frame (del_ss_pag t page) j = get_frame t j"
  by (simp add: get_frame_def del_ss_pag_def)

lemma present_clear [simp]: "i < PT_ENTRIES \<Longrightarrow> \<not> present (clear_page_table t) i"
  by (simp add: present_def clear_page_table_eq)

lemma get_frame_bound: "get_frame t i < 1048576"
proof -
  have "unat (take_bit 20 w) < 2 ^ 20" for w :: dword
    using take_bit_nat_less_exp [of 20 "unat w"] by (simp add: unsigned_take_bit_eq)
  then show ?thesis
    by (simp add: get_frame_def pte_pbase_addr_def get_field_def)
qed

end
