(* ===== verification/Machine.thy ===== *)
theory Machine
  imports Paging
begin

text \<open>
  The memory the kernel code addresses: the bytes of physical memory, the page tables
  (kept apart from the bytes, by the frame that holds them: a frame holds either a table
  or data at a time) and the page directory that \<open>CR3\<close> selects. \<open>translate\<close> is the page
  walk of the processor for code at privilege level 0 once \<open>set_pe_flag\<close> has turned paging on
  (before that an address is physical), on the entry layout of
  \<open>include/types.h\<close>: ten bits of directory index, ten bits of table index, twelve bits of
  offset, and a fault (\<open>None\<close>) when an entry on the way is not present. Write protection
  does not apply to the kernel, because \<open>set_pe_flag\<close> sets no bit of \<open>CR0\<close> but paging.
  Addresses are 32-bit and wrap. No translation cache is modelled: each change of a
  mapping takes effect at once, as it does after the \<open>set_cr3\<close> the code issues.
\<close>

record machine =
  ram :: "nat \<Rightarrow> byte"
  tables :: "nat \<Rightarrow> page_table"
  cr3 :: nat
  cr0 :: dword

text \<open>Bit 31 of \<open>CR0\<close> turns paging on.\<close>

definition paging :: "machine \<Rightarrow> bool" where
  "paging m \<longleftrightarrow> bit (cr0 m) 31"

definition set_pe_flag :: "machine \<Rightarrow> machine" where
  "set_pe_flag m =
     (let c = cr0 m;
          c = c OR 0x80000000
      in m\<lparr>cr0 := c\<rparr>)"

definition dir_index :: "dword \<Rightarrow> nat" where
  "dir_index va = unat (drop_bit 22 va)"

definition table_index :: "dword \<Rightarrow> nat" where
  "table_index va = unat (take_bit 10 (drop_bit 12 va))"

definition page_offset :: "dword \<Rightarrow> nat" where
  "page_offset va = unat (take_bit 12 va)"

definition translate :: "machine \<Rightarrow> dword \<Rightarrow> nat option" where
  "translate m va =
     (let dir = tables m (cr3 m) in
      if \<not> paging m then Some (unat va)
      else if \<not> present dir (dir_index va) then None
      else
        let pt = tables m (get_frame dir (dir_index va)) in
        if \<not> present pt (table_index va) then None
        else Some (get_frame pt (table_index va) * PAGE_SIZE + page_offset va))"

definition load_byte :: "machine \<Rightarrow> dword \<Rightarrow> byte option" where
  "load_byte m va = map_option (ram m) (translate m va)"

definition store_byte :: "dword \<Rightarrow> byte \<Rightarrow> machine \<Rightarrow> machine option" where
  "store_byte va b m = map_option (\<lambda>a. m\<lparr>ram := (ram m)(a := b)\<rparr>) (translate m va)"

text \<open>A 32-bit access: four bytes, the least significant one at the lowest address.\<close>

definition dword_of_bytes :: "byte \<Rightarrow> byte \<Rightarrow> byte \<Rightarrow> byte \<Rightarrow> dword" where
  "dword_of_bytes b0 b1 b2 b3 =
     ucast b0 OR push_bit 8 (ucast b1) OR push_bit 16 (ucast b2) OR push_bit 24 (ucast b3)"

definition byte_of_dword :: "nat \<Rightarrow> dword \<Rightarrow> byte" where
  "byte_of_dword k w = ucast (drop_bit (8 * k) w)"

definition load_dword :: "machine \<Rightarrow> dword \<Rightarrow> dword option" where
  "load_dword m va = do {
     b0 \<leftarrow> load_byte m va;
     b1 \<leftarrow> load_byte m (va + 1);
     b2 \<leftarrow> load_byte m (va + 2);
     b3 \<leftarrow> load_byte m (va + 3);
     Some (dword_of_bytes b0 b1 b2 b3) }"

definition store_dword :: "dword \<Rightarrow> dword \<Rightarrow> machine \<Rightarrow> machine option" where
  "store_dword va w m = do {
     m \<leftarrow> store_byte va (byte_of_dword 0 w) m;
     m \<leftarrow> store_byte (va + 1) (byte_of_dword 1 w) m;
     m \<leftarrow> store_byte (va + 2) (byte_of_dword 2 w) m;
     store_byte (va + 3) (byte_of_dword 3 w) m }"

lemma byte_of_dword_of_bytes [simp]:
  "byte_of_dword 0 (dword_of_bytes b0 b1 b2 b3) = b0"
  "byte_of_dword (Suc 0) (dword_of_bytes b0 b1 b2 b3) = b1"
  "byte_of_dword 2 (dword_of_bytes b0 b1 b2 b3) = b2"
  "byte_of_dword 3 (dword_of_bytes b0 b1 b2 b3) = b3"
  by (rule bit_word_eqI; auto simp: byte_of_dword_def dword_of_bytes_def bit_simps dest: bit_imp_le_length)+

lemma dword_of_its_bytes: "dword_of_bytes (byte_of_dword 0 v) (byte_of_dword 1 v) (byte_of_dword 2 v) (byte_of_dword 3 v) = v"
proof (rule bit_word_eqI)
  fix n assume "n < LENGTH(32)"
  then consider "n < 8" | "8 \<le> n" "n < 16" | "16 \<le> n" "n < 24" | "24 \<le> n" "n < 32" by fastforce
  then show "bit (dword_of_bytes (byte_of_dword 0 v) (byte_of_dword 1 v) (byte_of_dword 2 v) (byte_of_dword 3 v)) n = bit v n"
    by cases (auto simp: byte_of_dword_def dword_of_bytes_def bit_simps dest: bit_imp_le_length)
qed

lemma translate_ram [simp]: "translate (m\<lparr>ram := r\<rparr>) va = translate m va"
  by (simp add: translate_def Let_def paging_def)

lemma paging_set_pe_flag [simp]: "paging (set_pe_flag m)"
proof -
  have "bit (0x80000000 :: dword) 31" by simp
  then show ?thesis by (simp add: paging_def set_pe_flag_def bit_or_iff)
qed

lemma translate_paging_off: "\<not> paging m \<Longrightarrow> translate m va = Some (unat va)"
  by (simp add: translate_def)

lemma load_byte_Some [simp]: "translate m va = Some a \<Longrightarrow> load_byte m va = Some (ram m a)"
  by (simp add: load_byte_def)

lemma store_byte_Some [simp]:
  "translate m va = Some a \<Longrightarrow> store_byte va b m = Some (m\<lparr>ram := (ram m)(a := b)\<rparr>)"
  by (simp add: store_byte_def)

section \<open>Translation by pages\<close>

text \<open>The frame that a virtual page reaches.\<close>

definition page_frame :: "machine \<Rightarrow> nat \<Rightarrow> nat option" where
  "page_frame m p =
     (let dir = tables m (cr3 m) in
      if present dir (p div 1024) \<and> present (tables m (get_frame dir (p div 1024))) (p mod 1024)
      then Some (get_frame (tables m (get_frame dir (p div 1024))) (p mod 1024)) else None)"

lemma unat_page_offset:
  "p < 1048576 \<Longrightarrow> x < 4096 \<Longrightarrow> unat (of_nat (p * 4096 + x) :: dword) = p * 4096 + x"
  by (simp add: unat_of_nat del: of_nat_add of_nat_mult)

lemma translate_page:
  assumes "paging m" and p: "p < 1048576" and x: "x < 4096"
  shows "translate m (of_nat (p * 4096 + x)) = map_option (\<lambda>f. f * 4096 + x) (page_frame m p)"
proof -
  let ?va = "of_nat (p * 4096 + x) :: dword"
  have d: "(p * 4096 + x) div 4096 = p" "(p * 4096 + x) mod 4096 = x"
    using div_mult_self3 [of 4096 p x] mod_mult_self3 [of p 4096 x] x by simp_all
  have "(p * 4096 + x) div 4194304 = (p * 4096 + x) div 4096 div 1024"
    by (simp add: div_mult2_eq)
  then have "dir_index ?va = p div 1024"
    unfolding dir_index_def unat_drop_bit_eq unat_page_offset [OF p x] by (simp add: drop_bit_eq_div d)
  moreover have "table_index ?va = p mod 1024"
    unfolding table_index_def unsigned_take_bit_eq unat_drop_bit_eq unat_page_offset [OF p x]
    by (simp add: drop_bit_eq_div take_bit_eq_mod d)
  moreover have "page_offset ?va = x"
    unfolding page_offset_def unsigned_take_bit_eq unat_page_offset [OF p x]
    by (simp add: take_bit_eq_mod d x)
  ultimately show ?thesis using assms(1)
    by (simp add: translate_def page_frame_def Let_def del: of_nat_add)
qed

text \<open>Four bytes of one page written at once.\<close>

lemma store_dword_page:
  assumes pg: "paging m" "p < 1048576" and f: "page_frame m p = Some f" and x: "x + 3 < 4096"
  shows "store_dword (of_nat (p * 4096 + x)) w m =
    Some (m\<lparr>ram := (ram m)(f * 4096 + x := byte_of_dword 0 w, f * 4096 + x + 1 := byte_of_dword 1 w,
                           f * 4096 + x + 2 := byte_of_dword 2 w, f * 4096 + x + 3 := byte_of_dword 3 w)\<rparr>)"
proof -
  have t: "translate m (of_nat (p * 4096 + x) + of_nat j) = Some (f * 4096 + x + j)" if "j \<le> 3" for j
    using translate_page [OF pg, of "x + j"] f x that by (simp add: add.assoc)
  show ?thesis
    using t [of 0] t [of 1] t [of 2] t [of 3]
    by (simp add: store_dword_def del: of_nat_add of_nat_mult)
qed

end
