(* ===== verification/Utils.thy ===== *)
theory Utils
  imports Machine
begin

text \<open>
  The copy routines and the user pointer check of \<open>utils.c\<close>. The three copy routines
  share one body: a loop of 32-bit moves while more than four bytes are left, then a loop
  of byte moves. They are run on the memory of theory \<open>Machine\<close>, so a copy faults when
  either range touches a page that is not mapped.
\<close>

section \<open>copy\_data, copy\_from\_user, copy\_to\_user\<close>

text \<open>\<open>while (size > 4) { *q++ = *p++; size -= 4; }\<close> over \<open>DWord\<close> pointers.\<close>

function copy_dwords ::
  "dword \<Rightarrow> dword \<Rightarrow> int \<Rightarrow> machine \<Rightarrow> (dword \<times> dword \<times> int \<times> machine) option" where
  "copy_dwords p q sz m =
     (if sz > 4 then do {
        v \<leftarrow> load_dword m p;
        m \<leftarrow> store_dword q v m;
        copy_dwords (p + 4) (q + 4) (sz - 4) m }
      else Some (p, q, sz, m))"
  by pat_completeness auto
termination
  by (relation "measure (\<lambda>(p, q, sz, m). nat sz)") auto

text \<open>\<open>while (size > 0) { *q1++ = *p1++; size--; }\<close> over \<open>Byte\<close> pointers.\<close>

function copy_bytes ::
  "dword \<Rightarrow> dword \<Rightarrow> int \<Rightarrow> machine \<Rightarrow> (dword \<times> dword \<times> int \<times> machine) option" where
  "copy_bytes p q sz m =
     (if sz > 0 then do {
        v \<leftarrow> load_byte m p;
        m \<leftarrow> store_byte q v m;
        copy_bytes (p + 1) (q + 1) (sz - 1) m }
      else Some (p, q, sz, m))"
  by pat_completeness auto
termination
  by (relation "measure (\<lambda>(p, q, sz, m). nat sz)") auto

declare copy_dwords.simps [simp del] copy_bytes.simps [simp del]

definition copy_data :: "dword \<Rightarrow> dword \<Rightarrow> int \<Rightarrow> machine \<Rightarrow> machine option" where
  "copy_data start dest sz m = do {
     (p, q, sz, m) \<leftarrow> copy_dwords start dest sz m;
     (p, q, sz, m) \<leftarrow> copy_bytes p q sz m;
     Some m }"

definition copy_from_user :: "dword \<Rightarrow> dword \<Rightarrow> int \<Rightarrow> machine \<Rightarrow> (int \<times> machine) option" where
  "copy_from_user start dest sz m = do {
     (p, q, sz, m) \<leftarrow> copy_dwords start dest sz m;
     (p, q, sz, m) \<leftarrow> copy_bytes p q sz m;
     Some (0, m) }"

definition copy_to_user :: "dword \<Rightarrow> dword \<Rightarrow> int \<Rightarrow> machine \<Rightarrow> (int \<times> machine) option" where
  "copy_to_user start dest sz m = do {
     (p, q, sz, m) \<leftarrow> copy_dwords start dest sz m;
     (p, q, sz, m) \<leftarrow> copy_bytes p q sz m;
     Some (0, m) }"

text \<open>
  The reference: the byte at physical address \<open>P i\<close> goes to \<open>Q i\<close>, for every \<open>i\<close> below
  \<open>n\<close>. \<open>mapped m va n P\<close> says that the \<open>n\<close> bytes from \<open>va\<close> on are mapped, at \<open>P\<close>.
\<close>

definition blit :: "(nat \<Rightarrow> nat) \<Rightarrow> (nat \<Rightarrow> nat) \<Rightarrow> nat list \<Rightarrow> (nat \<Rightarrow> byte) \<Rightarrow> nat \<Rightarrow> byte" where
  "blit P Q is r = fold (\<lambda>i r. r(Q i := r (P i))) is r"

definition mapped :: "machine \<Rightarrow> dword \<Rightarrow> nat \<Rightarrow> (nat \<Rightarrow> nat) \<Rightarrow> bool" where
  "mapped m va n P \<longleftrightarrow> (\<forall>i<n. translate m (va + of_nat i) = Some (P i))"

lemma mapped_ram [simp]: "mapped (m\<lparr>ram := r\<rparr>) va n P = mapped m va n P"
  by (simp add: mapped_def)

lemma mappedD: "mapped m va n P \<Longrightarrow> i < n \<Longrightarrow> translate m (va + of_nat i) = Some (P i)"
  by (simp add: mapped_def)

lemma blit_simps [simp]:
  "blit P Q [] r = r" "blit P Q (i # is) r = blit P Q is (r(Q i := r (P i)))"
  "blit P Q (is @ js) r = blit P Q js (blit P Q is r)"
  by (simp_all add: blit_def)

lemma copy_bytes_blit:
  assumes "mapped m p n P" and "mapped m q n Q" and "k \<le> n"
  shows "copy_bytes (p + of_nat k) (q + of_nat k) (int (n - k)) m =
           Some (p + of_nat n, q + of_nat n, 0, m\<lparr>ram := blit P Q [k..<n] (ram m)\<rparr>)"
  using assms
proof (induction "n - k" arbitrary: k m)
  case 0
  then show ?case by (simp add: copy_bytes.simps)
next
  case (Suc d)
  then have k: "k < n" by simp
  let ?m = "m\<lparr>ram := (ram m)(Q k := ram m (P k))\<rparr>"
  have "copy_bytes (p + of_nat (Suc k)) (q + of_nat (Suc k)) (int (n - Suc k)) ?m =
           Some (p + of_nat n, q + of_nat n, 0, ?m\<lparr>ram := blit P Q [Suc k..<n] (ram ?m)\<rparr>)"
    using Suc by (intro Suc.hyps) auto
  moreover have "[k..<n] = k # [Suc k..<n]" using k by (rule upt_conv_Cons)
  ultimately show ?case using k Suc.prems
    by (subst copy_bytes.simps)
      (simp add: mappedD of_nat_diff algebra_simps)
qed

lemma copy_dwords_step:
  assumes m: "mapped m p n P" "mapped m q n Q" and k: "k + 4 \<le> n"
    and disj: "\<And>i j. i < n \<Longrightarrow> j < n \<Longrightarrow> P i \<noteq> Q j"
  shows "do { v \<leftarrow> load_dword m (p + of_nat k); store_dword (q + of_nat k) v m } =
           Some (m\<lparr>ram := blit P Q [k..<k + 4] (ram m)\<rparr>)"
proof -
  have up: "[k..<k + 4] = [k, k + 1, k + 2, k + 3]"
    by (simp add: upt_rec)
  have t: "translate m (p + of_nat k + of_nat j) = Some (P (k + j))"
      "translate m (q + of_nat k + of_nat j) = Some (Q (k + j))" if "j < 4" for j
    using mappedD [OF m(1), of "k + j"] mappedD [OF m(2), of "k + j"] that k
    by (simp_all add: add.assoc)
  note t4 = t [of 0, simplified] t [of 1, simplified] t [of 2, simplified] t [of 3, simplified]
  have d: "P (k + i) \<noteq> Q (k + j)" if "i < 4" "j < 4" for i j
    using disj that k by simp
  note d4 = d [of 1 0] d [of 2 0] d [of 2 1] d [of 3 0] d [of 3 1] d [of 3 2]
  show ?thesis
    using t4 d4 unfolding up
    by (simp add: load_dword_def store_dword_def)
qed

lemma copy_dwords_blit:
  assumes "mapped m p n P" and "mapped m q n Q" and "k \<le> n"
    and "\<And>i j. i < n \<Longrightarrow> j < n \<Longrightarrow> P i \<noteq> Q j"
  shows "\<exists>k'. k \<le> k' \<and> k' \<le> n \<and>
           copy_dwords (p + of_nat k) (q + of_nat k) (int (n - k)) m =
             Some (p + of_nat k', q + of_nat k', int (n - k'),
                   m\<lparr>ram := blit P Q [k..<k'] (ram m)\<rparr>)"
  using assms
proof (induction "n - k" arbitrary: k m rule: less_induct)
  case less
  show ?case
  proof (cases "n - k > 4")
    case False
    then have "\<not> int (n - k) > 4" by simp
    then have "copy_dwords (p + of_nat k) (q + of_nat k) (int (n - k)) m =
        Some (p + of_nat k, q + of_nat k, int (n - k), m)"
      by (simp only: copy_dwords.simps if_False)
    then show ?thesis using less.prems by (intro exI [of _ k]) simp
  next
    case True
    let ?m = "m\<lparr>ram := blit P Q [k..<k + 4] (ram m)\<rparr>"
    have "\<exists>k'. k + 4 \<le> k' \<and> k' \<le> n \<and>
           copy_dwords (p + of_nat (k + 4)) (q + of_nat (k + 4)) (int (n - (k + 4))) ?m =
             Some (p + of_nat k', q + of_nat k', int (n - k'),
                   ?m\<lparr>ram := blit P Q [k + 4..<k'] (ram ?m)\<rparr>)"
      by (rule less.hyps) (use less.prems True in auto)
    then obtain k' where k': "k + 4 \<le> k'" "k' \<le> n"
        "copy_dwords (p + of_nat k + 4) (q + of_nat k + 4) (int (n - k) - 4) ?m =
             Some (p + of_nat k', q + of_nat k', int (n - k'),
                   ?m\<lparr>ram := blit P Q [k + 4..<k'] (ram ?m)\<rparr>)"
      using True by (auto simp: algebra_simps of_nat_diff)
    have "[k..<k'] = [k..<k + 4] @ [k + 4..<k']"
      using k'(1) by (metis le_add1 le_Suc_ex upt_add_eq_append)
    moreover have "copy_dwords (p + of_nat k) (q + of_nat k) (int (n - k)) m =
        do { m \<leftarrow> do { v \<leftarrow> load_dword m (p + of_nat k); store_dword (q + of_nat k) v m };
             copy_dwords (p + of_nat k + 4) (q + of_nat k + 4) (int (n - k) - 4) m }"
      using True by (subst copy_dwords.simps) (simp del: of_nat_diff)
    ultimately show ?thesis
      using k' copy_dwords_step [of m p n P q Q k] less.prems True
      by (intro exI [of _ k']) simp
  qed
qed

text \<open>The shared body, as one block move.\<close>

lemma copy_loops_blit:
  assumes m: "mapped m p n P" "mapped m q n Q"
    and disj: "\<And>i j. i < n \<Longrightarrow> j < n \<Longrightarrow> P i \<noteq> Q j"
  shows "do { (p, q, sz, m) \<leftarrow> copy_dwords p q (int n) m; copy_bytes p q sz m } =
           Some (p + of_nat n, q + of_nat n, 0, m\<lparr>ram := blit P Q [0..<n] (ram m)\<rparr>)"
proof -
  obtain k where k: "k \<le> n" "copy_dwords p q (int n) m =
      Some (p + of_nat k, q + of_nat k, int (n - k), m\<lparr>ram := blit P Q [0..<k] (ram m)\<rparr>)"
    using copy_dwords_blit [OF m, of 0] disj by auto
  have "[0..<n] = [0..<k] @ [k..<n]" using k(1) by (metis le0 le_Suc_ex upt_add_eq_append)
  then show ?thesis
    using k copy_bytes_blit [of "m\<lparr>ram := blit P Q [0..<k] (ram m)\<rparr>" p n P q Q k] m
    by simp
qed

lemma blit_disjoint:
  assumes "\<And>i j. i < n \<Longrightarrow> j < n \<Longrightarrow> P i \<noteq> Q j" and "inj_on Q {..<n}"
  shows "(\<forall>i<n. blit P Q [0..<n] r (Q i) = r (P i)) \<and>
         (\<forall>a. a \<notin> Q ` {..<n} \<longrightarrow> blit P Q [0..<n] r a = r a)"
proof -
  have "k \<le> n \<Longrightarrow> (\<forall>i<k. blit P Q [0..<k] r (Q i) = r (P i)) \<and>
         (\<forall>a. a \<notin> Q ` {..<k} \<longrightarrow> blit P Q [0..<k] r a = r a)" for k
  proof (induction k)
    case 0
    then show ?case by simp
  next
    case (Suc k)
    then have IH: "\<And>i. i < k \<Longrightarrow> blit P Q [0..<k] r (Q i) = r (P i)"
        "\<And>a. a \<notin> Q ` {..<k} \<Longrightarrow> blit P Q [0..<k] r a = r a" by simp_all
    have "blit P Q [0..<k] r (P k) = r (P k)"
    proof (intro IH(2) notI)
      assume "P k \<in> Q ` {..<k}"
      then obtain j where "j < k" "P k = Q j" by auto
      then show False using assms(1) [of k j] Suc.prems by simp
    qed
    moreover have "Q i \<noteq> Q k" if "i < k" for i
      using inj_onD [OF assms(2), of i k] that Suc.prems by auto
    ultimately show ?case using IH by (auto simp: less_Suc_eq lessThan_Suc)
  qed
  then show ?thesis by blast
qed

section \<open>access\_ok\<close>

abbreviation (input) VERIFY_READ :: int where
  "VERIFY_READ \<equiv> 0"

abbreviation (input) VERIFY_WRITE :: int where
  "VERIFY_WRITE \<equiv> 1"

text \<open>
  The \<open>switch\<close> has no \<open>break\<close> after the \<open>VERIFY_WRITE\<close> case: when the test of that case
  fails, control falls through to the test of the default case.
\<close>

definition access_ok :: "int \<Rightarrow> dword \<Rightarrow> dword \<Rightarrow> int" where
  "access_ok type addr sz =
     (let addr_ini = drop_bit 12 addr;
          addr_fin = drop_bit 12 (addr + sz)
      in if addr_fin < addr_ini then 0
         else if type = VERIFY_WRITE \<and>
                 addr_ini \<ge> PAG_LOG_INIT_DATA \<and>
                 addr_fin \<le> PAG_LOG_INIT_DATA + of_nat NUM_PAG_DATA then 1
         else if addr_ini \<ge> PAG_LOG_INIT_DATA \<and>
                 addr_fin \<le> PAG_LOG_INIT_DATA + of_nat NUM_PAG_CODE + of_nat NUM_PAG_DATA then 1
         else 0)"

section \<open>Properties\<close>

lemma copy_data_blit:
  assumes "mapped m p n P" and "mapped m q n Q"
    and "\<And>i j. i < n \<Longrightarrow> j < n \<Longrightarrow> P i \<noteq> Q j"
  shows "copy_data p q (int n) m = Some (m\<lparr>ram := blit P Q [0..<n] (ram m)\<rparr>)"
    and "copy_from_user p q (int n) m = Some (0, m\<lparr>ram := blit P Q [0..<n] (ram m)\<rparr>)"
    and "copy_to_user p q (int n) m = Some (0, m\<lparr>ram := blit P Q [0..<n] (ram m)\<rparr>)"
  using copy_loops_blit [OF assms]
  by (auto simp: copy_data_def copy_from_user_def copy_to_user_def bind_eq_Some_conv
      split: prod.splits)

text \<open>
  C38. A copy between mapped ranges that do not overlap in physical memory succeeds,
  whatever the length and the alignment; each of the three routines then leaves in every
  destination byte the source byte it had before the call, and touches nothing else. The two copies that report a status report success.
\<close>

theorem copy_routines_copy:
  assumes "mapped m src n P" and "mapped m dst n Q"
    and "P ` {..<n} \<inter> Q ` {..<n} = {}" and "inj_on Q {..<n}"
  shows "\<exists>r. copy_data src dst (int n) m = Some (m\<lparr>ram := r\<rparr>) \<and>
           copy_from_user src dst (int n) m = Some (0, m\<lparr>ram := r\<rparr>) \<and>
           copy_to_user src dst (int n) m = Some (0, m\<lparr>ram := r\<rparr>) \<and>
           (\<forall>i<n. r (Q i) = ram m (P i)) \<and> (\<forall>a. a \<notin> Q ` {..<n} \<longrightarrow> r a = ram m a)"
proof -
  have d: "\<And>i j. i < n \<Longrightarrow> j < n \<Longrightarrow> P i \<noteq> Q j" using assms(3) by blast
  show ?thesis
    using copy_data_blit [where P = P and Q = Q, OF assms(1,2) d]
      blit_disjoint [where P = P and Q = Q and r = "ram m", OF d assms(4)]
    by (intro exI [of _ "blit P Q [0..<n] (ram m)"]) blast
qed

text \<open>
  A machine for the witnesses: the directory (frame 1) sends every entry to the table in
  frame 2, which maps every page of the first 4 MB to itself.
\<close>

definition flat_machine :: machine where
  "flat_machine = \<lparr>ram = (\<lambda>a. of_nat a),
     tables = (\<lambda>f i. set_ss_pag (\<lambda>_. 0) i (if f = 1 then 2 else i) 0 i), cr3 = 1,
     cr0 = 0x80000001\<rparr>"

lemma flat_machine_translate:
  "translate flat_machine va = Some (unat (take_bit 10 (drop_bit 12 va)) * 4096 + unat (take_bit 12 va))"
proof -
  have b: "unat (take_bit 10 (drop_bit 12 va)) < 1024"
    using take_bit_nat_less_exp [of 10 "unat (drop_bit 12 va)"] by (simp add: unsigned_take_bit_eq)
  have "present (tables flat_machine f) i" for f i
    by (simp add: flat_machine_def present_def set_ss_pag_entry)
  moreover have "get_frame (tables flat_machine 1) i = 2" for i
    using get_frame_set_ss_pag [of 2 "\<lambda>_. 0" i 0] by (simp add: flat_machine_def get_frame_def)
  moreover have "get_frame (tables flat_machine 2) i = i" if "i < 1024" for i
    using get_frame_set_ss_pag [of i "\<lambda>_. 0" i 0] that by (simp add: flat_machine_def get_frame_def)
  moreover have "cr3 flat_machine = 1" "paging flat_machine"
    by (simp_all add: flat_machine_def paging_def)
  ultimately show ?thesis using b
    by (simp add: translate_def Let_def table_index_def page_offset_def)
qed

lemma flat_machine_mapped:
  "mapped flat_machine 0x1000 6 (\<lambda>i. 0x1000 + i)" "mapped flat_machine 0x3FFD 6 (\<lambda>i. 0x3FFD + i)"
proof -
  have six: "i = 0 \<or> i = 1 \<or> i = 2 \<or> i = 3 \<or> i = 4 \<or> i = 5" if "i < 6" for i :: nat
    using that by linarith
  show "mapped flat_machine 0x1000 6 (\<lambda>i. 0x1000 + i)"
    unfolding mapped_def flat_machine_translate by (auto dest!: six)
  show "mapped flat_machine 0x3FFD 6 (\<lambda>i. 0x3FFD + i)"
    unfolding mapped_def flat_machine_translate by (auto dest!: six)
qed

theorem copy_routines_copy_witness:
  "\<exists>r. copy_data 0x1000 0x3FFD 6 flat_machine = Some (flat_machine\<lparr>ram := r\<rparr>) \<and>
       r 0x4002 = ram flat_machine 0x1005 \<and> r 0x4003 = ram flat_machine 0x4003"
proof -
  have "(\<lambda>i. 0x1000 + i) ` {..<6::nat} \<inter> (\<lambda>i. 0x3FFD + i) ` {..<6::nat} = {}"
    by auto
  moreover have "inj_on (\<lambda>i. 0x3FFD + i) {..<6::nat}" by (simp add: inj_on_def)
  ultimately obtain r where r: "copy_data 0x1000 0x3FFD (int 6) flat_machine = Some (flat_machine\<lparr>ram := r\<rparr>)"
      "\<forall>i<6. r (0x3FFD + i) = ram flat_machine (0x1000 + i)"
      "\<forall>a. a \<notin> (\<lambda>i. 0x3FFD + i) ` {..<6} \<longrightarrow> r a = ram flat_machine a"
    using copy_routines_copy [OF flat_machine_mapped] by meson
  have "r (0x3FFD + 5) = ram flat_machine (0x1000 + 5)" by (rule r(2) [rule_format]) simp
  moreover have "r 0x4003 = ram flat_machine 0x4003" by (rule r(3) [rule_format]) auto
  ultimately show ?thesis using r(1) by auto
qed

lemma unat_add_no_wrap:
  "unat (a :: dword) + unat b < 2 ^ 32 \<Longrightarrow> unat (a + b) = unat a + unat b"
  by (simp add: unat_word_ariths)

lemma access_ok_pages:
  "access_ok type addr sz =
     (if 0x800 \<le> unat addr div 4096 \<and> unat addr div 4096 \<le> unat (addr + sz) div 4096 \<and>
         unat (addr + sz) div 4096 \<le> 0x81C then 1 else 0)"
proof -
  have pg: "unat (drop_bit 12 a) = unat a div 4096" for a :: dword
    unfolding unat_drop_bit_eq by (simp add: drop_bit_eq_div)
  have "unat (PAG_LOG_INIT_DATA :: dword) = 0x800"
    "unat (PAG_LOG_INIT_DATA + of_nat NUM_PAG_DATA :: dword) = 0x814"
    "unat (PAG_LOG_INIT_DATA + of_nat NUM_PAG_CODE + of_nat NUM_PAG_DATA :: dword) = 0x81C"
    by simp_all
  then show ?thesis
    unfolding access_ok_def Let_def word_le_nat_alt word_less_nat_alt pg by auto
qed

text \<open>
  C39. For a range that does not wrap around the address space, the check accepts exactly
  the ranges inside \<open>[0x800000, 0x81D000)\<close>, whatever the type of access. The user image ends
  at \<open>0x81C000\<close>, so one page beyond it is accepted, and writes to the code pages are accepted
  as reads are: the case for writing falls through.
\<close>

theorem access_ok_range:
  assumes "unat addr + unat sz < 2 ^ 32"
  shows "access_ok type addr sz =
           (if 0x800000 \<le> unat addr \<and> unat addr + unat sz < 0x81D000 then 1 else 0)"
  unfolding access_ok_pages unat_add_no_wrap [OF assms] by auto

theorem access_ok_range_witness:
  "access_ok VERIFY_WRITE 0x81C010 0xFE0 = 1 \<and> access_ok VERIFY_READ 0x81C010 0xFF0 = 0"
  using access_ok_range [of "0x81C010" "0xFE0" 1] access_ok_range [of "0x81C010" "0xFF0" 0] by simp

text \<open>
  The test for overflow compares page numbers, so a size that wraps around the whole
  address space into the page it started from passes: such a range covers the kernel.
\<close>

theorem access_ok_wraps:
  assumes "0x800000 \<le> unat addr" and "unat addr < 0x81C000" and "unat addr mod 4096 \<noteq> 0"
  shows "\<exists>sz. unat addr + unat sz \<ge> 2 ^ 32 \<and> access_ok type addr sz = 1"
proof -
  let ?sz = "- 1 :: dword"
  have "unat (addr + ?sz) = unat addr - 1"
    using assms(1) unat_minus_one [of addr] by (cases "addr = 0") simp_all
  moreover have "(unat addr - 1) div 4096 = unat addr div 4096"
    using assms(3) by (cases "unat addr") (simp_all add: div_Suc)
  moreover have "2048 \<le> unat addr div 4096" "unat addr div 4096 \<le> 2076"
    using div_le_mono [OF assms(1), of 4096] div_le_mono [of "unat addr" "0x81C000" 4096] assms(2)
    by simp_all
  ultimately have "access_ok type addr ?sz = 1"
    unfolding access_ok_pages by (simp only: if_True order_refl simp_thms)
  moreover have "unat addr + unat ?sz \<ge> 2 ^ 32"
    using assms(1) by (simp add: unsigned_minus_1_eq_mask mask_eq_exp_minus_1)
  ultimately show ?thesis by blast
qed

theorem access_ok_wraps_witness: "\<exists>sz. access_ok VERIFY_WRITE 0x800FFF sz = 1"
  using access_ok_wraps [of "0x800FFF" 1] by auto

end
