(* ===== verification/Keyboard.thy ===== *)
theory Keyboard
  imports Utils
begin

text \<open>
  The circular keyboard buffer of \<open>devices.c\<close>: the byte array, the positions of the next
  write and the next read, and the number of bytes stored. The buffer implements a queue of
  at most 256 bytes, \<open>kbd_contents\<close>; the locale \<open>byte_fifo\<close> states that contract, and what
  follows from it for any interleaving of the interrupt that writes and the readers. \<open>kbd_buf_write\<close> as a
  whole, with the wake-up of a blocked reader, is in theory \<open>Blocking\<close>.
\<close>

section \<open>The contract of a bounded queue of bytes\<close>

datatype 'b fifo_event = Put 'b | Take

locale byte_fifo =
  fixes inv :: "'k \<Rightarrow> bool"
    and contents :: "'k \<Rightarrow> 'b list"
    and put :: "'b \<Rightarrow> 'k \<Rightarrow> 'k"
    and pop :: "'k \<Rightarrow> 'b \<times> 'k"
    and cap :: nat
  assumes put_inv: "inv k \<Longrightarrow> inv (put b k)"
    and put_contents: "inv k \<Longrightarrow>
          contents (put b k) = (if length (contents k) < cap then contents k @ [b] else contents k)"
    and pop_inv: "inv k \<Longrightarrow> contents k \<noteq> [] \<Longrightarrow> inv (snd (pop k))"
    and pop_contents: "inv k \<Longrightarrow> contents k \<noteq> [] \<Longrightarrow> contents k = fst (pop k) # contents (snd (pop k))"
begin

text \<open>A run of events: the bytes accepted, the bytes delivered and the buffer left.\<close>

fun run :: "'b fifo_event list \<Rightarrow> 'k \<Rightarrow> 'b list \<times> 'b list \<times> 'k" where
  "run [] k = ([], [], k)"
| "run (Put b # es) k =
     (let acc = (if length (contents k) < cap then [b] else []); (a, d, k') = run es (put b k)
      in (acc @ a, d, k'))"
| "run (Take # es) k =
     (if contents k = [] then run es k
      else let (b, k1) = pop k; (a, d, k') = run es k1 in (a, b # d, k'))"

text \<open>Nothing is lost, duplicated or reordered.\<close>

lemma run_order:
  assumes "inv k"
  shows "let (a, d, k') = run es k in inv k' \<and> contents k @ a = d @ contents k'"
  using assms
proof (induction es k rule: run.induct)
  case (1 k)
  then show ?case by simp
next
  case (2 b es k)
  then show ?case
    using put_inv [of k b] put_contents [of k b] by (fastforce simp: Let_def split: prod.splits if_splits)
next
  case (3 es k)
  show ?case
  proof (cases "contents k = []")
    case True
    then show ?thesis using 3 by simp
  next
    case False
    obtain b k1 where p: "pop k = (b, k1)" by (cases "pop k")
    then have "inv k1" "contents k = b # contents k1"
      using pop_inv [of k] pop_contents [of k] 3(3) False by auto
    then show ?thesis using 3(2) [OF False p [symmetric]] False p
      by (auto simp: Let_def split: prod.splits)
  qed
qed

text \<open>Taking everything that is asked for and there.\<close>

fun drain :: "nat \<Rightarrow> 'k \<Rightarrow> 'b list \<times> 'k" where
  "drain 0 k = ([], k)"
| "drain (Suc n) k =
     (if contents k = [] then ([], k)
      else let (b, k1) = pop k; (bs, k') = drain n k1 in (b # bs, k'))"

lemma drain_take:
  assumes "inv k"
  shows "fst (drain n k) = take n (contents k) \<and>
         contents (snd (drain n k)) = drop n (contents k) \<and> inv (snd (drain n k))"
  using assms
proof (induction n arbitrary: k)
  case 0
  then show ?case by simp
next
  case (Suc n)
  show ?case
  proof (cases "contents k = []")
    case True
    then show ?thesis using Suc.prems by simp
  next
    case False
    obtain b k1 where p: "pop k = (b, k1)" by (cases "pop k")
    then have "inv k1" "contents k = b # contents k1"
      using pop_inv [of k] pop_contents [of k] Suc.prems False by auto
    then show ?thesis using Suc.IH [of k1] False p by (simp add: case_prod_beta)
  qed
qed

end

section \<open>The circular buffer\<close>

abbreviation (input) KEYBOARD_BUF_SIZE :: int where
  "KEYBOARD_BUF_SIZE \<equiv> 256"

abbreviation (input) KBD_MASK :: int where
  "KBD_MASK \<equiv> 255"

record kbd =
  kbd_buf :: "nat \<Rightarrow> byte"
  kbd_head :: int
  kbd_tail :: int
  kbd_count :: int

text \<open>The store of \<open>kbd_buf_write\<close>, after its test for a full buffer.\<close>

definition kbd_put :: "byte \<Rightarrow> kbd \<Rightarrow> kbd" where
  "kbd_put c k =
     (if kbd_count k \<ge> KEYBOARD_BUF_SIZE then k
      else k\<lparr>kbd_buf := (kbd_buf k)(nat (kbd_head k) := c),
             kbd_head := (kbd_head k + 1) AND KBD_MASK,
             kbd_count := kbd_count k + 1\<rparr>)"

text \<open>The body of the loop of \<open>kbd_buf_read\<close>, but for the store into \<open>dst\<close>.\<close>

definition kbd_pop :: "kbd \<Rightarrow> byte \<times> kbd" where
  "kbd_pop k =
     (kbd_buf k (nat (kbd_tail k)),
      k\<lparr>kbd_tail := (kbd_tail k + 1) AND KBD_MASK, kbd_count := kbd_count k - 1\<rparr>)"

function kbd_read_loop ::
  "dword \<Rightarrow> int \<Rightarrow> int \<Rightarrow> kbd \<Rightarrow> machine \<Rightarrow> (int \<times> kbd \<times> machine) option" where
  "kbd_read_loop dst n copied k m =
     (if copied < n \<and> kbd_count k > 0 then do {
        (c, k) \<leftarrow> Some (kbd_pop k);
        m \<leftarrow> store_byte (dst + of_int copied) c m;
        kbd_read_loop dst n (copied + 1) k m }
      else Some (copied, k, m))"
  by pat_completeness auto
termination
  by (relation "measure (\<lambda>(dst, n, copied, k, m). nat (n - copied))") auto

declare kbd_read_loop.simps [simp del]

definition kbd_buf_read :: "dword \<Rightarrow> int \<Rightarrow> kbd \<Rightarrow> machine \<Rightarrow> (int \<times> kbd \<times> machine) option" where
  "kbd_buf_read dst n k m = kbd_read_loop dst n 0 k m"

definition kbd_buf_flush :: "kbd \<Rightarrow> kbd" where
  "kbd_buf_flush k = k\<lparr>kbd_head := 0, kbd_tail := 0, kbd_count := 0\<rparr>"

section \<open>Refinement of the bounded queue\<close>

definition kbd_ok :: "kbd \<Rightarrow> bool" where
  "kbd_ok k \<longleftrightarrow> 0 \<le> kbd_tail k \<and> kbd_tail k < 256 \<and> 0 \<le> kbd_count k \<and> kbd_count k \<le> 256 \<and>
     kbd_head k = (kbd_tail k + kbd_count k) mod 256"

definition kbd_contents :: "kbd \<Rightarrow> byte list" where
  "kbd_contents k = map (\<lambda>i. kbd_buf k (nat ((kbd_tail k + int i) mod 256))) [0..<nat (kbd_count k)]"

lemma and_mask_256: "x AND KBD_MASK = x mod 256" for x :: int
  using take_bit_eq_mask [of 8 x] take_bit_eq_mod [of 8 x] by (simp add: mask_eq_exp_minus_1)

lemma length_kbd_contents [simp]: "length (kbd_contents k) = nat (kbd_count k)"
  by (simp add: kbd_contents_def)

lemma kbd_ok_put:
  assumes "kbd_ok k"
  shows "kbd_ok (kbd_put c k)"
  using assms by (auto simp: kbd_ok_def kbd_put_def and_mask_256 mod_simps add.assoc)

lemma kbd_contents_put:
  assumes ok: "kbd_ok k"
  shows "kbd_contents (kbd_put c k) =
           (if length (kbd_contents k) < 256 then kbd_contents k @ [c] else kbd_contents k)"
proof (cases "kbd_count k < 256")
  case False
  then show ?thesis using ok by (simp add: kbd_put_def kbd_ok_def)
next
  case True
  have ne: "nat ((kbd_tail k + int i) mod 256) \<noteq> nat ((kbd_tail k + kbd_count k) mod 256)"
    if "i < nat (kbd_count k)" for i
  proof
    assume eq: "nat ((kbd_tail k + int i) mod 256) = nat ((kbd_tail k + kbd_count k) mod 256)"
    have "(kbd_tail k + int i) mod 256 = (kbd_tail k + kbd_count k) mod 256"
      using eq by (simp add: nat_eq_iff2)
    then have "256 dvd (kbd_count k - int i)"
      by (metis add_diff_cancel_left mod_eq_dvd_iff)
    moreover have "0 < kbd_count k - int i" "kbd_count k - int i < 256" using that True by linarith+
    ultimately show False using zdvd_not_zless by blast
  qed
  have "nat (kbd_count k + 1) = Suc (nat (kbd_count k))" using ok by (simp add: kbd_ok_def nat_add_distrib)
  then show ?thesis
    using ok True ne by (simp add: kbd_put_def kbd_contents_def kbd_ok_def)
qed

lemma kbd_pop_ok:
  assumes ok: "kbd_ok k" and ne: "kbd_contents k \<noteq> []"
  shows "kbd_ok (snd (kbd_pop k))"
    and "kbd_contents k = fst (kbd_pop k) # kbd_contents (snd (kbd_pop k))"
proof -
  have c: "kbd_count k > 0" using ne by (simp add: kbd_contents_def)
  then show "kbd_ok (snd (kbd_pop k))"
    using ok by (auto simp: kbd_ok_def kbd_pop_def and_mask_256 mod_simps)
  have n: "nat (kbd_count k) = Suc (nat (kbd_count k - 1))" using c by simp
  have "(kbd_tail k + 1) mod 256 + int i = kbd_tail k + int (Suc i) \<or>
      ((kbd_tail k + 1) mod 256 + int i) mod 256 = (kbd_tail k + int (Suc i)) mod 256" for i
    by (simp add: mod_add_left_eq add.assoc)
  then have s: "((kbd_tail k + 1) mod 256 + int i) mod 256 = (kbd_tail k + int (Suc i)) mod 256" for i
    by metis
  have z: "(kbd_tail k + int 0) mod 256 = kbd_tail k" using ok by (simp add: kbd_ok_def)
  have f: "kbd_buf (snd (kbd_pop k)) = kbd_buf k"
    "kbd_tail (snd (kbd_pop k)) = (kbd_tail k + 1) mod 256"
    "kbd_count (snd (kbd_pop k)) = kbd_count k - 1"
    "fst (kbd_pop k) = kbd_buf k (nat (kbd_tail k))"
    by (simp_all add: kbd_pop_def and_mask_256)
  show "kbd_contents k = fst (kbd_pop k) # kbd_contents (snd (kbd_pop k))"
    unfolding kbd_contents_def n map_upt_Suc z by (simp only: f s)
qed

interpretation kq: byte_fifo kbd_ok kbd_contents kbd_put kbd_pop 256
proof unfold_locales
  fix k b assume "kbd_ok k"
  then show "kbd_ok (kbd_put b k)"
    and "kbd_contents (kbd_put b k) =
      (if length (kbd_contents k) < 256 then kbd_contents k @ [b] else kbd_contents k)"
    by (rule kbd_ok_put, rule kbd_contents_put)
next
  fix k assume "kbd_ok k" "kbd_contents k \<noteq> []"
  then show "kbd_ok (snd (kbd_pop k))"
    and "kbd_contents k = fst (kbd_pop k) # kbd_contents (snd (kbd_pop k))"
    by (rule kbd_pop_ok)+
qed

section \<open>Reading and the order of the bytes\<close>

lemma kbd_read_loop_delivers:
  assumes "kbd_ok k" and "c \<le> n" and "t = min (n - c) (length (kbd_contents k))"
    and "mapped m dst (c + t) Q" and "inj_on Q {..<c + t}"
  shows "\<exists>k' r. kbd_read_loop dst (int n) (int c) k m = Some (int (c + t), k', m\<lparr>ram := r\<rparr>) \<and>
           kbd_ok k' \<and> kbd_contents k' = drop t (kbd_contents k) \<and>
           (\<forall>i<t. r (Q (c + i)) = kbd_contents k ! i) \<and>
           (\<forall>a. a \<notin> Q ` {c..<c + t} \<longrightarrow> r a = ram m a)"
  using assms
proof (induction t arbitrary: c k m)
  case 0
  then have "\<not> (int c < int n \<and> kbd_count k > 0)" by (auto simp: kbd_ok_def)
  then show ?case using 0 by (subst kbd_read_loop.simps) (auto intro!: exI [of _ "ram m"])
next
  case (Suc t)
  then have lt: "c < n" "kbd_count k > 0" and ne: "kbd_contents k \<noteq> []"
    by (auto simp: kbd_ok_def simp flip: length_0_conv)
  obtain b k1 where p: "kbd_pop k = (b, k1)" by (cases "kbd_pop k")
  have k1: "kbd_ok k1" "kbd_contents k = b # kbd_contents k1"
    using kq.pop_inv [OF Suc.prems(1) ne] kq.pop_contents [OF Suc.prems(1) ne] p by simp_all
  let ?m1 = "m\<lparr>ram := (ram m)(Q c := b)\<rparr>"
  have "translate m (dst + of_nat c) = Some (Q c)"
    using Suc.prems(4) by (simp add: mappedD)
  then have st: "store_byte (dst + of_int (int c)) b m = Some ?m1" by simp
  have t: "t = min (n - Suc c) (length (kbd_contents k1))"
    using Suc.prems(3) lt k1(2) by (simp del: length_kbd_contents)
  obtain k' r where IH: "kbd_read_loop dst (int n) (int (Suc c)) k1 ?m1
        = Some (int (Suc c + t), k', ?m1\<lparr>ram := r\<rparr>)" "kbd_ok k'"
      "kbd_contents k' = drop t (kbd_contents k1)"
      "\<And>i. i < t \<Longrightarrow> r (Q (Suc c + i)) = kbd_contents k1 ! i"
      "\<And>a. a \<notin> Q ` {Suc c..<Suc c + t} \<Longrightarrow> r a = ram ?m1 a"
    using Suc.IH [OF k1(1) _ t, of ?m1] Suc.prems(4,5) lt by fastforce
  have "Q c \<notin> Q ` {Suc c..<Suc c + t}"
    using inj_onD [OF Suc.prems(5), of c] by fastforce
  then have "r (Q c) = b" using IH(5) by simp
  then have "\<forall>i<Suc t. r (Q (c + i)) = kbd_contents k ! i"
    using IH(4) k1(2) by (auto simp: less_Suc_eq_0_disj)
  moreover have "\<forall>a. a \<notin> Q ` {c..<c + Suc t} \<longrightarrow> r a = ram m a"
  proof (intro allI impI)
    fix a assume "a \<notin> Q ` {c..<c + Suc t}"
    then have "a \<notin> Q ` {Suc c..<Suc c + t}" "a \<noteq> Q c" by auto
    then show "r a = ram m a" using IH(5) by simp
  qed
  moreover have "kbd_read_loop dst (int n) (int c) k m = Some (int (c + Suc t), k', m\<lparr>ram := r\<rparr>)"
    using lt p st IH(1) by (subst kbd_read_loop.simps) (simp add: add.commute)
  ultimately show ?case using IH(2,3) k1(2) by auto
qed

text \<open>Keys pressed and bytes read, in the order in which they happen.\<close>

fun kbd_events :: "byte fifo_event list \<Rightarrow> kbd \<Rightarrow> byte list \<times> byte list \<times> kbd" where
  "kbd_events [] k = ([], [], k)"
| "kbd_events (Put b # es) k =
     (let (a, d, k') = kbd_events es (kbd_put b k)
      in (if kbd_count k < KEYBOARD_BUF_SIZE then b # a else a, d, k'))"
| "kbd_events (Take # es) k =
     (if kbd_count k > 0 then
        let (b, k1) = kbd_pop k; (a, d, k') = kbd_events es k1 in (a, b # d, k')
      else kbd_events es k)"

lemma kbd_events_run: "kbd_ok k \<Longrightarrow> kbd_events es k = kq.run es k"
proof (induction es k rule: kbd_events.induct)
  case (1 k)
  then show ?case by simp
next
  case (2 b es k)
  then show ?case using kbd_ok_put [OF 2(2), of b]
    by (auto simp: Let_def nat_less_iff kbd_ok_def split: prod.splits)
next
  case (3 es k)
  show ?case
  proof (cases "kbd_count k > 0")
    case True
    then have ne: "kbd_contents k \<noteq> []" by (simp flip: length_0_conv)
    then have "kbd_ok (snd (kbd_pop k))" by (rule kbd_pop_ok [OF 3(3)])
    moreover obtain b k1 where "kbd_pop k = (b, k1)" by (cases "kbd_pop k")
    ultimately show ?thesis using 3(1) [OF True] True ne by (simp add: Let_def)
  next
    case False
    then have "kbd_contents k = []" by (simp flip: length_0_conv)
    then show ?thesis using 3 False by simp
  qed
qed

text \<open>
  \<open>kbd_buf_read\<close> asked for \<open>n\<close> bytes stores the oldest \<open>min n count\<close> bytes of the keyboard
  buffer, in the order they were typed, at the destination, removes exactly those from the
  buffer, returns how many they were and writes nothing else.
\<close>

theorem kbd_buf_read_delivers:
  assumes "kbd_ok k" and "t = min n (length (kbd_contents k))"
    and "mapped m dst t Q" and "inj_on Q {..<t}"
  shows "\<exists>k' r. kbd_buf_read dst (int n) k m = Some (int t, k', m\<lparr>ram := r\<rparr>) \<and>
           kbd_ok k' \<and> kbd_contents k' = drop t (kbd_contents k) \<and>
           (\<forall>i<t. r (Q i) = kbd_contents k ! i) \<and> (\<forall>a. a \<notin> Q ` {..<t} \<longrightarrow> r a = ram m a)"
  using kbd_read_loop_delivers [of k 0 n t m dst Q] assms by (simp add: kbd_buf_read_def atLeast0LessThan)

definition empty_kbd :: kbd where
  "empty_kbd = kbd_buf_flush \<lparr>kbd_buf = (\<lambda>_. 0), kbd_head = 9, kbd_tail = 9, kbd_count = 0\<rparr>"

lemma empty_kbd_ok: "kbd_ok empty_kbd" "kbd_contents empty_kbd = []"
  by (simp_all add: empty_kbd_def kbd_ok_def kbd_contents_def kbd_buf_flush_def)

theorem kbd_buf_read_delivers_witness:
  "\<exists>k' r. kbd_buf_read 0x1000 5 (kbd_put 66 (kbd_put 65 empty_kbd)) flat_machine
      = Some (2, k', flat_machine\<lparr>ram := r\<rparr>) \<and> kbd_contents k' = [] \<and> r 0x1000 = 65 \<and> r 0x1001 = 66"
proof -
  let ?k = "kbd_put 66 (kbd_put 65 empty_kbd)"
  have c: "kbd_contents ?k = [65, 66]" and ok: "kbd_ok ?k"
    by (simp_all add: kbd_contents_put kbd_ok_put empty_kbd_ok)
  have m: "mapped flat_machine 0x1000 2 (\<lambda>i. 0x1000 + i)"
    using flat_machine_mapped(1) by (simp add: mapped_def)
  have n: "(2::nat) = min 5 (length (kbd_contents ?k))" unfolding c by simp
  have i: "inj_on (\<lambda>i. 0x1000 + i) {..<2::nat}" by (simp add: inj_on_def)
  from kbd_buf_read_delivers [OF ok n m i]
  obtain k' r where "kbd_buf_read 0x1000 (int 5) ?k flat_machine
       = Some (int 2, k', flat_machine\<lparr>ram := r\<rparr>)" "kbd_contents k' = drop 2 (kbd_contents ?k)"
     "\<forall>i<2. r (0x1000 + i) = kbd_contents ?k ! i"
    by (elim exE conjE) (rule that)
  moreover from this(3) have "r 0x1000 = 65" "r 0x1001 = 66"
    unfolding c by (auto dest: spec [of _ 0] spec [of _ 1])
  ultimately show ?thesis unfolding c by auto
qed

text \<open>
  C37. Whatever the interleaving of key presses and reads, the bytes delivered followed by the
  bytes still in the buffer are the bytes that were in it followed by those accepted, in
  order: the circular buffer loses only the keys pressed while it is full.
\<close>

theorem keyboard_is_a_queue:
  assumes "kbd_ok k"
  shows "let (accepted, delivered, k') = kbd_events es k
         in kbd_ok k' \<and> kbd_contents k @ accepted = delivered @ kbd_contents k'"
  unfolding kbd_events_run [OF assms] using assms by (rule kq.run_order)

theorem keyboard_is_a_queue_witness:
  "kbd_events [Put 65, Put 66, Take, Take, Take] empty_kbd =
     ([65, 66], [65, 66], snd (snd (kbd_events [Put 65, Put 66, Take, Take, Take] empty_kbd))) \<and>
   (let (a, d, k') = kbd_events [Put 65, Put 66, Take, Take, Take] empty_kbd
    in [] @ a = d @ kbd_contents k')"
proof
  show "let (a, d, k') = kbd_events [Put 65, Put 66, Take, Take, Take] empty_kbd
        in [] @ a = d @ kbd_contents k'"
    using keyboard_is_a_queue [OF empty_kbd_ok(1), of "[Put 65, Put 66, Take, Take, Take]"]
    by (auto simp: empty_kbd_ok Let_def split: prod.splits)
qed (simp add: empty_kbd_def kbd_put_def kbd_pop_def kbd_buf_flush_def)

end
