(* ===== verification/Screen.thy ===== *)
theory Screen
  imports Prelude
begin

text \<open>
  The text screen of \<open>io.c\<close>, with \<open>sys_write_console\<close> of \<open>devices.c\<close>: the cursor, the
  current colour, the cells of the video memory at \<open>0xb8000\<close> (by cell index, 80 to a row)
  and the bytes \<open>bochs_out\<close> has sent to the emulator's port, in order. A store outside the
  2000 visible cells is kept in the model, at its index. \<open>disable_blinking\<close> is port
  input and output only and is not modelled.
\<close>

abbreviation (input) NUM_COLUMNS :: nat where
  "NUM_COLUMNS \<equiv> 80"

abbreviation (input) NUM_ROWS :: nat where
  "NUM_ROWS \<equiv> 25"

record screen =
  scr_x :: byte
  scr_y :: byte
  current_color :: byte
  cells :: "nat \<Rightarrow> hword"
  port_log :: "byte list"

section \<open>The operations\<close>

definition next_row :: "byte \<Rightarrow> byte" where
  "next_row y = of_nat ((unat y + 1) mod NUM_ROWS)"

definition printc :: "byte \<Rightarrow> screen \<Rightarrow> screen" where
  "printc c s =
     (let s = s\<lparr>port_log := port_log s @ [c]\<rparr> in
      if c = 10 then s\<lparr>scr_x := 0, scr_y := next_row (scr_y s)\<rparr>
      else
        let ch = (ucast c AND 0x00FF) OR push_bit 8 (ucast (current_color s)) :: hword;
            s = s\<lparr>cells := (cells s)(unat (scr_y s) * NUM_COLUMNS + unat (scr_x s) := ch)\<rparr>;
            s = s\<lparr>scr_x := scr_x s + 1\<rparr>
        in if unat (scr_x s) \<ge> NUM_COLUMNS then s\<lparr>scr_x := 0, scr_y := next_row (scr_y s)\<rparr>
           else s)"

definition printc_xy :: "byte \<Rightarrow> byte \<Rightarrow> byte \<Rightarrow> screen \<Rightarrow> screen" where
  "printc_xy mx my c s =
     (let cx = scr_x s; cy = scr_y s;
          s = printc c (s\<lparr>scr_x := mx, scr_y := my\<rparr>)
      in s\<lparr>scr_x := cx, scr_y := cy\<rparr>)"

text \<open>\<open>printk\<close> of the bytes of a string before its terminator.\<close>

fun printk :: "byte list \<Rightarrow> screen \<Rightarrow> screen" where
  "printk [] s = s"
| "printk (c # cs) s = (if c = 0 then s else printk cs (printc c s))"

definition sys_gotoxy :: "int \<Rightarrow> int \<Rightarrow> screen \<Rightarrow> int \<times> screen" where
  "sys_gotoxy col row s =
     (if col < 0 \<or> col \<ge> int NUM_COLUMNS then (- EINVAL, s)
      else if row < 0 \<or> row \<ge> int NUM_ROWS then (- EINVAL, s)
      else (0, s\<lparr>scr_x := of_int col, scr_y := of_int row\<rparr>))"

definition sys_set_color :: "int \<Rightarrow> int \<Rightarrow> screen \<Rightarrow> int \<times> screen" where
  "sys_set_color fg bg s =
     (if fg < 0 \<or> fg > 15 then (- EINVAL, s)
      else if bg < 0 \<or> bg > 15 then (- EINVAL, s)
      else (0, s\<lparr>current_color := of_int (push_bit 4 bg OR (fg AND 0x0F))\<rparr>))"

text \<open>\<open>sys_write_console\<close> of \<open>devices.c\<close>; the \<open>size\<close> bytes of the kernel buffer are given.\<close>

definition sys_write_console :: "byte list \<Rightarrow> screen \<Rightarrow> int \<times> screen" where
  "sys_write_console buffer s = (int (length buffer), fold printc buffer s)"

definition initial_screen :: screen where
  "initial_screen = \<lparr>scr_x = 0, scr_y = 19, current_color = 0x02, cells = (\<lambda>_. 0), port_log = []\<rparr>"

section \<open>The cursor stays on the screen\<close>

definition screen_ok :: "screen \<Rightarrow> bool" where
  "screen_ok s \<longleftrightarrow> unat (scr_x s) < NUM_COLUMNS \<and> unat (scr_y s) < NUM_ROWS"

text \<open>The cell index of the cursor.\<close>

definition cursor :: "screen \<Rightarrow> nat" where
  "cursor s = unat (scr_y s) * NUM_COLUMNS + unat (scr_x s)"

text \<open>The cell a character is shown in: the character below, the colour above.\<close>

definition cell_of :: "byte \<Rightarrow> byte \<Rightarrow> hword" where
  "cell_of color c = (ucast c AND 0x00FF) OR push_bit 8 (ucast color)"

lemma unat_next_row [simp]: "unat (next_row y) = (unat y + 1) mod NUM_ROWS"
  by (simp add: next_row_def unat_of_nat)

lemma unat_byte_plus_1: "unat (x :: byte) < 255 \<Longrightarrow> unat (x + 1) = unat x + 1"
  by (simp add: unat_word_ariths)

lemma cursor_bound: "screen_ok s \<Longrightarrow> cursor s < 2000"
  by (auto simp: screen_ok_def cursor_def)

lemma printc_printable:
  assumes ok: "screen_ok s" and c: "c \<noteq> 10"
  shows "screen_ok (printc c s)" and "cursor (printc c s) = (cursor s + 1) mod 2000"
    and "cells (printc c s) = (cells s)(cursor s := cell_of (current_color s) c)"
    and "current_color (printc c s) = current_color s"
proof -
  have x1: "unat (scr_x s + 1) = unat (scr_x s) + 1"
    using ok by (intro unat_byte_plus_1) (simp add: screen_ok_def)
  show "screen_ok (printc c s)"
    using ok c x1 by (auto simp: screen_ok_def printc_def Let_def)
  have "cursor (printc c s) = (if unat (scr_x s) + 1 \<ge> 80 then (unat (scr_y s) + 1) mod 25 * 80
      else unat (scr_y s) * 80 + unat (scr_x s) + 1)"
    using c x1 by (simp add: cursor_def printc_def Let_def)
  moreover have "unat (scr_x s) < 80" "unat (scr_y s) < 25" using ok by (simp_all add: screen_ok_def)
  ultimately show "cursor (printc c s) = (cursor s + 1) mod 2000"
    by (auto simp: cursor_def mod_if)
  show "cells (printc c s) = (cells s)(cursor s := cell_of (current_color s) c)"
    and "current_color (printc c s) = current_color s"
    using c by (simp_all add: printc_def Let_def cursor_def cell_of_def)
qed

lemma screen_ok_printc: "screen_ok s \<Longrightarrow> screen_ok (printc c s)"
  using printc_printable(1) [of s c]
  by (cases "c = 10") (auto simp: screen_ok_def printc_def Let_def)

lemma printc_cells_outside:
  assumes "screen_ok s" and "a \<ge> 2000"
  shows "cells (printc c s) a = cells s a"
proof (cases "c = 10")
  case True
  then show ?thesis by (simp add: printc_def Let_def)
next
  case False
  then show ?thesis using printc_printable(3) [OF assms(1) False] cursor_bound [OF assms(1)] assms(2)
    by auto
qed

lemma fold_printc_ok: "screen_ok s \<Longrightarrow> screen_ok (fold printc cs s)"
  by (induction cs arbitrary: s) (simp_all add: screen_ok_printc)

lemma port_log_printc [simp]: "port_log (printc c s) = port_log s @ [c]"
  by (simp add: printc_def Let_def)

lemma port_log_fold: "port_log (fold printc cs s) = port_log s @ cs"
  by (induction cs arbitrary: s) simp_all

lemma fold_printc_outside:
  "screen_ok s \<Longrightarrow> a \<ge> 2000 \<Longrightarrow> cells (fold printc cs s) a = cells s a"
  by (induction cs arbitrary: s) (simp_all add: screen_ok_printc printc_cells_outside)

text \<open>A run of printable characters fills consecutive cells, from the cursor on.\<close>

lemma fold_printc_printable:
  assumes "screen_ok s" and "10 \<notin> set cs" and "length cs \<le> 2000"
  shows "cursor (fold printc cs s) = (cursor s + length cs) mod 2000 \<and>
         current_color (fold printc cs s) = current_color s \<and>
         (\<forall>i<length cs. cells (fold printc cs s) ((cursor s + i) mod 2000) =
            cell_of (current_color s) (cs ! i))"
  using assms
proof (induction cs rule: rev_induct)
  case Nil
  then show ?case using cursor_bound by simp
next
  case (snoc c cs)
  let ?t = "fold printc cs s"
  have IH: "cursor ?t = (cursor s + length cs) mod 2000" "current_color ?t = current_color s"
      "\<And>i. i < length cs \<Longrightarrow> cells ?t ((cursor s + i) mod 2000) = cell_of (current_color s) (cs ! i)"
    using snoc by auto
  have t: "screen_ok ?t" and c: "c \<noteq> 10" using snoc.prems fold_printc_ok by auto
  note p = printc_printable [OF t c]
  have neq: "(cursor s + i) mod 2000 \<noteq> (cursor s + length cs) mod 2000" if "i < length cs" for i
  proof
    assume "(cursor s + i) mod 2000 = (cursor s + length cs) mod 2000"
    then have "2000 dvd (cursor s + length cs) - (cursor s + i)"
      using that by (subst mod_eq_dvd_iff_nat [symmetric]) auto
    then have "2000 \<le> length cs - i" using that by (auto dest: dvd_imp_le)
    then show False using snoc.prems(3) by simp
  qed
  have "cells (printc c ?t) ((cursor s + i) mod 2000) = cell_of (current_color s) ((cs @ [c]) ! i)"
    if "i < Suc (length cs)" for i
    using that IH p(3) neq by (cases "i = length cs") (auto simp: nth_append)
  then show ?case using p IH by (simp add: mod_simps)
qed

section \<open>Properties\<close>

text \<open>The console operations, and a run of them.\<close>

datatype console_op =
    PutChar byte
  | PutString "byte list"
  | WriteConsole "byte list"
  | GotoXY int int
  | SetColor int int

fun console_exec :: "console_op \<Rightarrow> screen \<Rightarrow> screen" where
  "console_exec (PutChar c) s = printc c s"
| "console_exec (PutString cs) s = printk cs s"
| "console_exec (WriteConsole cs) s = snd (sys_write_console cs s)"
| "console_exec (GotoXY col row) s = snd (sys_gotoxy col row s)"
| "console_exec (SetColor fg bg) s = snd (sys_set_color fg bg s)"

lemma printk_is_fold: "printk cs s = fold printc (takeWhile (\<lambda>c. c \<noteq> 0) cs) s"
  by (induction cs s rule: printk.induct) simp_all

lemma uint_small_byte: "0 \<le> i \<Longrightarrow> i < 256 \<Longrightarrow> unat (word_of_int i :: byte) = nat i"
  by (simp add: unat_eq_nat_uint uint_word_of_int)

lemma console_exec_ok:
  assumes ok: "screen_ok s"
  shows "screen_ok (console_exec c s)"
    and "a \<ge> 2000 \<Longrightarrow> cells (console_exec c s) a = cells s a"
proof -
  have go: "screen_ok (snd (sys_gotoxy col row s))" for col row
    using ok by (auto simp: sys_gotoxy_def screen_ok_def uint_small_byte)
  show "screen_ok (console_exec c s)"
    using ok go by (cases c) (simp_all add: screen_ok_printc printk_is_fold fold_printc_ok
        sys_write_console_def sys_set_color_def screen_ok_def [of "s\<lparr>current_color := _\<rparr>"] screen_ok_def [symmetric])
  show "cells (console_exec c s) a = cells s a" if "a \<ge> 2000"
    using ok that by (cases c) (simp_all add: printc_cells_outside printk_is_fold fold_printc_outside
        sys_write_console_def sys_set_color_def sys_gotoxy_def)
qed

lemma console_run_ok:
  assumes "screen_ok s"
  shows "screen_ok (fold console_exec ops s) \<and>
         (\<forall>a. a \<ge> 2000 \<longrightarrow> cells (fold console_exec ops s) a = cells s a)"
  using assms by (induction ops arbitrary: s) (simp_all add: console_exec_ok)

text \<open>
  Whatever console operations run from the initial screen, whatever their arguments,
  the cursor stays on the 80 by 25 screen and no store leaves the 2000 cells of the video memory.
\<close>

theorem console_stays_on_screen:
  "screen_ok (fold console_exec ops initial_screen) \<and>
   (\<forall>a\<ge>2000. cells (fold console_exec ops initial_screen) a = cells initial_screen a)"
  using console_run_ok [of initial_screen ops] by (simp add: screen_ok_def initial_screen_def)

theorem console_stays_on_screen_witness:
  "cells (fold console_exec [GotoXY 79 24, PutChar 65, PutChar 66] initial_screen) 2000 = 0"
  using console_stays_on_screen [of "[GotoXY 79 24, PutChar 65, PutChar 66]"]
  by (simp add: initial_screen_def)

lemma cell_of_parts:
  "ucast (cell_of color c) = c" "drop_bit 8 (cell_of color c) = ucast color"
proof -
  have m: "(0x00FF :: hword) = mask 8" by (simp add: mask_eq_exp_minus_1)
  show "ucast (cell_of color c) = c" "drop_bit 8 (cell_of color c) = ucast color"
    unfolding cell_of_def m
    by (rule bit_word_eqI; auto simp: bit_simps dest: bit_imp_le_length)+
qed

lemma color_nibbles:
  assumes "0 \<le> fg" "fg \<le> 15" "0 \<le> bg" "bg \<le> 15"
  defines "color \<equiv> word_of_int (push_bit 4 bg OR (fg AND 0x0F)) :: byte"
  shows "uint (color AND 15) = fg" and "uint (drop_bit 4 color) = bg"
proof -
  have 15: "(15 :: int) = mask 4" "(15 :: byte) = mask 4" by (simp_all add: mask_eq_exp_minus_1)
  have fg: "take_bit 4 fg = fg" and bg: "take_bit 4 bg = bg"
    and fg8: "take_bit 8 fg = fg"
    using assms(1-4) by (simp_all add: take_bit_int_eq_self_iff)
  have "take_bit 8 (push_bit 4 bg OR (fg AND 15)) = push_bit 4 bg OR (fg AND 15)"
    unfolding 15(1) take_bit_or and.commute [of fg] take_bit_eq_mask [symmetric]
    using fg bg fg8 by (simp add: take_bit_push_bit and.commute take_bit_eq_mask [symmetric])
  then have u: "uint color = push_bit 4 bg OR take_bit 4 fg"
    unfolding color_def 15(1) by (simp add: uint_word_of_int_eq take_bit_eq_mask)
  have "uint (color AND 15) = take_bit 4 (uint color)"
    unfolding 15(2) take_bit_eq_mask [symmetric] by (rule unsigned_take_bit_eq)
  also have "\<dots> = fg" unfolding u by (simp add: fg take_bit_push_bit)
  finally show "uint (color AND 15) = fg" .
  have "uint (drop_bit 4 color) = drop_bit 4 (uint color)"
    by (rule bit_eqI) (auto simp: bit_simps dest: bit_imp_le_length)
  also have "\<dots> = bg" unfolding u by (rule bit_eqI) (auto simp: bit_simps)
  finally show "uint (drop_bit 4 color) = bg" .
qed

text \<open>
  After accepted \<open>gotoxy\<close> and \<open>set_color\<close> calls, a text without line feeds is shown
  from that position on, wrapping from the last cell to the first: each cell holds its
  character, the foreground in the low half of the attribute and the background in the high half.
\<close>

theorem text_shown_at_position:
  assumes "0 \<le> col" "col < 80" "0 \<le> row" "row < 25"
    and "0 \<le> fg" "fg \<le> 15" "0 \<le> bg" "bg \<le> 15"
    and "10 \<notin> set cs" and "length cs \<le> 2000" and "i < length cs"
  shows "let (r1, s) = sys_gotoxy col row s; (r2, s) = sys_set_color fg bg s;
             (r3, s) = sys_write_console cs s;
             w = cells s ((nat row * 80 + nat col + i) mod 2000)
         in r1 = 0 \<and> r2 = 0 \<and> r3 = int (length cs) \<and> ucast w = cs ! i \<and>
            uint ((ucast (drop_bit 8 w) :: byte) AND 15) = fg \<and>
            uint (drop_bit 4 (ucast (drop_bit 8 w) :: byte)) = bg"
proof -
  define color :: byte where "color = word_of_int (push_bit 4 bg OR (fg AND 0x0F))"
  let ?t = "s\<lparr>scr_x := word_of_int col, scr_y := word_of_int row, current_color := color\<rparr>"
  have t: "screen_ok ?t" and cur: "cursor ?t = nat row * 80 + nat col"
    using assms(1-4) by (simp_all add: screen_ok_def cursor_def uint_small_byte nat_less_iff)
  have w: "cells (fold printc cs ?t) ((nat row * 80 + nat col + i) mod 2000) = cell_of color (cs ! i)"
    using fold_printc_printable [OF t assms(9,10)] assms(11) unfolding cur by simp
  have "(ucast (ucast color :: hword) :: byte) = color"
    by (rule bit_word_eqI) (simp add: bit_simps)
  then show ?thesis
    using assms(1-8) color_nibbles [OF assms(5-8)] w
    by (simp add: sys_gotoxy_def sys_set_color_def sys_write_console_def cell_of_parts color_def)
qed

theorem text_shown_at_position_witness:
  "let (r1, s) = sys_gotoxy 79 24 initial_screen; (r2, s) = sys_set_color 7 1 s;
       (r3, s) = sys_write_console [72, 105] s; w = cells s ((24 * 80 + 79 + 1) mod 2000)
   in ucast w = (105 :: byte)"
  using text_shown_at_position [of 79 24 7 1 "[72, 105]" 1 initial_screen]
  by (simp add: case_prod_beta Let_def)

end
