(* ===== verification/Descriptors.thy ===== *)
theory Descriptors
  imports Prelude
begin

text \<open>
  The tables the processor reads: segment descriptors, gates, the task state segment and the
  table registers of \<open>include/types.h\<close>, with \<open>setGdt\<close> and \<open>setTSS\<close> of \<open>mm.c\<close> and the
  interrupt table of \<open>interrupt.c\<close>. Addresses of routines and of the tables themselves are
  arguments: the linker chooses them. \<open>set_handlers\<close> comes from the binary library
  \<open>libzeos.a\<close> and is a parameter of \<open>setIdt\<close>. The instructions that load a register with
  a table (\<open>lgdt\<close>, \<open>lidt\<close>, \<open>ltr\<close>) return the value they load.
\<close>

section \<open>Slices of an address\<close>

definition highWord :: "dword \<Rightarrow> hword" where
  "highWord address = ucast (drop_bit 16 address AND 0xFFFF)"

definition lowWord :: "dword \<Rightarrow> hword" where
  "lowWord address = ucast (address AND 0xFFFF)"

definition midByte :: "dword \<Rightarrow> byte" where
  "midByte address = ucast (drop_bit 16 address AND 0xFF)"

definition highByte :: "dword \<Rightarrow> byte" where
  "highByte address = ucast (drop_bit (16 + 8) address AND 0xFF)"

definition high4Bits :: "dword \<Rightarrow> byte" where
  "high4Bits limit = ucast (drop_bit 16 limit AND 0x0F)"

section \<open>The tables\<close>

record Descriptor =
  limit :: hword
  lowBase :: hword
  midBase :: byte
  flags1 :: byte
  flags2 :: byte
  highBase :: byte

record Gate =
  lowOffset :: hword
  segmentSelector :: hword
  flags :: hword
  highOffset :: hword

text \<open>The padding words \<open>none1\<close> to \<open>none11\<close> are left out.\<close>

record TSS =
  PreviousTaskLink :: hword
  esp0 :: dword
  ss0 :: hword
  esp1 :: dword
  ss1 :: hword
  esp2 :: dword
  ss2 :: hword
  tss_cr3 :: dword
  eip :: dword
  eFlags :: dword
  eax :: dword
  ecx :: dword
  edx :: dword
  ebx :: dword
  esp :: dword
  ebp :: dword
  esi :: dword
  edi :: dword
  tss_es :: hword
  tss_cs :: hword
  tss_ss :: hword
  tss_ds :: hword
  tss_fs :: hword
  tss_gs :: hword
  LDTSegmentSelector :: hword
  debugTrap :: hword
  IOMapBaseAddress :: hword

record Register =
  reg_limit :: hword
  reg_base :: dword

abbreviation (input) KERNEL_CS :: hword where "KERNEL_CS \<equiv> 0x10"
abbreviation (input) KERNEL_DS :: hword where "KERNEL_DS \<equiv> 0x18"
abbreviation (input) USER_CS :: hword where "USER_CS \<equiv> 0x23"
abbreviation (input) USER_DS :: hword where "USER_DS \<equiv> 0x2B"
abbreviation (input) KERNEL_TSS :: hword where "KERNEL_TSS \<equiv> 0x30"
abbreviation (input) GDT_START :: dword where "GDT_START \<equiv> 0x901b3"
abbreviation (input) IDT_ENTRIES :: nat where "IDT_ENTRIES \<equiv> 256"
abbreviation (input) INITIAL_EFLAGS :: dword where "INITIAL_EFLAGS \<equiv> 0x200"
abbreviation (input) USER_ESP :: dword where "USER_ESP \<equiv> 0x814000"

section \<open>setGdt and setTSS\<close>

text \<open>The sum \<open>256 * sizeof(Descriptor)\<close> is stored in a 16-bit limit.\<close>

definition setGdt :: "dword \<Rightarrow> (nat \<Rightarrow> Descriptor) \<Rightarrow> (nat \<Rightarrow> Descriptor) \<times> Register" where
  "setGdt tss gdt =
     (let e = unat (drop_bit 3 KERNEL_TSS);
          gdt = gdt(e := (gdt e)\<lparr>lowBase := lowWord tss\<rparr>);
          gdt = gdt(e := (gdt e)\<lparr>midBase := midByte tss\<rparr>);
          gdt = gdt(e := (gdt e)\<lparr>highBase := highByte tss\<rparr>)
      in (gdt, \<lparr>reg_limit = of_nat (256 * 8), reg_base = GDT_START\<rparr>))"

definition setTSS :: "dword \<Rightarrow> TSS \<Rightarrow> TSS \<times> hword" where
  "setTSS INITIAL_ESP tss =
     (let tss = tss\<lparr>PreviousTaskLink := 0, esp0 := INITIAL_ESP, ss0 := KERNEL_DS,
            esp1 := 0, ss1 := 0, esp2 := 0, ss2 := 0, tss_cr3 := 0, eip := 0,
            eFlags := INITIAL_EFLAGS, eax := 0, ecx := 0, edx := 0, ebx := 0, esp := USER_ESP\<rparr>;
          tss = tss\<lparr>ebp := esp tss\<rparr>;
          tss = tss\<lparr>esi := 0, edi := 0, tss_es := USER_DS, tss_cs := USER_CS, tss_ss := USER_DS,
            tss_ds := USER_DS, tss_fs := 0, tss_gs := 0, LDTSegmentSelector := KERNEL_TSS, debugTrap := 0,
            IOMapBaseAddress := 0\<rparr>
      in (tss, KERNEL_TSS))"

section \<open>The interrupt table\<close>

definition setInterruptHandler ::
  "nat \<Rightarrow> dword \<Rightarrow> int \<Rightarrow> (nat \<Rightarrow> Gate) \<Rightarrow> (nat \<Rightarrow> Gate)" where
  "setInterruptHandler vector handler maxAccessibleFromPL idt =
     (let fl = of_int (push_bit 13 maxAccessibleFromPL) :: hword;
          fl = fl OR 0x8E00;
          idt = idt(vector := (idt vector)\<lparr>lowOffset := lowWord handler\<rparr>);
          idt = idt(vector := (idt vector)\<lparr>segmentSelector := KERNEL_CS\<rparr>);
          idt = idt(vector := (idt vector)\<lparr>flags := fl\<rparr>)
      in idt(vector := (idt vector)\<lparr>highOffset := highWord handler\<rparr>))"

definition setTrapHandler ::
  "nat \<Rightarrow> dword \<Rightarrow> int \<Rightarrow> (nat \<Rightarrow> Gate) \<Rightarrow> (nat \<Rightarrow> Gate)" where
  "setTrapHandler vector handler maxAccessibleFromPL idt =
     (let fl = of_int (push_bit 13 maxAccessibleFromPL) :: hword;
          fl = fl OR 0x8E00;
          idt = idt(vector := (idt vector)\<lparr>lowOffset := lowWord handler\<rparr>);
          idt = idt(vector := (idt vector)\<lparr>segmentSelector := KERNEL_CS\<rparr>);
          idt = idt(vector := (idt vector)\<lparr>flags := fl\<rparr>)
      in idt(vector := (idt vector)\<lparr>highOffset := highWord handler\<rparr>))"

record handlers =
  h_pagefault :: dword
  h_clock :: dword
  h_keyboard :: dword
  h_sysenter :: dword

definition setIdt ::
  "((nat \<Rightarrow> Gate) \<Rightarrow> (nat \<Rightarrow> Gate)) \<Rightarrow> handlers \<Rightarrow> dword \<Rightarrow> dword \<Rightarrow> (nat \<Rightarrow> Gate) \<Rightarrow>
     (dword \<Rightarrow> dword) \<Rightarrow> (nat \<Rightarrow> Gate) \<times> (dword \<Rightarrow> dword) \<times> Register" where
  "setIdt set_handlers h INITIAL_ESP idt_addr idt msr =
     (let idtR = \<lparr>reg_limit = of_nat (IDT_ENTRIES * 8 - 1), reg_base = idt_addr\<rparr>;
          idt = set_handlers idt;
          idt = setInterruptHandler 14 (h_pagefault h) 0 idt;
          idt = setInterruptHandler 32 (h_clock h) 0 idt;
          idt = setInterruptHandler 33 (h_keyboard h) 0 idt;
          msr = msr(0x174 := ucast KERNEL_CS);
          msr = msr(0x175 := INITIAL_ESP);
          msr = msr(0x176 := h_sysenter h)
      in (idt, msr, idtR))"

section \<open>What the processor reads back\<close>

definition gate_offset :: "Gate \<Rightarrow> dword" where
  "gate_offset g = push_bit 16 (ucast (highOffset g)) OR ucast (lowOffset g)"

definition gate_present :: "Gate \<Rightarrow> bool" where
  "gate_present g = bit (flags g) 15"

definition gate_dpl :: "Gate \<Rightarrow> hword" where
  "gate_dpl g = take_bit 2 (drop_bit 13 (flags g))"

definition gate_type :: "Gate \<Rightarrow> hword" where
  "gate_type g = take_bit 5 (drop_bit 8 (flags g))"

definition descriptor_base :: "Descriptor \<Rightarrow> dword" where
  "descriptor_base d =
     push_bit 24 (ucast (highBase d)) OR push_bit 16 (ucast (midBase d)) OR ucast (lowBase d)"

lemma mask_words: "w AND 0xFFFF = take_bit 16 w" "w AND 0xFF = take_bit 8 w" for w :: dword
  by (simp_all add: take_bit_eq_mask mask_eq_exp_minus_1)

lemma words_of_address:
  "push_bit 16 (ucast (highWord a)) OR ucast (lowWord a) = a"
  by (rule bit_word_eqI) (auto simp: highWord_def lowWord_def mask_words bit_simps)

lemma bytes_of_address:
  "push_bit 24 (ucast (highByte a)) OR push_bit 16 (ucast (midByte a)) OR ucast (lowWord a) = a"
proof (rule bit_word_eqI)
  fix n assume n: "n < LENGTH(32)"
  consider "n < 16" | "16 \<le> n" "n < 24" | "24 \<le> n" by linarith
  then show "bit (push_bit 24 (ucast (highByte a)) OR push_bit 16 (ucast (midByte a)) OR
      ucast (lowWord a) :: dword) n = bit a n"
    using n by cases (auto simp: highByte_def midByte_def lowWord_def mask_words bit_simps)
qed

lemma setInterruptHandler_other [simp]:
  "v \<noteq> vector \<Longrightarrow> setInterruptHandler vector h pl idt v = idt v"
  by (simp add: setInterruptHandler_def Let_def)

lemma setInterruptHandler_gate:
  "gate_offset (setInterruptHandler v h pl idt v) = h"
  "segmentSelector (setInterruptHandler v h pl idt v) = KERNEL_CS"
  "flags (setInterruptHandler v h pl idt v) = of_int (push_bit 13 pl) OR 0x8E00"
  by (simp_all add: setInterruptHandler_def gate_offset_def Let_def words_of_address)

lemma setTrapHandler_eq: "setTrapHandler = setInterruptHandler"
  by (simp add: fun_eq_iff setTrapHandler_def setInterruptHandler_def)

lemma gate_flags:
  assumes "flags g = of_int (push_bit 13 pl) OR 0x8E00" and "0 \<le> pl" and "pl \<le> 3"
  shows "gate_present g \<and> gate_type g = 14 \<and> gate_dpl g = of_int pl"
proof -
  from assms(2,3) consider "pl = 0" | "pl = 1" | "pl = 2" | "pl = 3" by linarith
  then show ?thesis
    by cases (simp_all add: gate_present_def gate_type_def gate_dpl_def assms(1) push_bit_eq_mult
        take_bit_eq_mod drop_bit_eq_div)
qed

section \<open>Properties\<close>

text \<open>
  After \<open>setIdt\<close>, whatever the library's \<open>set_handlers\<close> installed, the gates of the page
  fault, the clock and the keyboard are present interrupt gates (so interrupts stay off while
  their handlers run), not callable from user mode, and lead to the handlers of \<open>entry.S\<close>; the
  registers of \<open>sysenter\<close> hold the kernel's code segment, its first stack and its entry point.
\<close>

theorem interrupt_table_installed:
  "let (idt', msr', r) = setIdt set_handlers h sp addr idt msr in
     map (\<lambda>v. (gate_offset (idt' v), segmentSelector (idt' v), gate_present (idt' v),
               gate_type (idt' v), gate_dpl (idt' v))) [14, 32, 33] =
       map (\<lambda>f. (f, KERNEL_CS, True, 14, 0)) [h_pagefault h, h_clock h, h_keyboard h] \<and>
     map msr' [0x174, 0x175, 0x176] = [0x10, sp, h_sysenter h] \<and>
     r = \<lparr>reg_limit = 0x7FF, reg_base = addr\<rparr>"
proof -
  have g: "gate_present (setInterruptHandler v f 0 i v) \<and>
      gate_type (setInterruptHandler v f 0 i v) = 14 \<and>
      gate_dpl (setInterruptHandler v f 0 i v) = 0" for v f i
    using gate_flags [of "setInterruptHandler v f 0 i v" 0]
    by (simp add: setInterruptHandler_gate)
  show ?thesis by (simp add: setIdt_def Let_def setInterruptHandler_gate g)
qed

text \<open>
  \<open>setTrapHandler\<close> with a privilege level installs a gate that level may call, for the given
  routine; but in spite of its name the gate is an interrupt gate (type 14, not 15), so system calls
  entered through it run with interrupts off. No other vector changes.
\<close>

theorem trap_gate_is_interrupt_gate:
  assumes "0 \<le> pl" and "pl \<le> 3"
  shows "gate_offset (setTrapHandler v f pl idt v) = f \<and> gate_present (setTrapHandler v f pl idt v) \<and>
         gate_type (setTrapHandler v f pl idt v) = 14 \<and> gate_dpl (setTrapHandler v f pl idt v) = of_int pl \<and>
         (\<forall>w. w = v \<or> setTrapHandler v f pl idt w = idt w)"
  using gate_flags [OF _ assms, of "setInterruptHandler v f pl idt v"]
  by (auto simp: setTrapHandler_eq setInterruptHandler_gate intro: ccontr)

theorem trap_gate_is_interrupt_gate_witness:
  "gate_offset (setTrapHandler 0x80 0x12345 3 (\<lambda>_. \<lparr>lowOffset = 0, segmentSelector = 0,
     flags = 0, highOffset = 0\<rparr>) 0x80) = 0x12345"
  using trap_gate_is_interrupt_gate [of 3 "0x80" "0x12345" "\<lambda>_. \<lparr>lowOffset = 0, segmentSelector = 0,
     flags = 0, highOffset = 0\<rparr>"] by simp

text \<open>
  \<open>setGdt\<close> makes the descriptor of \<open>KERNEL_TSS\<close> point at the task state segment, keeps its limit and
  flags and every other descriptor; \<open>setTSS\<close> makes the kernel stack of the task state segment the
  initial one, in the kernel's data segment, and enters user mode at the top of the user data pages.
\<close>

theorem tss_descriptor_installed:
  "let (gdt', r) = setGdt tss gdt; (t', sel) = setTSS sp t in
     descriptor_base (gdt' 6) = tss \<and> limit (gdt' 6) = limit (gdt 6) \<and>
     flags1 (gdt' 6) = flags1 (gdt 6) \<and> flags2 (gdt' 6) = flags2 (gdt 6) \<and>
     (\<forall>i. i = 6 \<or> gdt' i = gdt i) \<and> reg_base r = GDT_START \<and>
     unat sel = 6 * 8 \<and> esp0 t' = sp \<and> ss0 t' = KERNEL_DS \<and>
     esp t' = L_USER_START + of_nat (NUM_PAG_DATA * PAGE_SIZE) \<and> ebp t' = esp t' \<and> bit (eFlags t') 9"
  by (auto simp: setGdt_def setTSS_def descriptor_base_def bytes_of_address Let_def drop_bit_eq_div)

end
