(* ===== verification/Kernel.thy ===== *)
theory Kernel
  imports Lists Frames Keyboard Screen Descriptors
begin

text \<open>
  The state of the kernel that \<open>sched.c\<close>, \<open>sys.c\<close> and the wake-up in \<open>devices.c\<close> share: the
  process control blocks (\<open>struct task_struct\<close> of \<open>include/sched.h\<close>), the list nodes inside
  them and the four global list heads, and the global variables.

  A PCB, a page directory and a page table each fill one page and are named by its frame
  number: the code makes their address with \<open>frame << 12\<close> and keeps an identity mapping of
  the frame in the kernel's page tables (\<open>auto_map_kernel_frame\<close>). A pointer that can be
  \<open>NULL\<close> is an option. The list nodes of the PCB at \<open>p\<close> are \<open>At_list p\<close> (for \<open>&p->list\<close>) and so on;
  \<open>list_entry\<close> is the way back.

  The kernel stack that shares the page with a PCB is represented by \<open>resume\<close>, the place in
  the code that runs when the process is switched in: \<open>kernel_esp\<close> points to the frame of that
  place, and the words above it are the caller's context, which every path back to user mode restores.

  A result \<open>None\<close> of an operation is a fault: an access through \<open>NULL\<close>, through an unmapped page or
  outside a structure. Signed counters are unbounded integers: their overflow is undefined in C.
\<close>

declare upt_rec_numeral [simp del]

section \<open>List nodes and process control blocks\<close>

datatype knode =
    List_tasks | Readyqueue | Blocked | Kbd_blocked
  | At_list nat | At_children_blocked nat | At_children_unblocked nat | At_sibiling nat
  | At_task_list nat

datatype resume_point =
    Cpu_idle | Ret_from_fork | Clock_routine | Sys_block | Sys_read dword int | Sys_exit

record task_struct =
  PID :: int
  dir_pages_baseAddr :: nat
  pending_unblocks :: int
  quantum :: int
  resume :: resume_point
  parent :: "nat option"
  kbd_chars_needed :: int
  kbd_user_buf :: dword
  kbd_read_result :: int

text \<open>\<open>list_entry (l, struct task_struct, list)\<close> and \<open>list_entry (l, struct task_struct, sibiling)\<close>:
  outside the node it is meant for, the address computed is not a PCB.\<close>

fun list_head_to_task_struct :: "knode \<Rightarrow> nat option" where
  "list_head_to_task_struct (At_list p) = Some p"
| "list_head_to_task_struct _ = None"

fun sibiling_to_task_struct :: "knode \<Rightarrow> nat option" where
  "sibiling_to_task_struct (At_sibiling p) = Some p"
| "sibiling_to_task_struct _ = None"

section \<open>The kernel state\<close>

record kernel =
  frames :: mm
  mach :: machine
  scr :: screen
  kbd_st :: kbd
  links :: "knode list_heap"
  tasks :: "nat \<Rightarrow> task_struct"
  current :: nat
  idle_task :: "nat option"
  init_task :: "nat option"
  kernel_page_table :: "nat option"
  kernel_page_table2 :: "nat option"
  remaining_quantum :: int
  pidGlobal :: int
  zeos_ticks :: int
  shared_frames :: "nat \<Rightarrow> int"
  shared_refs :: "nat \<Rightarrow> int"
  shared_marked_rm :: "nat \<Rightarrow> int"
  tss :: TSS
  msr :: "dword \<Rightarrow> dword"
  buffer_sys :: dword

section \<open>Access to the parts\<close>

definition upd_task :: "nat \<Rightarrow> (task_struct \<Rightarrow> task_struct) \<Rightarrow> kernel \<Rightarrow> kernel" where
  "upd_task p f k = k\<lparr>tasks := (tasks k)(p := f (tasks k p))\<rparr>"

definition on_links ::
  "(knode list_heap \<Rightarrow> knode list_heap option) \<Rightarrow> kernel \<Rightarrow> kernel option" where
  "on_links f k = map_option (\<lambda>h. k\<lparr>links := h\<rparr>) (f (links k))"

definition on_mach :: "(machine \<Rightarrow> machine option) \<Rightarrow> kernel \<Rightarrow> kernel option" where
  "on_mach f k = map_option (\<lambda>m. k\<lparr>mach := m\<rparr>) (f (mach k))"

text \<open>The page table, or directory, in frame \<open>f\<close>.\<close>

definition table :: "kernel \<Rightarrow> nat \<Rightarrow> page_table" where
  "table k f = tables (mach k) f"

definition upd_table :: "nat \<Rightarrow> (page_table \<Rightarrow> page_table) \<Rightarrow> kernel \<Rightarrow> kernel" where
  "upd_table f g k =
     k\<lparr>mach := (mach k)\<lparr>tables := (tables (mach k))(f := g (tables (mach k) f))\<rparr>\<rparr>"

definition set_cr3 :: "nat \<Rightarrow> kernel \<Rightarrow> kernel" where
  "set_cr3 dir k = k\<lparr>mach := (mach k)\<lparr>cr3 := dir\<rparr>\<rparr>"

definition writeMSR :: "dword \<Rightarrow> dword \<Rightarrow> kernel \<Rightarrow> kernel" where
  "writeMSR r v k = k\<lparr>msr := (msr k)(r := v)\<rparr>"

text \<open>\<open>KERNEL_ESP\<close>: the end of the page of a \<open>task_union\<close>.\<close>

definition KERNEL_ESP :: "nat \<Rightarrow> dword" where
  "KERNEL_ESP t = of_nat (t * PAGE_SIZE) + of_nat (1024 * 4)"

definition kernel_alloc_frame :: "kernel \<Rightarrow> int \<times> kernel" where
  "kernel_alloc_frame k = (let (f, m) = alloc_frame (frames k) in (f, k\<lparr>frames := m\<rparr>))"

definition kernel_free_frame :: "nat \<Rightarrow> kernel \<Rightarrow> kernel" where
  "kernel_free_frame f k = k\<lparr>frames := free_frame f (frames k)\<rparr>"

section \<open>Accessors of sched.c\<close>

definition get_DIR :: "kernel \<Rightarrow> nat \<Rightarrow> nat" where
  "get_DIR k t = dir_pages_baseAddr (tasks k t)"

definition get_PT :: "kernel \<Rightarrow> nat \<Rightarrow> nat" where
  "get_PT k t = get_frame (table k (dir_pages_baseAddr (tasks k t))) 0"

definition get_quantum :: "kernel \<Rightarrow> nat \<Rightarrow> int" where
  "get_quantum k t = quantum (tasks k t)"

definition set_quantum :: "nat \<Rightarrow> int \<Rightarrow> kernel \<Rightarrow> kernel" where
  "set_quantum t new_quantum k = upd_task t (\<lambda>p. p\<lparr>quantum := new_quantum\<rparr>) k"

section \<open>Selectors after updates\<close>

lemma upd_task_simps [simp]:
  "frames (upd_task p f k) = frames k" "mach (upd_task p f k) = mach k"
  "scr (upd_task p f k) = scr k" "kbd_st (upd_task p f k) = kbd_st k"
  "links (upd_task p f k) = links k" "current (upd_task p f k) = current k"
  "idle_task (upd_task p f k) = idle_task k" "init_task (upd_task p f k) = init_task k"
  "kernel_page_table (upd_task p f k) = kernel_page_table k"
  "kernel_page_table2 (upd_task p f k) = kernel_page_table2 k"
  "remaining_quantum (upd_task p f k) = remaining_quantum k"
  "pidGlobal (upd_task p f k) = pidGlobal k" "zeos_ticks (upd_task p f k) = zeos_ticks k"
  "shared_frames (upd_task p f k) = shared_frames k" "shared_refs (upd_task p f k) = shared_refs k"
  "shared_marked_rm (upd_task p f k) = shared_marked_rm k" "tss (upd_task p f k) = tss k"
  "msr (upd_task p f k) = msr k" "buffer_sys (upd_task p f k) = buffer_sys k"
  "tasks (upd_task p f k) = (tasks k)(p := f (tasks k p))"
  by (simp_all add: upd_task_def)

lemma upd_table_simps [simp]:
  "frames (upd_table p f k) = frames k" "scr (upd_table p f k) = scr k"
  "kbd_st (upd_table p f k) = kbd_st k" "links (upd_table p f k) = links k"
  "current (upd_table p f k) = current k" "idle_task (upd_table p f k) = idle_task k"
  "init_task (upd_table p f k) = init_task k"
  "kernel_page_table (upd_table p f k) = kernel_page_table k"
  "kernel_page_table2 (upd_table p f k) = kernel_page_table2 k"
  "remaining_quantum (upd_table p f k) = remaining_quantum k"
  "pidGlobal (upd_table p f k) = pidGlobal k" "zeos_ticks (upd_table p f k) = zeos_ticks k"
  "shared_frames (upd_table p f k) = shared_frames k" "shared_refs (upd_table p f k) = shared_refs k"
  "shared_marked_rm (upd_table p f k) = shared_marked_rm k" "tss (upd_table p f k) = tss k"
  "msr (upd_table p f k) = msr k" "buffer_sys (upd_table p f k) = buffer_sys k"
  "tasks (upd_table p f k) = tasks k"
  "table (upd_table p f k) q = (if q = p then f (table k p) else table k q)"
  "ram (mach (upd_table p f k)) = ram (mach k)" "cr3 (mach (upd_table p f k)) = cr3 (mach k)"
  "cr0 (mach (upd_table p f k)) = cr0 (mach k)"
  by (simp_all add: upd_table_def table_def)

lemma set_cr3_simps [simp]:
  "frames (set_cr3 d k) = frames k" "scr (set_cr3 d k) = scr k"
  "kbd_st (set_cr3 d k) = kbd_st k" "links (set_cr3 d k) = links k"
  "current (set_cr3 d k) = current k" "idle_task (set_cr3 d k) = idle_task k"
  "init_task (set_cr3 d k) = init_task k"
  "kernel_page_table (set_cr3 d k) = kernel_page_table k"
  "kernel_page_table2 (set_cr3 d k) = kernel_page_table2 k"
  "remaining_quantum (set_cr3 d k) = remaining_quantum k"
  "pidGlobal (set_cr3 d k) = pidGlobal k" "zeos_ticks (set_cr3 d k) = zeos_ticks k"
  "shared_frames (set_cr3 d k) = shared_frames k" "shared_refs (set_cr3 d k) = shared_refs k"
  "shared_marked_rm (set_cr3 d k) = shared_marked_rm k" "tss (set_cr3 d k) = tss k"
  "msr (set_cr3 d k) = msr k" "buffer_sys (set_cr3 d k) = buffer_sys k"
  "tasks (set_cr3 d k) = tasks k" "table (set_cr3 d k) = table k"
  "ram (mach (set_cr3 d k)) = ram (mach k)" "cr3 (mach (set_cr3 d k)) = d"
  "cr0 (mach (set_cr3 d k)) = cr0 (mach k)"
  by (simp_all add: set_cr3_def table_def fun_eq_iff)

lemma writeMSR_simps [simp]:
  "frames (writeMSR r v k) = frames k" "mach (writeMSR r v k) = mach k"
  "links (writeMSR r v k) = links k" "tasks (writeMSR r v k) = tasks k"
  "current (writeMSR r v k) = current k" "table (writeMSR r v k) = table k"
  "msr (writeMSR r v k) = (msr k)(r := v)"
  by (simp_all add: writeMSR_def table_def fun_eq_iff)

lemma table_updates [simp]:
  "table (k\<lparr>frames := a\<rparr>) = table k" "table (k\<lparr>links := b\<rparr>) = table k"
  "table (k\<lparr>tasks := c\<rparr>) = table k" "table (k\<lparr>current := d\<rparr>) = table k"
  "table (k\<lparr>remaining_quantum := e\<rparr>) = table k" "table (k\<lparr>kbd_st := f\<rparr>) = table k"
  "table (k\<lparr>scr := g\<rparr>) = table k" "table (k\<lparr>shared_frames := i\<rparr>) = table k"
  "table (k\<lparr>shared_refs := j\<rparr>) = table k" "table (k\<lparr>shared_marked_rm := l\<rparr>) = table k"
  "table (k\<lparr>tss := t\<rparr>) = table k" "table (k\<lparr>pidGlobal := n\<rparr>) = table k"
  "table (k\<lparr>zeos_ticks := n\<rparr>) = table k" "table (k\<lparr>init_task := o1\<rparr>) = table k"
  "table (k\<lparr>idle_task := o1\<rparr>) = table k" "table (k\<lparr>kernel_page_table := o1\<rparr>) = table k"
  "table (k\<lparr>kernel_page_table2 := o1\<rparr>) = table k"
  by (simp_all add: table_def fun_eq_iff)

lemma table_upd_task [simp]: "table (upd_task p f k) = table k"
  by (simp add: upd_task_def)

lemma on_links_Some: "f (links k) = Some h \<Longrightarrow> on_links f k = Some (k\<lparr>links := h\<rparr>)"
  by (simp add: on_links_def)

lemma on_links_SomeD: "on_links f k = Some k' \<Longrightarrow> \<exists>h. f (links k) = Some h \<and> k' = k\<lparr>links := h\<rparr>"
  by (auto simp: on_links_def)

lemma kernel_alloc_frame_split:
  "kernel_alloc_frame k = (fst (alloc_frame (frames k)), k\<lparr>frames := snd (alloc_frame (frames k))\<rparr>)"
  by (simp add: kernel_alloc_frame_def case_prod_beta)

lemma get_DIR_updates [simp]:
  "get_DIR (upd_table f g k) t = get_DIR k t" "get_DIR (set_cr3 d k) t = get_DIR k t"
  "get_DIR (k\<lparr>mach := m\<rparr>) t = get_DIR k t" "get_DIR (k\<lparr>links := b\<rparr>) t = get_DIR k t"
  "get_DIR (k\<lparr>frames := a\<rparr>) t = get_DIR k t" "get_DIR (k\<lparr>shared_frames := i\<rparr>) t = get_DIR k t"
  "get_DIR (k\<lparr>shared_refs := j\<rparr>) t = get_DIR k t"
  "get_DIR (k\<lparr>shared_marked_rm := j\<rparr>) t = get_DIR k t"
  by (simp_all add: get_DIR_def)

end
