(* ===== verification/Sched.thy ===== *)
theory Sched
  imports Kernel
begin

text \<open>
  The round-robin scheduler and the PCB primitives of \<open>sched.c\<close>, \<open>sys_block\<close> and \<open>sys_unblock\<close>
  of \<open>sys.c\<close> excepted (theory \<open>Blocking\<close>). A routine that may switch to another process takes the
  place where the caller continues when it is switched in again (\<open>resume_point\<close>); after the switch,
  \<open>current\<close> is the new process and the rest of the caller does not run.

  \<open>queues\<close> is the abstract state of the scheduler: the three queues of processes and the two lists
  of children of each process. \<open>queues_rep\<close> relates it to the heap of list nodes through the
  interpretation of \<open>node_queues\<close>, \<open>sched_ok\<close> adds what holds between two routines.
\<close>

section \<open>Process control blocks and their mapping\<close>

definition auto_map_kernel_frame :: "nat \<Rightarrow> nat \<Rightarrow> nat option \<Rightarrow> kernel \<Rightarrow> kernel" where
  "auto_map_kernel_frame frame tp1 tp2 k =
     (if frame < 1024 then upd_table tp1 (\<lambda>t. set_ss_pag t frame frame 0) k
      else case tp2 of
          Some tp2 \<Rightarrow> upd_table tp2 (\<lambda>t. set_ss_pag t (frame - 1024) frame 0) k
        | None \<Rightarrow> k)"

text \<open>The lines that \<open>alloc_pcb\<close>, \<open>allocate_DIR\<close> and \<open>sys_fork\<close> repeat: map a new frame in the
  kernel's tables, once they exist.\<close>

definition map_new_frame :: "nat \<Rightarrow> kernel \<Rightarrow> kernel" where
  "map_new_frame frame k =
     (case kernel_page_table k of
        Some tp1 \<Rightarrow> auto_map_kernel_frame frame tp1 (kernel_page_table2 k) k
      | None \<Rightarrow> k)"

definition alloc_pcb :: "kernel \<Rightarrow> (nat option \<times> kernel) option" where
  "alloc_pcb k =
     (let (frame, k) = kernel_alloc_frame k in
      if frame < 0 then Some (None, k)
      else
        let p = nat frame;
            k = map_new_frame p k;
            k = k\<lparr>links := INIT_LIST_HEAD (At_task_list p) (links k)\<rparr>
        in do {
          k \<leftarrow> on_links (set_nxt (Some (At_list p)) None) k;
          k \<leftarrow> on_links (set_prv (Some (At_list p)) None) k;
          k \<leftarrow> on_links (list_add_tail (At_task_list p) List_tasks) k;
          Some (Some p, k) })"

definition free_pcb :: "nat \<Rightarrow> kernel \<Rightarrow> kernel option" where
  "free_pcb p k = do {
     k \<leftarrow> on_links (list_del (At_task_list p)) k;
     Some (kernel_free_frame p k) }"

definition allocate_DIR :: "nat \<Rightarrow> kernel \<Rightarrow> int \<times> kernel" where
  "allocate_DIR t k =
     (let (frame, k) = kernel_alloc_frame k in
      if frame < 0 then (-1, k)
      else
        let d = nat frame;
            k = map_new_frame d k;
            k = upd_task t (\<lambda>p. p\<lparr>dir_pages_baseAddr := d\<rparr>) k;
            k = upd_table d clear_page_table k;
            k = upd_table d (\<lambda>e. e(0 := table k (get_DIR k (current k)) 0)) k;
            k = upd_table d (\<lambda>e. e(1 := table k (get_DIR k (current k)) 1)) k
        in (1, k))"

section \<open>The switch\<close>

text \<open>
  \<open>cambio_pila\<close> of \<open>extras.S\<close> saves where the old process continues and returns on the new
  stack. \<open>task_switch\<close> saves three registers around \<open>inner_task_switch\<close>.
\<close>

definition cambio_pila :: "resume_point \<Rightarrow> nat \<Rightarrow> kernel \<Rightarrow> kernel" where
  "cambio_pila here new k = (upd_task (current k) (\<lambda>p. p\<lparr>resume := here\<rparr>) k)\<lparr>current := new\<rparr>"

definition inner_task_switch :: "nat \<Rightarrow> resume_point \<Rightarrow> kernel \<Rightarrow> kernel" where
  "inner_task_switch t here k =
     (if t = current k then k
      else
        let k = k\<lparr>tss := (tss k)\<lparr>esp0 := KERNEL_ESP t\<rparr>\<rparr>;
            k = writeMSR 0x175 (esp0 (tss k)) k;
            k = set_cr3 (dir_pages_baseAddr (tasks k t)) k
        in cambio_pila here t k)"

definition task_switch :: "nat \<Rightarrow> resume_point \<Rightarrow> kernel \<Rightarrow> kernel" where
  "task_switch new here k = inner_task_switch new here k"

section \<open>Round robin\<close>

definition init_sched :: "kernel \<Rightarrow> kernel" where
  "init_sched k =
     (let h = INIT_LIST_HEAD List_tasks (links k);
          h = INIT_LIST_HEAD Readyqueue h;
          h = INIT_LIST_HEAD Blocked h;
          h = INIT_LIST_HEAD Kbd_blocked h
      in k\<lparr>links := h\<rparr>)"

definition update_sched_data_rr :: "kernel \<Rightarrow> kernel" where
  "update_sched_data_rr k = k\<lparr>remaining_quantum := remaining_quantum k - 1\<rparr>"

definition needs_sched_rr :: "kernel \<Rightarrow> int" where
  "needs_sched_rr k =
     (if remaining_quantum k > 0 \<and> \<not> list_empty Readyqueue (links k) then 0 else 1)"

definition update_process_state_rr :: "nat \<Rightarrow> knode option \<Rightarrow> kernel \<Rightarrow> kernel option" where
  "update_process_state_rr t dst_queue k = do {
     let list_tmp = At_list t;
     k \<leftarrow> (if \<not> (prv (links k) list_tmp = None \<and> nxt (links k) list_tmp = None)
          then on_links (list_del list_tmp) k else Some k);
     (case dst_queue of
        Some q \<Rightarrow> on_links (list_add_tail list_tmp q) k
      | None \<Rightarrow> Some k) }"

definition sched_next_rr :: "resume_point \<Rightarrow> kernel \<Rightarrow> kernel option" where
  "sched_next_rr here k = do {
     (k, new) \<leftarrow> (if \<not> list_empty Readyqueue (links k) then do {
                   lf \<leftarrow> list_first Readyqueue (links k);
                   k \<leftarrow> on_links (list_del lf) k;
                   new \<leftarrow> list_head_to_task_struct lf;
                   Some (k, new) }
                 else do { i \<leftarrow> idle_task k; Some (k, i) });
     let k = k\<lparr>remaining_quantum := get_quantum k new\<rparr>;
     Some (if PID (tasks k (current k)) \<noteq> PID (tasks k new) then task_switch new here k else k) }"

definition schedule :: "kernel \<Rightarrow> kernel option" where
  "schedule k =
     (let k = update_sched_data_rr k in
      if needs_sched_rr k \<noteq> 0 then do {
        k \<leftarrow> update_process_state_rr (current k) (Some Readyqueue) k;
        sched_next_rr Clock_routine k }
      else Some k)"

section \<open>The abstract state of the scheduler\<close>

record queues =
  ready :: "nat list"
  blocked :: "nat list"
  kbd_blocked :: "nat list"
  children_blocked :: "nat \<Rightarrow> nat list option"
  children_unblocked :: "nat \<Rightarrow> nat list option"

fun ring_map :: "queues \<Rightarrow> knode \<Rightarrow> knode list option" where
  "ring_map v Readyqueue = Some (map At_list (ready v))"
| "ring_map v Blocked = Some (map At_list (blocked v))"
| "ring_map v Kbd_blocked = Some (map At_list (kbd_blocked v))"
| "ring_map v (At_children_blocked p) = map_option (map At_sibiling) (children_blocked v p)"
| "ring_map v (At_children_unblocked p) = map_option (map At_sibiling) (children_unblocked v p)"
| "ring_map v _ = None"

definition queues_rep :: "knode list_heap \<Rightarrow> queues \<Rightarrow> bool" where
  "queues_rep h v \<longleftrightarrow> fam ring h (ring_map v)"

text \<open>A process outside the three queues, as \<open>update_process_state_rr\<close> tests it.\<close>

abbreviation loose :: "knode list_heap \<Rightarrow> nat \<Rightarrow> bool" where
  "loose h p \<equiv> detached h (At_list p)"

definition idle_ok :: "kernel \<Rightarrow> queues \<Rightarrow> nat \<Rightarrow> bool" where
  "idle_ok k v i \<longleftrightarrow> idle_task k = Some i \<and> (i \<in> set (ready v) \<or> loose (links k) i)"

definition pids_ok :: "kernel \<Rightarrow> nat set \<Rightarrow> bool" where
  "pids_ok k P \<longleftrightarrow> inj_on (\<lambda>p. PID (tasks k p)) P"

definition all_tasks :: "kernel \<Rightarrow> queues \<Rightarrow> nat set" where
  "all_tasks k v = insert (current k) (set (ready v) \<union> set (blocked v) \<union> set (kbd_blocked v) \<union>
     (case idle_task k of Some i \<Rightarrow> {i} | None \<Rightarrow> {}))"

definition sched_ok :: "kernel \<Rightarrow> queues \<Rightarrow> bool" where
  "sched_ok k v \<longleftrightarrow> queues_rep (links k) v \<and> loose (links k) (current k) \<and>
     (\<exists>i. idle_ok k v i) \<and> pids_ok k (all_tasks k v)"

text \<open>Which process runs next, and the queue it leaves: the specification of \<open>sched_next_rr\<close>.\<close>

fun pick :: "nat \<Rightarrow> nat list \<Rightarrow> nat \<times> nat list" where
  "pick idle [] = (idle, [])"
| "pick idle (p # ps) = (p, ps)"

section \<open>Queues under the list primitives\<close>

lemma ring_map_upd [simp]:
  "ring_map (v\<lparr>ready := r\<rparr>) = (ring_map v)(Readyqueue \<mapsto> map At_list r)"
  "ring_map (v\<lparr>blocked := r\<rparr>) = (ring_map v)(Blocked \<mapsto> map At_list r)"
  "ring_map (v\<lparr>kbd_blocked := r\<rparr>) = (ring_map v)(Kbd_blocked \<mapsto> map At_list r)"
  "ring_map (v\<lparr>children_blocked := (children_blocked v)(p \<mapsto> r)\<rparr>) =
     (ring_map v)(At_children_blocked p \<mapsto> map At_sibiling r)"
  "ring_map (v\<lparr>children_unblocked := (children_unblocked v)(p \<mapsto> r)\<rparr>) =
     (ring_map v)(At_children_unblocked p \<mapsto> map At_sibiling r)"
proof -
  have a: "f = g" if "\<And>n. f n = g n" for f g :: "knode \<Rightarrow> knode list option" using that by blast
  show "ring_map (v\<lparr>ready := r\<rparr>) = (ring_map v)(Readyqueue \<mapsto> map At_list r)"
    by (rule a, case_tac n) simp_all
  show "ring_map (v\<lparr>blocked := r\<rparr>) = (ring_map v)(Blocked \<mapsto> map At_list r)"
    by (rule a, case_tac n) simp_all
  show "ring_map (v\<lparr>kbd_blocked := r\<rparr>) = (ring_map v)(Kbd_blocked \<mapsto> map At_list r)"
    by (rule a, case_tac n) simp_all
  show "ring_map (v\<lparr>children_blocked := (children_blocked v)(p \<mapsto> r)\<rparr>) =
     (ring_map v)(At_children_blocked p \<mapsto> map At_sibiling r)"
    by (rule a, case_tac n) simp_all
  show "ring_map (v\<lparr>children_unblocked := (children_unblocked v)(p \<mapsto> r)\<rparr>) =
     (ring_map v)(At_children_unblocked p \<mapsto> map At_sibiling r)"
    by (rule a, case_tac n) simp_all
qed

lemma queues_rep_distinct:
  assumes "queues_rep h v"
  shows "distinct (ready v @ blocked v @ kbd_blocked v)"
proof -
  let ?F = "ring_map v"
  have f: "fam ring h ?F" using assms by (simp add: queues_rep_def)
  have d: "distinct (map At_list xs)" if "?F q = Some (map At_list xs)" for q xs
    using ring_distinct [OF fam_rep [OF f that]] by simp
  have i: "set xs \<inter> set ys = {}"
    if "?F q = Some (map At_list xs)" "?F q' = Some (map At_list ys)" "q \<noteq> q'" for q q' xs ys
    using fam_disjoint [OF f that] by auto
  show ?thesis
    using d [of Readyqueue "ready v"] d [of Blocked "blocked v"] d [of Kbd_blocked "kbd_blocked v"]
      i [of Readyqueue "ready v" Blocked "blocked v"] i [of Readyqueue "ready v" Kbd_blocked "kbd_blocked v"]
      i [of Blocked "blocked v" Kbd_blocked "kbd_blocked v"]
    by (simp add: distinct_map Int_Un_distrib)
qed

lemma queued_not_detached:
  "queues_rep h v \<Longrightarrow> ring_map v q = Some xs \<Longrightarrow> x \<in> set (q # xs) \<Longrightarrow> \<not> detached h x"
  unfolding queues_rep_def by (rule lq.fam_not_det)

lemma detached_fresh:
  assumes "queues_rep h v" and "detached h n"
  shows "fresh (ring_map v) n"
  unfolding fresh_def using queued_not_detached [OF assms(1)] assms(2) by blast

lemma loose_not_queued:
  assumes "queues_rep h v" and "loose h p"
  shows "p \<notin> set (ready v)" and "p \<notin> set (blocked v)" and "p \<notin> set (kbd_blocked v)"
  using queued_not_detached [OF assms(1), of Readyqueue _ "At_list p"]
    queued_not_detached [OF assms(1), of Blocked _ "At_list p"]
    queued_not_detached [OF assms(1), of Kbd_blocked _ "At_list p"] assms(2) by auto

lemma ready_empty_iff: "queues_rep h v \<Longrightarrow> list_empty Readyqueue h \<longleftrightarrow> ready v = []"
  using lq.fam_empty [of h "ring_map v" Readyqueue] by (simp add: queues_rep_def)

text \<open>Putting a loose process at the end of a queue.\<close>

lemma enqueue_loose:
  assumes v: "queues_rep (links k) v" and l: "loose (links k) p"
    and q: "ring_map v q = Some (map At_list ps)"
    and v': "ring_map v' = (ring_map v)(q \<mapsto> map At_list (ps @ [p]))"
  obtains h' where "update_process_state_rr p (Some q) k = Some (k\<lparr>links := h'\<rparr>)"
    and "queues_rep h' v'"
    and "\<And>a. fresh (ring_map v) a \<Longrightarrow> a \<noteq> At_list p \<Longrightarrow> detached h' a = detached (links k) a"
proof -
  obtain h' where h': "list_add_tail (At_list p) q (links k) = Some h'"
      "fam ring h' ((ring_map v)(q \<mapsto> map At_list ps @ [At_list p]))"
      "\<And>a. fresh (ring_map v) a \<Longrightarrow> a \<noteq> At_list p \<Longrightarrow> detached h' a = detached (links k) a"
    using lq.fam_add_tail [OF _ q detached_fresh [OF v l]] v by (auto simp: queues_rep_def)
  have "queues_rep h' v'" using h'(2) by (simp add: queues_rep_def v')
  moreover have "update_process_state_rr p (Some q) k = Some (k\<lparr>links := h'\<rparr>)"
    using l h'(1) by (simp add: update_process_state_rr_def detached_def on_links_def)
  ultimately show ?thesis using that h'(3) by blast
qed

text \<open>Moving a process from one queue to the end of another.\<close>

lemma move_queued:
  assumes v: "queues_rep (links k) v"
    and q1: "ring_map v q1 = Some (map At_list (as @ p # bs))"
    and q2: "ring_map v q2 = Some (map At_list ps)" and ne: "q1 \<noteq> q2"
    and v': "ring_map v' = (ring_map v)(q1 \<mapsto> map At_list (as @ bs), q2 \<mapsto> map At_list (ps @ [p]))"
  obtains h' where "update_process_state_rr p (Some q2) k = Some (k\<lparr>links := h'\<rparr>)"
    and "queues_rep h' v'"
    and "\<And>a. fresh (ring_map v) a \<Longrightarrow> detached h' a = detached (links k) a"
proof -
  have f: "fam ring (links k) (ring_map v)" using v by (simp add: queues_rep_def)
  have nd: "\<not> detached (links k) (At_list p)"
    by (rule queued_not_detached [OF v q1]) simp
  obtain h1 h2 where h: "list_del (At_list p) (links k) = Some h1"
      "list_add_tail (At_list p) q2 h1 = Some h2"
      "fam ring h2 ((ring_map v)(q1 \<mapsto> map At_list as @ map At_list bs, q2 \<mapsto> map At_list ps @ [At_list p]))"
      "\<And>a. fresh (ring_map v) a \<Longrightarrow> detached h2 a = detached (links k) a"
    using lq.fam_move [OF f q1 [unfolded map_append list.map(2)] q2 ne] by metis
  have "queues_rep h2 v'" using h(3) by (simp add: queues_rep_def v')
  moreover have "update_process_state_rr p (Some q2) k = Some (k\<lparr>links := h2\<rparr>)"
    using nd h(1,2) by (auto simp: update_process_state_rr_def detached_def on_links_def)
  ultimately show ?thesis using that h(4) by blast
qed

section \<open>Choosing and switching\<close>

text \<open>The state \<open>sched_next_rr\<close> reaches from \<open>k\<close> when it chooses \<open>new\<close> and leaves the list nodes as \<open>h\<close>.\<close>

definition switched :: "resume_point \<Rightarrow> nat \<Rightarrow> knode list_heap \<Rightarrow> kernel \<Rightarrow> kernel" where
  "switched here new h k =
     (let k = k\<lparr>links := h, remaining_quantum := get_quantum k new\<rparr>
      in if PID (tasks k (current k)) \<noteq> PID (tasks k new) then task_switch new here k else k)"

lemma sched_next_rr_picks:
  assumes v: "queues_rep (links k) v" and i: "idle_task k = Some i"
    and li: "ready v = [] \<Longrightarrow> loose (links k) i"
    and pk: "pick i (ready v) = (new, rest)"
  obtains h' where "sched_next_rr here k = Some (switched here new h' k)"
    and "queues_rep h' (v\<lparr>ready := rest\<rparr>)" and "loose h' new"
    and "\<And>a. fresh (ring_map v) a \<Longrightarrow> detached h' a = detached (links k) a"
proof (cases "ready v")
  case Nil
  then have e: "list_empty Readyqueue (links k)" using ready_empty_iff [OF v] by simp
  have n: "new = i" "rest = []" using pk Nil by simp_all
  have "sched_next_rr here k = Some (switched here new (links k) k)"
    using e i n by (simp add: sched_next_rr_def switched_def Let_def)
  moreover have "v\<lparr>ready := rest\<rparr> = v" using Nil n by simp
  ultimately show ?thesis using that [of "links k"] v li [OF Nil] n by simp
next
  case (Cons p ps)
  then have n: "new = p" "rest = ps" using pk by simp_all
  have f: "fam ring (links k) (ring_map v)" using v by (simp add: queues_rep_def)
  have q: "ring_map v Readyqueue = Some ([] @ At_list p # map At_list ps)" using Cons by simp
  obtain h' where h': "list_del (At_list p) (links k) = Some h'"
      "fam ring h' ((ring_map v)(Readyqueue \<mapsto> [] @ map At_list ps))" "detached h' (At_list p)"
      "\<And>a. fresh (ring_map v) a \<Longrightarrow> detached h' a = detached (links k) a"
    using lq.fam_del [OF f q] by metis
  have e: "\<not> list_empty Readyqueue (links k)" using ready_empty_iff [OF v] Cons by simp
  have lf: "list_first Readyqueue (links k) = Some (At_list p)"
    using lq.fam_first [OF f, of Readyqueue "At_list p" "map At_list ps"] Cons by simp
  have "sched_next_rr here k = Some (switched here new h' k)"
    using e lf h'(1) n by (simp add: sched_next_rr_def switched_def Let_def on_links_def get_quantum_def)
  moreover have "queues_rep h' (v\<lparr>ready := rest\<rparr>)" using h'(2) n by (simp add: queues_rep_def)
  ultimately show ?thesis using that h'(3,4) n by blast
qed

lemma task_switch_simps [simp]:
  "links (task_switch new here k) = links k" "current (task_switch new here k) = new"
  "idle_task (task_switch new here k) = idle_task k"
  "remaining_quantum (task_switch new here k) = remaining_quantum k"
  "PID (tasks (task_switch new here k) p) = PID (tasks k p)"
  "quantum (tasks (task_switch new here k) p) = quantum (tasks k p)"
  by (auto simp: task_switch_def inner_task_switch_def cambio_pila_def Let_def writeMSR_def set_cr3_def)

lemma switched_simps:
  "links (switched here new h k) = h" "idle_task (switched here new h k) = idle_task k"
  "remaining_quantum (switched here new h k) = quantum (tasks k new)"
  "PID (tasks (switched here new h k) p) = PID (tasks k p)"
  "quantum (tasks (switched here new h k) p) = quantum (tasks k p)"
  by (simp_all add: switched_def Let_def get_quantum_def)

text \<open>With distinct PIDs, the process chosen is the one that runs.\<close>

lemma switched_current:
  assumes "pids_ok k P" and "current k \<in> P" and "new \<in> P"
  shows "current (switched here new h k) = new"
  using assms by (auto simp: switched_def Let_def pids_ok_def inj_on_def)

section \<open>Giving up the processor\<close>

definition queued :: "queues \<Rightarrow> nat set" where
  "queued v = set (ready v) \<union> set (blocked v) \<union> set (kbd_blocked v)"

lemma all_tasks_queued:
  "idle_task k = Some i \<Longrightarrow> all_tasks k v = insert i (insert (current k) (queued v))"
  by (auto simp: all_tasks_def queued_def)

lemma sched_ok_same:
  assumes "links k' = links k" and "current k' = current k" and "idle_task k' = idle_task k"
    and "\<And>p. PID (tasks k' p) = PID (tasks k p)"
  shows "sched_ok k' v = sched_ok k v"
  using assms by (simp add: sched_ok_def idle_ok_def pids_ok_def all_tasks_def cong: inj_on_cong)

lemma pick_queued:
  "pick i (ready v) = (new, rest) \<Longrightarrow>
     insert i (insert new (queued (v\<lparr>ready := rest\<rparr>))) = insert i (queued v)"
  by (cases "ready v") (auto simp: queued_def)

text \<open>
  The current process goes to the end of a queue \<open>q\<close> and the next one is chosen. \<open>v1\<close> are the
  queues in between. The idle process must not leave the processor for a queue other than
  the ready queue, which only \<open>schedule\<close> puts it in.
\<close>

lemma yield:
  assumes ok: "sched_ok k v" and i: "idle_task k = Some i"
    and q: "ring_map v q = Some (map At_list ps)"
    and v1: "ring_map v1 = (ring_map v)(q \<mapsto> map At_list (ps @ [current k]))"
    and qd: "queued v1 = insert (current k) (queued v)" and rd: "set (ready v) \<subseteq> set (ready v1)"
    and idle: "current k = i \<Longrightarrow> i \<in> set (ready v1)"
    and pk: "pick i (ready v1) = (new, rest)"
  obtains h1 h2 where "update_process_state_rr (current k) (Some q) k = Some (k\<lparr>links := h1\<rparr>)"
    and "sched_next_rr here (k\<lparr>links := h1\<rparr>) = Some (switched here new h2 (k\<lparr>links := h1\<rparr>))"
    and "sched_ok (switched here new h2 (k\<lparr>links := h1\<rparr>)) (v1\<lparr>ready := rest\<rparr>)"
    and "current (switched here new h2 (k\<lparr>links := h1\<rparr>)) = new"
proof -
  have rep: "queues_rep (links k) v" and l: "loose (links k) (current k)"
    and io: "i \<in> set (ready v) \<or> loose (links k) i" and pids: "pids_ok k (all_tasks k v)"
    using ok i by (auto simp: sched_ok_def idle_ok_def)
  obtain h1 where h1: "update_process_state_rr (current k) (Some q) k = Some (k\<lparr>links := h1\<rparr>)"
      "queues_rep h1 v1"
      "\<And>a. fresh (ring_map v) a \<Longrightarrow> a \<noteq> At_list (current k) \<Longrightarrow> detached h1 a = detached (links k) a"
    using enqueue_loose [OF rep l q v1] by blast
  have io1: "i \<in> set (ready v1) \<or> loose h1 i"
    using io rd idle h1(3) [OF detached_fresh [OF rep], of "At_list i"] by (cases "current k = i") auto
  let ?k = "k\<lparr>links := h1\<rparr>"
  have rep1: "queues_rep (links ?k) v1" and i1: "idle_task ?k = Some i"
    and li: "ready v1 = [] \<Longrightarrow> loose (links ?k) i"
    using h1(2) i io1 by auto
  obtain h2 where h2: "sched_next_rr here ?k = Some (switched here new h2 ?k)"
      "queues_rep h2 (v1\<lparr>ready := rest\<rparr>)" "loose h2 new"
      "\<And>a. fresh (ring_map v1) a \<Longrightarrow> detached h2 a = detached (links ?k) a"
    using sched_next_rr_picks [OF rep1 i1 li pk] by blast
  let ?k2 = "switched here new h2 ?k"
  have new: "new \<in> insert i (queued v1)" using pick_queued [of i v1, OF pk] by blast
  have cur: "current ?k2 = new"
    by (rule switched_current [of _ "all_tasks k v"])
      (use pids new qd i in \<open>auto simp: pids_ok_def all_tasks_queued\<close>)
  have "all_tasks ?k2 (v1\<lparr>ready := rest\<rparr>) = all_tasks k v"
    using pick_queued [OF pk] cur qd i by (simp add: all_tasks_queued switched_simps insert_commute)
  moreover have "i \<in> set rest \<or> loose h2 i"
  proof (cases "i \<in> set (ready v1)")
    case True
    then show ?thesis using pk h2(3) by (cases "ready v1") auto
  next
    case False
    then have "loose h1 i" using io1 by simp
    then show ?thesis using h2(4) [OF detached_fresh [OF h1(2)]] by simp
  qed
  ultimately have "sched_ok ?k2 (v1\<lparr>ready := rest\<rparr>)"
    using h2(2,3) cur i pids by (simp add: sched_ok_def idle_ok_def pids_ok_def switched_simps)
  then show ?thesis using that h1(1) h2(1) cur by blast
qed

section \<open>The clock tick\<close>

lemma needs_sched_rr_eq:
  "queues_rep (links k) v \<Longrightarrow>
     needs_sched_rr k = (if remaining_quantum k > 0 \<and> ready v \<noteq> [] then 0 else 1)"
  by (simp add: needs_sched_rr_def ready_empty_iff)

lemma schedule_keeps:
  assumes "sched_ok k v" and "remaining_quantum k > 1" and "ready v \<noteq> []"
  shows "schedule k = Some (k\<lparr>remaining_quantum := remaining_quantum k - 1\<rparr>)"
  using assms needs_sched_rr_eq [of "update_sched_data_rr k" v]
  by (simp add: schedule_def update_sched_data_rr_def sched_ok_def Let_def)

lemma schedule_rotates:
  assumes ok: "sched_ok k v" and e: "remaining_quantum k \<le> 1 \<or> ready v = []"
  obtains k' where "schedule k = Some k'" and "current k' = hd (ready v @ [current k])"
    and "sched_ok k' (v\<lparr>ready := tl (ready v @ [current k])\<rparr>)"
    and "remaining_quantum k' = quantum (tasks k (current k'))"
    and "\<And>p. quantum (tasks k' p) = quantum (tasks k p)" and "idle_task k' = idle_task k"
proof -
  obtain i where i: "idle_task k = Some i" using ok by (auto simp: sched_ok_def idle_ok_def)
  let ?k = "update_sched_data_rr k"
  let ?r = "ready v @ [current k]"
  have k: "sched_ok ?k v" "idle_task ?k = Some i" "current ?k = current k"
    "\<And>p. quantum (tasks ?k p) = quantum (tasks k p)"
    using ok i sched_ok_same [of ?k k v] by (simp_all add: update_sched_data_rr_def)
  have n: "needs_sched_rr ?k = 1"
    using e needs_sched_rr_eq [of ?k v] k(1) by (auto simp: sched_ok_def update_sched_data_rr_def)
  have pk: "pick i (ready (v\<lparr>ready := ?r\<rparr>)) = (hd ?r, tl ?r)" by (cases "ready v") simp_all
  obtain h1 h2 where h: "update_process_state_rr (current ?k) (Some Readyqueue) ?k = Some (?k\<lparr>links := h1\<rparr>)"
      "sched_next_rr Clock_routine (?k\<lparr>links := h1\<rparr>) =
         Some (switched Clock_routine (hd ?r) h2 (?k\<lparr>links := h1\<rparr>))"
      "sched_ok (switched Clock_routine (hd ?r) h2 (?k\<lparr>links := h1\<rparr>)) (v\<lparr>ready := ?r, ready := tl ?r\<rparr>)"
      "current (switched Clock_routine (hd ?r) h2 (?k\<lparr>links := h1\<rparr>)) = hd ?r"
    using yield [OF k(1,2) _ _ _ _ _ pk, of Readyqueue "ready v" Clock_routine] k(3)
    by (auto simp: queued_def)
  have "schedule k = Some (switched Clock_routine (hd ?r) h2 (?k\<lparr>links := h1\<rparr>))"
    using n h(1,2) by (simp add: schedule_def Let_def k(3))
  then show ?thesis
    using h(3,4) k that by (simp add: switched_simps i)
qed

text \<open>A number of clock ticks, with nothing else in between.\<close>

fun ticks :: "nat \<Rightarrow> kernel \<Rightarrow> kernel option" where
  "ticks 0 k = Some k"
| "ticks (Suc n) k = do { k \<leftarrow> schedule k; ticks n k }"

lemma ticks_add: "ticks (m + n) k = do { k \<leftarrow> ticks m k; ticks n k }"
proof (induction m arbitrary: k)
  case 0
  then show ?case by simp
next
  case (Suc m)
  then show ?case by (cases "schedule k") simp_all
qed

lemma ticks_keep:
  assumes "sched_ok k v" and "ready v \<noteq> []" and "int n < max 1 (remaining_quantum k)"
  shows "ticks n k = Some (k\<lparr>remaining_quantum := remaining_quantum k - int n\<rparr>)"
  using assms
proof (induction n arbitrary: k)
  case 0
  then show ?case by simp
next
  case (Suc n)
  let ?k = "k\<lparr>remaining_quantum := remaining_quantum k - 1\<rparr>"
  have "schedule k = Some ?k" using schedule_keeps Suc.prems by simp
  moreover have "ticks n ?k = Some (?k\<lparr>remaining_quantum := remaining_quantum ?k - int n\<rparr>)"
    using Suc.prems sched_ok_same [of ?k k v] by (intro Suc.IH) simp_all
  ultimately show ?case by simp
qed

text \<open>The number of ticks until the current process is preempted.\<close>

definition ticks_left :: "kernel \<Rightarrow> nat" where
  "ticks_left k = nat (max 1 (remaining_quantum k))"

lemma ticks_rotate:
  assumes ok: "sched_ok k v" and ne: "ready v \<noteq> []"
  obtains k' where "ticks (ticks_left k) k = Some k'" and "current k' = hd (ready v)"
    and "sched_ok k' (v\<lparr>ready := tl (ready v) @ [current k]\<rparr>)"
    and "remaining_quantum k' = quantum (tasks k (hd (ready v)))"
    and "\<And>p. quantum (tasks k' p) = quantum (tasks k p)"
proof -
  define n where "n = ticks_left k - 1"
  have n: "ticks_left k = n + 1" "int n < max 1 (remaining_quantum k)"
    "max 1 (remaining_quantum k) - int n \<le> 1"
    unfolding n_def ticks_left_def by (simp_all add: max_def)
  let ?k = "k\<lparr>remaining_quantum := remaining_quantum k - int n\<rparr>"
  have t: "ticks n k = Some ?k" by (rule ticks_keep [OF ok ne n(2)])
  have ok': "sched_ok ?k v" using ok sched_ok_same [of ?k k v] by simp
  have "remaining_quantum ?k \<le> 1" using n(3) by simp
  with schedule_rotates [OF ok'] obtain k' where k': "schedule ?k = Some k'"
      "current k' = hd (ready v @ [current ?k])"
      "sched_ok k' (v\<lparr>ready := tl (ready v @ [current ?k])\<rparr>)"
      "remaining_quantum k' = quantum (tasks ?k (current k'))"
      "\<And>p. quantum (tasks k' p) = quantum (tasks ?k p)"
    by metis
  have "ticks (ticks_left k) k = Some k'"
    unfolding n(1) ticks_add t by (simp add: k'(1))
  then show ?thesis using that k' ne by simp
qed

lemma ticks_reach:
  assumes "sched_ok k v" and "ready v = as @ p # bs"
    and "\<And>q. q \<in> set as \<Longrightarrow> 0 < quantum (tasks k q)"
  shows "\<exists>k' v'. ticks (ticks_left k + (\<Sum>q\<leftarrow>as. nat (quantum (tasks k q)))) k = Some k' \<and>
           current k' = p \<and> sched_ok k' v' \<and> set (ready v') = insert (current k) (set (ready v)) - {p}"
  using assms
proof (induction as arbitrary: k v bs)
  case Nil
  then obtain k' where k': "ticks (ticks_left k) k = Some k'" "current k' = p"
      "sched_ok k' (v\<lparr>ready := bs @ [current k]\<rparr>)"
    using ticks_rotate [of k v] by auto
  have "p \<notin> set bs" "current k \<noteq> p"
    using queues_rep_distinct [of "links k" v] loose_not_queued(1) [of "links k" v "current k"] Nil
    by (auto simp: sched_ok_def)
  then show ?case using k' Nil(2) by force
next
  case (Cons a as)
  have rep: "queues_rep (links k) v" "loose (links k) (current k)"
    using Cons.prems(1) by (simp_all add: sched_ok_def)
  obtain k1 where k1: "ticks (ticks_left k) k = Some k1" "current k1 = a"
      "sched_ok k1 (v\<lparr>ready := (as @ p # bs) @ [current k]\<rparr>)"
      "remaining_quantum k1 = quantum (tasks k a)" "\<And>p. quantum (tasks k1 p) = quantum (tasks k p)"
    using ticks_rotate [OF Cons.prems(1)] Cons.prems(2) by auto
  have q: "0 < quantum (tasks k1 q)" if "q \<in> set as" for q
    using Cons.prems(3) that by (simp add: k1(5))
  obtain k' v' where k': "ticks (ticks_left k1 + (\<Sum>q\<leftarrow>as. nat (quantum (tasks k1 q)))) k1 = Some k'"
      "current k' = p" "sched_ok k' v'"
      "set (ready v') = insert a (set ((as @ p # bs) @ [current k])) - {p}"
    using Cons.IH [OF k1(3), of "bs @ [current k]"] q unfolding k1(2) by auto
  have "ticks_left k1 = nat (quantum (tasks k a))"
    using Cons.prems(3) [of a] by (simp add: ticks_left_def k1(4))
  then have "ticks (ticks_left k + (\<Sum>q\<leftarrow>a # as. nat (quantum (tasks k q)))) k = Some k'"
    using k'(1) by (simp add: ticks_add k1(1,5))
  moreover have "set (ready v') = insert (current k) (set (ready v)) - {p}"
    using k'(4) Cons.prems(2) by auto
  ultimately show ?case using k'(2,3) by blast
qed

section \<open>A small system\<close>

text \<open>
  A concrete state for the witnesses: idle is the PCB in frame 300, process 1 in frame 301 runs and has
  three children: 302 is ready, 303 blocked in \<open>sys_block\<close>, 304 in \<open>sys_read\<close>, waiting for two
  characters. The directory of the process in frame \<open>p\<close> is in frame \<open>p + 50\<close>, its user table in
  \<open>p + 60\<close>, and all processes share the code pages in frames 550 to 557; frames 700 to 1099 are free.
\<close>

definition demo_edges :: "(knode \<times> knode) list" where
  "demo_edges =
    [(Readyqueue, At_list 302), (At_list 302, Readyqueue),
     (Blocked, At_list 303), (At_list 303, Blocked),
     (Kbd_blocked, At_list 304), (At_list 304, Kbd_blocked),
     (At_children_blocked 301, At_sibiling 303), (At_sibiling 303, At_children_blocked 301),
     (At_children_unblocked 301, At_sibiling 302), (At_sibiling 302, At_sibiling 304),
     (At_sibiling 304, At_children_unblocked 301),
     (At_children_blocked 300, At_children_blocked 300), (At_children_unblocked 300, At_children_unblocked 300),
     (At_children_blocked 302, At_children_blocked 302), (At_children_unblocked 302, At_children_unblocked 302),
     (At_children_blocked 303, At_children_blocked 303), (At_children_unblocked 303, At_children_unblocked 303),
     (At_children_blocked 304, At_children_blocked 304), (At_children_unblocked 304, At_children_unblocked 304),
     (List_tasks, At_task_list 300), (At_task_list 300, At_task_list 301),
     (At_task_list 301, At_task_list 302), (At_task_list 302, At_task_list 303),
     (At_task_list 303, At_task_list 304), (At_task_list 304, List_tasks)]"

definition demo_links :: "knode list_heap" where
  "demo_links = \<lparr>nxt = map_of demo_edges, prv = map_of (map prod.swap demo_edges)\<rparr>"

definition demo_queues :: queues where
  "demo_queues = \<lparr>ready = [302], blocked = [303], kbd_blocked = [304],
     children_blocked = [300 \<mapsto> [], 301 \<mapsto> [303], 302 \<mapsto> [], 303 \<mapsto> [], 304 \<mapsto> []],
     children_unblocked = [300 \<mapsto> [], 301 \<mapsto> [302, 304], 302 \<mapsto> [], 303 \<mapsto> [], 304 \<mapsto> []]\<rparr>"

definition demo_task :: "nat \<Rightarrow> task_struct" where
  "demo_task p = \<lparr>PID = (if p = 300 then 0 else if p = 301 then 1 else int p), dir_pages_baseAddr = p + 50,
     pending_unblocks = 0, quantum = 10,
     resume = (if p = 300 then Cpu_idle else if p = 303 then Sys_block
               else if p = 304 then Sys_read 0x801000 2 else Ret_from_fork),
     parent = (if p < 302 then None else Some 301),
     kbd_chars_needed = 2, kbd_user_buf = 0x801000, kbd_read_result = 0\<rparr>"

definition pte_for :: "nat \<Rightarrow> int \<Rightarrow> pte" where
  "pte_for f user = set_ss_pag (\<lambda>_. 0) 0 f user 0"

definition demo_tables :: "nat \<Rightarrow> page_table" where
  "demo_tables f i =
     (if 350 \<le> f \<and> f < 360 then
        (if i = 0 then pte_for 400 0 else if i = 1 then pte_for 401 0
         else if i = 2 then pte_for (f + 10) 1 else 0)
      else if 360 \<le> f \<and> f < 370 then
        (if i < 20 then pte_for (500 + 30 * (f - 360) + i) 1 else if i < 28 then pte_for (530 + i) 1 else 0)
      else if f = 400 then pte_for i 0
      else if f = 401 then (if i < 76 then pte_for (1024 + i) 0 else 0)
      else 0)"

definition demo_kernel :: kernel where
  "demo_kernel = \<lparr>
     frames = \<lparr>phys_mem = (\<lambda>i. if 700 \<le> i \<and> i < 1100 then FREE_FRAME else USED_FRAME),
               first_kernel = 16, last_kernel = 290\<rparr>,
     mach = \<lparr>ram = (\<lambda>a. of_nat a), tables = demo_tables, cr3 = 351, cr0 = 0x80000001\<rparr>,
     scr = initial_screen, kbd_st = empty_kbd, links = demo_links, tasks = demo_task,
     current = 301, idle_task = Some 300, init_task = Some 301,
     kernel_page_table = Some 400, kernel_page_table2 = Some 401,
     remaining_quantum = 3, pidGlobal = 304, zeos_ticks = 0,
     shared_frames = (\<lambda>_. -1), shared_refs = (\<lambda>_. 0), shared_marked_rm = (\<lambda>_. 0),
     tss = \<lparr>PreviousTaskLink = 0, esp0 = KERNEL_ESP 301, ss0 = KERNEL_DS, esp1 = 0, ss1 = 0,
            esp2 = 0, ss2 = 0, tss_cr3 = 0, eip = 0, eFlags = INITIAL_EFLAGS, eax = 0, ecx = 0,
            edx = 0, ebx = 0, esp = USER_ESP, ebp = USER_ESP, esi = 0, edi = 0, tss_es = USER_DS,
            tss_cs = USER_CS, tss_ss = USER_DS, tss_ds = USER_DS, tss_fs = 0, tss_gs = 0,
            LDTSegmentSelector = KERNEL_TSS, debugTrap = 0, IOMapBaseAddress = 0\<rparr>,
     msr = (\<lambda>_. 0)(0x175 := KERNEL_ESP 301), buffer_sys = 0x20000\<rparr>"

lemma demo_sel [simp]:
  "links demo_kernel = demo_links" "tasks demo_kernel = demo_task" "current demo_kernel = 301"
  "idle_task demo_kernel = Some 300" "remaining_quantum demo_kernel = 3"
  "kernel_page_table demo_kernel = Some 400" "kernel_page_table2 demo_kernel = Some 401"
  "kbd_st demo_kernel = empty_kbd" "shared_frames demo_kernel = (\<lambda>_. -1)"
  "shared_refs demo_kernel = (\<lambda>_. 0)" "shared_marked_rm demo_kernel = (\<lambda>_. 0)"
  "scr demo_kernel = initial_screen" "buffer_sys demo_kernel = 0x20000" "pidGlobal demo_kernel = 304"
  by (simp_all add: demo_kernel_def)

lemma demo_rings:
  "ring demo_links Readyqueue [At_list 302]" "ring demo_links Blocked [At_list 303]"
  "ring demo_links Kbd_blocked [At_list 304]"
  "ring demo_links (At_children_blocked 301) [At_sibiling 303]"
  "ring demo_links (At_children_unblocked 301) [At_sibiling 302, At_sibiling 304]"
  "ring demo_links List_tasks (map At_task_list [300, 301, 302, 303, 304])"
  "p \<in> {300, 302, 303, 304} \<Longrightarrow> ring demo_links (At_children_blocked p) []"
  "p \<in> {300, 302, 303, 304} \<Longrightarrow> ring demo_links (At_children_unblocked p) []"
  by (auto simp: ring_def demo_links_def demo_edges_def)

lemma demo_queues_rep: "queues_rep demo_links demo_queues"
  unfolding queues_rep_def
proof (rule famI)
  fix q xs assume "ring_map demo_queues q = Some xs"
  then show "ring demo_links q xs"
    using demo_rings by (cases q) (auto simp: demo_queues_def split: if_splits)
next
  fix q xs q' ys
  assume a: "ring_map demo_queues q = Some xs" "ring_map demo_queues q' = Some ys" "q \<noteq> q'"
  then show "set (q # xs) \<inter> set (q' # ys) = {}"
    by (cases q; cases q') (auto simp: demo_queues_def split: if_splits)
qed

lemma demo_sched_ok: "sched_ok demo_kernel demo_queues"
proof -
  have "loose demo_links 300" "loose demo_links 301"
    by (simp_all add: detached_def demo_links_def demo_edges_def)
  moreover have "inj_on (\<lambda>p. PID (demo_task p)) {300, 301, 302, 303, 304}"
    by (simp add: inj_on_def demo_task_def)
  moreover have "all_tasks demo_kernel demo_queues = {300, 301, 302, 303, 304}"
    by (auto simp: all_tasks_def demo_queues_def)
  ultimately show ?thesis
    using demo_queues_rep by (simp add: sched_ok_def idle_ok_def pids_ok_def)
qed

section \<open>Properties\<close>

text \<open>
  C15. A clock tick implements round robin: while the running process has quantum left and another one is
  ready it only counts down; otherwise the running process goes to the end of the ready queue, the
  head of the queue (the process itself, when it is alone) gets the processor with its full
  quantum, and the order of the others does not change.
\<close>

theorem schedule_is_round_robin:
  assumes "sched_ok k v"
  shows "\<exists>k'. schedule k = Some k' \<and>
     (if remaining_quantum k > 1 \<and> ready v \<noteq> []
      then current k' = current k \<and> remaining_quantum k' = remaining_quantum k - 1 \<and> sched_ok k' v
      else current k' # ready (v\<lparr>ready := tl (ready v @ [current k])\<rparr>) = ready v @ [current k] \<and>
           remaining_quantum k' = quantum (tasks k (current k')) \<and>
           sched_ok k' (v\<lparr>ready := tl (ready v @ [current k])\<rparr>))"
proof (cases "remaining_quantum k > 1 \<and> ready v \<noteq> []")
  case True
  let ?k = "k\<lparr>remaining_quantum := remaining_quantum k - 1\<rparr>"
  show ?thesis using schedule_keeps [OF assms] sched_ok_same [of ?k k v] assms True by simp
next
  case False
  then obtain k' where "schedule k = Some k'" "current k' = hd (ready v @ [current k])"
      "sched_ok k' (v\<lparr>ready := tl (ready v @ [current k])\<rparr>)"
      "remaining_quantum k' = quantum (tasks k (current k'))"
    using schedule_rotates [OF assms] by (metis not_le)
  then show ?thesis unfolding if_not_P [OF False] by (intro exI [of _ k']) simp
qed

theorem schedule_is_round_robin_witness:
  "\<exists>k'. schedule (demo_kernel\<lparr>remaining_quantum := 1\<rparr>) = Some k' \<and> current k' = 302 \<and>
     remaining_quantum k' = 10 \<and> sched_ok k' (demo_queues\<lparr>ready := [301]\<rparr>)"
proof -
  have "sched_ok (demo_kernel\<lparr>remaining_quantum := 1\<rparr>) demo_queues"
    using demo_sched_ok sched_ok_same [of "demo_kernel\<lparr>remaining_quantum := 1\<rparr>" demo_kernel] by simp
  from schedule_is_round_robin [OF this] show ?thesis
    by (auto simp: demo_queues_def demo_task_def)
qed

text \<open>
  C16. No ready process starves under the clock alone: the process at any position of the
  ready queue gets the processor after exactly the quantum left to the running process plus
  the quanta of the processes queued before it.
\<close>

theorem round_robin_is_fair:
  assumes "sched_ok k v" and "ready v = as @ p # bs"
    and "\<And>q. q \<in> set as \<Longrightarrow> 0 < quantum (tasks k q)"
  shows "\<exists>k'. ticks (ticks_left k + (\<Sum>q\<leftarrow>as. nat (quantum (tasks k q)))) k = Some k' \<and>
           current k' = p"
  using ticks_reach [OF assms] by blast

theorem round_robin_is_fair_witness: "\<exists>k'. ticks 3 demo_kernel = Some k' \<and> current k' = 302"
  using round_robin_is_fair [OF demo_sched_ok, of "[]" 302 "[]"]
  by (simp add: demo_queues_def ticks_left_def)

end
