(* ===== verification/Blocking.thy ===== *)
theory Blocking
  imports Sched
begin

text \<open>
  The operations that block and wake processes: \<open>sys_block\<close>, \<open>sys_unblock\<close> and \<open>sys_read\<close> of
  \<open>sys.c\<close>, and \<open>kbd_buf_write\<close> of \<open>devices.c\<close>, which the keyboard interrupt calls. An operation that
  may switch returns \<open>Return r\<close> when it comes back to its caller with the result \<open>r\<close>, and
  \<open>Switched\<close> when another process has taken the processor: then the rest runs later, from the
  \<open>resume_point\<close> saved in the PCB (\<open>sys_read_resumed\<close> is the rest of \<open>sys_read\<close>).
\<close>

section \<open>The operations\<close>

datatype outcome = Return int | Switched

definition kbd_buf_write :: "byte \<Rightarrow> kernel \<Rightarrow> kernel option" where
  "kbd_buf_write c k =
     (if kbd_count (kbd_st k) \<ge> KEYBOARD_BUF_SIZE then Some k
      else
        let k = k\<lparr>kbd_st := kbd_put c (kbd_st k)\<rparr> in
        if \<not> list_empty Kbd_blocked (links k) then do {
          entry \<leftarrow> list_first Kbd_blocked (links k);
          t \<leftarrow> list_head_to_task_struct entry;
          if kbd_count (kbd_st k) \<ge> kbd_chars_needed (tasks k t) then do {
            k \<leftarrow> on_links (list_del entry) k;
            update_process_state_rr t (Some Readyqueue) k }
          else Some k }
        else Some k)"

definition sys_block :: "kernel \<Rightarrow> (outcome \<times> kernel) option" where
  "sys_block k =
     (let me = current k; parent_pcb = parent (tasks k me) in
      if pending_unblocks (tasks k me) > 0 then
        Some (Return 0, upd_task me (\<lambda>p. p\<lparr>pending_unblocks := pending_unblocks p - 1\<rparr>) k)
      else do {
        k \<leftarrow> (case parent_pcb of
               Some q \<Rightarrow> do {
                 k \<leftarrow> on_links (list_del (At_sibiling me)) k;
                 on_links (list_add_tail (At_sibiling me) (At_children_blocked q)) k }
             | None \<Rightarrow> Some k);
        k \<leftarrow> update_process_state_rr me (Some Blocked) k;
        k \<leftarrow> sched_next_rr Sys_block k;
        Some (if current k = me then Return 0 else Switched, k) })"

definition child_with_pid :: "kernel \<Rightarrow> int \<Rightarrow> knode \<Rightarrow> bool" where
  "child_with_pid k pid pos =
     (case sibiling_to_task_struct pos of Some c \<Rightarrow> PID (tasks k c) = pid | None \<Rightarrow> False)"

definition sys_unblock :: "int \<Rightarrow> kernel \<Rightarrow> (int \<times> kernel) option" where
  "sys_unblock pid k = do {
     let me = current k;
     found \<leftarrow> list_for_each (child_with_pid k pid) (At_children_blocked me) (links k);
     (case found of
        Some pos \<Rightarrow> do {
          child \<leftarrow> sibiling_to_task_struct pos;
          k \<leftarrow> on_links (list_del (At_sibiling child)) k;
          k \<leftarrow> on_links (list_add_tail (At_sibiling child) (At_children_unblocked me)) k;
          k \<leftarrow> update_process_state_rr child (Some Readyqueue) k;
          Some (0, k) }
      | None \<Rightarrow> do {
          found \<leftarrow> list_for_each (child_with_pid k pid) (At_children_unblocked me) (links k);
          (case found of
             Some pos \<Rightarrow> do {
               child \<leftarrow> sibiling_to_task_struct pos;
               Some (0, upd_task child (\<lambda>p. p\<lparr>pending_unblocks := pending_unblocks p + 1\<rparr>) k) }
           | None \<Rightarrow> Some (-1, k)) }) }"

text \<open>The last lines of \<open>sys_read\<close>, also run at once when something is in the buffer.\<close>

definition serve_read :: "dword \<Rightarrow> int \<Rightarrow> kernel \<Rightarrow> (int \<times> kernel) option" where
  "serve_read b to_read k = do {
     (got, kb, m) \<leftarrow> kbd_buf_read (buffer_sys k) to_read (kbd_st k) (mach k);
     let k = k\<lparr>kbd_st := kb, mach := m\<rparr>;
     if got > 0 then do {
       (r, m) \<leftarrow> copy_to_user (buffer_sys k) b got (mach k);
       Some (got, k\<lparr>mach := m\<rparr>) }
     else Some (got, k) }"

definition sys_read_resumed :: "dword \<Rightarrow> int \<Rightarrow> kernel \<Rightarrow> (int \<times> kernel) option" where
  "sys_read_resumed b to_read k = serve_read b to_read k"

definition sys_read :: "dword \<Rightarrow> int \<Rightarrow> kernel \<Rightarrow> (outcome \<times> kernel) option" where
  "sys_read b maxchars k =
     (if b = 0 then Some (Return (- EFAULT), k)
      else if maxchars < 0 then Some (Return (- EINVAL), k)
      else if maxchars = 0 then Some (Return 0, k\<lparr>kbd_st := kbd_buf_flush (kbd_st k)\<rparr>)
      else if access_ok VERIFY_WRITE b (of_int maxchars) = 0 then Some (Return (- EFAULT), k)
      else do {
        let to_read = (if maxchars > 256 then 256 else maxchars);
        (got, k) \<leftarrow> serve_read b to_read k;
        if got > 0 then Some (Return got, k)
        else do {
          let me = current k;
          let k = upd_task me (\<lambda>p. p\<lparr>kbd_chars_needed := to_read, kbd_user_buf := b,
                                     kbd_read_result := 0\<rparr>) k;
          k \<leftarrow> update_process_state_rr me (Some Kbd_blocked) k;
          k \<leftarrow> sched_next_rr (Sys_read b to_read) k;
          if current k = me then do {
            (got, k) \<leftarrow> sys_read_resumed b to_read k;
            Some (Return got, k) }
          else Some (Switched, k) } })"

section \<open>Keeping the scheduler's invariant\<close>

lemma sched_ok_links:
  assumes ok: "sched_ok k v" and rep: "queues_rep h' v'"
    and same: "\<And>a. fresh (ring_map v) a \<Longrightarrow> detached h' a = detached (links k) a"
    and qd: "queued v' = queued v" and rd: "set (ready v) \<subseteq> set (ready v')"
  shows "sched_ok (k\<lparr>links := h'\<rparr>) v'"
proof -
  obtain i where i: "idle_ok k v i" using ok by (auto simp: sched_ok_def)
  have r: "queues_rep (links k) v" and l: "loose (links k) (current k)"
    using ok by (simp_all add: sched_ok_def)
  have "idle_ok (k\<lparr>links := h'\<rparr>) v' i"
    using i rd same [OF detached_fresh [OF r], of "At_list i"] by (auto simp: idle_ok_def)
  moreover have "all_tasks (k\<lparr>links := h'\<rparr>) v' = all_tasks k v"
    using i qd by (simp add: all_tasks_queued idle_ok_def)
  moreover have "loose h' (current k)" using same [OF detached_fresh [OF r l]] l by simp
  ultimately show ?thesis using ok rep by (auto simp: sched_ok_def pids_ok_def)
qed

text \<open>
  The lists of children agree with the PCBs: a child is in a list of its parent, in the
  blocked one exactly when it is in the \<open>blocked\<close> queue.
\<close>

definition family_ok :: "kernel \<Rightarrow> queues \<Rightarrow> bool" where
  "family_ok k v \<longleftrightarrow>
     (\<forall>p cb c. children_blocked v p = Some cb \<longrightarrow> c \<in> set cb \<longrightarrow>
        parent (tasks k c) = Some p \<and> c \<in> set (blocked v)) \<and>
     (\<forall>p cu c. children_unblocked v p = Some cu \<longrightarrow> c \<in> set cu \<longrightarrow>
        parent (tasks k c) = Some p \<and> c \<notin> set (blocked v)) \<and>
     (\<forall>p \<in> all_tasks k v. children_blocked v p \<noteq> None \<and> children_unblocked v p \<noteq> None) \<and>
     (\<forall>c p. c \<in> all_tasks k v \<longrightarrow> parent (tasks k c) = Some p \<longrightarrow>
        (\<exists>cb cu. children_blocked v p = Some cb \<and> children_unblocked v p = Some cu \<and>
           c \<in> set cb \<union> set cu))"

lemma family_ok_same:
  assumes "family_ok k v" and "\<And>p. parent (tasks k' p) = parent (tasks k p)"
    and "all_tasks k' v' = all_tasks k v"
    and "set (blocked v') = set (blocked v)"
    and "children_blocked v' = children_blocked v" and "children_unblocked v' = children_unblocked v"
  shows "family_ok k' v'"
  using assms unfolding family_ok_def by simp

lemma family_okD:
  assumes "family_ok k v"
  shows "children_blocked v p = Some cb \<Longrightarrow> c \<in> set cb \<Longrightarrow> parent (tasks k c) = Some p \<and> c \<in> set (blocked v)"
    and "children_unblocked v p = Some cu \<Longrightarrow> c \<in> set cu \<Longrightarrow>
           parent (tasks k c) = Some p \<and> c \<notin> set (blocked v)"
    and "p \<in> all_tasks k v \<Longrightarrow> children_blocked v p \<noteq> None"
    and "p \<in> all_tasks k v \<Longrightarrow> children_unblocked v p \<noteq> None"
    and "c \<in> all_tasks k v \<Longrightarrow> parent (tasks k c) = Some p \<Longrightarrow>
        \<exists>cb cu. children_blocked v p = Some cb \<and> children_unblocked v p = Some cu \<and> c \<in> set cb \<union> set cu"
  using assms unfolding family_ok_def by (blast, blast, blast, blast, fast)

text \<open>Moving a child between the two lists of its parent.\<close>

lemma move_child_ring:
  assumes ok: "sched_ok k v"
    and q1: "ring_map v q1 = Some (map At_sibiling (as @ c # bs))"
    and q2: "ring_map v q2 = Some (map At_sibiling ys)" and ne: "q1 \<noteq> q2"
    and v': "ring_map v' = (ring_map v)(q1 \<mapsto> map At_sibiling (as @ bs), q2 \<mapsto> map At_sibiling (ys @ [c]))"
    and same: "ready v' = ready v" "queued v' = queued v"
  obtains h1 h2 where "list_del (At_sibiling c) (links k) = Some h1"
    and "list_add_tail (At_sibiling c) q2 h1 = Some h2" and "sched_ok (k\<lparr>links := h2\<rparr>) v'"
proof -
  have f: "fam ring (links k) (ring_map v)" using ok by (simp add: sched_ok_def queues_rep_def)
  obtain h1 h2 where h: "list_del (At_sibiling c) (links k) = Some h1"
      "list_add_tail (At_sibiling c) q2 h1 = Some h2"
      "fam ring h2 ((ring_map v)(q1 \<mapsto> map At_sibiling as @ map At_sibiling bs,
          q2 \<mapsto> map At_sibiling ys @ [At_sibiling c]))"
      "\<And>a. fresh (ring_map v) a \<Longrightarrow> detached h2 a = detached (links k) a"
    using lq.fam_move [OF f q1 [unfolded map_append list.map(2)] q2 ne] by metis
  have "queues_rep h2 v'" using h(3) by (simp add: queues_rep_def v')
  then have "sched_ok (k\<lparr>links := h2\<rparr>) v'"
    using sched_ok_links [OF ok _ h(4)] same by simp
  then show ?thesis using that h(1,2) by blast
qed

section \<open>The keyboard wakes a reader\<close>

text \<open>What a key does to the queues: the first reader leaves when it has what it waits for.\<close>

definition wake_reader :: "kernel \<Rightarrow> nat \<Rightarrow> queues \<Rightarrow> queues" where
  "wake_reader k count v =
     (case kbd_blocked v of
        [] \<Rightarrow> v
      | t # ts \<Rightarrow> if kbd_chars_needed (tasks k t) \<le> int count
                then v\<lparr>kbd_blocked := ts, ready := ready v @ [t]\<rparr> else v)"

lemma kbd_buf_write_full:
  "kbd_ok (kbd_st k) \<Longrightarrow> length (kbd_contents (kbd_st k)) = 256 \<Longrightarrow> kbd_buf_write c k = Some k"
  by (auto simp: kbd_buf_write_def)

lemma kbd_blocked_empty_iff:
  "queues_rep h v \<Longrightarrow> list_empty Kbd_blocked h \<longleftrightarrow> kbd_blocked v = []"
  using lq.fam_empty [of h "ring_map v" Kbd_blocked] by (simp add: queues_rep_def)

lemma kbd_buf_write_stores:
  assumes ok: "sched_ok k v" and kb: "kbd_ok (kbd_st k)"
    and sp: "length (kbd_contents (kbd_st k)) < 256"
  obtains k' where "kbd_buf_write c k = Some k'" and "kbd_st k' = kbd_put c (kbd_st k)"
    and "sched_ok k' (wake_reader k (Suc (length (kbd_contents (kbd_st k)))) v)"
    and "tasks k' = tasks k" and "current k' = current k" and "idle_task k' = idle_task k"
proof -
  let ?k = "k\<lparr>kbd_st := kbd_put c (kbd_st k)\<rparr>"
  let ?n = "Suc (length (kbd_contents (kbd_st k)))"
  have n: "kbd_count (kbd_put c (kbd_st k)) = int ?n"
    using kb sp by (auto simp: kbd_put_def kbd_ok_def)
  have ok': "sched_ok ?k v" using ok sched_ok_same [of ?k k v] by simp
  have rep: "queues_rep (links ?k) v" using ok' by (simp add: sched_ok_def)
  have nf: "\<not> kbd_count (kbd_st k) \<ge> 256" using kb sp by (simp add: kbd_ok_def)
  show ?thesis
  proof (cases "kbd_blocked v")
    case Nil
    then have "kbd_buf_write c k = Some ?k"
      using nf kbd_blocked_empty_iff [OF rep] by (simp add: kbd_buf_write_def)
    then show ?thesis using that [of ?k] ok' Nil by (simp add: wake_reader_def)
  next
    case (Cons t ts)
    have f: "fam ring (links ?k) (ring_map v)" using rep by (simp add: queues_rep_def)
    have ne: "\<not> list_empty Kbd_blocked (links ?k)" using kbd_blocked_empty_iff [OF rep] Cons by simp
    have lf: "list_first Kbd_blocked (links ?k) = Some (At_list t)"
      using lq.fam_first [OF f, of Kbd_blocked "At_list t" "map At_list ts"] Cons by simp
    show ?thesis
    proof (cases "kbd_chars_needed (tasks k t) \<le> int ?n")
      case False
      then have "kbd_buf_write c k = Some ?k"
        using nf ne lf n by (simp add: kbd_buf_write_def)
      then show ?thesis using that [of ?k] ok' Cons False by (simp add: wake_reader_def)
    next
      case True
      have q1: "ring_map v Kbd_blocked = Some ([] @ At_list t # map At_list ts)" using Cons by simp
      obtain h1 h2 where h: "list_del (At_list t) (links ?k) = Some h1"
          "list_add_tail (At_list t) Readyqueue h1 = Some h2"
          "fam ring h2 ((ring_map v)(Kbd_blocked \<mapsto> [] @ map At_list ts,
              Readyqueue \<mapsto> map At_list (ready v) @ [At_list t]))"
          "\<And>a. fresh (ring_map v) a \<Longrightarrow> detached h2 a = detached (links ?k) a" "detached h1 (At_list t)"
        using lq.fam_move [OF f q1, of Readyqueue "map At_list (ready v)"] by auto
      let ?v = "v\<lparr>kbd_blocked := ts, ready := ready v @ [t]\<rparr>"
      have "queues_rep h2 ?v" using h(3) by (simp add: queues_rep_def)
      then have "sched_ok (?k\<lparr>links := h2\<rparr>) ?v"
        using Cons by (intro sched_ok_links [OF ok' _ h(4)]) (auto simp: queued_def)
      moreover have "kbd_buf_write c k = Some (?k\<lparr>links := h2\<rparr>)"
        using nf ne lf n True h(1,2,5)
        by (simp add: kbd_buf_write_def update_process_state_rr_def on_links_def detached_def)
      ultimately show ?thesis using that [of "?k\<lparr>links := h2\<rparr>"] Cons True by (simp add: wake_reader_def)
    qed
  qed
qed

section \<open>Blocking and the next process\<close>

lemma switched_tasks:
  assumes "pids_ok k P" and "current k \<in> P" and "new \<in> P"
  shows "tasks (switched here new h k) =
           (if new = current k then tasks k
            else (tasks k)(current k := (tasks k (current k))\<lparr>resume := here\<rparr>))"
  using assms
  by (auto simp: switched_def Let_def pids_ok_def inj_on_def task_switch_def inner_task_switch_def
      cambio_pila_def writeMSR_def set_cr3_def)

text \<open>The current process leaves for a queue of waiting processes \<open>q\<close>.\<close>

lemma leave_processor:
  assumes ok: "sched_ok k v" and i: "idle_task k = Some i" "current k \<noteq> i"
    and q: "ring_map v q = Some (map At_list ps)"
    and v1: "ring_map v1 = (ring_map v)(q \<mapsto> map At_list (ps @ [current k]))"
    and qd: "queued v1 = insert (current k) (queued v)" and rd: "ready v1 = ready v"
    and pk: "pick i (ready v) = (new, rest)"
  obtains k' where "do { k1 \<leftarrow> update_process_state_rr (current k) (Some q) k;
                         sched_next_rr here k1 } = Some k'"
    and "sched_ok k' (v1\<lparr>ready := rest\<rparr>)" and "current k' = new" and "new \<noteq> current k"
    and "tasks k' = (tasks k)(current k := (tasks k (current k))\<lparr>resume := here\<rparr>)"
    and "idle_task k' = Some i" and "remaining_quantum k' = quantum (tasks k new)"
proof -
  have rep: "queues_rep (links k) v" and l: "loose (links k) (current k)"
    and pids: "pids_ok k (all_tasks k v)"
    using ok by (simp_all add: sched_ok_def)
  have nc: "new \<noteq> current k"
    using pk i(2) loose_not_queued(1) [OF rep l] by (cases "ready v") auto
  obtain h1 h2 where h: "update_process_state_rr (current k) (Some q) k = Some (k\<lparr>links := h1\<rparr>)"
      "sched_next_rr here (k\<lparr>links := h1\<rparr>) = Some (switched here new h2 (k\<lparr>links := h1\<rparr>))"
      "sched_ok (switched here new h2 (k\<lparr>links := h1\<rparr>)) (v1\<lparr>ready := rest\<rparr>)"
      "current (switched here new h2 (k\<lparr>links := h1\<rparr>)) = new"
    using yield [OF ok i(1) q v1 qd, of new rest here] rd pk i(2) by auto
  have "new \<in> all_tasks k v" using pk i(1) by (cases "ready v") (auto simp: all_tasks_def)
  then have t: "tasks (switched here new h2 (k\<lparr>links := h1\<rparr>)) =
      (tasks k)(current k := (tasks k (current k))\<lparr>resume := here\<rparr>)"
    using switched_tasks [of "k\<lparr>links := h1\<rparr>" "all_tasks k v" new here h2] pids nc
    by (simp add: pids_ok_def all_tasks_def)
  show ?thesis
    using that [OF _ h(3,4) nc t] h(1,2) i by (simp add: switched_simps)
qed

text \<open>\<open>pick\<close> on the state of the kernel.\<close>

definition next_process :: "kernel \<Rightarrow> queues \<Rightarrow> nat" where
  "next_process k v = (case ready v of [] \<Rightarrow> the (idle_task k) | p # ps \<Rightarrow> p)"

lemma pick_next: "idle_task k = Some i \<Longrightarrow> pick i (ready v) = (next_process k v, tl (ready v))"
  by (cases "ready v") (simp_all add: next_process_def)

text \<open>What \<open>sys_block\<close> does to the queues when it blocks.\<close>

definition block_queues :: "kernel \<Rightarrow> queues \<Rightarrow> queues" where
  "block_queues k v =
     (let me = current k;
          w = (case parent (tasks k me) of
                 Some q \<Rightarrow> v\<lparr>children_unblocked := (children_unblocked v)
                                (q \<mapsto> remove1 me (the (children_unblocked v q))),
                            children_blocked := (children_blocked v)
                                (q \<mapsto> the (children_blocked v q) @ [me])\<rparr>
               | None \<Rightarrow> v)
      in w\<lparr>blocked := blocked v @ [me], ready := tl (ready v)\<rparr>)"

lemma unblocked_child_list:
  assumes ok: "sched_ok k v" and fam: "family_ok k v" and pa: "parent (tasks k (current k)) = Some q"
  obtains as bs cb where "children_unblocked v q = Some (as @ current k # bs)"
    and "children_blocked v q = Some cb" and "remove1 (current k) (as @ current k # bs) = as @ bs"
    and "current k \<notin> set (as @ bs)"
proof -
  have "current k \<notin> set (blocked v)"
    using ok loose_not_queued(2) [of "links k" v "current k"] by (simp add: sched_ok_def)
  then obtain cb cu where c: "children_blocked v q = Some cb" "children_unblocked v q = Some cu"
      "current k \<in> set cu"
    using family_okD(5) [OF fam _ pa] family_okD(1) [OF fam] by (auto simp: all_tasks_def)
  then obtain as bs where ab: "cu = as @ current k # bs" "current k \<notin> set as"
    by (meson split_list_first)
  have "ring (links k) (At_children_unblocked q) (map At_sibiling cu)"
    using ok c(2) fam_rep [of ring "links k" "ring_map v" "At_children_unblocked q"]
    by (simp add: sched_ok_def queues_rep_def)
  then have "distinct (map At_sibiling cu)" using ring_distinct by fastforce
  then have "distinct cu" by (simp add: distinct_map)
  then show ?thesis using that c ab by (auto simp: remove1_append)
qed

lemma sys_block_blocks:
  assumes ok: "sched_ok k v" and fam: "family_ok k v" and i: "idle_task k \<noteq> Some (current k)"
    and pend: "pending_unblocks (tasks k (current k)) \<le> 0"
  obtains k' where "sys_block k = Some (Switched, k')" and "sched_ok k' (block_queues k v)"
    and "current k' = next_process k v" and "current k' \<noteq> current k"
    and "tasks k' = (tasks k)(current k := (tasks k (current k))\<lparr>resume := Sys_block\<rparr>)"
    and "remaining_quantum k' = quantum (tasks k (current k'))" and "idle_task k' = idle_task k"
proof -
  let ?me = "current k"
  note result = that
  obtain j where j: "idle_task k = Some j" "?me \<noteq> j" using ok i by (auto simp: sched_ok_def idle_ok_def)
  have main: ?thesis
    if s: "(case parent (tasks k ?me) of
               Some q \<Rightarrow> do {
                 k \<leftarrow> on_links (list_del (At_sibiling ?me)) k;
                 on_links (list_add_tail (At_sibiling ?me) (At_children_blocked q)) k }
             | None \<Rightarrow> Some k) = Some (k\<lparr>links := h\<rparr>)"
      and w: "sched_ok (k\<lparr>links := h\<rparr>) w" "ready w = ready v" "blocked w = blocked v"
      and b: "block_queues k v = w\<lparr>blocked := blocked w @ [?me], ready := tl (ready v)\<rparr>" for h w
  proof -
    let ?k = "k\<lparr>links := h\<rparr>"
    have p: "pick j (ready w) = (next_process k v, tl (ready v))" using pick_next [OF j(1)] w(2) by simp
    obtain k' where k': "do { k1 \<leftarrow> update_process_state_rr (current ?k) (Some Blocked) ?k;
                         sched_next_rr Sys_block k1 } = Some k'"
        "sched_ok k' (w\<lparr>blocked := blocked w @ [?me], ready := tl (ready v)\<rparr>)"
        "current k' = next_process k v" "next_process k v \<noteq> ?me"
        "tasks k' = (tasks k)(?me := (tasks k ?me)\<lparr>resume := Sys_block\<rparr>)"
        "idle_task k' = Some j" "remaining_quantum k' = quantum (tasks k (next_process k v))"
      using leave_processor [OF w(1) _ _ _ _ _ _ p, of Blocked "blocked w" "w\<lparr>blocked := blocked w @ [?me]\<rparr>"
          Sys_block] j
      by (auto simp: queued_def)
    then obtain k1 where "update_process_state_rr ?me (Some Blocked) ?k = Some k1"
        "sched_next_rr Sys_block k1 = Some k'"
      by (auto simp: bind_eq_Some_conv)
    then have "sys_block k = Some (Switched, k')"
      using pend s k'(3,4) by (simp add: sys_block_def Let_def)
    then show ?thesis using result k' b j by simp
  qed
  show ?thesis
  proof (cases "parent (tasks k ?me)")
    case None
    then show ?thesis
      using main [of "links k" v] ok by (simp add: block_queues_def)
  next
    case (Some q)
    obtain as bs cb where c: "children_unblocked v q = Some (as @ ?me # bs)"
        "children_blocked v q = Some cb" "remove1 ?me (as @ ?me # bs) = as @ bs"
      using unblocked_child_list [OF ok fam Some] by metis
    let ?w = "v\<lparr>children_unblocked := (children_unblocked v)(q \<mapsto> as @ bs),
                children_blocked := (children_blocked v)(q \<mapsto> cb @ [?me])\<rparr>"
    have rm: "ring_map ?w = (ring_map v)(At_children_unblocked q \<mapsto> map At_sibiling (as @ bs),
        At_children_blocked q \<mapsto> map At_sibiling (cb @ [?me]))"
      using ring_map_upd(4) [of "v\<lparr>children_unblocked := (children_unblocked v)(q \<mapsto> as @ bs)\<rparr>" q]
      by simp
    obtain h1 h2 where h: "list_del (At_sibiling ?me) (links k) = Some h1"
        "list_add_tail (At_sibiling ?me) (At_children_blocked q) h1 = Some h2"
        "sched_ok (k\<lparr>links := h2\<rparr>) ?w"
      using move_child_ring [OF ok _ _ _ rm] c by (auto simp: queued_def)
    show ?thesis
      using main [of h2 ?w] h c Some by (simp add: on_links_def block_queues_def Let_def)
  qed
qed

lemma block_family_ok:
  assumes ok: "sched_ok k v" and fam: "family_ok k v" and i: "idle_task k = Some i"
    and k': "current k' = next_process k v" "idle_task k' = idle_task k"
      "\<And>p. parent (tasks k' p) = parent (tasks k p)"
  shows "family_ok k' (block_queues k v)"
proof -
  let ?me = "current k" and ?v = "block_queues k v"
  have all: "all_tasks k' ?v = all_tasks k v"
  proof -
    have "queued ?v = insert ?me (queued (v\<lparr>ready := tl (ready v)\<rparr>))"
      by (auto simp: block_queues_def Let_def queued_def split: option.splits)
    then show ?thesis
      using pick_queued [OF pick_next [OF i, of v]] k'(1,2) i
      by (simp add: all_tasks_queued) blast
  qed
  have bl: "blocked ?v = blocked v @ [?me]" by (simp add: block_queues_def Let_def)
  show ?thesis
  proof (cases "parent (tasks k ?me)")
    case None
    then have "children_blocked ?v = children_blocked v" "children_unblocked ?v = children_unblocked v"
      by (simp_all add: block_queues_def)
    moreover have "c \<noteq> ?me" if "children_unblocked v p = Some cu" "c \<in> set cu" for p cu c
      using family_okD(2) [OF fam that] None by auto
    ultimately show ?thesis
      using fam None unfolding family_ok_def all bl k'(3) by (auto 4 3)
  next
    case (Some q)
    obtain as bs cb where c: "children_unblocked v q = Some (as @ ?me # bs)"
        "children_blocked v q = Some cb" "remove1 ?me (as @ ?me # bs) = as @ bs" "?me \<notin> set (as @ bs)"
      using unblocked_child_list [OF ok fam Some] by metis
    have v: "children_blocked ?v = (children_blocked v)(q \<mapsto> cb @ [?me])"
      "children_unblocked ?v = (children_unblocked v)(q \<mapsto> as @ bs)"
      using Some c by (simp_all add: block_queues_def Let_def)
    have other: "c \<noteq> ?me" if "children_unblocked v p = Some cu" "c \<in> set cu" "p \<noteq> q" for p cu c
      using family_okD(2) [OF fam that(1,2)] Some that(3) by auto
    have mem: "c \<in> set cb \<union> set (as @ ?me # bs)" if "c \<in> all_tasks k v" "parent (tasks k c) = Some q" for c
      using family_okD(5) [OF fam that] c(1,2) by auto
    show ?thesis
      unfolding family_ok_def all bl k'(3) v
    proof (intro conjI allI impI ballI)
      fix p xs d assume "((children_blocked v)(q \<mapsto> cb @ [?me])) p = Some xs" "d \<in> set xs"
      then show "parent (tasks k d) = Some p" and "d \<in> set (blocked v @ [?me])"
        using family_okD(1) [OF fam] c(2) Some by (auto split: if_splits)
    next
      fix p xs d assume "((children_unblocked v)(q \<mapsto> as @ bs)) p = Some xs" "d \<in> set xs"
      then show "parent (tasks k d) = Some p" and "d \<notin> set (blocked v @ [?me])"
        using family_okD(2) [OF fam] c(1,4) other by (auto split: if_splits)
    next
      fix p assume "p \<in> all_tasks k v"
      then show "((children_blocked v)(q \<mapsto> cb @ [?me])) p \<noteq> None"
        and "((children_unblocked v)(q \<mapsto> as @ bs)) p \<noteq> None"
        using family_okD(3,4) [OF fam] by auto
    next
      fix d p assume d: "d \<in> all_tasks k v" "parent (tasks k d) = Some p"
      then show "\<exists>xs ys. ((children_blocked v)(q \<mapsto> cb @ [?me])) p = Some xs \<and>
          ((children_unblocked v)(q \<mapsto> as @ bs)) p = Some ys \<and> d \<in> set xs \<union> set ys"
        using family_okD(5) [OF fam d] mem [OF d(1)] by (cases "p = q") auto
    qed
  qed
qed

section \<open>Waking a child\<close>

definition find_child :: "kernel \<Rightarrow> int \<Rightarrow> nat list \<Rightarrow> nat option" where
  "find_child k pid cs = List.find (\<lambda>c. PID (tasks k c) = pid) cs"

lemma find_sibiling:
  "List.find (child_with_pid k pid) (map At_sibiling cs) = map_option At_sibiling (find_child k pid cs)"
  by (induction cs) (simp_all add: find_child_def child_with_pid_def)

lemma find_child_Some:
  "find_child k pid cs = Some c \<Longrightarrow> c \<in> set cs \<and> PID (tasks k c) = pid"
  by (auto simp: find_child_def find_Some_iff)

lemma search_children:
  assumes "queues_rep (links k) v" and "ring_map v q = Some (map At_sibiling cs)"
  shows "list_for_each (child_with_pid k pid) q (links k) = Some (map_option At_sibiling (find_child k pid cs))"
proof -
  have "ring (links k) q (map At_sibiling cs)"
    using assms fam_rep by (auto simp: queues_rep_def)
  then show ?thesis by (simp add: list_for_each_ring find_sibiling)
qed

definition unblock_queues :: "kernel \<Rightarrow> nat \<Rightarrow> queues \<Rightarrow> queues" where
  "unblock_queues k c v =
     (let me = current k in
      v\<lparr>children_blocked := (children_blocked v)(me \<mapsto> remove1 c (the (children_blocked v me))),
        children_unblocked := (children_unblocked v)(me \<mapsto> the (children_unblocked v me) @ [c]),
        blocked := remove1 c (blocked v), ready := ready v @ [c]\<rparr>)"

lemma distinct_children:
  assumes "queues_rep h v" and "ring_map v q = Some (map At_sibiling cs)"
  shows "distinct cs"
proof -
  have "ring h q (map At_sibiling cs)" using assms fam_rep by (auto simp: queues_rep_def)
  then have "distinct (map At_sibiling cs)" using ring_distinct by fastforce
  then show ?thesis by (simp add: distinct_map)
qed

lemma sys_unblock_wakes:
  assumes ok: "sched_ok k v" and fam: "family_ok k v"
    and cb: "children_blocked v (current k) = Some cb" and c: "find_child k pid cb = Some c"
  obtains h where "sys_unblock pid k = Some (0, k\<lparr>links := h\<rparr>)"
    and "sched_ok (k\<lparr>links := h\<rparr>) (unblock_queues k c v)"
proof -
  let ?me = "current k"
  have rep: "queues_rep (links k) v" using ok by (simp add: sched_ok_def)
  obtain cu where cu: "children_unblocked v ?me = Some cu"
    using family_okD(4) [OF fam, of ?me] by (auto simp: all_tasks_def)
  have "distinct cb" by (rule distinct_children [OF rep, of "At_children_blocked ?me"]) (simp add: cb)
  moreover have cin: "c \<in> set cb" using find_child_Some [OF c] by simp
  ultimately obtain as bs where ab: "cb = as @ c # bs" "remove1 c cb = as @ bs"
    by (metis distinct_append distinct.simps(2) not_distinct_conv_prefix remove1_append remove1.simps(2) split_list_first)
  have "c \<in> set (blocked v)" using family_okD(1) [OF fam cb cin] by simp
  then obtain xs ys where xy: "blocked v = xs @ c # ys" "remove1 c (blocked v) = xs @ ys"
    by (metis remove1_append remove1.simps(2) split_list_first)
  let ?w = "v\<lparr>children_blocked := (children_blocked v)(?me \<mapsto> as @ bs),
             children_unblocked := (children_unblocked v)(?me \<mapsto> cu @ [c])\<rparr>"
  have rm: "ring_map ?w = (ring_map v)(At_children_blocked ?me \<mapsto> map At_sibiling (as @ bs),
        At_children_unblocked ?me \<mapsto> map At_sibiling (cu @ [c]))"
    using ring_map_upd(5) [of "v\<lparr>children_blocked := (children_blocked v)(?me \<mapsto> as @ bs)\<rparr>" ?me] by simp
  obtain h1 h2 where h: "list_del (At_sibiling c) (links k) = Some h1"
      "list_add_tail (At_sibiling c) (At_children_unblocked ?me) h1 = Some h2"
      "sched_ok (k\<lparr>links := h2\<rparr>) ?w"
    using move_child_ring [OF ok _ _ _ rm] cb cu ab(1) by (auto simp: queued_def)
  let ?k2 = "k\<lparr>links := h2\<rparr>"
  have rep2: "queues_rep (links ?k2) ?w" using h(3) by (simp add: sched_ok_def)
  have v3: "unblock_queues k c v = ?w\<lparr>blocked := xs @ ys, ready := ready v @ [c]\<rparr>"
    using cb cu ab(2) xy(2) by (simp add: unblock_queues_def Let_def)
  obtain h3 where h3: "update_process_state_rr c (Some Readyqueue) ?k2 = Some (?k2\<lparr>links := h3\<rparr>)"
      "queues_rep h3 (unblock_queues k c v)"
      "\<And>a. fresh (ring_map ?w) a \<Longrightarrow> detached h3 a = detached (links ?k2) a"
    using move_queued [OF rep2, of Blocked xs c ys Readyqueue "ready v" "unblock_queues k c v"] xy(1)
    unfolding v3 by auto
  have "sched_ok (?k2\<lparr>links := h3\<rparr>) (unblock_queues k c v)"
    by (rule sched_ok_links [OF h(3) h3(2,3)]) (auto simp: v3 queued_def xy(1))
  moreover have "sys_unblock pid k = Some (0, k\<lparr>links := h3\<rparr>)"
    using search_children [OF rep, of "At_children_blocked ?me" cb pid] cb c h(1,2) h3(1)
    by (simp add: sys_unblock_def Let_def on_links_def)
  ultimately show ?thesis using that by simp
qed

lemma unblock_family_ok:
  assumes ok: "sched_ok k v" and fam: "family_ok k v"
    and cb: "children_blocked v (current k) = Some cb" and c: "c \<in> set cb"
  shows "family_ok (k\<lparr>links := h\<rparr>) (unblock_queues k c v)"
proof -
  let ?me = "current k" and ?v = "unblock_queues k c v"
  have rep: "queues_rep (links k) v" using ok by (simp add: sched_ok_def)
  obtain cu where cu: "children_unblocked v ?me = Some cu"
    using family_okD(4) [OF fam, of ?me] by (auto simp: all_tasks_def)
  have d: "distinct cb" by (rule distinct_children [OF rep, of "At_children_blocked ?me"]) (simp add: cb)
  have db: "distinct (blocked v)" using queues_rep_distinct [OF rep] by simp
  have bl: "c \<in> set (blocked v)" "parent (tasks k c) = Some ?me" using family_okD(1) [OF fam cb c] by simp_all
  have v: "children_blocked ?v = (children_blocked v)(?me \<mapsto> remove1 c cb)"
    "children_unblocked ?v = (children_unblocked v)(?me \<mapsto> cu @ [c])"
    "blocked ?v = remove1 c (blocked v)" "ready ?v = ready v @ [c]" "kbd_blocked ?v = kbd_blocked v"
    by (simp_all add: unblock_queues_def Let_def cb cu)
  have all: "all_tasks (k\<lparr>links := h\<rparr>) ?v = all_tasks k v"
    using bl(1) db by (auto simp: all_tasks_def v)
  have nc: "x \<noteq> c" if "children_blocked v p = Some xs" "x \<in> set xs" "p \<noteq> ?me" for p xs x
    using family_okD(1) [OF fam that(1,2)] bl(2) that(3) by auto
  show ?thesis
    unfolding family_ok_def all v
  proof (intro conjI allI impI ballI)
    fix p xs x assume x: "((children_blocked v)(?me \<mapsto> remove1 c cb)) p = Some xs" "x \<in> set xs"
    show "parent (tasks (k\<lparr>links := h\<rparr>) x) = Some p" and "x \<in> set (remove1 c (blocked v))"
      using x family_okD(1) [OF fam] cb d db nc by (auto split: if_splits)
  next
    fix p xs x assume x: "((children_unblocked v)(?me \<mapsto> cu @ [c])) p = Some xs" "x \<in> set xs"
    show "parent (tasks (k\<lparr>links := h\<rparr>) x) = Some p" and "x \<notin> set (remove1 c (blocked v))"
      using x family_okD(2) [OF fam] cu bl(2) db by (auto split: if_splits)
  next
    fix p assume "p \<in> all_tasks k v"
    then show "((children_blocked v)(?me \<mapsto> remove1 c cb)) p \<noteq> None"
      and "((children_unblocked v)(?me \<mapsto> cu @ [c])) p \<noteq> None"
      using family_okD(3,4) [OF fam] by auto
  next
    fix x p assume x: "x \<in> all_tasks k v" "parent (tasks (k\<lparr>links := h\<rparr>) x) = Some p"
    then show "\<exists>xs ys. ((children_blocked v)(?me \<mapsto> remove1 c cb)) p = Some xs \<and>
        ((children_unblocked v)(?me \<mapsto> cu @ [c])) p = Some ys \<and> x \<in> set xs \<union> set ys"
      using family_okD(5) [OF fam x(1), of p] cb cu d by (cases "p = ?me") auto
  qed
qed

section \<open>Reading the keyboard\<close>

lemma serve_read_empty:
  assumes "kbd_ok (kbd_st k)" and "kbd_contents (kbd_st k) = []"
  shows "serve_read b n k = Some (0, k)"
proof -
  have "kbd_count (kbd_st k) = 0" using assms by (simp add: kbd_ok_def flip: length_0_conv)
  then show ?thesis
    by (simp add: serve_read_def kbd_buf_read_def kbd_read_loop.simps [of "buffer_sys k" n 0] Let_def)
qed

lemma serve_read_gets:
  assumes kb: "kbd_ok (kbd_st k)" and t: "t = min n (length (kbd_contents (kbd_st k)))" and t0: "0 < t"
    and P: "mapped (mach k) (buffer_sys k) t P" "inj_on P {..<t}"
    and Q: "mapped (mach k) b t Q" "inj_on Q {..<t}"
    and PQ: "P ` {..<t} \<inter> Q ` {..<t} = {}"
  obtains kb' r where "serve_read b (int n) k =
      Some (int t, k\<lparr>kbd_st := kb', mach := (mach k)\<lparr>ram := r\<rparr>\<rparr>)"
    and "kbd_ok kb'" and "kbd_contents kb' = drop t (kbd_contents (kbd_st k))"
    and "\<And>i. i < t \<Longrightarrow> r (Q i) = kbd_contents (kbd_st k) ! i"
    and "\<And>a. a \<notin> P ` {..<t} \<union> Q ` {..<t} \<Longrightarrow> r a = ram (mach k) a"
proof -
  obtain kb' r where r: "kbd_buf_read (buffer_sys k) (int n) (kbd_st k) (mach k) =
        Some (int t, kb', (mach k)\<lparr>ram := r\<rparr>)" "kbd_ok kb'"
      "kbd_contents kb' = drop t (kbd_contents (kbd_st k))"
      "\<forall>i<t. r (P i) = kbd_contents (kbd_st k) ! i" "\<forall>a. a \<notin> P ` {..<t} \<longrightarrow> r a = ram (mach k) a"
    using kbd_read_loop_delivers [of "kbd_st k" 0 n t "mach k" "buffer_sys k" P] kb t P
    by (fastforce simp: kbd_buf_read_def atLeast0LessThan)
  let ?m = "(mach k)\<lparr>ram := r\<rparr>"
  let ?r = "blit P Q [0..<t] r"
  have d: "P i \<noteq> Q j" if "i < t" "j < t" for i j
  proof
    assume eq: "P i = Q j"
    have "P i \<in> P ` {..<t}" "Q j \<in> Q ` {..<t}" using that by auto
    then show False using PQ unfolding eq by blast
  qed
  have "copy_to_user (buffer_sys k) b (int t) ?m = Some (0, ?m\<lparr>ram := ?r\<rparr>)"
    using copy_data_blit(3) [of ?m "buffer_sys k" t P b Q] P Q d by simp
  then have "serve_read b (int n) k = Some (int t, k\<lparr>kbd_st := kb', mach := (mach k)\<lparr>ram := ?r\<rparr>\<rparr>)"
    using r(1) t0 by (simp add: serve_read_def Let_def)
  moreover have "?r (Q i) = kbd_contents (kbd_st k) ! i" if "i < t" for i
    using blit_disjoint [of t P Q r] d Q(2) r(4) that by simp
  moreover have "?r a = ram (mach k) a" if "a \<notin> P ` {..<t} \<union> Q ` {..<t}" for a
    using blit_disjoint [of t P Q r] d Q(2) r(5) that by simp
  ultimately show ?thesis using that r(2,3) by blast
qed

text \<open>The queues after a read that found nothing.\<close>

definition read_queues :: "kernel \<Rightarrow> queues \<Rightarrow> queues" where
  "read_queues k v = v\<lparr>kbd_blocked := kbd_blocked v @ [current k], ready := tl (ready v)\<rparr>"

lemma sys_read_waits:
  assumes ok: "sched_ok k v" and i: "idle_task k \<noteq> Some (current k)"
    and kb: "kbd_ok (kbd_st k)" "kbd_contents (kbd_st k) = []"
    and b: "b \<noteq> 0" "0 < n" "access_ok VERIFY_WRITE b (of_int n) \<noteq> 0"
  obtains k' where "sys_read b n k = Some (Switched, k')" and "sched_ok k' (read_queues k v)"
    and "current k' = next_process k v" and "current k' \<noteq> current k"
    and "tasks k' = (tasks k)(current k := (tasks k (current k))
           \<lparr>kbd_chars_needed := min n 256, kbd_user_buf := b, kbd_read_result := 0,
            resume := Sys_read b (min n 256)\<rparr>)"
proof -
  let ?me = "current k" and ?n = "if n > 256 then 256 else n"
  let ?k = "upd_task ?me (\<lambda>p. p\<lparr>kbd_chars_needed := ?n, kbd_user_buf := b, kbd_read_result := 0\<rparr>) k"
  obtain j where j: "idle_task k = Some j" "?me \<noteq> j" using ok i by (auto simp: sched_ok_def idle_ok_def)
  have ok': "sched_ok ?k v" using ok sched_ok_same [of ?k k v] by simp
  have p: "pick j (ready v) = (next_process k v, tl (ready v))" by (rule pick_next [OF j(1)])
  obtain k' where k': "do { k1 \<leftarrow> update_process_state_rr ?me (Some Kbd_blocked) ?k;
                       sched_next_rr (Sys_read b ?n) k1 } = Some k'"
      "sched_ok k' (read_queues k v)" "current k' = next_process k v" "next_process k v \<noteq> ?me"
      "tasks k' = (tasks ?k)(?me := (tasks ?k ?me)\<lparr>resume := Sys_read b ?n\<rparr>)"
    using leave_processor [OF ok' _ _ _ _ _ _ p, of Kbd_blocked "kbd_blocked v"
        "v\<lparr>kbd_blocked := kbd_blocked v @ [?me]\<rparr>" "Sys_read b ?n"] j
    by (auto simp: queued_def read_queues_def)
  then obtain k1 where k1: "update_process_state_rr ?me (Some Kbd_blocked) ?k = Some k1"
      "sched_next_rr (Sys_read b ?n) k1 = Some k'"
    by (auto simp: bind_eq_Some_conv)
  have "sys_read b n k = Some (Switched, k')"
    using b k1 k'(3,4) by (simp add: sys_read_def serve_read_empty [OF kb] Let_def)
  moreover have "min n 256 = ?n" by (simp add: min_def)
  ultimately show ?thesis using that k' by simp
qed

section \<open>Properties\<close>

lemma demo_family_ok: "family_ok demo_kernel demo_queues"
proof -
  have "all_tasks demo_kernel demo_queues = {300, 301, 302, 303, 304}"
    by (auto simp: all_tasks_def demo_queues_def)
  then show ?thesis
    by (auto simp: family_ok_def demo_queues_def demo_task_def split: if_splits)
qed

text \<open>
  C22. A key is appended to the keyboard buffer, and the process that has waited longest in \<open>sys_read\<close>
  moves to the end of the ready queue as soon as the buffer holds the number of characters
  it waits for; nobody else is woken, and the process that was interrupted keeps the processor.
\<close>

theorem key_wakes_first_reader:
  assumes "sched_ok k v" and "kbd_ok (kbd_st k)" and "length (kbd_contents (kbd_st k)) < 256"
  shows "\<exists>k'. kbd_buf_write c k = Some k' \<and>
           kbd_contents (kbd_st k') = kbd_contents (kbd_st k) @ [c] \<and> current k' = current k \<and>
           sched_ok k' (wake_reader k (length (kbd_contents (kbd_st k))  + 1) v)"
proof -
  obtain k' where "kbd_buf_write c k = Some k'" "kbd_st k' = kbd_put c (kbd_st k)"
      "sched_ok k' (wake_reader k (Suc (length (kbd_contents (kbd_st k)))) v)" "current k' = current k"
    using kbd_buf_write_stores [OF assms] by metis
  moreover have "kbd_contents (kbd_put c (kbd_st k)) = kbd_contents (kbd_st k) @ [c]"
    using kbd_contents_put [OF assms(2)] assms(3) by simp
  ultimately show ?thesis by simp
qed

theorem key_wakes_first_reader_witness:
  "\<exists>k'. kbd_buf_write 65 (demo_kernel\<lparr>kbd_st := kbd_put 66 empty_kbd\<rparr>) = Some k' \<and>
     kbd_contents (kbd_st k') = [66, 65] \<and>
     sched_ok k' (demo_queues\<lparr>kbd_blocked := [], ready := [302, 304]\<rparr>)"
proof -
  let ?k = "demo_kernel\<lparr>kbd_st := kbd_put 66 empty_kbd\<rparr>"
  have c: "kbd_contents (kbd_st ?k) = [66]" by (simp add: kbd_contents_put empty_kbd_ok)
  have "sched_ok ?k demo_queues"
    using demo_sched_ok sched_ok_same [of ?k demo_kernel] by simp
  moreover have "kbd_ok (kbd_st ?k)" by (simp add: kbd_ok_put empty_kbd_ok)
  moreover have "length (kbd_contents (kbd_st ?k)) < 256" unfolding c by simp
  ultimately have "\<exists>k'. kbd_buf_write 65 ?k = Some k' \<and>
           kbd_contents (kbd_st k') = kbd_contents (kbd_st ?k) @ [65] \<and> current k' = current ?k \<and>
           sched_ok k' (wake_reader ?k (length (kbd_contents (kbd_st ?k)) + 1) demo_queues)"
    by (rule key_wakes_first_reader)
  then show ?thesis
    unfolding c by (auto simp: wake_reader_def demo_queues_def demo_task_def)
qed

text \<open>
  C20. \<open>sys_block\<close> of a process other than idle: an unblock that came earlier is consumed and the
  process goes on; otherwise it goes to the end of the blocked queue and to its parent's list of blocked
  children, the head of the ready queue (or idle) runs with its quantum, the process will come back
  at the end of \<open>sys_block\<close>, and the invariants hold again.
\<close>

theorem block_consumes_or_waits:
  assumes "sched_ok k v" and "family_ok k v" and "idle_task k \<noteq> Some (current k)"
  shows "if pending_unblocks (tasks k (current k)) > 0
         then \<exists>k'. sys_block k = Some (Return 0, k') \<and> sched_ok k' v \<and> family_ok k' v \<and>
                pending_unblocks (tasks k' (current k)) = pending_unblocks (tasks k (current k)) - 1
         else \<exists>k'. sys_block k = Some (Switched, k') \<and> sched_ok k' (block_queues k v) \<and>
                family_ok k' (block_queues k v) \<and> current k' = next_process k v \<and>
                remaining_quantum k' = quantum (tasks k (current k')) \<and>
                resume (tasks k' (current k)) = Sys_block"
proof (cases "pending_unblocks (tasks k (current k)) > 0")
  case True
  let ?k = "upd_task (current k) (\<lambda>p. p\<lparr>pending_unblocks := pending_unblocks p - 1\<rparr>) k"
  have "sys_block k = Some (Return 0, ?k)" using True by (simp add: sys_block_def Let_def)
  moreover have "sched_ok ?k v" using assms(1) sched_ok_same [of ?k k v] by simp
  moreover have "family_ok ?k v"
    by (rule family_ok_same [OF assms(2)]) (simp_all add: all_tasks_def)
  ultimately show ?thesis using True by simp
next
  case False
  obtain i where i: "idle_task k = Some i" using assms(1) by (auto simp: sched_ok_def idle_ok_def)
  obtain k' where k': "sys_block k = Some (Switched, k')" "sched_ok k' (block_queues k v)"
      "current k' = next_process k v" "idle_task k' = idle_task k"
      "tasks k' = (tasks k)(current k := (tasks k (current k))\<lparr>resume := Sys_block\<rparr>)"
      "remaining_quantum k' = quantum (tasks k (current k'))"
    using sys_block_blocks [OF assms] False by (metis not_less)
  have "family_ok k' (block_queues k v)"
    using block_family_ok [OF assms(1,2) i k'(3,4)] k'(5) by simp
  then show ?thesis using k' False by simp
qed

theorem block_consumes_or_waits_witness:
  "\<exists>k'. sys_block demo_kernel = Some (Switched, k') \<and> current k' = 302 \<and>
     sched_ok k' (demo_queues\<lparr>blocked := [303, 301], ready := []\<rparr>)"
  using block_consumes_or_waits [OF demo_sched_ok demo_family_ok]
  by (auto simp: demo_task_def block_queues_def next_process_def demo_queues_def)

text \<open>
  C21. \<open>sys_unblock\<close> called with the PID of a blocked child makes that child ready, at the end of the
  queue, and puts it back among the unblocked children; called with the PID of a child that is not
  blocked it counts a pending unblock for it; any other PID is refused with \<open>-1\<close> and changes nothing.
\<close>

theorem unblock_wakes_or_counts:
  assumes "sched_ok k v" and "family_ok k v"
    and "children_blocked v (current k) = Some cb" and "children_unblocked v (current k) = Some cu"
  shows "case find_child k pid cb of
      Some c \<Rightarrow> (\<exists>k'. sys_unblock pid k = Some (0, k') \<and> sched_ok k' (unblock_queues k c v) \<and>
                   family_ok k' (unblock_queues k c v) \<and> current k' = current k)
    | None \<Rightarrow>
        (case find_child k pid cu of
           Some c \<Rightarrow> sys_unblock pid k = Some (0, upd_task c (\<lambda>p. p\<lparr>pending_unblocks :=
                        pending_unblocks (tasks k c) + 1\<rparr>) k)
         | None \<Rightarrow> sys_unblock pid k = Some (-1, k))"
proof (cases "find_child k pid cb")
  case (Some c)
  obtain h where h: "sys_unblock pid k = Some (0, k\<lparr>links := h\<rparr>)"
      "sched_ok (k\<lparr>links := h\<rparr>) (unblock_queues k c v)"
    using sys_unblock_wakes [OF assms(1,2,3) Some] by blast
  moreover have "family_ok (k\<lparr>links := h\<rparr>) (unblock_queues k c v)"
    using unblock_family_ok [OF assms(1,2,3)] find_child_Some [OF Some] by blast
  ultimately show ?thesis using Some by simp
next
  case None
  have rep: "queues_rep (links k) v" using assms(1) by (simp add: sched_ok_def)
  have "list_for_each (child_with_pid k pid) (At_children_blocked (current k)) (links k) = Some None"
    "list_for_each (child_with_pid k pid) (At_children_unblocked (current k)) (links k) =
       Some (map_option At_sibiling (find_child k pid cu))"
    using search_children [OF rep, of "At_children_blocked (current k)" cb pid] None
      search_children [OF rep, of "At_children_unblocked (current k)" cu pid] assms(3,4) by simp_all
  then show ?thesis
    using None by (cases "find_child k pid cu") (simp_all add: sys_unblock_def Let_def upd_task_def)
qed

theorem unblock_wakes_or_counts_witness:
  "(\<exists>k'. sys_unblock 303 demo_kernel = Some (0, k') \<and>
      sched_ok k' (unblock_queues demo_kernel 303 demo_queues)) \<and>
   sys_unblock 304 demo_kernel = Some (0, upd_task 304 (\<lambda>p. p\<lparr>pending_unblocks := 1\<rparr>) demo_kernel) \<and>
   sys_unblock 7 demo_kernel = Some (-1, demo_kernel)"
proof -
  have c: "children_blocked demo_queues (current demo_kernel) = Some [303]"
    "children_unblocked demo_queues (current demo_kernel) = Some [302, 304]"
    by (simp_all add: demo_queues_def)
  note u = unblock_wakes_or_counts [OF demo_sched_ok demo_family_ok c]
  show ?thesis
    using u [of 303] u [of 304] u [of 7] by (auto simp: find_child_def demo_task_def)
qed

text \<open>
  C23. \<open>sys_read\<close> with characters in the keyboard buffer returns at once: the oldest \<open>min (maxchars, 256)\<close> of
  them, or fewer when fewer are there, arrive in the user's buffer in the order typed and leave the
  keyboard buffer; apart from them and the kernel's own copy no memory changes, and the process keeps
  running.
\<close>

theorem read_returns_what_is_typed:
  assumes "kbd_ok (kbd_st k)" and "b \<noteq> 0" and "access_ok VERIFY_WRITE b (of_nat n) \<noteq> 0"
    and "t = min (min n 256) (length (kbd_contents (kbd_st k)))" and "0 < t"
    and "mapped (mach k) (buffer_sys k) t P" and "inj_on P {..<t}"
    and "mapped (mach k) b t Q" and "inj_on Q {..<t}" and "P ` {..<t} \<inter> Q ` {..<t} = {}"
  shows "\<exists>k'. sys_read b (int n) k = Some (Return (int t), k') \<and> current k' = current k \<and>
           kbd_ok (kbd_st k') \<and> kbd_contents (kbd_st k') = drop t (kbd_contents (kbd_st k)) \<and>
           (\<forall>i<t. ram (mach k') (Q i) = kbd_contents (kbd_st k) ! i) \<and>
           (\<forall>a. a \<notin> P ` {..<t} \<union> Q ` {..<t} \<longrightarrow> ram (mach k') a = ram (mach k) a)"
proof -
  obtain kb' r where r: "serve_read b (int (min n 256)) k =
      Some (int t, k\<lparr>kbd_st := kb', mach := (mach k)\<lparr>ram := r\<rparr>\<rparr>)"
      "kbd_ok kb'" "kbd_contents kb' = drop t (kbd_contents (kbd_st k))"
      "\<And>i. i < t \<Longrightarrow> r (Q i) = kbd_contents (kbd_st k) ! i"
      "\<And>a. a \<notin> P ` {..<t} \<union> Q ` {..<t} \<Longrightarrow> r a = ram (mach k) a"
    using serve_read_gets [OF assms(1,4,5,6,7,8,9,10)] by metis
  have "n \<noteq> 0" using assms(4,5) by auto
  moreover have "(if int n > 256 then 256 else int n) = int (min n 256)" by simp
  ultimately have "sys_read b (int n) k = Some (Return (int t), k\<lparr>kbd_st := kb', mach := (mach k)\<lparr>ram := r\<rparr>\<rparr>)"
    using assms(2,3,5) r(1) by (simp add: sys_read_def Let_def)
  then show ?thesis using r(2-5) by simp
qed

lemma pte_for_entry [simp]:
  "pte_present (pte_for f u) = 1" "f < 1048576 \<Longrightarrow> unat (pte_pbase_addr (pte_for f u)) = f"
  using get_frame_set_ss_pag [of f "\<lambda>_. 0" 0 u]
  by (simp_all add: pte_for_def set_ss_pag_entry get_frame_def)

text \<open>Addresses of the small system: kernel pages are mapped to themselves, user page \<open>i\<close> of process 1 to
  frame \<open>530 + i\<close>.\<close>

lemma demo_translate:
  "unat va < 0x400000 \<Longrightarrow> translate (mach demo_kernel) va = Some (unat va)"
  "0x800000 \<le> unat va \<Longrightarrow> unat va < 0x81C000 \<Longrightarrow>
     translate (mach demo_kernel) va = Some (unat va - 0x800000 + 530 * 4096)"
proof -
  have d: "dir_index va = unat va div 0x400000" for va
    unfolding dir_index_def unat_drop_bit_eq by (simp add: drop_bit_eq_div)
  have t: "table_index va = unat va div 4096 mod 1024" for va
    unfolding table_index_def unsigned_take_bit_eq unat_drop_bit_eq
    by (simp add: drop_bit_eq_div take_bit_eq_mod)
  have o: "page_offset va = unat va mod 4096" for va
    unfolding page_offset_def unsigned_take_bit_eq by (simp add: take_bit_eq_mod)
  have m: "tables (mach demo_kernel) = demo_tables" "cr3 (mach demo_kernel) = 351" "paging (mach demo_kernel)"
    by (simp_all add: demo_kernel_def paging_def)
  {
    assume "unat va < 0x400000"
    then have "unat va div 0x400000 = 0" "unat va div 4096 mod 1024 = unat va div 4096" "unat va div 4096 < 1024"
      by simp_all
    then show "translate (mach demo_kernel) va = Some (unat va)"
      by (simp add: translate_def m d t o demo_tables_def present_def get_frame_def)
  next
    assume r: "0x800000 \<le> unat va" "unat va < 0x81C000"
    define w where "w = unat va - 0x800000"
    have w: "unat va = 0x800000 + w" "w < 0x1C000" using r by (simp_all add: w_def)
    have "(0x800000 + w) div 4096 = 2048 + w div 4096" "(0x800000 + w) mod 4096 = w mod 4096"
      using div_mult_self3 [of 4096 2048 w] mod_mult_self3 [of 2048 4096 w] by simp_all
    moreover have "w div 4096 < 28" using w by simp
    moreover from this have "(2048 + w div 4096) mod 1024 = w div 4096"
      using mod_mult_self3 [of 2 1024 "w div 4096"] by simp
    ultimately have "unat va div 0x400000 = 2" "unat va div 4096 mod 1024 = w div 4096"
        "unat va mod 4096 = w mod 4096" "w div 4096 < 28"
      using w by simp_all
    then show "translate (mach demo_kernel) va = Some (unat va - 0x800000 + 530 * 4096)"
      by (simp add: translate_def m d t o demo_tables_def present_def get_frame_def w(1))
  }
qed

theorem read_returns_what_is_typed_witness:
  "\<exists>k'. sys_read 0x801000 300 (demo_kernel\<lparr>kbd_st := kbd_put 66 empty_kbd\<rparr>) = Some (Return 1, k') \<and>
     kbd_contents (kbd_st k') = [] \<and> ram (mach k') 0x213000 = 66"
proof -
  let ?k = "demo_kernel\<lparr>kbd_st := kbd_put 66 empty_kbd\<rparr>"
  have c: "kbd_contents (kbd_st ?k) = [66]" by (simp add: kbd_contents_put empty_kbd_ok)
  have kb: "kbd_ok (kbd_st ?k)" by (simp add: kbd_ok_put empty_kbd_ok)
  have t: "(1::nat) = min (min 300 256) (length (kbd_contents (kbd_st ?k)))" unfolding c by simp
  have P: "mapped (mach ?k) (buffer_sys ?k) 1 (\<lambda>i. 0x20000 + i)"
    using demo_translate(1) [of "0x20000"] by (simp add: mapped_def)
  have Q: "mapped (mach ?k) 0x801000 1 (\<lambda>i. 0x213000 + i)"
    using demo_translate(2) [of "0x801000"] by (simp add: mapped_def)
  have a: "access_ok VERIFY_WRITE 0x801000 (of_nat 300) \<noteq> 0" by (simp add: access_ok_pages)
  have d: "(\<lambda>i. 0x20000 + i) ` {..<1} \<inter> (\<lambda>i. 0x213000 + i) ` {..<1::nat} = {}" by auto
  have i: "inj_on (\<lambda>i. 0x20000 + i) {..<1::nat}" "inj_on (\<lambda>i. 0x213000 + i) {..<1::nat}"
    by (simp_all add: inj_on_def)
  have "\<exists>k'. sys_read 0x801000 (int 300) ?k = Some (Return (int 1), k') \<and> current k' = current ?k \<and>
           kbd_ok (kbd_st k') \<and> kbd_contents (kbd_st k') = drop 1 (kbd_contents (kbd_st ?k)) \<and>
           (\<forall>i<1. ram (mach k') (0x213000 + i) = kbd_contents (kbd_st ?k) ! i) \<and>
           (\<forall>a. a \<notin> (\<lambda>i. 0x20000 + i) ` {..<1} \<union> (\<lambda>i. 0x213000 + i) ` {..<1} \<longrightarrow>
              ram (mach k') a = ram (mach ?k) a)"
    by (rule read_returns_what_is_typed [OF kb _ a t _ P i(1) Q i(2) d]) simp_all
  then show ?thesis unfolding c by auto
qed

text \<open>
  C24. \<open>sys_read\<close> with a valid buffer and nothing typed puts the process at the end of the readers' queue, with
  the number of characters it waits for (at most 256), and gives the processor to the head of the ready
  queue or to idle; the process will resume in the last lines of \<open>sys_read\<close>.
\<close>

theorem read_waits_for_keys:
  assumes "sched_ok k v" and "idle_task k \<noteq> Some (current k)"
    and "kbd_ok (kbd_st k)" and "kbd_contents (kbd_st k) = []"
    and "b \<noteq> 0" and "0 < n" and "access_ok VERIFY_WRITE b (of_int n) \<noteq> 0"
  shows "\<exists>k'. sys_read b n k = Some (Switched, k') \<and> sched_ok k' (read_queues k v) \<and>
           current k' = next_process k v \<and>
           kbd_chars_needed (tasks k' (current k)) = min n 256 \<and>
           resume (tasks k' (current k)) = Sys_read b (min n 256)"
proof -
  obtain k' where "sys_read b n k = Some (Switched, k')" "sched_ok k' (read_queues k v)"
      "current k' = next_process k v"
      "tasks k' = (tasks k)(current k := (tasks k (current k))
           \<lparr>kbd_chars_needed := min n 256, kbd_user_buf := b, kbd_read_result := 0,
            resume := Sys_read b (min n 256)\<rparr>)"
    using sys_read_waits [OF assms] by metis
  then show ?thesis by simp
qed

theorem read_waits_for_keys_witness:
  "\<exists>k'. sys_read 0x801000 5 demo_kernel = Some (Switched, k') \<and> current k' = 302 \<and>
     sched_ok k' (demo_queues\<lparr>kbd_blocked := [304, 301], ready := []\<rparr>)"
proof -
  have "access_ok VERIFY_WRITE 0x801000 (of_int 5) \<noteq> 0" by (simp add: access_ok_pages)
  then show ?thesis
    using read_waits_for_keys [OF demo_sched_ok, of "0x801000" 5]
    by (auto simp: empty_kbd_ok read_queues_def next_process_def demo_queues_def)
qed

end
