(* ===== verification/Shared_Memory.thy ===== *)
theory Shared_Memory
  imports Blocking
begin

text \<open>
  Shared memory pages: \<open>init_shared_pages\<close> of \<open>mm.c\<close> and \<open>sys_shmat\<close>, \<open>sys_shmdt\<close>, \<open>sys_shmrm\<close> and
  \<open>cleanup_shared_page\<close> of \<open>sys.c\<close>. Ten pages, each with a frame (or \<open>-1\<close>), a count of references
  and a mark for removal; a process maps one at a user page behind its code pages.

  The invariant \<open>shm_ok\<close> relates the counters to the page tables: the count of a page is exactly
  the number of mappings of its frame in the user tables \<open>U\<close> of the live processes.
\<close>

section \<open>The operations\<close>

definition init_shared_pages :: "kernel \<Rightarrow> kernel" where
  "init_shared_pages k =
     fold (\<lambda>i k. k\<lparr>shared_frames := (shared_frames k)(i := -1),
                   shared_refs := (shared_refs k)(i := 0),
                   shared_marked_rm := (shared_marked_rm k)(i := 0)\<rparr>) [0..<NUM_SHARED_PAGES] k"

text \<open>The frame of the user page table: \<open>get_DIR(t)[2].bits.pbase_addr\<close>.\<close>

definition user_table :: "kernel \<Rightarrow> nat \<Rightarrow> nat" where
  "user_table k t = get_frame (table k (get_DIR k t)) 2"

definition zero_ints :: "dword \<Rightarrow> machine \<Rightarrow> machine option" where
  "zero_ints tmp m =
     fold (\<lambda>i r. Option.bind r (store_dword (tmp + of_nat (4 * i)) 0)) [0..<1024] (Some m)"

definition cleanup_shared_page :: "nat \<Rightarrow> kernel \<Rightarrow> kernel option" where
  "cleanup_shared_page shm k = do {
     let me = current k;
     let k = upd_table (get_PT k me) (\<lambda>t. set_ss_pag t 512 (nat (shared_frames k shm)) 0) k;
     let k = set_cr3 (get_DIR k me) k;
     k \<leftarrow> on_mach (zero_ints (push_bit 12 512)) k;
     let k = upd_table (get_PT k me) (\<lambda>t. del_ss_pag t 512) k;
     let k = set_cr3 (get_DIR k me) k;
     let k = kernel_free_frame (nat (shared_frames k shm)) k;
     let k = k\<lparr>shared_frames := (shared_frames k)(shm := -1)\<rparr>;
     let k = k\<lparr>shared_marked_rm := (shared_marked_rm k)(shm := 0)\<rparr>;
     Some (k\<lparr>shared_refs := (shared_refs k)(shm := 0)\<rparr>) }"

text \<open>The mapping part of \<open>sys_shmat\<close>, once the page has a frame.\<close>

definition shmat_map :: "nat \<Rightarrow> dword \<Rightarrow> kernel \<Rightarrow> int \<times> kernel" where
  "shmat_map shm addr k =
     (let me = current k; pt = user_table k me in
      if addr \<noteq> 0 then
        if addr AND 0xFFF \<noteq> 0 then (- EINVAL, k)
        else
          let log_page = drop_bit 12 addr;
              pt_idx = log_page - drop_bit 12 L_USER_START
          in if pt_idx < of_nat (NUM_PAG_DATA + NUM_PAG_CODE) \<or> pt_idx \<ge> of_nat PT_ENTRIES
             then (- EINVAL, k)
             else if present (table k pt) (unat pt_idx) then
               if int (get_frame (table k pt) (unat pt_idx)) = shared_frames k shm
               then (sint (push_bit 12 log_page), k)
               else (- EINVAL, k)
             else
               let k = upd_table pt (\<lambda>t. set_ss_pag t (unat pt_idx) (nat (shared_frames k shm)) 1) k;
                   k = k\<lparr>shared_refs := (shared_refs k)(shm := shared_refs k shm + 1)\<rparr>;
                   k = set_cr3 (get_DIR k me) k
               in (sint (push_bit 12 log_page), k)
      else
        (case List.find (\<lambda>i. \<not> present (table k pt) i) [NUM_PAG_DATA + NUM_PAG_CODE..<PT_ENTRIES] of
           None \<Rightarrow> (- ENOMEM, k)
         | Some pt_idx \<Rightarrow>
             let k = upd_table pt (\<lambda>t. set_ss_pag t pt_idx (nat (shared_frames k shm)) 1) k;
                 log_page = drop_bit 12 L_USER_START + of_nat pt_idx;
                 k = k\<lparr>shared_refs := (shared_refs k)(shm := shared_refs k shm + 1)\<rparr>;
                 k = set_cr3 (get_DIR k me) k
             in (sint (push_bit 12 log_page), k)))"

definition sys_shmat :: "int \<Rightarrow> dword \<Rightarrow> kernel \<Rightarrow> int \<times> kernel" where
  "sys_shmat shm addr k =
     (if shm < 0 \<or> shm \<ge> int NUM_SHARED_PAGES then (- EINVAL, k)
      else let i = nat shm in
        if shared_marked_rm k i = 1 then (- EINVAL, k)
        else if shared_frames k i < 0 then
          let (f, k) = kernel_alloc_frame k;
              k = k\<lparr>shared_frames := (shared_frames k)(i := f)\<rparr>
          in if shared_frames k i < 0 then (- ENOMEM, k) else shmat_map i addr k
        else shmat_map i addr k)"

text \<open>The first shared page that has a given frame.\<close>

definition shared_id :: "kernel \<Rightarrow> nat \<Rightarrow> nat option" where
  "shared_id k frame = List.find (\<lambda>i. shared_frames k i = int frame) [0..<NUM_SHARED_PAGES]"

text \<open>The lines that \<open>sys_shmdt\<close> and \<open>sys_exit\<close> share: one reference less, and the page goes when it
  was the last one of a page marked for removal.\<close>

definition drop_reference :: "nat \<Rightarrow> kernel \<Rightarrow> kernel option" where
  "drop_reference i k =
     (let k = k\<lparr>shared_refs := (shared_refs k)(i := shared_refs k i - 1)\<rparr> in
      if shared_refs k i = 0 \<and> shared_marked_rm k i = 1 then cleanup_shared_page i k else Some k)"

definition sys_shmdt :: "dword \<Rightarrow> kernel \<Rightarrow> (int \<times> kernel) option" where
  "sys_shmdt addr k =
     (if addr AND 0xFFF \<noteq> 0 then Some (- EINVAL, k)
      else
        let log_page = drop_bit 12 addr;
            pt_idx = log_page - drop_bit 12 L_USER_START;
            me = current k
        in if pt_idx < of_nat (NUM_PAG_DATA + NUM_PAG_CODE) \<or> pt_idx \<ge> of_nat PT_ENTRIES
           then Some (- EINVAL, k)
           else
             let pt = user_table k me in
             if \<not> present (table k pt) (unat pt_idx) then Some (- EINVAL, k)
             else (case shared_id k (get_frame (table k pt) (unat pt_idx)) of
                 None \<Rightarrow> Some (- EINVAL, k)
               | Some shm \<Rightarrow> do {
                   let k = upd_table pt (\<lambda>t. del_ss_pag t (unat pt_idx)) k;
                   let k = set_cr3 (get_DIR k me) k;
                   k \<leftarrow> drop_reference shm k;
                   Some (0, k) }))"

definition sys_shmrm :: "int \<Rightarrow> kernel \<Rightarrow> (int \<times> kernel) option" where
  "sys_shmrm shm k =
     (if shm < 0 \<or> shm \<ge> int NUM_SHARED_PAGES then Some (- EINVAL, k)
      else let i = nat shm in
        if shared_frames k i < 0 then Some (- EINVAL, k)
        else do {
          let k = k\<lparr>shared_marked_rm := (shared_marked_rm k)(i := 1)\<rparr>;
          k \<leftarrow> (if shared_refs k i = 0 then cleanup_shared_page i k else Some k);
          Some (0, k) })"

section \<open>Clearing a page\<close>

lemma page_frame_ram [simp]: "page_frame (m\<lparr>ram := r\<rparr>) p = page_frame m p"
  by (simp add: page_frame_def Let_def)

lemma paging_ram [simp]: "paging (m\<lparr>ram := r\<rparr>) = paging m"
  by (simp add: paging_def)

lemma byte_of_zero [simp]: "byte_of_dword n 0 = 0"
  by (simp add: byte_of_dword_def)

lemma zero_ints_prefix:
  assumes m: "paging m" "page_frame m 512 = Some f" and n: "n \<le> 1024"
  shows "fold (\<lambda>i r. Option.bind r (store_dword (push_bit 12 512 + of_nat (4 * i)) 0)) [0..<n] (Some m) =
           Some (m\<lparr>ram := (\<lambda>a. if f * 4096 \<le> a \<and> a < f * 4096 + 4 * n then 0 else ram m a)\<rparr>)"
  using n
proof (induction n)
  case 0
  show ?case by (auto intro!: machine.equality simp: fun_eq_iff)
next
  case (Suc n)
  let ?m = "m\<lparr>ram := (\<lambda>a. if f * 4096 \<le> a \<and> a < f * 4096 + 4 * n then 0 else ram m a)\<rparr>"
  have e: "2097152 + of_nat (4 * n) = (of_nat (512 * 4096 + 4 * n) :: dword)" by simp
  have st: "store_dword (of_nat (512 * 4096 + 4 * n)) 0 ?m =
      Some (?m\<lparr>ram := (ram ?m)(f * 4096 + 4 * n := 0, f * 4096 + 4 * n + 1 := 0,
                             f * 4096 + 4 * n + 2 := 0, f * 4096 + 4 * n + 3 := 0)\<rparr>)"
    using store_dword_page [of ?m 512 f "4 * n" 0] m Suc.prems by simp
  have "(ram ?m)(f * 4096 + 4 * n := 0, f * 4096 + 4 * n + 1 := 0,
                 f * 4096 + 4 * n + 2 := 0, f * 4096 + 4 * n + 3 := 0) =
        (\<lambda>a. if f * 4096 \<le> a \<and> a < f * 4096 + 4 * Suc n then 0 else ram m a)"
    by (rule ext) auto
  then show ?case
    using Suc st by (simp add: e del: of_nat_add of_nat_mult)
qed

lemma page_bounds: "f * 4096 \<le> a \<and> a < f * 4096 + 4096 \<longleftrightarrow> a div 4096 = f" for a f :: nat
  by (auto simp: div_nat_eqI)

lemma zero_ints_page:
  assumes "paging m" and "page_frame m 512 = Some f"
  shows "zero_ints (push_bit 12 512) m = Some (m\<lparr>ram := (\<lambda>a. if a div 4096 = f then 0 else ram m a)\<rparr>)"
  using zero_ints_prefix [OF assms, of 1024] by (simp add: zero_ints_def page_bounds)

text \<open>The address space the kernel runs in: paging is on and the directory of the current process maps
  the kernel's first table.\<close>

definition kernel_space :: "kernel \<Rightarrow> bool" where
  "kernel_space k \<longleftrightarrow> paging (mach k) \<and> present (table k (get_DIR k (current k))) 0 \<and>
     get_PT k (current k) \<noteq> get_DIR k (current k)"

lemma get_PT_table: "get_PT k t = get_frame (table k (get_DIR k t)) 0"
  by (simp add: get_PT_def get_DIR_def)

text \<open>\<open>cleanup_shared_page\<close> in one step; page 512 of the kernel's table ends up unmapped.\<close>

definition cleaned :: "nat \<Rightarrow> nat \<Rightarrow> kernel \<Rightarrow> kernel" where
  "cleaned i f k =
     k\<lparr>mach := (mach k)\<lparr>ram := (\<lambda>a. if a div 4096 = f then 0 else ram (mach k) a),
          tables := (tables (mach k))(get_PT k (current k) := (table k (get_PT k (current k)))(512 := 0)),
          cr3 := get_DIR k (current k)\<rparr>,
       frames := free_frame f (frames k), shared_frames := (shared_frames k)(i := -1),
       shared_marked_rm := (shared_marked_rm k)(i := 0), shared_refs := (shared_refs k)(i := 0)\<rparr>"

lemma set_ss_pag_upd: "set_ss_pag t page f u = t(page := set_ss_pag t page f u page)"
  by (rule ext) simp

lemma cleanup_shared_page_eq:
  assumes sp: "kernel_space k" and f: "shared_frames k i = int f" "f < 1048576"
  shows "cleanup_shared_page i k = Some (cleaned i f k)"
proof -
  let ?pt = "get_PT k (current k)" and ?d = "get_DIR k (current k)"
  let ?k = "set_cr3 ?d (upd_table ?pt (\<lambda>t. set_ss_pag t 512 f 0) k)"
  have pg: "paging (mach ?k)" using sp by (simp add: kernel_space_def paging_def)
  have d: "get_DIR ?k (current k) = ?d" "tables (mach ?k) ?d = table k ?d"
    "tables (mach ?k) ?pt = set_ss_pag (table k ?pt) 512 f 0" "cr3 (mach ?k) = ?d"
    using sp by (simp_all add: get_DIR_def kernel_space_def set_cr3_def upd_table_def table_def)
  have dt: "table ?k ?d = table k ?d" using sp by (simp add: kernel_space_def)
  have "get_PT ?k (current k) = get_frame (table ?k (get_DIR ?k (current k))) 0" by (rule get_PT_table)
  also have "\<dots> = get_frame (table k ?d) 0" by (simp only: d(1) dt)
  finally have pt: "get_PT ?k (current k) = ?pt" by (simp only: get_PT_table)
  have r: "ram (mach ?k) = ram (mach k)" by simp
  have "page_frame (mach ?k) 512 = Some f"
    using sp f(2) d(2-4) by (simp add: page_frame_def kernel_space_def Let_def get_PT_table)
  then have z: "on_mach (zero_ints (push_bit 12 512)) ?k =
      Some (?k\<lparr>mach := (mach ?k)\<lparr>ram := (\<lambda>a. if a div 4096 = f then 0 else ram (mach k) a)\<rparr>\<rparr>)"
    using zero_ints_page [OF pg, of f] unfolding r by (simp add: on_mach_def)
  have dl: "del_ss_pag (set_ss_pag t 512 f 0) 512 = t(512 := 0)" for t
    by (simp add: del_ss_pag_def fun_eq_iff)
  have g: "get_PT (k'\<lparr>mach := (mach k')\<lparr>ram := r\<rparr>\<rparr>) t = get_PT k' t"
    "get_DIR (k'\<lparr>mach := (mach k')\<lparr>ram := r\<rparr>\<rparr>) t = get_DIR k' t" for k' r t
    by (simp_all add: get_PT_def get_DIR_def table_def)
  show ?thesis
    unfolding cleanup_shared_page_def Let_def
    using z by (simp add: f(1) g pt d(1) cleaned_def kernel_free_frame_def)
      (simp add: set_cr3_def upd_table_def dl table_def)
qed

section \<open>The counters count the mappings\<close>

definition mapped_pages :: "kernel \<Rightarrow> nat \<Rightarrow> nat \<Rightarrow> nat set" where
  "mapped_pages k f u =
     {p. NUM_PAG_DATA + NUM_PAG_CODE \<le> p \<and> p < PT_ENTRIES \<and> present (table k u) p \<and>
         get_frame (table k u) p = f}"

definition mappings :: "kernel \<Rightarrow> nat set \<Rightarrow> nat \<Rightarrow> int" where
  "mappings k U f = (\<Sum>u\<in>U. int (card (mapped_pages k f u)))"

definition shm_ok :: "kernel \<Rightarrow> nat set \<Rightarrow> bool" where
  "shm_ok k U \<longleftrightarrow> finite U \<and>
     (\<forall>i<NUM_SHARED_PAGES. shared_frames k i = -1 \<and> shared_refs k i = 0 \<and> shared_marked_rm k i = 0 \<or>
        (\<exists>f. shared_frames k i = int f \<and> f < TOTAL_PAGES \<and> f \<notin> free_frames (frames k) \<and>
             shared_refs k i = mappings k U f \<and>
             (shared_marked_rm k i = 1 \<longrightarrow> shared_refs k i > 0))) \<and>
     (\<forall>i<NUM_SHARED_PAGES. \<forall>j<NUM_SHARED_PAGES. i \<noteq> j \<longrightarrow> shared_frames k i = shared_frames k j \<longrightarrow>
        shared_frames k i = -1) \<and>
     (\<forall>u\<in>U. \<forall>p. NUM_PAG_DATA + NUM_PAG_CODE \<le> p \<and> p < PT_ENTRIES \<and> present (table k u) p \<longrightarrow>
        (\<exists>i<NUM_SHARED_PAGES. shared_frames k i = int (get_frame (table k u) p)))"

lemma finite_mapped_pages [simp]: "finite (mapped_pages k f u)"
  by (simp add: mapped_pages_def)

lemma shm_ok_same:
  assumes "shm_ok k U" and "\<And>u. u \<in> U \<Longrightarrow> table k' u = table k u"
    and "shared_frames k' = shared_frames k" and "shared_refs k' = shared_refs k"
    and "shared_marked_rm k' = shared_marked_rm k"
    and "\<And>i. i < 10 \<Longrightarrow> 0 \<le> shared_frames k i \<Longrightarrow> nat (shared_frames k i) \<notin> free_frames (frames k')"
  shows "shm_ok k' U"
proof -
  have "mappings k' U f = mappings k U f" for f
    unfolding mappings_def mapped_pages_def by (rule sum.cong) (simp_all add: assms(2))
  then show ?thesis using assms unfolding shm_ok_def by fastforce
qed

lemma shared_frame_used:
  "shm_ok k U \<Longrightarrow> i < 10 \<Longrightarrow> 0 \<le> shared_frames k i \<Longrightarrow> nat (shared_frames k i) \<notin> free_frames (frames k)"
  unfolding shm_ok_def by fastforce

lemma shm_okD:
  assumes "shm_ok k U"
  shows "finite U"
    and "i < 10 \<Longrightarrow> shared_frames k i = int f \<Longrightarrow> f < TOTAL_PAGES \<and> f \<notin> free_frames (frames k) \<and>
           shared_refs k i = mappings k U f \<and> (shared_marked_rm k i = 1 \<longrightarrow> shared_refs k i > 0)"
    and "i < 10 \<Longrightarrow> \<not> (\<exists>f. shared_frames k i = int f) \<Longrightarrow>
           shared_frames k i = -1 \<and> shared_refs k i = 0 \<and> shared_marked_rm k i = 0"
    and "i < 10 \<Longrightarrow> j < 10 \<Longrightarrow> shared_frames k i = int f \<Longrightarrow> shared_frames k j = int f \<Longrightarrow> i = j"
    and "u \<in> U \<Longrightarrow> 28 \<le> p \<Longrightarrow> p < 1024 \<Longrightarrow> present (table k u) p \<Longrightarrow>
           \<exists>i<10. shared_frames k i = int (get_frame (table k u) p)"
proof -
  note d = assms [unfolded shm_ok_def]
  show "finite U" using d by blast
  show "f < TOTAL_PAGES \<and> f \<notin> free_frames (frames k) \<and>
           shared_refs k i = mappings k U f \<and> (shared_marked_rm k i = 1 \<longrightarrow> shared_refs k i > 0)"
    if "i < 10" "shared_frames k i = int f"
    using d that by force
  show "shared_frames k i = -1 \<and> shared_refs k i = 0 \<and> shared_marked_rm k i = 0"
    if "i < 10" "\<not> (\<exists>f. shared_frames k i = int f)"
    using d that by blast
  show "i = j" if "i < 10" "j < 10" "shared_frames k i = int f" "shared_frames k j = int f"
    using d that by (metis of_nat_0_le_iff neg_0_le_iff_le not_one_le_zero)
  show "\<exists>i<10. shared_frames k i = int (get_frame (table k u) p)"
    if "u \<in> U" "28 \<le> p" "p < 1024" "present (table k u) p"
    using d that by simp
qed

lemma sum_change:
  fixes g :: "'a \<Rightarrow> int"
  assumes "finite U" and "x \<in> U" and "\<And>u. u \<in> U \<Longrightarrow> u \<noteq> x \<Longrightarrow> g' u = g u" and "g' x = g x + c"
  shows "sum g' U = sum g U + c"
proof -
  have "sum g' (U - {x}) = sum g (U - {x})" using assms(3) by (intro sum.cong) auto
  then show ?thesis using assms(1,2,4) by (simp add: sum.remove)
qed

text \<open>One more mapping, or one less, of frame \<open>f\<close> at page \<open>p\<close> of table \<open>u\<close>.\<close>

lemma mappings_add:
  assumes U: "finite U" "u \<in> U" and p: "28 \<le> p" "p < 1024" "\<not> present (table k u) p"
    and f: "f < 1048576"
    and k': "\<And>w. w \<noteq> u \<Longrightarrow> table k' w = table k w" "table k' u = set_ss_pag (table k u) p f 1"
  shows "mappings k' U g = mappings k U g + (if g = f then 1 else 0)"
proof -
  have m: "mapped_pages k' g u = (if g = f then insert p (mapped_pages k g u) else mapped_pages k g u)"
    using p f by (auto simp: mapped_pages_def k'(2) get_frame_def) (metis get_frame_def get_frame_set_ss_pag
        get_frame_set_ss_pag_other)+
  have np: "p \<notin> mapped_pages k g u" using p(3) by (simp add: mapped_pages_def)
  have c: "int (card (mapped_pages k' g u)) = int (card (mapped_pages k g u)) + (if g = f then 1 else 0)"
    unfolding m using card_insert_disjoint [OF finite_mapped_pages np] by (cases "g = f") simp_all
  have o: "mapped_pages k' g w = mapped_pages k g w" if "w \<noteq> u" for w
    unfolding mapped_pages_def k'(1) [OF that] by (rule refl)
  show ?thesis
    unfolding mappings_def by (rule sum_change [OF U]) (simp_all only: o c not_False_eq_True)
qed

lemma mappings_remove:
  assumes U: "finite U" "u \<in> U" and p: "28 \<le> p" "p < 1024" "present (table k u) p"
    and f: "get_frame (table k u) p = f"
    and k': "\<And>w. w \<noteq> u \<Longrightarrow> table k' w = table k w" "table k' u = del_ss_pag (table k u) p"
  shows "mappings k' U g = mappings k U g + (if g = f then - 1 else 0)"
proof -
  have m: "mapped_pages k' g u = mapped_pages k g u - {p}"
    using f by (auto simp: mapped_pages_def k'(2))
  have pin: "p \<in> mapped_pages k g u \<longleftrightarrow> g = f" using p f by (auto simp: mapped_pages_def)
  have c: "int (card (mapped_pages k g u - {p})) = int (card (mapped_pages k g u)) + (if g = f then - 1 else 0)"
  proof (cases "g = f")
    case True
    then have "p \<in> mapped_pages k g u" using pin by simp
    then have "card (mapped_pages k g u) = Suc (card (mapped_pages k g u - {p}))"
      by (rule card.remove [OF finite_mapped_pages])
    then show ?thesis using True by simp
  next
    case False
    then show ?thesis using pin by simp
  qed
  have o: "mapped_pages k' g w = mapped_pages k g w" if "w \<noteq> u" for w
    unfolding mapped_pages_def k'(1) [OF that] by (rule refl)
  show ?thesis
    unfolding mappings_def by (rule sum_change [OF U]) (simp_all only: o c m not_False_eq_True)
qed

lemma mappings_0:
  assumes "finite U" and "mappings k U f = 0" and "u \<in> U"
  shows "mapped_pages k f u = {}"
proof -
  have "(\<Sum>u\<in>U. card (mapped_pages k f u)) = 0"
    using assms(2) unfolding mappings_def by (metis of_nat_eq_0_iff of_nat_sum)
  then have "card (mapped_pages k f u) = 0" using assms(1,3) by simp
  then show ?thesis by simp
qed

lemma shm_okI:
  assumes "finite U"
    and "\<And>i f. i < 10 \<Longrightarrow> shared_frames k i = int f \<Longrightarrow> f < TOTAL_PAGES \<and> f \<notin> free_frames (frames k) \<and>
           shared_refs k i = mappings k U f \<and> (shared_marked_rm k i = 1 \<longrightarrow> shared_refs k i > 0)"
    and "\<And>i. i < 10 \<Longrightarrow> \<not> (\<exists>f. shared_frames k i = int f) \<Longrightarrow>
           shared_frames k i = -1 \<and> shared_refs k i = 0 \<and> shared_marked_rm k i = 0"
    and "\<And>i j f. i < 10 \<Longrightarrow> j < 10 \<Longrightarrow> shared_frames k i = int f \<Longrightarrow> shared_frames k j = int f \<Longrightarrow> i = j"
    and "\<And>u p. u \<in> U \<Longrightarrow> 28 \<le> p \<Longrightarrow> p < 1024 \<Longrightarrow> present (table k u) p \<Longrightarrow>
           \<exists>i<10. shared_frames k i = int (get_frame (table k u) p)"
  shows "shm_ok k U"
  unfolding shm_ok_def
proof (intro conjI allI impI ballI)
  fix i :: nat assume i: "i < NUM_SHARED_PAGES"
  show "shared_frames k i = -1 \<and> shared_refs k i = 0 \<and> shared_marked_rm k i = 0 \<or>
        (\<exists>f. shared_frames k i = int f \<and> f < TOTAL_PAGES \<and> f \<notin> free_frames (frames k) \<and>
             shared_refs k i = mappings k U f \<and>
             (shared_marked_rm k i = 1 \<longrightarrow> shared_refs k i > 0))"
    using assms(2,3) [OF i] by blast
next
  fix i j :: nat
  assume i: "i < NUM_SHARED_PAGES" "j < NUM_SHARED_PAGES" "i \<noteq> j" "shared_frames k i = shared_frames k j"
  then show "shared_frames k i = -1" using assms(3,4) by metis
next
  fix u p assume "u \<in> U" "NUM_PAG_DATA + NUM_PAG_CODE \<le> p \<and> p < PT_ENTRIES \<and> present (table k u) p"
  then show "\<exists>i<NUM_SHARED_PAGES. shared_frames k i = int (get_frame (table k u) p)"
    using assms(5) by simp
qed (rule assms(1))

lemma attach_ok:
  assumes ok: "shm_ok k U" and u: "u \<in> U" and i: "i < 10" "shared_frames k i = int f"
    and p: "28 \<le> p" "p < 1024" "\<not> present (table k u) p"
    and t: "\<And>w. w \<noteq> u \<Longrightarrow> table k' w = table k w" "table k' u = set_ss_pag (table k u) p f 1"
    and same: "shared_frames k' = shared_frames k" "shared_marked_rm k' = shared_marked_rm k"
      "free_frames (frames k') = free_frames (frames k)"
    and refs: "shared_refs k' = (shared_refs k)(i := shared_refs k i + 1)"
  shows "shm_ok k' U"
proof (rule shm_okI)
  note d = shm_okD [OF ok]
  have f: "f < 1048576" using d(2) [OF i] by simp
  note m = mappings_add [OF d(1) u p f t]
  have nn: "mappings k U g \<ge> 0" for g unfolding mappings_def by (rule sum_nonneg) simp
  show "finite U" by (rule d(1))
  fix j g assume j: "j < 10" "shared_frames k' j = int g"
  have "j = i \<longleftrightarrow> g = f" using d(4) [of i j f] i j same(1) by auto
  then show "g < TOTAL_PAGES \<and> g \<notin> free_frames (frames k') \<and> shared_refs k' j = mappings k' U g \<and>
      (shared_marked_rm k' j = 1 \<longrightarrow> shared_refs k' j > 0)"
    using d(2) [of j g] j nn [of g] by (auto simp: same refs m)
next
  note d = shm_okD [OF ok]
  fix j assume j: "j < 10" "\<not> (\<exists>f. shared_frames k' j = int f)"
  then have "j \<noteq> i" using i same(1) by auto
  then show "shared_frames k' j = -1 \<and> shared_refs k' j = 0 \<and> shared_marked_rm k' j = 0"
    using d(3) [of j] j by (simp add: same refs)
next
  note d = shm_okD [OF ok]
  show "a = b" if "a < 10" "b < 10" "shared_frames k' a = int g" "shared_frames k' b = int g" for a b g
    using d(4) that same(1) by simp
  fix w q assume w: "w \<in> U" "28 \<le> q" "q < 1024" "present (table k' w) q"
  have f: "f < 1048576" using d(2) [OF i] by simp
  show "\<exists>i<10. shared_frames k' i = int (get_frame (table k' w) q)"
  proof (cases "w = u \<and> q = p")
    case True
    then show ?thesis using i f t(2) same(1) by auto
  next
    case False
    then have "present (table k w) q" "get_frame (table k' w) q = get_frame (table k w) q"
      using w(4) t by (cases "w = u", auto)+
    then show ?thesis using d(5) [OF w(1-3)] same(1) by simp
  qed
qed

lemma detach_ok:
  assumes ok: "shm_ok k U" and u: "u \<in> U" and i: "i < 10" "shared_frames k i = int f"
    and p: "28 \<le> p" "p < 1024" "present (table k u) p" "get_frame (table k u) p = f"
    and t: "\<And>w. w \<noteq> u \<Longrightarrow> table k' w = table k w" "table k' u = del_ss_pag (table k u) p"
    and same: "shared_frames k' = shared_frames k" "shared_marked_rm k' = shared_marked_rm k"
      "free_frames (frames k') = free_frames (frames k)"
    and refs: "shared_refs k' = (shared_refs k)(i := shared_refs k i - 1)"
    and rm: "shared_marked_rm k i = 1 \<Longrightarrow> shared_refs k i - 1 \<noteq> 0"
  shows "shm_ok k' U"
proof (rule shm_okI)
  note d = shm_okD [OF ok]
  note m = mappings_remove [OF d(1) u p t]
  have nn: "mappings k' U g \<ge> 0" for g unfolding mappings_def by (rule sum_nonneg) simp
  show "finite U" by (rule d(1))
  fix j g assume j: "j < 10" "shared_frames k' j = int g"
  have "j = i \<longleftrightarrow> g = f" using d(4) [of i j f] i j same(1) by auto
  then show "g < TOTAL_PAGES \<and> g \<notin> free_frames (frames k') \<and> shared_refs k' j = mappings k' U g \<and>
      (shared_marked_rm k' j = 1 \<longrightarrow> shared_refs k' j > 0)"
    using d(2) [of j g] j nn [of g] rm by (auto simp: same refs m)
next
  note d = shm_okD [OF ok]
  fix j assume j: "j < 10" "\<not> (\<exists>f. shared_frames k' j = int f)"
  then have "j \<noteq> i" using i same(1) by auto
  then show "shared_frames k' j = -1 \<and> shared_refs k' j = 0 \<and> shared_marked_rm k' j = 0"
    using d(3) [of j] j by (simp add: same refs)
next
  note d = shm_okD [OF ok]
  show "a = b" if "a < 10" "b < 10" "shared_frames k' a = int g" "shared_frames k' b = int g" for a b g
    using d(4) that same(1) by simp
  fix w q assume w: "w \<in> U" "28 \<le> q" "q < 1024" "present (table k' w) q"
  then have "present (table k w) q" "get_frame (table k' w) q = get_frame (table k w) q"
    using t by (cases "w = u", auto)+
  then show "\<exists>i<10. shared_frames k' i = int (get_frame (table k' w) q)"
    using d(5) [OF w(1-3)] same(1) by simp
qed

abbreviation unmark :: "nat \<Rightarrow> kernel \<Rightarrow> kernel" where
  "unmark i k \<equiv> k\<lparr>shared_marked_rm := (shared_marked_rm k)(i := 0)\<rparr>"

lemma mappings_marks [simp]: "mappings (k\<lparr>shared_marked_rm := r\<rparr>) U f = mappings k U f"
  by (simp add: mappings_def mapped_pages_def)

lemma unmark_ok: "shm_ok k U \<Longrightarrow> shm_ok (unmark i k) U"
proof (rule shm_okI)
  assume ok: "shm_ok k U"
  note d = shm_okD [OF ok]
  show "finite U" by (rule d(1))
  show "f < TOTAL_PAGES \<and> f \<notin> free_frames (frames (unmark i k)) \<and>
      shared_refs (unmark i k) j = mappings (unmark i k) U f \<and>
      (shared_marked_rm (unmark i k) j = 1 \<longrightarrow> shared_refs (unmark i k) j > 0)"
    if "j < 10" "shared_frames (unmark i k) j = int f" for j f
    using d(2) [of j f] that by auto
  show "shared_frames (unmark i k) j = -1 \<and> shared_refs (unmark i k) j = 0 \<and>
      shared_marked_rm (unmark i k) j = 0"
    if "j < 10" "\<not> (\<exists>f. shared_frames (unmark i k) j = int f)" for j
    using d(3) [of j] that by simp
  show "a = b" if "a < 10" "b < 10" "shared_frames (unmark i k) a = int g"
      "shared_frames (unmark i k) b = int g" for a b g
    using d(4) [of a b g] that by simp
  show "\<exists>j<10. shared_frames (unmark i k) j = int (get_frame (table (unmark i k) u) p)"
    if "u \<in> U" "28 \<le> p" "p < 1024" "present (table (unmark i k) u) p" for u p
    using d(5) [of u p] that by simp
qed

lemma clean_ok:
  assumes ok: "shm_ok (unmark i k) U" and i: "i < 10" "shared_frames k i = int f"
    and refs: "shared_refs k i = 0" and pt: "get_PT k (current k) \<notin> U"
  shows "shm_ok (cleaned i f k) U"
proof -
  note d = shm_okD [OF ok]
  let ?k = "cleaned i f k"
  have tb: "table ?k w = table k w" if "w \<in> U" for w
    using that pt by (auto simp: cleaned_def table_def)
  have fr: "f < TOTAL_PAGES" "mappings k U f = 0" using d(2) [OF i(1), of f] i refs by simp_all
  have sel: "shared_frames ?k = (shared_frames k)(i := -1)" "shared_refs ?k = (shared_refs k)(i := 0)"
    "shared_marked_rm ?k = (shared_marked_rm k)(i := 0)"
    "free_frames (frames ?k) = insert f (free_frames (frames k))"
    using fr(1) by (simp_all add: cleaned_def)
  have mp: "mappings ?k U g = mappings k U g" for g
    unfolding mappings_def mapped_pages_def by (rule sum.cong) (simp_all add: tb)
  have ne: "j \<noteq> i \<and> g \<noteq> f" if "j < 10" "shared_frames ?k j = int g" for j g
  proof -
    have "j \<noteq> i" using that by (auto simp: sel)
    then show ?thesis using d(4) [of j i f] that i by (auto simp: sel)
  qed
  show ?thesis
  proof (rule shm_okI)
    show "finite U" by (rule d(1))
    show "g < TOTAL_PAGES \<and> g \<notin> free_frames (frames ?k) \<and> shared_refs ?k j = mappings ?k U g \<and>
        (shared_marked_rm ?k j = 1 \<longrightarrow> shared_refs ?k j > 0)"
      if "j < 10" "shared_frames ?k j = int g" for j g
      using d(2) [of j g] ne [OF that] that by (auto simp: sel mp)
    show "shared_frames ?k j = -1 \<and> shared_refs ?k j = 0 \<and> shared_marked_rm ?k j = 0"
      if "j < 10" "\<not> (\<exists>g. shared_frames ?k j = int g)" for j
      using d(3) [of j] that by (cases "j = i") (simp_all add: sel)
    show "a = b" if "a < 10" "b < 10" "shared_frames ?k a = int g" "shared_frames ?k b = int g" for a b g
    proof -
      have "a \<noteq> i" "b \<noteq> i" using ne [OF that(1,3)] ne [OF that(2,4)] by simp_all
      then have "shared_frames (unmark i k) a = int g" "shared_frames (unmark i k) b = int g"
        using that(3,4) by (simp_all add: sel)
      then show ?thesis by (rule d(4) [OF that(1,2)])
    qed
    fix w q assume w: "w \<in> U" "28 \<le> q" "q < 1024" "present (table ?k w) q"
    then have pr: "present (table k w) q" by (simp add: tb)
    then obtain j where j: "j < 10" "shared_frames k j = int (get_frame (table k w) q)"
      using d(5) [OF w(1-3)] by auto
    have "mapped_pages k f w = {}" by (rule mappings_0 [OF d(1) fr(2) w(1)])
    then have "get_frame (table k w) q \<noteq> f" using w pr by (auto simp: mapped_pages_def)
    then have "j \<noteq> i" using i j by auto
    then show "\<exists>j<10. shared_frames ?k j = int (get_frame (table ?k w) q)"
      using j w(1) by (auto simp: sel tb)
  qed
qed

text \<open>One mapping removed from a table, and its reference dropped.\<close>

lemma drop_mapping_ok:
  assumes ok: "shm_ok k U" and u: "u \<in> U" and i: "i < 10" "shared_frames k i = int f"
    and p: "28 \<le> p" "p < 1024" "present (table k u) p" "get_frame (table k u) p = f"
    and sp: "kernel_space k'" and pt: "get_PT k' (current k') \<notin> U"
    and t: "\<And>w. w \<noteq> u \<Longrightarrow> table k' w = table k w" "table k' u = del_ss_pag (table k u) p"
    and same: "shared_frames k' = shared_frames k" "shared_marked_rm k' = shared_marked_rm k"
      "free_frames (frames k') = free_frames (frames k)" "shared_refs k' = shared_refs k"
  obtains k'' where "drop_reference i k' = Some k''" and "shm_ok k'' U"
    and "k'' = k'\<lparr>shared_refs := (shared_refs k)(i := shared_refs k i - 1)\<rparr> \<or>
         k'' = cleaned i f (k'\<lparr>shared_refs := (shared_refs k)(i := shared_refs k i - 1)\<rparr>) \<and>
         shared_refs k i = 1 \<and> shared_marked_rm k i = 1"
proof -
  let ?k = "k'\<lparr>shared_refs := (shared_refs k)(i := shared_refs k i - 1)\<rparr>"
  show ?thesis
  proof (cases "shared_refs k i - 1 = 0 \<and> shared_marked_rm k i = 1")
    case True
    have "shm_ok (unmark i ?k) U"
      by (rule detach_ok [OF unmark_ok [OF ok, of i] u i(1), of f p]) (use i p t same in simp_all)
    then have "shm_ok (cleaned i f ?k) U"
      using i pt True same by (intro clean_ok) (simp_all add: get_PT_def)
    moreover have "f < 1048576" using shm_okD(2) [OF ok i] by simp
    then have "cleanup_shared_page i ?k = Some (cleaned i f ?k)"
      using cleanup_shared_page_eq [where k = ?k and i = i and f = f] sp i same
      by (simp add: kernel_space_def get_PT_def)
    ultimately show ?thesis
      using that [of "cleaned i f ?k"] True same by (simp add: drop_reference_def Let_def)
  next
    case False
    have "shm_ok ?k U"
      by (rule detach_ok [OF ok u i p]) (use False t same in auto)
    moreover have "drop_reference i k' = Some ?k"
      using False same by (auto simp: drop_reference_def Let_def)
    ultimately show ?thesis using that [of ?k] by simp
  qed
qed

section \<open>Attaching\<close>

lemma log_page_value:
  assumes "x = of_nat (2048 + p)" and "p < 1024"
  shows "sint (push_bit 12 (x :: dword)) = int ((2048 + p) * 4096)"
proof -
  have "push_bit 12 x = (of_int (int ((2048 + p) * 4096)) :: dword)"
    by (simp add: assms(1) push_bit_eq_mult algebra_simps)
  then have "sint (push_bit 12 x) = signed_take_bit 31 (int ((2048 + p) * 4096))"
    by (simp only: sint_sbintrunc') simp
  then show ?thesis using assms(2) by (simp add: signed_take_bit_int_eq_self)
qed

lemma pt_idx_range:
  assumes "\<not> (drop_bit 12 addr - 0x800 < 28 \<or> drop_bit 12 addr - 0x800 \<ge> (1024 :: dword))"
  shows "28 \<le> unat (drop_bit 12 addr - 0x800)" and "unat (drop_bit 12 addr - 0x800) < 1024"
    and "drop_bit 12 addr = of_nat (2048 + unat (drop_bit 12 addr - 0x800))"
  using assms by (simp_all add: word_less_nat_alt word_le_nat_alt)

text \<open>The state after a page is mapped.\<close>

definition attached :: "nat \<Rightarrow> nat \<Rightarrow> nat \<Rightarrow> nat \<Rightarrow> kernel \<Rightarrow> kernel" where
  "attached i f u p k =
     set_cr3 (get_DIR k (current k))
       ((upd_table u (\<lambda>t. set_ss_pag t p f 1) k)
          \<lparr>shared_refs := (shared_refs k)(i := shared_refs k i + 1)\<rparr>)"

lemma attached_ok:
  assumes "shm_ok k U" and "u \<in> U" and "i < 10" "shared_frames k i = int f"
    and "28 \<le> p" "p < 1024" "\<not> present (table k u) p"
  shows "shm_ok (attached i f u p k) U"
  by (rule attach_ok [OF assms]) (simp_all add: attached_def)

text \<open>The four outcomes of the mapping part: refused, already there, or one page attached.\<close>

lemma shmat_map_cases:
  assumes f: "shared_frames k i = int f"
  obtains e where "shmat_map i addr k = (- e, k)" and "e \<in> {EINVAL, ENOMEM}"
  | p where "28 \<le> p" and "p < 1024" and "present (table k (user_table k (current k))) p"
      and "get_frame (table k (user_table k (current k))) p = f"
      and "shmat_map i addr k = (int ((2048 + p) * 4096), k)" and "unat addr = (2048 + p) * 4096"
  | p where "28 \<le> p" and "p < 1024" and "\<not> present (table k (user_table k (current k))) p"
      and "shmat_map i addr k = (int ((2048 + p) * 4096), attached i f (user_table k (current k)) p k)"
      and "addr = 0 \<or> unat addr = (2048 + p) * 4096"
proof (cases "addr = 0")
  case True
  let ?u = "user_table k (current k)"
  show ?thesis
  proof (cases "List.find (\<lambda>i. \<not> present (table k ?u) i) [28..<1024]")
    case None
    then have "shmat_map i addr k = (- ENOMEM, k)" using True by (simp add: shmat_map_def Let_def)
    then show ?thesis using that(1) by blast
  next
    case (Some p)
    then have p: "28 \<le> p" "p < 1024" "\<not> present (table k ?u) p"
      by (auto simp: find_Some_iff dest: nth_mem)
    have v: "sint (push_bit 12 (drop_bit 12 L_USER_START + of_nat p :: dword)) = int ((2048 + p) * 4096)"
      by (rule log_page_value [OF _ p(2)]) (simp add: drop_bit_eq_div)
    have "shmat_map i addr k = (int ((2048 + p) * 4096), attached i f ?u p k)"
      using True Some v by (simp add: shmat_map_def Let_def attached_def f)
    then show ?thesis using that(3) [OF p] True by blast
  qed
next
  case False
  let ?u = "user_table k (current k)" and ?p = "drop_bit 12 addr - 0x800 :: dword"
  define q where "q = unat ?p"
  have c: "drop_bit 12 L_USER_START = (0x800 :: dword)" by (simp add: drop_bit_eq_div)
  show ?thesis
  proof (cases "addr AND 0xFFF \<noteq> 0 \<or> ?p < 28 \<or> ?p \<ge> 1024")
    case bad: True
    then have "shmat_map i addr k = (- EINVAL, k)"
      using False by (auto simp: shmat_map_def Let_def c)
    then show ?thesis using that(1) by blast
  next
    case good: False
    then have p: "28 \<le> q" "q < 1024" "drop_bit 12 addr = of_nat (2048 + q)"
      unfolding q_def using pt_idx_range by blast+
    note v = log_page_value [OF p(3,2)]
    have "addr AND 0xFFF = take_bit 12 addr" by (simp add: take_bit_eq_mask mask_eq_exp_minus_1)
    then have "addr = push_bit 12 (drop_bit 12 addr)"
      using good bits_ident [of 12 addr] by simp
    also have "\<dots> = of_nat ((2048 + q) * 4096)"
      unfolding p(3) by (simp add: push_bit_eq_mult algebra_simps)
    finally have "unat addr = unat (of_nat ((2048 + q) * 4096) :: dword)" by (rule arg_cong)
    then have a: "unat addr = (2048 + q) * 4096"
      using p(2) by (simp add: unat_of_nat del: of_nat_add of_nat_mult)
    show ?thesis
    proof (cases "present (table k ?u) (q)")
      case pr: True
      show ?thesis
      proof (cases "get_frame (table k ?u) (q) = f")
        case True
        then have "shmat_map i addr k = (int ((2048 + q) * 4096), k)"
          using False good pr v by (simp add: shmat_map_def Let_def c f q_def [symmetric])
        then show ?thesis using that(2) [OF p(1,2) pr True] a by blast
      next
        case other: False
        then have "shmat_map i addr k = (- EINVAL, k)"
          using False good pr by (simp add: shmat_map_def Let_def c f q_def [symmetric])
        then show ?thesis using that(1) by blast
      qed
    next
      case pr: False
      then have "shmat_map i addr k = (int ((2048 + q) * 4096), attached i f ?u (q) k)"
        using False good v by (simp add: shmat_map_def Let_def c f attached_def q_def [symmetric])
      then show ?thesis using that(3) [OF p(1,2) pr] a by blast
    qed
  qed
qed

lemma attached_table:
  "table (attached i f u p k) = (table k)(u := set_ss_pag (table k u) p f 1)"
  "shared_frames (attached i f u p k) = shared_frames k"
  by (simp_all add: attached_def fun_eq_iff)

lemma user_table_simps [simp]:
  "user_table (k\<lparr>frames := m\<rparr>) t = user_table k t"
  "user_table (k\<lparr>shared_frames := sf\<rparr>) t = user_table k t"
  by (simp_all add: user_table_def)

definition attach_result :: "kernel \<Rightarrow> kernel \<Rightarrow> nat \<Rightarrow> dword \<Rightarrow> int \<Rightarrow> bool" where
  "attach_result k k' i addr r \<longleftrightarrow>
     (let u = user_table k (current k) in
      \<exists>p f. 28 \<le> p \<and> p < 1024 \<and> r = int ((2048 + p) * 4096) \<and> (addr = 0 \<or> unat addr = (2048 + p) * 4096) \<and>
        shared_frames k' i = int f \<and> present (table k' u) p \<and> get_frame (table k' u) p = f \<and>
        table k' = (table k)(u := (table k u)(p := table k' u p)))"

lemma shmat_map_ok:
  assumes ok: "shm_ok k U" and u: "user_table k (current k) \<in> U" and i: "i < 10" "shared_frames k i = int f"
    and r: "shmat_map i addr k = (r, k')"
  shows "shm_ok k' U \<and> (r < 0 \<and> k' = k \<or> attach_result k k' i addr r)"
proof -
  let ?u = "user_table k (current k)"
  have f: "f < 1048576" using shm_okD(2) [OF ok i] by simp
  show ?thesis
  proof (rule shmat_map_cases [OF i(2), of addr])
    fix e assume "shmat_map i addr k = (- e, k)" "e \<in> {EINVAL, ENOMEM}"
    then show ?thesis using ok r by auto
  next
    fix p assume p: "28 \<le> p" "p < 1024" "present (table k ?u) p" "get_frame (table k ?u) p = f"
      "shmat_map i addr k = (int ((2048 + p) * 4096), k)" "unat addr = (2048 + p) * 4096"
    then have k: "k' = k" "r = int ((2048 + p) * 4096)" using r by simp_all
    have "attach_result k k i addr r"
      unfolding attach_result_def Let_def by (rule exI [of _ p], rule exI [of _ f]) (simp add: p(1-4,6) i k(2))
    then show ?thesis using ok k(1) by simp
  next
    fix p assume p: "28 \<le> p" "p < 1024" "\<not> present (table k ?u) p"
      "shmat_map i addr k = (int ((2048 + p) * 4096), attached i f ?u p k)"
      "addr = 0 \<or> unat addr = (2048 + p) * 4096"
    then have k: "k' = attached i f ?u p k" "r = int ((2048 + p) * 4096)" using r by simp_all
    have "attach_result k k' i addr r"
      unfolding attach_result_def Let_def
      by (rule exI [of _ p], rule exI [of _ f])
        (use p(5) in \<open>simp add: p(1,2) i k attached_table f set_ss_pag_upd [symmetric]\<close>)
    then show ?thesis using attached_ok [OF ok u i p(1-3)] k(1) by simp
  qed
qed

text \<open>A page that gets its frame.\<close>

lemma new_page_ok:
  assumes ok: "shm_ok k U" and i: "i < 10" "shared_frames k i < 0"
    and f: "f \<in> free_frames (frames k)" "f < TOTAL_PAGES"
    and m: "free_frames m = free_frames (frames k) - {f}"
  shows "shm_ok (k\<lparr>frames := m, shared_frames := (shared_frames k)(i := int f)\<rparr>) U"
    (is "shm_ok ?k U")
proof -
  note d = shm_okD [OF ok]
  have "\<not> (\<exists>g. shared_frames k i = int g)" using i(2) by auto
  then have ii: "shared_frames k i = -1" "shared_refs k i = 0" "shared_marked_rm k i = 0"
    using d(3) [OF i(1)] by simp_all
  have nf: "g \<noteq> f" if "j < 10" "shared_frames k j = int g" for j g
    using d(2) [OF that] f by auto
  have mp: "mappings ?k U g = mappings k U g" for g by (simp add: mappings_def mapped_pages_def)
  have m0: "mappings k U f = 0"
  proof -
    have "mapped_pages k f u = {}" if "u \<in> U" for u
      using d(5) [OF that] nf by (fastforce simp: mapped_pages_def)
    then show ?thesis by (simp add: mappings_def)
  qed
  show ?thesis
  proof (rule shm_okI)
    show "finite U" by (rule d(1))
    show "g < TOTAL_PAGES \<and> g \<notin> free_frames (frames ?k) \<and> shared_refs ?k j = mappings ?k U g \<and>
        (shared_marked_rm ?k j = 1 \<longrightarrow> shared_refs ?k j > 0)"
      if "j < 10" "shared_frames ?k j = int g" for j g
    proof (cases "j = i")
      case True
      then have "g = f" using that(2) by simp
      then show ?thesis using f(2) m m0 ii True by (simp add: mp)
    next
      case False
      then have e: "shared_frames k j = int g" using that(2) by simp
      from d(2) [OF that(1) e] show ?thesis
        unfolding mp by (elim conjE, intro conjI) (simp_all add: m)
    qed
    show "shared_frames ?k j = -1 \<and> shared_refs ?k j = 0 \<and> shared_marked_rm ?k j = 0"
      if "j < 10" "\<not> (\<exists>g. shared_frames ?k j = int g)" for j
      using d(3) [of j] that by (cases "j = i") auto
    show "a = b" if ab: "a < 10" "b < 10" "shared_frames ?k a = int g" "shared_frames ?k b = int g" for a b g
    proof -
      consider "a = i" "b = i" | "a = i" "b \<noteq> i" | "a \<noteq> i" "b = i" | "a \<noteq> i" "b \<noteq> i" by blast
      then show ?thesis
      proof cases
        case 2
        then show ?thesis using nf [of b g] ab by simp
      next
        case 3
        then show ?thesis using nf [of a g] ab by simp
      next
        case 4
        then show ?thesis using d(4) [OF ab(1,2), of g] ab(3,4) by simp
      qed simp
    qed
    fix w q assume w: "w \<in> U" "28 \<le> q" "q < 1024" "present (table ?k w) q"
    then obtain j where j: "j < 10" "shared_frames k j = int (get_frame (table k w) q)"
      using d(5) [OF w(1-3)] by auto
    then have "j \<noteq> i" using ii by auto
    then show "\<exists>j<10. shared_frames ?k j = int (get_frame (table ?k w) q)" using j by auto
  qed
qed

lemma sys_shmat_ok:
  assumes ok: "shm_ok k U" and u: "user_table k (current k) \<in> U" and r: "sys_shmat i addr k = (r, k')"
  shows "shm_ok k' U \<and> (r < 0 \<and> table k' = table k \<or> attach_result k k' (nat i) addr r)"
proof -
  let ?i = "nat i"
  show ?thesis
  proof (cases "i < 0 \<or> i \<ge> 10 \<or> shared_marked_rm k ?i = 1")
    case True
    then show ?thesis using r ok by (auto simp: sys_shmat_def Let_def split: if_splits)
  next
    case False
    then have i: "?i < 10" by linarith
    show ?thesis
    proof (cases "shared_frames k ?i < 0")
      case neg: True
      show ?thesis
      proof (cases rule: alloc_frame_cases [of "frames k"])
        case 1
        have "\<not> (\<exists>f. shared_frames k ?i = int f)" using neg by auto
        then have "shared_frames k ?i = -1" using shm_okD(3) [OF ok i] by simp
        then have "k\<lparr>shared_frames := (shared_frames k)(?i := -1)\<rparr> = k"
          by (simp add: fun_upd_idem)
        then show ?thesis using r ok False neg 1
          by (simp add: sys_shmat_def Let_def kernel_alloc_frame_def)
      next
        case (2 f)
        let ?m = "(frames k)\<lparr>phys_mem := (phys_mem (frames k))(f := USED_FRAME)\<rparr>"
        let ?k = "k\<lparr>frames := ?m, shared_frames := (shared_frames k)(?i := int f)\<rparr>"
        have f: "f \<in> free_frames (frames k)" "f < TOTAL_PAGES"
          using 2(1) by (simp_all add: allocatable_def free_frames_def)
        have ok': "shm_ok ?k U" by (rule new_page_ok [OF ok i neg f]) simp
        have r': "shmat_map ?i addr ?k = (r, k')"
          using r False neg 2(3) by (simp add: sys_shmat_def Let_def kernel_alloc_frame_def)
        have "shm_ok k' U \<and> (r < 0 \<and> k' = ?k \<or> attach_result ?k k' ?i addr r)"
          by (rule shmat_map_ok [OF ok' _ i _ r', of f]) (use u in simp_all)
        moreover have "attach_result ?k k' ?i addr r = attach_result k k' ?i addr r"
          by (simp add: attach_result_def)
        ultimately show ?thesis by auto
      qed
    next
      case pos: False
      then obtain f where f: "shared_frames k ?i = int f" by (metis not_less nonneg_int_cases)
      have "shmat_map ?i addr k = (r, k')"
        using r False pos by (simp add: sys_shmat_def Let_def)
      from shmat_map_ok [OF ok u i f this] show ?thesis by auto
    qed
  qed
qed

section \<open>Detaching and removing\<close>

text \<open>The address spaces of the live processes are apart from the kernel's table and the directory.\<close>

definition user_space :: "kernel \<Rightarrow> nat set \<Rightarrow> bool" where
  "user_space k U \<longleftrightarrow> kernel_space k \<and> user_table k (current k) \<in> U \<and>
     get_PT k (current k) \<notin> U \<and> get_DIR k (current k) \<notin> U"

lemma shared_id_Some:
  assumes ok: "shm_ok k U" and u: "u \<in> U" and p: "28 \<le> p" "p < 1024" "present (table k u) p"
  obtains i where "shared_id k (get_frame (table k u) p) = Some i" and "i < 10"
    and "shared_frames k i = int (get_frame (table k u) p)"
proof -
  obtain j where j: "j < 10" "shared_frames k j = int (get_frame (table k u) p)"
    using shm_okD(5) [OF ok u p] by blast
  then have "shared_id k (get_frame (table k u) p) \<noteq> None"
    by (auto simp: shared_id_def find_None_iff)
  then obtain i where i: "shared_id k (get_frame (table k u) p) = Some i" by blast
  then have "i < 10 \<and> shared_frames k i = int (get_frame (table k u) p)"
    by (auto simp: shared_id_def find_Some_iff)
  then show ?thesis using that i by blast
qed

text \<open>The pages \<open>sys_shmdt\<close> accepts.\<close>

definition attached_at :: "kernel \<Rightarrow> dword \<Rightarrow> nat \<Rightarrow> bool" where
  "attached_at k addr p \<longleftrightarrow> unat addr = (2048 + p) * 4096 \<and> 28 \<le> p \<and> p < 1024 \<and>
     present (table k (user_table k (current k))) p"

lemma aligned_address:
  assumes a: "addr AND 0xFFF = 0" and q: "q = unat (drop_bit 12 addr - 0x800 :: dword)"
    and r: "\<not> (drop_bit 12 addr - 0x800 < 28 \<or> drop_bit 12 addr - 0x800 \<ge> (1024 :: dword))"
  shows "28 \<le> q" and "q < 1024" and "unat addr = (2048 + q) * 4096"
proof -
  show p: "28 \<le> q" "q < 1024" unfolding q using pt_idx_range [OF r] by blast+
  have d: "drop_bit 12 addr = of_nat (2048 + q)" unfolding q using pt_idx_range [OF r] by blast
  have "addr AND 0xFFF = take_bit 12 addr" by (simp add: take_bit_eq_mask mask_eq_exp_minus_1)
  then have "addr = push_bit 12 (drop_bit 12 addr)" using a bits_ident [of 12 addr] by simp
  also have "\<dots> = of_nat ((2048 + q) * 4096)"
    unfolding d by (simp add: push_bit_eq_mult algebra_simps)
  finally have "unat addr = unat (of_nat ((2048 + q) * 4096) :: dword)" by (rule arg_cong)
  then show "unat addr = (2048 + q) * 4096"
    using p(2) by (simp add: unat_of_nat del: of_nat_add of_nat_mult)
qed

lemma address_of_page:
  assumes "unat addr = (2048 + p) * 4096" and "28 \<le> p" and "p < 1024"
  shows "addr AND 0xFFF = 0" and "unat (drop_bit 12 addr - 0x800 :: dword) = p"
    and "\<not> (drop_bit 12 addr - 0x800 < 28 \<or> drop_bit 12 addr - 0x800 \<ge> (1024 :: dword))"
proof -
  have m: "addr AND 0xFFF = take_bit 12 addr" by (simp add: take_bit_eq_mask mask_eq_exp_minus_1)
  have "unat (take_bit 12 addr) = 0"
    unfolding unsigned_take_bit_eq assms(1) by (simp add: take_bit_eq_mod)
  then show "addr AND 0xFFF = 0" unfolding m by (simp only: unat_eq_0)
  have "unat (drop_bit 12 addr) = 2048 + p"
    unfolding unat_drop_bit_eq assms(1) by (simp add: drop_bit_eq_div)
  from arg_cong [OF this, of "of_nat :: nat \<Rightarrow> dword"]
  have d: "drop_bit 12 addr = of_nat (2048 + p)" by simp
  then have e: "drop_bit 12 addr - 0x800 = (of_nat p :: dword)" by simp
  then show u: "unat (drop_bit 12 addr - 0x800 :: dword) = p"
    using assms(3) by (simp add: unat_of_nat)
  show "\<not> (drop_bit 12 addr - 0x800 < 28 \<or> drop_bit 12 addr - 0x800 \<ge> (1024 :: dword))"
    using u assms(2,3) by (simp add: word_less_nat_alt word_le_nat_alt)
qed

lemma sys_shmdt_refuses:
  assumes "\<not> (\<exists>p. attached_at k addr p)"
  shows "sys_shmdt addr k = Some (- EINVAL, k)"
proof -
  have c: "drop_bit 12 L_USER_START = (0x800 :: dword)" by (simp add: drop_bit_eq_div)
  let ?bad = "drop_bit 12 addr - 0x800 < 28 \<or> drop_bit 12 addr - 0x800 \<ge> (1024 :: dword)"
  show ?thesis
  proof (cases "addr AND 0xFFF \<noteq> 0 \<or> ?bad")
    case True
    then show ?thesis by (auto simp: sys_shmdt_def Let_def c)
  next
    case False
    then have "\<not> present (table k (user_table k (current k))) (unat (drop_bit 12 addr - 0x800 :: dword))"
      using assms aligned_address [OF _ refl, of addr] unfolding attached_at_def by blast
    then show ?thesis using False by (simp add: sys_shmdt_def Let_def c)
  qed
qed

lemma sys_shmdt_detaches:
  assumes ok: "shm_ok k U" and sp: "user_space k U" and at: "attached_at k addr p"
  obtains i f k' where "i < 10" and "shared_frames k i = int f"
    and "sys_shmdt addr k = Some (0, k')" and "shm_ok k' U"
    and "\<not> present (table k' (user_table k (current k))) p"
    and "shared_refs k i = 1 \<and> shared_marked_rm k i = 1 \<Longrightarrow>
           f \<in> free_frames (frames k') \<and> (\<forall>a. a div 4096 = f \<longrightarrow> ram (mach k') a = 0)"
proof -
  let ?u = "user_table k (current k)"
  have c: "drop_bit 12 L_USER_START = (0x800 :: dword)" by (simp add: drop_bit_eq_div)
  have p: "unat addr = (2048 + p) * 4096" "28 \<le> p" "p < 1024" "present (table k ?u) p"
    using at by (simp_all add: attached_at_def)
  note a = address_of_page [OF p(1-3)]
  have u: "?u \<in> U" and sp': "kernel_space k" "get_PT k (current k) \<notin> U" "get_DIR k (current k) \<notin> U"
    using sp by (simp_all add: user_space_def)
  obtain i where i: "shared_id k (get_frame (table k ?u) p) = Some i" "i < 10"
      "shared_frames k i = int (get_frame (table k ?u) p)"
    using shared_id_Some [OF ok u p(2-4)] by blast
  define f where "f = get_frame (table k ?u) p"
  let ?k = "set_cr3 (get_DIR k (current k)) (upd_table ?u (\<lambda>t. del_ss_pag t p) k)"
  have ne: "get_DIR k (current k) \<noteq> ?u" using u sp'(3) by auto
  then have pt: "get_PT ?k (current ?k) = get_PT k (current k)"
    unfolding get_PT_table by simp
  have ks: "kernel_space ?k"
    using sp'(1) ne pt by (simp add: kernel_space_def paging_def)
  have fr: "f < TOTAL_PAGES" using shm_okD(2) [OF ok i(2,3)] by (simp add: f_def)
  obtain k' where k': "drop_reference i ?k = Some k'" "shm_ok k' U"
      "k' = ?k\<lparr>shared_refs := (shared_refs k)(i := shared_refs k i - 1)\<rparr> \<or>
       k' = cleaned i f (?k\<lparr>shared_refs := (shared_refs k)(i := shared_refs k i - 1)\<rparr>) \<and>
         shared_refs k i = 1 \<and> shared_marked_rm k i = 1"
  proof (rule drop_mapping_ok [OF ok u i(2), of f p ?k])
    show "get_PT ?k (current ?k) \<notin> U" unfolding pt by (rule sp'(2))
  qed (use i(3) p ks in \<open>simp_all add: f_def\<close>)
  have "sys_shmdt addr k = Some (0, k')"
    using a i(1) p(4) k'(1) by (simp add: sys_shmdt_def Let_def c)
  moreover have "\<not> present (table k' ?u) p"
    using k'(3)
  proof
    assume "k' = ?k\<lparr>shared_refs := (shared_refs k)(i := shared_refs k i - 1)\<rparr>"
    then show ?thesis by simp
  next
    assume "k' = cleaned i f (?k\<lparr>shared_refs := (shared_refs k)(i := shared_refs k i - 1)\<rparr>) \<and>
         shared_refs k i = 1 \<and> shared_marked_rm k i = 1"
    moreover have "get_PT (?k\<lparr>shared_refs := (shared_refs k)(i := shared_refs k i - 1)\<rparr>) (current k) \<noteq> ?u"
      using pt u sp'(2) by (auto simp: get_PT_def)
    ultimately show ?thesis by (auto simp: cleaned_def table_def [of "_\<lparr>mach := _\<rparr>"] table_def [of k']
        present_def set_cr3_def upd_table_def del_ss_pag_def table_def)
  qed
  moreover have "f \<in> free_frames (frames k') \<and> (\<forall>a. a div 4096 = f \<longrightarrow> ram (mach k') a = 0)"
    if r: "shared_refs k i = 1 \<and> shared_marked_rm k i = 1"
  proof -
    have "k' = cleaned i f (?k\<lparr>shared_refs := (shared_refs k)(i := shared_refs k i - 1)\<rparr>)"
      using k'(1) r cleanup_shared_page_eq [of "?k\<lparr>shared_refs := (shared_refs k)(i := 0)\<rparr>" i f] ks i(3) fr
      by (simp add: drop_reference_def Let_def f_def kernel_space_def get_PT_def)
    then show ?thesis using fr by (simp add: cleaned_def)
  qed
  ultimately show ?thesis using that [OF i(2) i(3) [folded f_def]] k'(2) by blast
qed

lemma sys_shmrm_ok:
  assumes ok: "shm_ok k U" and sp: "user_space k U" and i: "0 \<le> i" "i < 10"
    and f: "shared_frames k (nat i) = int f"
  shows "sys_shmrm i k =
    Some (0, if shared_refs k (nat i) = 0
             then cleaned (nat i) f (k\<lparr>shared_marked_rm := (shared_marked_rm k)(nat i := 1)\<rparr>)
             else k\<lparr>shared_marked_rm := (shared_marked_rm k)(nat i := 1)\<rparr>)"
    and "shm_ok (snd (the (sys_shmrm i k))) U"
proof -
  let ?i = "nat i"
  let ?k = "k\<lparr>shared_marked_rm := (shared_marked_rm k)(?i := 1)\<rparr>"
  have n: "?i < 10" using i by simp
  have fr: "f < 1048576" using shm_okD(2) [OF ok n f] by simp
  have sp': "kernel_space ?k" "get_PT ?k (current ?k) \<notin> U"
    using sp by (simp_all add: user_space_def kernel_space_def get_PT_def)
  show eq: "sys_shmrm i k = Some (0, if shared_refs k ?i = 0 then cleaned ?i f ?k else ?k)"
    using i f cleanup_shared_page_eq [OF sp'(1) _ fr, of ?i]
    by (simp add: sys_shmrm_def Let_def)
  show "shm_ok (snd (the (sys_shmrm i k))) U"
  proof (cases "shared_refs k ?i = 0")
    case True
    have "unmark ?i ?k = unmark ?i k" by simp
    then have "shm_ok (cleaned ?i f ?k) U"
      using clean_ok [where i = ?i and k = ?k and U = U and f = f] unmark_ok [OF ok, of ?i] n f True sp'(2) by simp
    then show ?thesis using eq True by simp
  next
    case False
    note d = shm_okD [OF ok]
    have "0 \<le> mappings k U f" unfolding mappings_def by (rule sum_nonneg) simp
    then have pos: "shared_refs k ?i > 0" using d(2) [OF n f] False by auto
    have "shm_ok ?k U"
    proof (rule shm_okI)
      show "finite U" by (rule d(1))
      show "g < TOTAL_PAGES \<and> g \<notin> free_frames (frames ?k) \<and> shared_refs ?k j = mappings ?k U g \<and>
          (shared_marked_rm ?k j = 1 \<longrightarrow> shared_refs ?k j > 0)"
        if "j < 10" "shared_frames ?k j = int g" for j g
        using d(2) [OF that(1), of g] that(2) pos by (cases "j = ?i") auto
      show "shared_frames ?k j = -1 \<and> shared_refs ?k j = 0 \<and> shared_marked_rm ?k j = 0"
        if "j < 10" "\<not> (\<exists>g. shared_frames ?k j = int g)" for j
        using d(3) [OF that(1)] that(2) f by (cases "j = ?i") simp_all
      show "a = b" if "a < 10" "b < 10" "shared_frames ?k a = int g" "shared_frames ?k b = int g" for a b g
        by (rule d(4) [OF that(1,2), of g]) (use that(3,4) in simp_all)
      show "\<exists>j<10. shared_frames ?k j = int (get_frame (table ?k w) q)"
        if "w \<in> U" "28 \<le> q" "q < 1024" "present (table ?k w) q" for w q
        using d(5) [OF that(1-3)] that(4) by simp
    qed
    then show ?thesis using eq False by simp
  qed
qed

section \<open>Properties\<close>

lemma demo_get_frame:
  assumes "f < 1048576"
  shows "t i = pte_for f u \<Longrightarrow> get_frame t i = f" and "t i = pte_for f u \<Longrightarrow> present t i"
  using assms by (simp_all add: get_frame_def present_def)

lemma demo_user_space: "user_space demo_kernel {360, 361, 362, 363, 364}"
proof -
  have t: "table demo_kernel = demo_tables" by (simp add: demo_kernel_def table_def fun_eq_iff)
  have "get_frame (demo_tables 351) 0 = 400" "get_frame (demo_tables 351) 2 = 361"
    by (rule demo_get_frame(1) [of _ _ _ 0], simp_all add: demo_tables_def)
      (rule demo_get_frame(1) [of _ _ _ 1], simp_all add: demo_tables_def)
  moreover have "present (demo_tables 351) 0"
    by (rule demo_get_frame(2) [of 400 _ _ 0], simp_all add: demo_tables_def)
  moreover have "get_DIR demo_kernel 301 = 351" by (simp add: get_DIR_def demo_task_def)
  moreover have "paging (mach demo_kernel)" by (simp add: demo_kernel_def paging_def)
  ultimately show ?thesis
    by (simp add: user_space_def kernel_space_def get_PT_table user_table_def t)
qed

lemma demo_shm_ok: "shm_ok demo_kernel {360, 361, 362, 363, 364}"
proof (rule shm_okI)
  fix u p :: nat assume "u \<in> {360, 361, 362, 363, 364}" "28 \<le> p" "present (table demo_kernel u) p"
  moreover have "table demo_kernel u p = 0" if "u \<in> {360, 361, 362, 363, 364}" "28 \<le> p" for u p
    using that by (auto simp: demo_kernel_def table_def demo_tables_def)
  ultimately show "\<exists>i<10. shared_frames demo_kernel i = int (get_frame (table demo_kernel u) p)"
    by (simp add: present_def)
qed auto

text \<open>
  C25. \<open>sys_shmat\<close> either refuses with a negative error number and leaves every page table as it was, or returns
  the address of a page behind the code pages, the one asked for when an address is given, at which the caller
  now sees the frame of that shared page; no other entry of any table changes. In every case the
  reference counts stay exact: each equals the number of mappings of the frame in the user tables of all
  processes, no two shared pages have one frame, and no frame of a shared page is free.
\<close>

theorem shmat_attaches:
  assumes "shm_ok k U" and "user_table k (current k) \<in> U"
  shows "case sys_shmat i addr k of (r, k') \<Rightarrow>
           shm_ok k' U \<and> (r < 0 \<and> table k' = table k \<or> attach_result k k' (nat i) addr r)"
  using sys_shmat_ok [OF assms] by (cases "sys_shmat i addr k") simp

theorem shmat_attaches_witness:
  "case sys_shmat 3 0 demo_kernel of (r, k') \<Rightarrow>
     shm_ok k' {360, 361, 362, 363, 364} \<and> (r < 0 \<and> table k' = table demo_kernel \<or>
       attach_result demo_kernel k' 3 0 r)"
proof -
  have "user_table demo_kernel (current demo_kernel) \<in> {360, 361, 362, 363, 364}"
    using demo_user_space by (simp add: user_space_def)
  from shmat_attaches [OF demo_shm_ok this, of 3 0] show ?thesis by simp
qed

text \<open>
  C26. \<open>sys_shmdt\<close> accepts exactly the addresses of attached pages. It then unmaps the page, drops one
  reference, and keeps the counts exact; and when that was the last reference to a page marked for removal,
  the frame is wiped with zeros and returned to the free frames. Everything else is refused and
  changes nothing.
\<close>

theorem shmdt_detaches:
  assumes "shm_ok k U" and "user_space k U"
  shows "if \<exists>p. attached_at k addr p
         then \<exists>i f k' p. attached_at k addr p \<and> i < 10 \<and> shared_frames k i = int f \<and>
                sys_shmdt addr k = Some (0, k') \<and> shm_ok k' U \<and>
                \<not> present (table k' (user_table k (current k))) p \<and>
                (shared_refs k i = 1 \<and> shared_marked_rm k i = 1 \<longrightarrow>
                   f \<in> free_frames (frames k') \<and> (\<forall>a. a div 4096 = f \<longrightarrow> ram (mach k') a = 0))
         else sys_shmdt addr k = Some (- EINVAL, k)"
proof (cases "\<exists>p. attached_at k addr p")
  case True
  then obtain p where p: "attached_at k addr p" by blast
  obtain i f k' where r: "i < 10" "shared_frames k i = int f" "sys_shmdt addr k = Some (0, k')" "shm_ok k' U"
      "\<not> present (table k' (user_table k (current k))) p"
      "shared_refs k i = 1 \<and> shared_marked_rm k i = 1 \<Longrightarrow>
           f \<in> free_frames (frames k') \<and> (\<forall>a. a div 4096 = f \<longrightarrow> ram (mach k') a = 0)"
    using sys_shmdt_detaches [OF assms p] by metis
  with p show ?thesis unfolding if_P [OF True] by blast
next
  case False
  then show ?thesis using sys_shmdt_refuses [OF False] by simp
qed

definition demo_attached :: kernel where
  "demo_attached =
     (let k = demo_kernel\<lparr>frames := (frames demo_kernel)\<lparr>phys_mem := (phys_mem (frames demo_kernel))(700 := USED_FRAME)\<rparr>,
                          shared_frames := (shared_frames demo_kernel)(0 := 700)\<rparr>
      in attached 0 700 361 28 k)"

lemma demo_attached_ok: "shm_ok demo_attached {360, 361, 362, 363, 364}"
  "user_space demo_attached {360, 361, 362, 363, 364}" "attached_at demo_attached 0x81C000 28"
proof -
  let ?U = "{360, 361, 362, 363, 364} :: nat set"
  let ?m = "(frames demo_kernel)\<lparr>phys_mem := (phys_mem (frames demo_kernel))(700 := USED_FRAME)\<rparr>"
  let ?k = "demo_kernel\<lparr>frames := ?m, shared_frames := (shared_frames demo_kernel)(0 := 700)\<rparr>"
  have "700 \<in> free_frames (frames demo_kernel)" by (simp add: free_frames_def demo_kernel_def)
  then have k: "shm_ok ?k ?U"
    using new_page_ok [OF demo_shm_ok, of 0 700 ?m] by simp
  have np: "\<not> present (table ?k 361) 28"
    by (simp add: demo_kernel_def table_def demo_tables_def present_def)
  have ut: "user_table demo_kernel 301 = 361"
  proof -
    have "get_frame (demo_tables 351) 2 = 361"
      by (rule demo_get_frame(1) [of _ _ _ 1], simp_all add: demo_tables_def)
    then show ?thesis
      by (simp add: user_table_def get_DIR_def demo_task_def table_def demo_kernel_def)
  qed
  show ok: "shm_ok demo_attached ?U"
    unfolding demo_attached_def Let_def by (rule attached_ok [OF k _ _ _ _ _ np]) simp_all
  have t: "table demo_attached = (table demo_kernel)(361 := set_ss_pag (table demo_kernel 361) 28 700 1)"
    "current demo_attached = 301" "get_DIR demo_attached t = get_DIR demo_kernel t" for t
    by (simp_all add: demo_attached_def attached_table Let_def) (simp_all add: attached_def)
  have d: "get_DIR demo_kernel 301 = 351" by (simp add: get_DIR_def demo_task_def)
  have ut': "user_table demo_attached 301 = 361" using ut by (simp add: user_table_def t d)
  show "user_space demo_attached ?U"
    using demo_user_space ut'
    by (simp add: user_space_def kernel_space_def get_PT_table t d paging_def)
      (simp add: demo_attached_def attached_def Let_def)
  show "attached_at demo_attached 0x81C000 28"
    by (simp add: attached_at_def t ut')
qed

theorem shmdt_detaches_witness:
  "\<exists>k'. sys_shmdt 0x81C000 demo_attached = Some (0, k') \<and> shm_ok k' {360, 361, 362, 363, 364}"
  using shmdt_detaches [OF demo_attached_ok(1,2), of "0x81C000"] demo_attached_ok(3) by (auto split: if_splits)

text \<open>
  C27. \<open>sys_shmrm\<close> of a page in use by nobody wipes its frame and frees it at once; of a page in use it only
  marks it, and the marked page refuses every further \<open>sys_shmat\<close>. The counts stay exact.
\<close>

theorem shmrm_removes_or_marks:
  assumes "shm_ok k U" and "user_space k U" and "0 \<le> i" and "i < 10" and "shared_frames k (nat i) = int f"
  shows "\<exists>k'. sys_shmrm i k = Some (0, k') \<and> shm_ok k' U \<and>
           (if shared_refs k (nat i) = 0
            then shared_frames k' (nat i) = -1 \<and> f \<in> free_frames (frames k') \<and>
                 (\<forall>a. ram (mach k') a = (if a div 4096 = f then 0 else ram (mach k) a))
            else mach k' = mach k \<and> frames k' = frames k \<and> sys_shmat i addr k' = (- EINVAL, k'))"
proof -
  have fr: "f < TOTAL_PAGES" using shm_okD(2) [OF assms(1) _ assms(5)] assms(3,4) by simp
  show ?thesis
    using sys_shmrm_ok [OF assms] fr assms(3,4)
    by (cases "shared_refs k (nat i) = 0") (simp_all add: cleaned_def sys_shmat_def Let_def)
qed

theorem shmrm_removes_or_marks_witness:
  "\<exists>k'. sys_shmrm 0 demo_attached = Some (0, k') \<and> sys_shmat 0 0 k' = (- EINVAL, k')"
proof -
  have f: "shared_frames demo_attached (nat 0) = int 700" "shared_refs demo_attached (nat 0) \<noteq> 0"
    by (simp_all add: demo_attached_def Let_def attached_def)
  have "0 \<le> (0::int)" "(0::int) < 10" by simp_all
  from shmrm_removes_or_marks [OF demo_attached_ok(1,2) this f(1), of 0] show ?thesis
    unfolding if_not_P [OF f(2)] by blast
qed

end
