(* ===== verification/Process.thy ===== *)
theory Process
  imports Shared_Memory
begin

text \<open>
  The system calls of \<open>sys.c\<close> that neither block nor change the set of processes: \<open>sys_write\<close> with
  \<open>check_fd\<close>, \<open>sys_getpid\<close>, \<open>sys_gettime\<close> and \<open>sys_ni_syscall\<close>. \<open>shown\<close> says what a write does to the
  state: it shows the bytes and overwrites the kernel's buffer, no more.
\<close>

section \<open>Small system calls\<close>

abbreviation (input) ESCRIPTURA :: int where
  "ESCRIPTURA \<equiv> 1"

definition check_fd :: "int \<Rightarrow> int \<Rightarrow> int" where
  "check_fd fd permissions =
     (if fd \<noteq> 1 then - EBADF else if permissions \<noteq> ESCRIPTURA then - EACCES else 0)"

definition sys_ni_syscall :: "kernel \<Rightarrow> int" where
  "sys_ni_syscall k = - ENOSYS"

definition sys_gettime :: "kernel \<Rightarrow> int" where
  "sys_gettime k = zeos_ticks k"

definition sys_getpid :: "kernel \<Rightarrow> int" where
  "sys_getpid k = PID (tasks k (current k))"

section \<open>sys\_write\<close>

text \<open>The bytes of the kernel buffer that \<open>sys_write_console\<close> shows.\<close>

fun load_bytes :: "dword \<Rightarrow> nat \<Rightarrow> machine \<Rightarrow> byte list option" where
  "load_bytes a 0 m = Some []"
| "load_bytes a (Suc n) m = do {
     b \<leftarrow> load_byte m a;
     bs \<leftarrow> load_bytes (a + 1) n m;
     Some (b # bs) }"

lemma load_bytes_length: "load_bytes a n m = Some bs \<Longrightarrow> length bs = n"
  by (induction n arbitrary: a bs) (auto simp: bind_eq_Some_conv)

text \<open>Copy \<open>n\<close> bytes to \<open>buffer_sys\<close> and show them: the two calls inside and after the loop.\<close>

definition write_part :: "dword \<Rightarrow> int \<Rightarrow> kernel \<Rightarrow> (int \<times> kernel) option" where
  "write_part buf n k = do {
     (r, m) \<leftarrow> copy_from_user buf (buffer_sys k) n (mach k);
     bs \<leftarrow> load_bytes (buffer_sys k) (nat n) m;
     let (w, s) = sys_write_console bs (scr k);
     Some (w, k\<lparr>mach := m, scr := s\<rparr>) }"

lemma write_part_count: "write_part buf n k = Some (w, k') \<Longrightarrow> w = int (nat n)"
  by (auto simp: write_part_def sys_write_console_def bind_eq_Some_conv dest: load_bytes_length
      split: prod.splits)

function write_loop :: "dword \<Rightarrow> int \<Rightarrow> kernel \<Rightarrow> (dword \<times> int \<times> kernel) option" where
  "write_loop bufferAux porEscribir k =
     (if porEscribir > 256 then do {
        (bytesEscritos, k) \<leftarrow> write_part bufferAux 256 k;
        write_loop (bufferAux + of_int bytesEscritos) (porEscribir - bytesEscritos) k }
      else Some (bufferAux, porEscribir, k))"
  by pat_completeness auto
termination
  by (relation "measure (\<lambda>(b, n, k). nat n)") (auto dest: write_part_count)

declare write_loop.simps [simp del]

definition sys_write :: "int \<Rightarrow> dword \<Rightarrow> int \<Rightarrow> kernel \<Rightarrow> (int \<times> kernel) option" where
  "sys_write fd buffer sz k =
     (let ret = check_fd fd ESCRIPTURA in
      if ret < 0 then Some (ret, k)
      else if buffer = 0 then Some (- EFAULT, k)
      else if sz < 0 \<or> access_ok VERIFY_READ buffer (of_int sz) = 0 then Some (- EINVAL, k)
      else do {
        (bufferAux, porEscribir, k) \<leftarrow> write_loop buffer sz k;
        (bytesEscritos, k) \<leftarrow> write_part bufferAux porEscribir k;
        let porEscribir = porEscribir - bytesEscritos;
        Some (sz - porEscribir, k) })"

section \<open>What a write does\<close>

lemma mapped_drop: "mapped m va n P \<Longrightarrow> j \<le> n \<Longrightarrow> mapped m (va + of_nat j) (n - j) (\<lambda>i. P (j + i))"
  by (auto simp: mapped_def add.assoc simp flip: of_nat_add)

lemma mapped_take: "mapped m va n P \<Longrightarrow> j \<le> n \<Longrightarrow> mapped m va j P"
  by (simp add: mapped_def)

lemma load_bytes_mapped:
  "mapped m a n P \<Longrightarrow> load_bytes a n m = Some (map (\<lambda>i. ram m (P i)) [0..<n])"
proof (induction n arbitrary: a P)
  case 0
  show ?case by simp
next
  case (Suc n)
  have "mapped m (a + 1) n (\<lambda>i. P (Suc i))"
    using mapped_drop [OF Suc.prems, of 1] by simp
  from Suc.IH [OF this] show ?case
    using mappedD [OF Suc.prems, of 0] by (simp add: map_upt_Suc del: upt_Suc)
qed

text \<open>The kernel buffer, and the user's buffer outside of it.\<close>

definition write_ready :: "kernel \<Rightarrow> dword \<Rightarrow> nat \<Rightarrow> (nat \<Rightarrow> nat) \<Rightarrow> (nat \<Rightarrow> nat) \<Rightarrow> bool" where
  "write_ready k buf n P Q \<longleftrightarrow>
     mapped (mach k) buf n P \<and> mapped (mach k) (buffer_sys k) 256 Q \<and> inj_on Q {..<256} \<and>
     P ` {..<n} \<inter> Q ` {..<256} = {}"

text \<open>\<open>k'\<close> differs from \<open>k\<close> in the kernel's buffer and shows \<open>cs\<close>.\<close>

definition shown :: "(nat \<Rightarrow> nat) \<Rightarrow> byte list \<Rightarrow> kernel \<Rightarrow> kernel \<Rightarrow> bool" where
  "shown Q cs k k' \<longleftrightarrow>
     (\<exists>r. k' = k\<lparr>mach := (mach k)\<lparr>ram := r\<rparr>, scr := fold printc cs (scr k)\<rparr> \<and>
          (\<forall>a. a \<notin> Q ` {..<256} \<longrightarrow> r a = ram (mach k) a))"

lemma write_part_shows:
  assumes w: "write_ready k buf n P Q" and n: "n \<le> 256"
  shows "\<exists>k'. write_part buf (int n) k = Some (int n, k') \<and> shown Q (map (\<lambda>i. ram (mach k) (P i)) [0..<n]) k k'"
proof -
  let ?r = "blit P Q [0..<n] (ram (mach k))"
  let ?m = "(mach k)\<lparr>ram := ?r\<rparr>"
  have P: "mapped (mach k) buf n P" and Q: "mapped (mach k) (buffer_sys k) n Q" and inj: "inj_on Q {..<n}"
    using w n mapped_take by (auto simp: write_ready_def intro: inj_on_subset)
  have d: "P i \<noteq> Q j" if "i < n" "j < n" for i j
    using w that n unfolding write_ready_def by force
  have c: "copy_from_user buf (buffer_sys k) (int n) (mach k) = Some (0, ?m)"
    by (rule copy_data_blit(2) [OF P Q d])
  have b: "(\<forall>i<n. ?r (Q i) = ram (mach k) (P i)) \<and> (\<forall>a. a \<notin> Q ` {..<n} \<longrightarrow> ?r a = ram (mach k) a)"
    by (rule blit_disjoint [OF d inj])
  have "load_bytes (buffer_sys k) n ?m = Some (map (\<lambda>i. ?r (Q i)) [0..<n])"
    using load_bytes_mapped [of ?m "buffer_sys k" n Q] Q by simp
  also have "map (\<lambda>i. ?r (Q i)) [0..<n] = map (\<lambda>i. ram (mach k) (P i)) [0..<n]"
    using b by (intro map_cong) auto
  finally have "write_part buf (int n) k = Some (int n, k\<lparr>mach := ?m,
      scr := fold printc (map (\<lambda>i. ram (mach k) (P i)) [0..<n]) (scr k)\<rparr>)"
    using c by (simp add: write_part_def sys_write_console_def)
  moreover have "?r a = ram (mach k) a" if "a \<notin> Q ` {..<256}" for a
    using b that n by (metis (no_types, lifting) image_iff lessThan_iff less_le_trans)
  ultimately show ?thesis by (auto simp: shown_def)
qed

lemma shown_refl: "shown Q [] k k"
proof -
  have "k = k\<lparr>mach := (mach k)\<lparr>ram := ram (mach k)\<rparr>, scr := fold printc [] (scr k)\<rparr>" by simp
  then show ?thesis unfolding shown_def by blast
qed

lemma shown_trans: "shown Q cs k k' \<Longrightarrow> shown Q ds k' k'' \<Longrightarrow> shown Q (cs @ ds) k k''"
  by (auto simp: shown_def)

lemma shown_mach: "shown Q cs k k' \<Longrightarrow> \<exists>r. mach k' = (mach k)\<lparr>ram := r\<rparr> \<and> buffer_sys k' = buffer_sys k \<and>
    (\<forall>a. a \<notin> Q ` {..<256} \<longrightarrow> r a = ram (mach k) a)"
  by (auto simp: shown_def)

lemma write_ready_next:
  assumes "write_ready k buf n P Q" and "shown Q cs k k'" and "j \<le> n"
  shows "write_ready k' (buf + of_nat j) (n - j) (\<lambda>i. P (j + i)) Q"
    and "\<And>i. i < n \<Longrightarrow> ram (mach k') (P i) = ram (mach k) (P i)"
proof -
  obtain r where r: "mach k' = (mach k)\<lparr>ram := r\<rparr>" "buffer_sys k' = buffer_sys k"
      "\<forall>a. a \<notin> Q ` {..<256} \<longrightarrow> r a = ram (mach k) a"
    using shown_mach [OF assms(2)] by blast
  have "(\<lambda>i. P (j + i)) ` {..<n - j} \<subseteq> P ` {..<n}" by auto
  then show "write_ready k' (buf + of_nat j) (n - j) (\<lambda>i. P (j + i)) Q"
    using assms(1) mapped_drop [OF _ assms(3), of "mach k" buf P] r
    unfolding write_ready_def by (simp add: disjoint_iff) blast
  show "ram (mach k') (P i) = ram (mach k) (P i)" if "i < n" for i
    using assms(1) r that by (auto simp: write_ready_def disjoint_iff)
qed

lemma map_upt_split: "j \<le> n \<Longrightarrow> map f [0..<n] = map f [0..<j] @ map (\<lambda>i. f (j + i)) [0..<n - j]"
  by (rule nth_equalityI) (auto simp: nth_append)

lemma write_loop_shows:
  assumes "write_ready k buf n P Q"
  shows "\<exists>j k'. write_loop buf (int n) k = Some (buf + of_nat j, int (n - j), k') \<and> j \<le> n \<and> n - j \<le> 256 \<and>
           shown Q (map (\<lambda>i. ram (mach k) (P i)) [0..<j]) k k'"
  using assms
proof (induction n arbitrary: buf P k rule: less_induct)
  case (less n)
  show ?case
  proof (cases "n > 256")
    case False
    then have "\<not> int n > 256" by simp
    then have "write_loop buf (int n) k = Some (buf, int n, k)" by (simp only: write_loop.simps if_False)
    then show ?thesis using False shown_refl [of Q k] by (intro exI [of _ 0] exI [of _ k]) simp
  next
    case True
    have "P ` {..<256} \<subseteq> P ` {..<n}" using True by (intro image_mono) auto
    then have "write_ready k buf 256 P Q"
      using less.prems True mapped_take [of "mach k" buf n P 256] unfolding write_ready_def by simp blast
    then obtain k1 where k1: "write_part buf 256 k = Some (256, k1)"
        "shown Q (map (\<lambda>i. ram (mach k) (P i)) [0..<256]) k k1"
      using write_part_shows [of k buf 256 P Q] by auto
    note nx = write_ready_next [OF less.prems k1(2), of 256]
    have "write_ready k1 (buf + 256) (n - 256) (\<lambda>i. P (256 + i)) Q" using nx(1) True by simp
    then obtain j k' where k': "write_loop (buf + 256) (int (n - 256)) k1 =
          Some (buf + 256 + of_nat j, int (n - 256 - j), k')" "j \<le> n - 256" "n - 256 - j \<le> 256"
        "shown Q (map (\<lambda>i. ram (mach k1) (P (256 + i))) [0..<j]) k1 k'"
      using less.IH [of "n - 256"] True by fastforce
    have "write_loop buf (int n) k = Some (buf + of_nat (256 + j), int (n - (256 + j)), k')"
      using True k1(1) k'(1) by (subst write_loop.simps) (simp add: of_nat_diff add.assoc)
    moreover have "map (\<lambda>i. ram (mach k) (P i)) [0..<256 + j] =
        map (\<lambda>i. ram (mach k) (P i)) [0..<256] @ map (\<lambda>i. ram (mach k1) (P (256 + i))) [0..<j]"
      using nx(2) True k'(2) by (simp add: map_upt_split [of 256 "256 + j"] del: upt_Suc)
    ultimately show ?thesis
      using shown_trans [OF k1(2) k'(4)] True k'(2,3) by (intro exI [of _ "256 + j"] exI [of _ k']) simp
  qed
qed

lemma sys_write_shows:
  assumes w: "write_ready k buf n P Q" and ok: "buf \<noteq> 0" "access_ok VERIFY_READ buf (of_nat n) \<noteq> 0"
  shows "\<exists>k'. sys_write 1 buf (int n) k = Some (int n, k') \<and> shown Q (map (\<lambda>i. ram (mach k) (P i)) [0..<n]) k k'"
proof -
  obtain j k1 where k1: "write_loop buf (int n) k = Some (buf + of_nat j, int (n - j), k1)"
      "j \<le> n" "n - j \<le> 256" "shown Q (map (\<lambda>i. ram (mach k) (P i)) [0..<j]) k k1"
    using write_loop_shows [OF w] by blast
  note nx = write_ready_next [OF w k1(4,2)]
  obtain k2 where k2: "write_part (buf + of_nat j) (int (n - j)) k1 = Some (int (n - j), k2)"
      "shown Q (map (\<lambda>i. ram (mach k1) (P (j + i))) [0..<n - j]) k1 k2"
    using write_part_shows [OF nx(1) k1(3)] by blast
  have "sys_write 1 buf (int n) k = Some (int n, k2)"
    using k1(1) k2(1) ok by (simp add: sys_write_def check_fd_def)
  moreover have "map (\<lambda>i. ram (mach k1) (P (j + i))) [0..<n - j] = map (\<lambda>i. ram (mach k) (P (j + i))) [0..<n - j]"
    using nx(2) by simp
  then have "shown Q (map (\<lambda>i. ram (mach k) (P i)) [0..<n]) k k2"
    using shown_trans [OF k1(4) k2(2)] map_upt_split [OF k1(2), of "\<lambda>i. ram (mach k) (P i)"] by (simp only:)
  ultimately show ?thesis by blast
qed

section \<open>Property\<close>

text \<open>
  C28. \<open>sys_write\<close> to the screen of any number of bytes from a readable buffer shows all of them, in order, and
  returns their number, whatever the number of blocks of 256 it takes; it changes the screen and the
  kernel's own buffer and nothing else, not even the user's bytes.
\<close>

theorem write_shows_buffer:
  assumes "buf \<noteq> 0" and "access_ok VERIFY_READ buf (of_nat n) \<noteq> 0"
    and "mapped (mach k) buf n P" and "mapped (mach k) (buffer_sys k) 256 Q" and "inj_on Q {..<256}"
    and "P ` {..<n} \<inter> Q ` {..<256} = {}"
  shows "\<exists>k' r. sys_write 1 buf (int n) k = Some (int n, k') \<and>
     k' = k\<lparr>mach := (mach k)\<lparr>ram := r\<rparr>,
            scr := fold printc (map (\<lambda>i. ram (mach k) (P i)) [0..<n]) (scr k)\<rparr> \<and>
     (\<forall>a. a \<notin> Q ` {..<256} \<longrightarrow> r a = ram (mach k) a)"
proof -
  have "write_ready k buf n P Q" using assms by (simp add: write_ready_def)
  from sys_write_shows [OF this assms(1,2)] show ?thesis by (auto simp: shown_def)
qed

text \<open>The user pages of process 1 of the small system.\<close>

lemma demo_mapped_user:
  assumes "0x800000 \<le> a" and "a + n \<le> 0x81C000"
  shows "mapped (mach demo_kernel) (of_nat a) n (\<lambda>i. a - 0x800000 + 530 * 4096 + i)"
  unfolding mapped_def
proof (intro allI impI)
  fix i assume "i < n"
  then have "unat (of_nat a + of_nat i :: dword) = a + i"
    using assms by (simp add: unat_of_nat flip: of_nat_add)
  then show "translate (mach demo_kernel) (of_nat a + of_nat i) = Some (a - 0x800000 + 530 * 4096 + i)"
    using demo_translate(2) [of "of_nat a + of_nat i"] \<open>i < n\<close> assms by simp
qed

lemma demo_mapped_kernel:
  assumes "a + n \<le> 0x400000"
  shows "mapped (mach demo_kernel) (of_nat a) n (\<lambda>i. a + i)"
  unfolding mapped_def
proof (intro allI impI)
  fix i assume "i < n"
  then have "unat (of_nat a + of_nat i :: dword) = a + i"
    using assms by (simp add: unat_of_nat flip: of_nat_add)
  then show "translate (mach demo_kernel) (of_nat a + of_nat i) = Some (a + i)"
    using demo_translate(1) [of "of_nat a + of_nat i"] \<open>i < n\<close> assms by simp
qed

theorem write_shows_buffer_witness:
  "\<exists>k'. sys_write 1 0x801000 300 demo_kernel = Some (300, k') \<and>
     port_log (scr k') = port_log (scr demo_kernel) @ map (\<lambda>i. ram (mach demo_kernel) (0x213000 + i)) [0..<300]"
proof -
  have a: "access_ok VERIFY_READ 0x801000 (of_nat 300) \<noteq> 0" by (simp add: access_ok_pages)
  have P: "mapped (mach demo_kernel) 0x801000 300 (\<lambda>i. 0x213000 + i)"
    using demo_mapped_user [of "0x801000" 300] by simp
  have Q: "mapped (mach demo_kernel) (buffer_sys demo_kernel) 256 (\<lambda>i. 0x20000 + i)"
    using demo_mapped_kernel [of "0x20000" 256] by simp
  have "(\<lambda>i. 0x213000 + i) ` {..<300} \<inter> (\<lambda>i. 0x20000 + i) ` {..<256::nat} = {}" by auto
  then show ?thesis
    using write_shows_buffer [OF _ a P Q] by (fastforce simp: inj_on_def port_log_fold)
qed

end
