(* ===== verification/Memory_Map.thy ===== *)
theory Memory_Map
  imports Process
begin

text \<open>
  The invariant of the memory of the kernel between two entries: which frame holds what. \<open>frame_of\<close> gives the
  frame of each use, \<open>in_use\<close> the uses of a set \<open>L\<close> of live processes, of which \<open>i\<close> is the idle process;
  \<open>mem_ok\<close> says that no two uses share a frame, that no frame in use is free, and that every
  process sees the kernel's tables, its own data and the code pages \<open>cf\<close> all processes share. It is
  what justifies keeping page tables, PCBs and bytes apart in the model of memory.
\<close>

section \<open>The frames in use\<close>

datatype frame_use =
    Use_pcb nat | Use_dir nat | Use_user_table nat | Use_data nat nat | Use_code nat
  | Use_kernel_table | Use_kernel_table2

fun frame_of :: "kernel \<Rightarrow> (nat \<Rightarrow> nat) \<Rightarrow> frame_use \<Rightarrow> nat" where
  "frame_of k cf (Use_pcb p) = p"
| "frame_of k cf (Use_dir p) = get_DIR k p"
| "frame_of k cf (Use_user_table p) = user_table k p"
| "frame_of k cf (Use_data p j) = get_frame (table k (user_table k p)) j"
| "frame_of k cf (Use_code j) = cf j"
| "frame_of k cf Use_kernel_table = the (kernel_page_table k)"
| "frame_of k cf Use_kernel_table2 = the (kernel_page_table2 k)"

fun in_use :: "nat set \<Rightarrow> nat \<Rightarrow> frame_use \<Rightarrow> bool" where
  "in_use L i (Use_pcb p) = (p \<in> L)"
| "in_use L i (Use_dir p) = (p \<in> L)"
| "in_use L i (Use_user_table p) = (p \<in> L \<and> p \<noteq> i)"
| "in_use L i (Use_data p j) = (p \<in> L \<and> p \<noteq> i \<and> j < NUM_PAG_DATA)"
| "in_use L i (Use_code j) = (j < NUM_PAG_CODE)"
| "in_use L i Use_kernel_table = True"
| "in_use L i Use_kernel_table2 = True"

definition user_tables :: "kernel \<Rightarrow> nat set \<Rightarrow> nat \<Rightarrow> nat set" where
  "user_tables k L i = user_table k ` (L - {i})"

text \<open>The page tables every process has, and the kernel's own pages.\<close>

definition sees_kernel :: "kernel \<Rightarrow> nat \<Rightarrow> bool" where
  "sees_kernel k p \<longleftrightarrow>
     present (table k (get_DIR k p)) 0 \<and>
     get_frame (table k (get_DIR k p)) 0 = the (kernel_page_table k) \<and>
     present (table k (get_DIR k p)) 1 \<and>
     get_frame (table k (get_DIR k p)) 1 = the (kernel_page_table2 k)"

definition sees_user :: "kernel \<Rightarrow> (nat \<Rightarrow> nat) \<Rightarrow> nat \<Rightarrow> bool" where
  "sees_user k cf p \<longleftrightarrow>
     present (table k (get_DIR k p)) 2 \<and>
     (\<forall>j<NUM_PAG_DATA + NUM_PAG_CODE. present (table k (user_table k p)) j) \<and>
     (\<forall>j<NUM_PAG_CODE. get_frame (table k (user_table k p)) (NUM_PAG_DATA + j) = cf j)"

definition kernel_mapped :: "kernel \<Rightarrow> bool" where
  "kernel_mapped k \<longleftrightarrow>
     kernel_page_table k \<noteq> None \<and> kernel_page_table2 k \<noteq> None \<and>
     (\<forall>f. first_kernel (frames k) \<le> f \<longrightarrow> f < last_kernel (frames k) \<longrightarrow>
        present (table k (the (kernel_page_table k))) f \<and>
        get_frame (table k (the (kernel_page_table k))) f = f) \<and>
     first_kernel (frames k) * PAGE_SIZE \<le> unat (buffer_sys k) \<and>
     unat (buffer_sys k) + 256 \<le> last_kernel (frames k) * PAGE_SIZE \<and>
     last_kernel (frames k) \<le> 512"

definition frames_apart :: "kernel \<Rightarrow> nat set \<Rightarrow> nat \<Rightarrow> (nat \<Rightarrow> nat) \<Rightarrow> bool" where
  "frames_apart k L i cf \<longleftrightarrow>
     inj_on (frame_of k cf) {u. in_use L i u} \<and>
     (\<forall>u. in_use L i u \<longrightarrow> last_kernel (frames k) \<le> frame_of k cf u \<and> frame_of k cf u < TOTAL_PAGES \<and>
        frame_of k cf u \<notin> free_frames (frames k)) \<and>
     (\<forall>s<NUM_SHARED_PAGES. \<forall>u. in_use L i u \<longrightarrow> shared_frames k s \<noteq> int (frame_of k cf u)) \<and>
     (\<forall>s<NUM_SHARED_PAGES. 0 \<le> shared_frames k s \<longrightarrow> int (last_kernel (frames k)) \<le> shared_frames k s)"

definition mem_base :: "kernel \<Rightarrow> nat set \<Rightarrow> nat \<Rightarrow> (nat \<Rightarrow> nat) \<Rightarrow> bool" where
  "mem_base k L i cf \<longleftrightarrow>
     finite L \<and> i \<in> L \<and> current k \<in> L \<and> frames_ok (frames k) \<and> paging (mach k) \<and>
     cr3 (mach k) = get_DIR k (current k) \<and> kernel_mapped k \<and> frames_apart k L i cf \<and>
     (\<forall>p\<in>L. sees_kernel k p) \<and> (\<forall>p\<in>L - {i}. sees_user k cf p)"

definition mem_ok :: "kernel \<Rightarrow> nat set \<Rightarrow> nat \<Rightarrow> (nat \<Rightarrow> nat) \<Rightarrow> bool" where
  "mem_ok k L i cf \<longleftrightarrow> mem_base k L i cf \<and> shm_ok k (user_tables k L i)"

lemma mem_baseD:
  assumes "mem_base k L i cf"
  shows "finite L" "i \<in> L" "current k \<in> L" "frames_ok (frames k)" "paging (mach k)"
    "cr3 (mach k) = get_DIR k (current k)" "kernel_mapped k" "frames_apart k L i cf"
    "p \<in> L \<Longrightarrow> sees_kernel k p" "p \<in> L \<Longrightarrow> p \<noteq> i \<Longrightarrow> sees_user k cf p"
  using assms by (simp_all add: mem_base_def)

lemma mem_okD:
  assumes "mem_ok k L i cf"
  shows "finite L" "i \<in> L" "current k \<in> L" "frames_ok (frames k)" "paging (mach k)"
    "cr3 (mach k) = get_DIR k (current k)" "kernel_mapped k" "frames_apart k L i cf"
    "p \<in> L \<Longrightarrow> sees_kernel k p" "p \<in> L \<Longrightarrow> p \<noteq> i \<Longrightarrow> sees_user k cf p"
    "shm_ok k (user_tables k L i)" "mem_base k L i cf"
  using assms by (simp_all add: mem_ok_def mem_base_def)

lemma frames_apartD:
  assumes "frames_apart k L i cf"
  shows "in_use L i u \<Longrightarrow> in_use L i w \<Longrightarrow> frame_of k cf u = frame_of k cf w \<Longrightarrow> u = w"
    and "in_use L i u \<Longrightarrow> frame_of k cf u < TOTAL_PAGES"
    and "in_use L i u \<Longrightarrow> frame_of k cf u \<notin> free_frames (frames k)"
    and "s < 10 \<Longrightarrow> in_use L i u \<Longrightarrow> shared_frames k s \<noteq> int (frame_of k cf u)"
    and "in_use L i u \<Longrightarrow> last_kernel (frames k) \<le> frame_of k cf u"
    and "s < 10 \<Longrightarrow> 0 \<le> shared_frames k s \<Longrightarrow> int (last_kernel (frames k)) \<le> shared_frames k s"
  using assms by (simp_all add: frames_apart_def inj_on_def)

text \<open>The tables of different kinds are apart.\<close>

lemma tables_apart:
  assumes "frames_apart k L i cf" and "p \<in> L"
  shows "get_DIR k p \<noteq> the (kernel_page_table k)" "get_DIR k p \<noteq> the (kernel_page_table2 k)"
    and "q \<in> L \<Longrightarrow> q \<noteq> i \<Longrightarrow> get_DIR k p \<noteq> user_table k q"
    and "q \<in> L \<Longrightarrow> p \<noteq> q \<Longrightarrow> get_DIR k p \<noteq> get_DIR k q"
    and "p \<noteq> i \<Longrightarrow> user_table k p \<noteq> the (kernel_page_table k)"
    and "p \<noteq> i \<Longrightarrow> user_table k p \<noteq> the (kernel_page_table2 k)"
    and "p \<noteq> i \<Longrightarrow> q \<in> L \<Longrightarrow> q \<noteq> i \<Longrightarrow> p \<noteq> q \<Longrightarrow> user_table k p \<noteq> user_table k q"
    and "the (kernel_page_table k) \<noteq> the (kernel_page_table2 k)"
  using frames_apartD(1) [OF assms(1), of "Use_dir p"] frames_apartD(1) [OF assms(1), of "Use_user_table p"]
    frames_apartD(1) [OF assms(1), of Use_kernel_table Use_kernel_table2] assms(2)
  by (force, force, force, force, force, force, force, force)

section \<open>Keeping the invariant\<close>

text \<open>The frames no process owns: those that can be allocated and those of the shared pages.\<close>

definition pool :: "kernel \<Rightarrow> nat set" where
  "pool k = allocatable (frames k) \<union> {f. \<exists>s<NUM_SHARED_PAGES. shared_frames k s = int f}"

lemma pool_apart:
  assumes "frames_apart k L i cf"
  shows "in_use L i u \<Longrightarrow> frame_of k cf u \<notin> pool k" and "f \<in> pool k \<Longrightarrow> last_kernel (frames k) \<le> f"
  using frames_apartD(3,4,6) [OF assms] by (fastforce simp: pool_def allocatable_def)+

text \<open>
  Tables change at most in what nobody relies on; processes may end, which frees the frames of their uses. A new process
  is the case of \<open>mem_base_insert\<close> below.
\<close>

lemma mem_base_shrink:
  assumes ok: "mem_base k M i cf" and L: "L \<subseteq> M" "i \<in> L"
    and dir: "\<And>p. p \<in> L \<Longrightarrow> get_DIR k' p = get_DIR k p" and cur: "current k' \<in> L"
    and mach: "paging (mach k')" "cr3 (mach k') = get_DIR k (current k')"
    and glob: "kernel_page_table k' = kernel_page_table k" "kernel_page_table2 k' = kernel_page_table2 k"
      "buffer_sys k' = buffer_sys k"
    and fr: "first_kernel (frames k') = first_kernel (frames k)" "last_kernel (frames k') = last_kernel (frames k)"
      "frames_ok (frames k')"
    and td: "\<And>p j. p \<in> L \<Longrightarrow> j < 3 \<Longrightarrow> table k' (get_DIR k p) j = table k (get_DIR k p) j"
    and tu: "\<And>p j. p \<in> L \<Longrightarrow> p \<noteq> i \<Longrightarrow> j < 28 \<Longrightarrow>
               table k' (user_table k p) j = table k (user_table k p) j"
    and tk: "\<And>j. j < last_kernel (frames k) \<Longrightarrow>
               table k' (the (kernel_page_table k)) j = table k (the (kernel_page_table k)) j"
    and pool: "pool k' \<subseteq> pool k \<union> frame_of k cf ` {u. in_use M i u \<and> \<not> in_use L i u}"
  shows "mem_base k' L i cf" and "user_tables k' L i = user_tables k L i"
    and "\<And>u. in_use L i u \<Longrightarrow> frame_of k' cf u = frame_of k cf u"
proof -
  note d = mem_baseD [OF ok]
  have LM: "p \<in> M" if "p \<in> L" for p using L(1) that by blast
  have use: "in_use M i u" if "in_use L i u" for u using that LM by (cases u) auto
  have td': "get_frame (table k' (get_DIR k p)) j = get_frame (table k (get_DIR k p)) j"
    "present (table k' (get_DIR k p)) j = present (table k (get_DIR k p)) j" if "p \<in> L" "j < 3" for p j
    using td [OF that] by (simp_all add: get_frame_def present_def)
  have tu': "get_frame (table k' (user_table k p)) j = get_frame (table k (user_table k p)) j"
    "present (table k' (user_table k p)) j = present (table k (user_table k p)) j"
    if "p \<in> L" "p \<noteq> i" "j < 28" for p j
    using tu [OF that] by (simp_all add: get_frame_def present_def)
  have tk': "get_frame (table k' (the (kernel_page_table k))) j = get_frame (table k (the (kernel_page_table k))) j"
    "present (table k' (the (kernel_page_table k))) j = present (table k (the (kernel_page_table k))) j"
    if "j < last_kernel (frames k)" for j
    using tk [OF that] by (simp_all add: get_frame_def present_def)
  have ut: "user_table k' p = user_table k p" if "p \<in> L" for p
    using td' [OF that, of 2] dir [OF that] by (simp add: user_table_def)
  show fo: "frame_of k' cf u = frame_of k cf u" if "in_use L i u" for u
    using that dir ut tu' by (cases u) (auto simp: glob)
  note pa = pool_apart [OF d(8)]
  have out: "frame_of k cf u \<notin> pool k'" if "in_use L i u" for u
  proof -
    have "frame_of k cf u \<noteq> frame_of k cf w" if "in_use M i w" "\<not> in_use L i w" for w
      using frames_apartD(1) [OF d(8) use [OF \<open>in_use L i u\<close>] that(1)] that(2) \<open>in_use L i u\<close> by auto
    then show ?thesis using pa(1) [OF use [OF that]] pool by blast
  qed
  have shared: "shared_frames k' s \<noteq> int (frame_of k cf u)" if "s < 10" "in_use L i u" for s u
    using out [OF that(2)] that(1) by (auto simp: pool_def)
  have low: "int (last_kernel (frames k)) \<le> shared_frames k' s" if "s < 10" "0 \<le> shared_frames k' s" for s
  proof -
    have "shared_frames k' s = int (nat (shared_frames k' s))" using that(2) by simp
    then have "nat (shared_frames k' s) \<in> pool k'" using that(1) unfolding pool_def by blast
    then have "nat (shared_frames k' s) \<in> pool k \<or> (\<exists>w. in_use M i w \<and> nat (shared_frames k' s) = frame_of k cf w)"
      using pool by blast
    then have "last_kernel (frames k) \<le> nat (shared_frames k' s)" using pa(2) frames_apartD(5) [OF d(8)] by metis
    then show ?thesis using that(2) by (simp add: le_nat_iff)
  qed
  have free: "frame_of k cf u \<notin> free_frames (frames k')" if "in_use L i u" for u
    using out [OF that] frames_apartD(5) [OF d(8) use [OF that]] fr(2) by (auto simp: pool_def allocatable_def)
  have "frames_apart k' L i cf"
    unfolding frames_apart_def
  proof (intro conjI allI impI)
    have "inj_on (frame_of k cf) {u. in_use L i u}"
      using frames_apartD(1) [OF d(8) use use] by (simp add: inj_on_def)
    then show "inj_on (frame_of k' cf) {u. in_use L i u}"
      by (rule inj_on_cong [THEN iffD1, rotated]) (simp add: fo)
  qed (use fo free shared low frames_apartD(2,5) [OF d(8) use] in \<open>simp_all add: fr\<close>)
  moreover have "kernel_mapped k'"
    using d(7) tk' unfolding kernel_mapped_def glob fr by simp
  moreover have "sees_kernel k' p" if "p \<in> L" for p
    using d(9) [OF LM [OF that]] dir [OF that] td' [OF that]
    by (simp add: sees_kernel_def glob)
  moreover have "sees_user k' cf p" if p: "p \<in> L" "p \<noteq> i" for p
    using d(10) [OF LM [OF p(1)] p(2)] dir [OF p(1)] td' [OF p(1)] tu' [OF p] ut [OF p(1)]
    by (simp add: sees_user_def)
  ultimately show "mem_base k' L i cf"
    using finite_subset [OF L(1) d(1)] L(2) cur mach fr(3) dir [OF cur] by (simp add: mem_base_def)
  show "user_tables k' L i = user_tables k L i" using ut by (simp add: user_tables_def)
qed

lemma mem_base_keep:
  assumes ok: "mem_base k L i cf"
    and "\<And>p. p \<in> L \<Longrightarrow> get_DIR k' p = get_DIR k p" and "current k' \<in> L"
    and "paging (mach k')" and "cr3 (mach k') = get_DIR k (current k')"
    and "kernel_page_table k' = kernel_page_table k" and "kernel_page_table2 k' = kernel_page_table2 k"
    and "buffer_sys k' = buffer_sys k"
    and "first_kernel (frames k') = first_kernel (frames k)" and "last_kernel (frames k') = last_kernel (frames k)"
    and "frames_ok (frames k')"
    and "\<And>p j. p \<in> L \<Longrightarrow> j < 3 \<Longrightarrow> table k' (get_DIR k p) j = table k (get_DIR k p) j"
    and "\<And>p j. p \<in> L \<Longrightarrow> p \<noteq> i \<Longrightarrow> j < 28 \<Longrightarrow> table k' (user_table k p) j = table k (user_table k p) j"
    and "\<And>j. j < last_kernel (frames k) \<Longrightarrow>
               table k' (the (kernel_page_table k)) j = table k (the (kernel_page_table k)) j"
    and "pool k' \<subseteq> pool k"
  shows "mem_base k' L i cf" and "user_tables k' L i = user_tables k L i"
    and "\<And>u. in_use L i u \<Longrightarrow> frame_of k' cf u = frame_of k cf u"
proof -
  have p: "pool k' \<subseteq> pool k \<union> frame_of k cf ` {u. in_use L i u \<and> \<not> in_use L i u}" using assms(15) by blast
  note k = mem_base_shrink [OF ok subset_refl mem_baseD(2) [OF ok] assms(2-14) p]
  show "mem_base k' L i cf" "user_tables k' L i = user_tables k L i"
    "\<And>u. in_use L i u \<Longrightarrow> frame_of k' cf u = frame_of k cf u"
    by (rule k; assumption)+
qed

text \<open>Steps that touch no table, frame or shared page; another process may run.\<close>

lemma mem_ok_run:
  assumes ok: "mem_ok k L i cf"
    and same: "\<And>p. p \<in> L \<Longrightarrow> get_DIR k' p = get_DIR k p" "table k' = table k" "frames k' = frames k"
      "kernel_page_table k' = kernel_page_table k" "kernel_page_table2 k' = kernel_page_table2 k"
      "buffer_sys k' = buffer_sys k" "shared_frames k' = shared_frames k" "shared_refs k' = shared_refs k"
      "shared_marked_rm k' = shared_marked_rm k"
    and run: "current k' \<in> L" "paging (mach k')" "cr3 (mach k') = get_DIR k (current k')"
  shows "mem_ok k' L i cf"
proof -
  have "shm_ok k' (user_tables k L i)"
    by (rule shm_ok_same [OF mem_okD(11) [OF ok]])
      (simp_all add: same shared_frame_used [OF mem_okD(11) [OF ok]])
  moreover have "mem_base k' L i cf" "user_tables k' L i = user_tables k L i"
    by (rule mem_base_keep [OF mem_okD(12) [OF ok]];
        use assms mem_okD(4) [OF ok] in \<open>simp add: pool_def\<close>)+
  ultimately show ?thesis by (simp add: mem_ok_def)
qed

text \<open>A new process: its frames are apart from those in use.\<close>

lemma in_use_insert:
  "in_use (insert c L) i u \<longleftrightarrow> in_use L i u \<or> u = Use_pcb c \<or> u = Use_dir c \<or>
     c \<noteq> i \<and> (u = Use_user_table c \<or> (\<exists>j<20. u = Use_data c j))"
  by (cases u) auto

lemma mem_base_insert:
  assumes ok: "mem_base k L i cf" and c: "c \<notin> L"
    and fs: "length fs = 20" "\<And>j. j < 20 \<Longrightarrow> get_frame (table k (user_table k c)) j = fs ! j"
    and dist: "distinct (c # get_DIR k c # user_table k c # fs)"
    and new: "\<And>f. f \<in> set (c # get_DIR k c # user_table k c # fs) \<Longrightarrow>
        (\<forall>u. in_use L i u \<longrightarrow> frame_of k cf u \<noteq> f) \<and> last_kernel (frames k) \<le> f \<and> f < TOTAL_PAGES \<and>
        f \<notin> free_frames (frames k) \<and> (\<forall>s<10. shared_frames k s \<noteq> int f)"
    and sees: "sees_kernel k c" "sees_user k cf c"
  shows "mem_base k (insert c L) i cf"
proof -
  note d = mem_baseD [OF ok]
  note fa = frames_apartD [OF d(8)]
  have ci: "c \<noteq> i" using c d(2) by auto
  let ?N = "set (c # get_DIR k c # user_table k c # fs)"
  have nf: "frame_of k cf u \<in> ?N" if "in_use (insert c L) i u" "\<not> in_use L i u" for u
    using that ci fs by (auto simp: in_use_insert)
  have nn: "u = w" if u: "in_use (insert c L) i u" "\<not> in_use L i u" and w: "in_use (insert c L) i w" "\<not> in_use L i w"
    and e: "frame_of k cf u = frame_of k cf w" for u w
  proof -
    have data: "frame_of k cf (Use_data c j) = fs ! j" "fs ! j \<in> set fs" if "j < 20" for j
      using fs that by simp_all
    have "fs ! j = fs ! j' \<Longrightarrow> j = j'" if "j < 20" "j' < 20" for j j'
      using dist fs(1) that by (simp add: nth_eq_iff_index_eq)
    then show ?thesis
      using u w e dist data by (auto simp: in_use_insert) metis+
  qed
  have "frames_apart k (insert c L) i cf"
    unfolding frames_apart_def
  proof (intro conjI allI impI)
    show "inj_on (frame_of k cf) {u. in_use (insert c L) i u}"
    proof (rule inj_onI, simp only: mem_Collect_eq)
      fix u w assume a: "in_use (insert c L) i u" "in_use (insert c L) i w" "frame_of k cf u = frame_of k cf w"
      consider "in_use L i u" "in_use L i w" | "in_use L i u" "\<not> in_use L i w" | "\<not> in_use L i u" "in_use L i w"
        | "\<not> in_use L i u" "\<not> in_use L i w" by blast
      then show "u = w"
      proof cases
        case 1
        then show ?thesis using fa(1) a(3) by blast
      next
        case 2
        then show ?thesis using new [OF nf [OF a(2)]] a(3) by metis
      next
        case 3
        then show ?thesis using new [OF nf [OF a(1)]] a(3) by metis
      next
        case 4
        then show ?thesis using nn a by blast
      qed
    qed
  next
    fix u assume a: "in_use (insert c L) i u"
    show "last_kernel (frames k) \<le> frame_of k cf u" "frame_of k cf u < TOTAL_PAGES"
      "frame_of k cf u \<notin> free_frames (frames k)"
      using fa(2,3,5) [of u] new [OF nf [OF a]] by blast+
  next
    fix s u assume a: "s < NUM_SHARED_PAGES" "in_use (insert c L) i u"
    show "shared_frames k s \<noteq> int (frame_of k cf u)"
      using fa(4) [OF a(1), of u] new [OF nf [OF a(2)]] a(1) by blast
  next
    fix s assume "s < NUM_SHARED_PAGES" "0 \<le> shared_frames k s"
    then show "int (last_kernel (frames k)) \<le> shared_frames k s" by (rule fa(6))
  qed
  then show ?thesis using d sees ci unfolding mem_base_def by auto
qed

section \<open>Changes confined to free frames\<close>

lemma allocatableD:
  "f \<in> allocatable m \<Longrightarrow> f \<in> free_frames m" "f \<in> allocatable m \<Longrightarrow> f < TOTAL_PAGES"
  "f \<in> allocatable m \<Longrightarrow> last_kernel m \<le> f"
  by (simp_all add: allocatable_def free_frames_def)

text \<open>What a routine that deals with memory leaves alone.\<close>

definition rest_same :: "kernel \<Rightarrow> kernel \<Rightarrow> bool" where
  "rest_same k k' \<longleftrightarrow> k' = k\<lparr>frames := frames k', mach := mach k', links := links k', tasks := tasks k',
     shared_refs := shared_refs k'\<rparr>"

lemma rest_sameI:
  "k' = k\<lparr>frames := f, mach := m, links := l, tasks := t, shared_refs := r\<rparr> \<Longrightarrow> rest_same k k'"
  by (simp add: rest_same_def)

lemma rest_sameE:
  assumes "rest_same k k'"
  obtains f m l t r where "k' = k\<lparr>frames := f, mach := m, links := l, tasks := t, shared_refs := r\<rparr>"
  using assms unfolding rest_same_def by blast

lemma rest_sameD:
  assumes "rest_same k k'"
  shows "scr k' = scr k" "kbd_st k' = kbd_st k" "current k' = current k" "idle_task k' = idle_task k"
    "init_task k' = init_task k" "kernel_page_table k' = kernel_page_table k"
    "kernel_page_table2 k' = kernel_page_table2 k" "remaining_quantum k' = remaining_quantum k"
    "pidGlobal k' = pidGlobal k" "zeos_ticks k' = zeos_ticks k" "shared_frames k' = shared_frames k"
    "shared_marked_rm k' = shared_marked_rm k" "tss k' = tss k" "msr k' = msr k" "buffer_sys k' = buffer_sys k"
  using assms by (elim rest_sameE; simp)+

lemma rest_same_trans: "rest_same k k' \<Longrightarrow> rest_same k' k'' \<Longrightarrow> rest_same k k''"
  by (elim rest_sameE) (rule rest_sameI, simp)

text \<open>\<open>k'\<close> differs from \<open>k\<close> in PCBs, list nodes, the frame map, and tables in frames \<open>N\<close> that were free.\<close>

definition confined :: "nat set \<Rightarrow> kernel \<Rightarrow> kernel \<Rightarrow> bool" where
  "confined N k k' \<longleftrightarrow>
     rest_same k k' \<and> shared_refs k' = shared_refs k \<and> ram (mach k') = ram (mach k) \<and>
     cr3 (mach k') = cr3 (mach k) \<and> cr0 (mach k') = cr0 (mach k) \<and> N \<subseteq> allocatable (frames k) \<and>
     free_frames (frames k') \<subseteq> free_frames (frames k) \<and> first_kernel (frames k') = first_kernel (frames k) \<and>
     last_kernel (frames k') = last_kernel (frames k) \<and> frames_ok (frames k') \<and>
     (\<forall>g. g \<notin> N \<longrightarrow> g \<noteq> the (kernel_page_table k) \<longrightarrow> g \<noteq> the (kernel_page_table2 k) \<longrightarrow> table k' g = table k g) \<and>
     (\<forall>j. j \<notin> N \<longrightarrow> table k' (the (kernel_page_table k)) j = table k (the (kernel_page_table k)) j)"

lemma confinedD:
  assumes "confined N k k'"
  shows "rest_same k k'" "shared_refs k' = shared_refs k" "ram (mach k') = ram (mach k)"
    "cr3 (mach k') = cr3 (mach k)" "cr0 (mach k') = cr0 (mach k)" "N \<subseteq> allocatable (frames k)"
    "free_frames (frames k') \<subseteq> free_frames (frames k)" "first_kernel (frames k') = first_kernel (frames k)"
    "last_kernel (frames k') = last_kernel (frames k)" "frames_ok (frames k')"
    "g \<notin> N \<Longrightarrow> g \<noteq> the (kernel_page_table k) \<Longrightarrow> g \<noteq> the (kernel_page_table2 k) \<Longrightarrow> table k' g = table k g"
    "j \<notin> N \<Longrightarrow> table k' (the (kernel_page_table k)) j = table k (the (kernel_page_table k)) j"
  using assms by (simp_all add: confined_def)

lemma first_kernel_free: "first_kernel (free_frame f m) = first_kernel m"
  by (simp add: free_frame_def)

lemma confined_trans:
  assumes a: "confined M k k'" and b: "confined N k' k''"
  shows "confined (M \<union> N) k k''"
proof -
  note x = confinedD [OF a] and y = confinedD [OF b]
  note s = rest_sameD(6,7) [OF x(1)]
  have "N \<subseteq> allocatable (frames k)" using y(6) x(7,9) by (auto simp: allocatable_def)
  then show ?thesis
    using x y rest_same_trans [OF x(1) y(1)] unfolding confined_def s by auto
qed

lemma confined_frames:
  assumes "confined N k k'" and "free_frames m \<subseteq> free_frames (frames k)" and "frames_ok m"
    and "first_kernel m = first_kernel (frames k')" and "last_kernel m = last_kernel (frames k')"
  shows "confined N k (k'\<lparr>frames := m\<rparr>)"
proof -
  have "rest_same k (k'\<lparr>frames := m\<rparr>)"
    using rest_same_trans [OF confinedD(1) [OF assms(1)], of "k'\<lparr>frames := m\<rparr>"] by (simp add: rest_same_def)
  then show ?thesis using assms by (simp add: confined_def)
qed

lemma confined_free:
  assumes "confined N k k'" and "f \<in> free_frames (frames k)"
  shows "confined N k (kernel_free_frame f k')"
    and "free_frames (frames (kernel_free_frame f k')) = insert f (free_frames (frames k'))"
proof -
  have f: "f < 2048" using assms(2) by (simp add: free_frames_def)
  have "confined N k (k'\<lparr>frames := free_frame f (frames k')\<rparr>)"
    by (rule confined_frames [OF assms(1)])
      (use f assms confinedD(7,10) [OF assms(1)] frames_ok_free in \<open>auto simp: first_kernel_free\<close>)
  then show "confined N k (kernel_free_frame f k')" by (simp add: kernel_free_frame_def)
  show "free_frames (frames (kernel_free_frame f k')) = insert f (free_frames (frames k'))"
    using f by (simp add: kernel_free_frame_def)
qed

lemma confined_other:
  assumes "confined N k k'"
  shows "confined N k (k'\<lparr>links := h\<rparr>)" and "confined N k (k'\<lparr>tasks := t\<rparr>)"
    and "confined N k (k'\<lparr>links := h, tasks := t\<rparr>)"
proof -
  have "rest_same k (k'\<lparr>links := h, tasks := t\<rparr>)" for h t
    using rest_same_trans [OF confinedD(1) [OF assms], of "k'\<lparr>links := h, tasks := t\<rparr>"] by (simp add: rest_same_def)
  from this [of t h] this [of "tasks k'" h] this [of t "links k'"]
  show "confined N k (k'\<lparr>links := h\<rparr>)" "confined N k (k'\<lparr>tasks := t\<rparr>)"
    "confined N k (k'\<lparr>links := h, tasks := t\<rparr>)"
    using assms by (simp_all add: confined_def)
qed

lemma confined_table:
  assumes "confined N k k'" and "u \<in> N" and "u \<noteq> the (kernel_page_table k)"
    and "\<And>g. g \<noteq> u \<Longrightarrow> T g = table k' g"
  shows "confined N k (k'\<lparr>mach := (mach k')\<lparr>tables := T\<rparr>\<rparr>)"
proof -
  have "rest_same k (k'\<lparr>mach := (mach k')\<lparr>tables := T\<rparr>\<rparr>)"
    using rest_same_trans [OF confinedD(1) [OF assms(1)], of "k'\<lparr>mach := (mach k')\<lparr>tables := T\<rparr>\<rparr>"]
    by (simp add: rest_same_def)
  moreover have "table (k'\<lparr>mach := (mach k')\<lparr>tables := T\<rparr>\<rparr>) = T" by (simp add: table_def fun_eq_iff)
  moreover have "g \<notin> N \<Longrightarrow> T g = table k' g" for g using assms(2,4) by metis
  ultimately show ?thesis using assms(1-3) assms(4) [of "the (kernel_page_table k)"] by (simp add: confined_def)
qed

lemma mem_ok_confined:
  assumes ok: "mem_ok k L i cf" and g: "confined N k k'" and dir: "\<And>p. p \<in> L \<Longrightarrow> get_DIR k' p = get_DIR k p"
  shows "mem_ok k' L i cf" and "user_tables k' L i = user_tables k L i"
    and "\<And>p. p \<in> L \<Longrightarrow> user_table k' p = user_table k p"
    and "\<And>p. p \<in> L \<Longrightarrow> p \<noteq> i \<Longrightarrow> table k' (user_table k p) = table k (user_table k p)"
    and "\<And>u. in_use L i u \<Longrightarrow> frame_of k' cf u = frame_of k cf u"
proof -
  note d = mem_okD [OF ok]
  note fa = frames_apartD [OF d(8)]
  note cd = confinedD [OF g]
  note rs = rest_sameD [OF cd(1)]
  have uf: "frame_of k cf u \<notin> N" if "in_use L i u" for u
    using fa(3) [OF that] cd(6) allocatableD(1) by blast
  have dn: "get_DIR k p \<notin> N" if "p \<in> L" for p using uf [of "Use_dir p"] that by simp
  have un: "user_table k p \<notin> N" if "p \<in> L" "p \<noteq> i" for p using uf [of "Use_user_table p"] that by simp
  have dt: "table k' (get_DIR k p) = table k (get_DIR k p)" if "p \<in> L" for p
    by (rule cd(11) [OF dn [OF that] tables_apart(1,2) [OF d(8) that]])
  show ut: "table k' (user_table k p) = table k (user_table k p)" if "p \<in> L" "p \<noteq> i" for p
    by (rule cd(11) [OF un [OF that] tables_apart(5,6) [OF d(8) that]])
  have kt: "table k' (the (kernel_page_table k)) j = table k (the (kernel_page_table k)) j"
    if "j < last_kernel (frames k)" for j
    using cd(6) that allocatableD(3) [of j "frames k"] by (intro cd(12)) auto
  have b: "mem_base k' L i cf" "user_tables k' L i = user_tables k L i"
    "\<And>u. in_use L i u \<Longrightarrow> frame_of k' cf u = frame_of k cf u"
    by (rule mem_base_keep [OF d(12)]; use cd rs d dt ut kt dir in \<open>auto simp: paging_def pool_def allocatable_def\<close>)+
  have "shm_ok k' (user_tables k L i)"
  proof (rule shm_ok_same [OF d(11)])
    fix u assume "u \<in> user_tables k L i"
    then show "table k' u = table k u" using ut by (auto simp: user_tables_def)
  qed (use cd(2,7) rs shared_frame_used [OF d(11)] in auto)
  then show "mem_ok k' L i cf" "user_tables k' L i = user_tables k L i"
    "\<And>u. in_use L i u \<Longrightarrow> frame_of k' cf u = frame_of k cf u"
    using b by (simp_all add: mem_ok_def)
  show "\<And>p. p \<in> L \<Longrightarrow> user_table k' p = user_table k p"
    using dir dt by (simp add: user_table_def)
qed

section \<open>Addresses\<close>

lemma user_page_frame:
  assumes ok: "mem_ok k L i cf" and cur: "current k \<noteq> i" and j: "j < 28"
  shows "page_frame (mach k) (2048 + j) = Some (get_frame (table k (user_table k (current k))) j)"
proof -
  note d = mem_okD [OF ok]
  have s: "sees_user k cf (current k)" by (rule d(10) [OF d(3) cur])
  have q: "(2048 + j) div 1024 = 2" "(2048 + j) mod 1024 = j"
    using j mod_mult_self3 [of 2 1024 j] by simp_all
  show ?thesis
    using s j d(6) unfolding page_frame_def q by (simp add: sees_user_def user_table_def table_def Let_def)
qed

lemma user_range_mapped:
  assumes ok: "mem_ok k L i cf" and cur: "current k \<noteq> i"
    and a: "0x800000 \<le> unat a" "unat a + n \<le> 0x81C000"
  shows "mapped (mach k) a n (\<lambda>x. get_frame (table k (user_table k (current k)))
           ((unat a + x) div 4096 - 2048) * 4096 + (unat a + x) mod 4096)"
  unfolding mapped_def
proof (intro allI impI)
  fix x assume x: "x < n"
  let ?j = "(unat a + x) div 4096 - 2048" and ?o = "(unat a + x) mod 4096"
  have "2048 \<le> (unat a + x) div 4096" using a(1) by simp
  moreover have "(unat a + x) div 4096 < 0x81C" using a(2) x by simp
  ultimately have j: "?j < 28" "2048 + ?j = (unat a + x) div 4096" by simp_all
  have e: "a + of_nat x = of_nat ((2048 + ?j) * 4096 + ?o)"
    unfolding j(2) by simp
  show "translate (mach k) (a + of_nat x) =
      Some (get_frame (table k (user_table k (current k))) ?j * 4096 + ?o)"
    unfolding e using translate_page [OF mem_okD(5) [OF ok], of "2048 + ?j" ?o]
      user_page_frame [OF ok cur j(1)] j by simp
qed

lemma kernel_page_frame:
  assumes ok: "mem_ok k L i cf" and f: "first_kernel (frames k) \<le> f" "f < last_kernel (frames k)"
  shows "page_frame (mach k) f = Some f"
proof -
  note d = mem_okD [OF ok]
  have "f < 512" using d(7) f by (simp add: kernel_mapped_def)
  then have q: "f div 1024 = 0" "f mod 1024 = f" by simp_all
  have "present (table k (the (kernel_page_table k))) f \<and> get_frame (table k (the (kernel_page_table k))) f = f"
    using d(7) f by (simp add: kernel_mapped_def)
  then show ?thesis
    using d(9) [OF d(3)] d(6) unfolding page_frame_def q by (simp add: sees_kernel_def table_def Let_def)
qed

lemma kernel_range_mapped:
  assumes ok: "mem_ok k L i cf" and a: "first_kernel (frames k) * 4096 \<le> unat a" "unat a + n \<le> last_kernel (frames k) * 4096"
  shows "mapped (mach k) a n (\<lambda>x. unat a + x)"
  unfolding mapped_def
proof (intro allI impI)
  fix x assume x: "x < n"
  let ?a = "unat a + x"
  have b: "first_kernel (frames k) * 4096 \<le> ?a" "?a < last_kernel (frames k) * 4096" "last_kernel (frames k) \<le> 512"
    using mem_okD(7) [OF ok] a x by (simp_all add: kernel_mapped_def)
  have f: "first_kernel (frames k) \<le> ?a div 4096" "?a div 4096 < last_kernel (frames k)"
    using b by (simp_all add: less_eq_div_iff_mult_less_eq div_less_iff_less_mult)
  have e: "a + of_nat x = of_nat (?a div 4096 * 4096 + ?a mod 4096)" by simp
  show "translate (mach k) (a + of_nat x) = Some ?a"
    unfolding e using translate_page [OF mem_okD(5) [OF ok], of "?a div 4096" "?a mod 4096"]
      kernel_page_frame [OF ok f] f b by simp
qed

lemma buffer_mapped:
  assumes ok: "mem_ok k L i cf"
  shows "mapped (mach k) (buffer_sys k) 256 (\<lambda>x. unat (buffer_sys k) + x)"
  by (rule kernel_range_mapped [OF ok]) (use mem_okD(7) [OF ok] in \<open>simp_all add: kernel_mapped_def\<close>)

end
