(* ===== verification/Invariant.thy ===== *)
theory Invariant
  imports Memory_Map
begin

text \<open>
  \<open>kernel_ok k v cf\<close>, the invariant of the whole kernel between two entries: \<open>procs_ok\<close>, the invariants of
  the scheduler, the families, the list of all tasks, the keyboard buffer and the screen, the stack for the next entry,
  and where each waiting process will continue; and \<open>mem_ok\<close>, that of the memory. \<open>v\<close> are the abstract queues and \<open>cf\<close> the frames of the
  code that all processes share.
\<close>

section \<open>Families of rings under changes elsewhere\<close>

lemma fam_cong:
  assumes f: "fam ring h F" and same: "\<And>a. \<not> fresh F a \<Longrightarrow> nxt h' a = nxt h a \<and> prv h' a = prv h a"
  shows "fam ring h' F"
proof (rule famI)
  fix q xs assume q: "F q = Some xs"
  have "ring h' q xs = ring h q xs"
    by (rule ring_cong, rule same) (use q in \<open>auto simp: fresh_def\<close>)
  then show "ring h' q xs" using fam_rep [OF f q] by simp
qed (rule fam_disjoint [OF f])

lemma fam_init:
  assumes f: "fam ring h F" and n: "fresh F n"
  shows "fam ring (INIT_LIST_HEAD n h) (F(n \<mapsto> []))"
proof (rule fam_upd [OF f])
  show "ring (INIT_LIST_HEAD n h) n []" by (simp add: ring_def INIT_LIST_HEAD_def)
  fix q xs assume q: "F q = Some xs" "q \<noteq> n"
  have "n \<notin> set (q # xs)" by (rule freshD [OF n q(1)])
  moreover have "ring (INIT_LIST_HEAD n h) q xs = ring h q xs"
    by (rule ring_cong) (use \<open>n \<notin> set (q # xs)\<close> in \<open>auto simp: INIT_LIST_HEAD_def\<close>)
  ultimately show "ring (INIT_LIST_HEAD n h) q xs" "set (n # []) \<inter> set (q # xs) = {}"
    using fam_rep [OF f q(1)] by simp_all
qed

section \<open>The list of all tasks\<close>

text \<open>
  \<open>sys_fork\<close> copies the parent's node over the child's, so this list is no ring once a process has been
  created; but its nodes point to nodes of the list, which is what adding to it and deleting from it need, and
  the other nodes do not, so that no other operation disturbs it.
\<close>

definition task_nodes :: "knode set" where
  "task_nodes = insert List_tasks (range At_task_list)"

definition tasks_linked :: "knode list_heap \<Rightarrow> nat set \<Rightarrow> bool" where
  "tasks_linked h L \<longleftrightarrow>
     (\<forall>n \<in> insert List_tasks (At_task_list ` L). nxt h n \<in> Some ` task_nodes \<and> prv h n \<in> Some ` task_nodes) \<and>
     (\<forall>n. n \<notin> task_nodes \<longrightarrow> nxt h n \<notin> Some ` task_nodes \<and> prv h n \<notin> Some ` task_nodes)"

lemma task_nodes_iff: "n \<in> task_nodes \<longleftrightarrow> n = List_tasks \<or> (\<exists>p. n = At_task_list p)"
  by (auto simp: task_nodes_def)

lemma tasks_linkedD:
  assumes "tasks_linked h L" and "n = List_tasks \<or> (\<exists>p\<in>L. n = At_task_list p)"
  obtains a b where "nxt h n = Some a" and "prv h n = Some b" and "a \<in> task_nodes" and "b \<in> task_nodes"
  using assms unfolding tasks_linked_def by blast

lemma tasks_linked_mono: "tasks_linked h L \<Longrightarrow> M \<subseteq> L \<Longrightarrow> tasks_linked h M"
  unfolding tasks_linked_def by auto

lemma tasks_add:
  assumes "tasks_linked h L"
  obtains h' where "list_add_tail (At_task_list c) List_tasks h = Some h'" and "tasks_linked h' (insert c L)"
    and "\<And>n. n \<notin> task_nodes \<Longrightarrow> nxt h' n = nxt h n \<and> prv h' n = prv h n"
proof -
  obtain b where b: "prv h List_tasks = Some b" "b \<in> task_nodes"
    using tasks_linkedD [OF assms, of List_tasks] by blast
  let ?h = "h\<lparr>nxt := (nxt h)(At_task_list c := Some List_tasks, b := Some (At_task_list c)),
              prv := (prv h)(List_tasks := Some (At_task_list c), At_task_list c := Some b)\<rparr>"
  have "list_add_tail (At_task_list c) List_tasks h = Some ?h"
    by (simp add: list_add_tail_def list_add_raw_def b(1))
  moreover have "tasks_linked ?h (insert c L)"
    using assms b(2) unfolding tasks_linked_def by (auto simp: task_nodes_iff)
  moreover have "nxt ?h n = nxt h n \<and> prv ?h n = prv h n" if "n \<notin> task_nodes" for n
    using that b(2) by (auto simp: task_nodes_iff)
  ultimately show ?thesis using that by blast
qed

lemma tasks_del:
  assumes "tasks_linked h L" and "c \<in> L"
  obtains h' where "list_del (At_task_list c) h = Some h'" and "tasks_linked h' (L - {c})"
    and "\<And>n. n \<notin> task_nodes \<Longrightarrow> nxt h' n = nxt h n \<and> prv h' n = prv h n"
proof -
  obtain a b where ab: "nxt h (At_task_list c) = Some a" "prv h (At_task_list c) = Some b"
      "a \<in> task_nodes" "b \<in> task_nodes"
    using tasks_linkedD [OF assms(1), of "At_task_list c"] assms(2) by blast
  let ?h = "h\<lparr>nxt := (nxt h)(b := Some a, At_task_list c := None),
              prv := (prv h)(a := Some b, At_task_list c := None)\<rparr>"
  have "list_del (At_task_list c) h = Some ?h"
    by (simp add: list_del_def list_del_raw_def ab(1,2))
  moreover have "tasks_linked ?h (L - {c})"
    using assms(1) ab(3,4) unfolding tasks_linked_def by (auto simp: task_nodes_iff)
  moreover have "nxt ?h n = nxt h n \<and> prv ?h n = prv h n" if "n \<notin> task_nodes" for n
    using that ab(3,4) by (auto simp: task_nodes_iff)
  ultimately show ?thesis using that by blast
qed

text \<open>The operations on other lists.\<close>

lemma tasks_other:
  assumes "tasks_linked h L" and "n \<notin> task_nodes" and "q \<notin> task_nodes"
  shows "list_add_tail n q h = Some h' \<Longrightarrow> tasks_linked h' L"
    and "list_del n h = Some h' \<Longrightarrow> tasks_linked h' L"
    and "tasks_linked (INIT_LIST_HEAD n h) L"
proof -
  have out: "prv h q \<notin> Some ` task_nodes" "prv h n \<notin> Some ` task_nodes" "nxt h n \<notin> Some ` task_nodes"
    using assms by (simp_all add: tasks_linked_def)
  show "tasks_linked h' L" if a: "list_add_tail n q h = Some h'"
  proof -
    obtain b where b: "prv h q = Some b" using a by (cases "prv h q") (auto simp: list_add_tail_def list_add_raw_def)
    then have "b \<notin> task_nodes" using out(1) by auto
    moreover have "h' = h\<lparr>nxt := (nxt h)(n := Some q, b := Some n), prv := (prv h)(q := Some n, n := Some b)\<rparr>"
      using a b by (auto simp: list_add_tail_def list_add_raw_def)
    ultimately show ?thesis using assms unfolding tasks_linked_def by (auto simp: task_nodes_iff)
  qed
  show "tasks_linked h' L" if d: "list_del n h = Some h'"
  proof -
    obtain a b where b: "nxt h n = Some a" "prv h n = Some b"
      using d by (cases "nxt h n"; cases "prv h n") (auto simp: list_del_def list_del_raw_def)
    then have "a \<notin> task_nodes" "b \<notin> task_nodes" using out by auto
    moreover have "h' = h\<lparr>nxt := (nxt h)(b := Some a, n := None), prv := (prv h)(a := Some b, n := None)\<rparr>"
      using d b by (auto simp: list_del_def list_del_raw_def)
    ultimately show ?thesis using assms unfolding tasks_linked_def by (auto simp: task_nodes_iff)
  qed
  show "tasks_linked (INIT_LIST_HEAD n h) L"
    using assms unfolding tasks_linked_def by (auto simp: INIT_LIST_HEAD_def task_nodes_iff)
qed

lemma no_task_node [simp]:
  "At_list p \<notin> task_nodes" "At_sibiling p \<notin> task_nodes" "At_children_blocked p \<notin> task_nodes"
  "At_children_unblocked p \<notin> task_nodes" "Readyqueue \<notin> task_nodes" "Blocked \<notin> task_nodes" "Kbd_blocked \<notin> task_nodes"
  by (simp_all add: task_nodes_iff)

section \<open>The invariant\<close>

text \<open>The children lists belong to the live processes and hold live processes.\<close>

definition lists_closed :: "queues \<Rightarrow> nat set \<Rightarrow> bool" where
  "lists_closed v L \<longleftrightarrow>
     (\<forall>p. children_blocked v p \<noteq> None \<longleftrightarrow> p \<in> L) \<and> (\<forall>p. children_unblocked v p \<noteq> None \<longleftrightarrow> p \<in> L) \<and>
     (\<forall>p xs. children_blocked v p = Some xs \<longrightarrow> set xs \<subseteq> L) \<and>
     (\<forall>p xs. children_unblocked v p = Some xs \<longrightarrow> set xs \<subseteq> L)"

text \<open>A user buffer inside the pages of the user image.\<close>

definition user_range :: "dword \<Rightarrow> int \<Rightarrow> bool" where
  "user_range a n \<longleftrightarrow> 0 \<le> n \<and> 0x800000 \<le> unat a \<and> int (unat a) + n \<le> 0x81C000"

text \<open>Where the processes that do not run will continue.\<close>

definition resumes_ok :: "kernel \<Rightarrow> queues \<Rightarrow> bool" where
  "resumes_ok k v \<longleftrightarrow>
     (\<forall>p\<in>set (blocked v). resume (tasks k p) = Sys_block) \<and>
     (\<forall>p\<in>set (kbd_blocked v). \<exists>b n. resume (tasks k p) = Sys_read b n) \<and>
     (\<forall>p\<in>all_tasks k v. p \<noteq> current k \<longrightarrow> resume (tasks k p) \<noteq> Sys_exit) \<and>
     (\<forall>p\<in>all_tasks k v. \<forall>b n. p \<noteq> current k \<longrightarrow> resume (tasks k p) = Sys_read b n \<longrightarrow>
        idle_task k \<noteq> Some p \<and> 0 < n \<and> n \<le> 256 \<and> user_range b n)"

text \<open>The next entry into the kernel uses the stack of the running process.\<close>

definition stack_ok :: "kernel \<Rightarrow> bool" where
  "stack_ok k \<longleftrightarrow> esp0 (tss k) = KERNEL_ESP (current k) \<and> msr k 0x175 = KERNEL_ESP (current k)"

definition procs_ok :: "kernel \<Rightarrow> queues \<Rightarrow> bool" where
  "procs_ok k v \<longleftrightarrow>
     sched_ok k v \<and> family_ok k v \<and>
     lists_closed v (all_tasks k v) \<and> tasks_linked (links k) (all_tasks k v) \<and>
     (\<forall>p\<in>all_tasks k v. PID (tasks k p) \<le> pidGlobal k) \<and> resumes_ok k v \<and>
     kbd_ok (kbd_st k) \<and> screen_ok (scr k) \<and> stack_ok k"

definition kernel_ok :: "kernel \<Rightarrow> queues \<Rightarrow> (nat \<Rightarrow> nat) \<Rightarrow> bool" where
  "kernel_ok k v cf \<longleftrightarrow> procs_ok k v \<and> mem_ok k (all_tasks k v) (the (idle_task k)) cf"

text \<open>The frames in use stay where they are.\<close>

definition frames_kept :: "kernel \<Rightarrow> kernel \<Rightarrow> queues \<Rightarrow> (nat \<Rightarrow> nat) \<Rightarrow> bool" where
  "frames_kept k k' v cf \<longleftrightarrow> idle_task k' = idle_task k \<and>
     (\<forall>u. in_use (all_tasks k v) (the (idle_task k)) u \<longrightarrow> frame_of k' cf u = frame_of k cf u)"

lemma frame_of_cong:
  assumes "table k' = table k" and "\<And>p. get_DIR k' p = get_DIR k p"
    and "kernel_page_table k' = kernel_page_table k" and "kernel_page_table2 k' = kernel_page_table2 k"
  shows "frame_of k' cf u = frame_of k cf u"
  using assms by (cases u) (simp_all add: user_table_def)

lemma procs_okD:
  assumes "procs_ok k v"
  shows "sched_ok k v" "family_ok k v" "lists_closed v (all_tasks k v)" "tasks_linked (links k) (all_tasks k v)"
    "p \<in> all_tasks k v \<Longrightarrow> PID (tasks k p) \<le> pidGlobal k" "resumes_ok k v" "kbd_ok (kbd_st k)" "screen_ok (scr k)"
    "stack_ok k"
  using assms by (simp_all add: procs_ok_def)

lemma kernel_okD:
  assumes "kernel_ok k v cf"
  shows "sched_ok k v" "family_ok k v" "mem_ok k (all_tasks k v) (the (idle_task k)) cf"
    "lists_closed v (all_tasks k v)" "tasks_linked (links k) (all_tasks k v)"
    "p \<in> all_tasks k v \<Longrightarrow> PID (tasks k p) \<le> pidGlobal k" "resumes_ok k v" "kbd_ok (kbd_st k)" "screen_ok (scr k)" "procs_ok k v" "stack_ok k"
  using assms by (simp_all add: kernel_ok_def procs_ok_def)

lemma sched_ok_idle: "sched_ok k v \<Longrightarrow> idle_task k = Some (the (idle_task k))"
  by (auto simp: sched_ok_def idle_ok_def)

lemma idle_in_all: "sched_ok k v \<Longrightarrow> the (idle_task k) \<in> all_tasks k v"
  by (auto simp: sched_ok_def idle_ok_def all_tasks_def)

lemma current_in_all [simp]: "current k \<in> all_tasks k v"
  by (simp add: all_tasks_def)

lemma fresh_knode:
  assumes "lists_closed v L" and "set (ready v) \<subseteq> L" and "set (blocked v) \<subseteq> L" and "set (kbd_blocked v) \<subseteq> L"
  shows "c \<notin> L \<Longrightarrow> n \<in> {At_list c, At_children_blocked c, At_children_unblocked c, At_sibiling c} \<Longrightarrow>
      fresh (ring_map v) n"
    and "n \<in> task_nodes \<Longrightarrow> fresh (ring_map v) n"
proof -
  have q: "n \<notin> set (q # xs)"
    if "ring_map v q = Some xs" "c \<notin> L" "n \<in> {At_list c, At_children_blocked c, At_children_unblocked c, At_sibiling c}" for q xs
    using assms that unfolding lists_closed_def by (cases q) fastforce+
  show "fresh (ring_map v) n" if "c \<notin> L"
      "n \<in> {At_list c, At_children_blocked c, At_children_unblocked c, At_sibiling c}"
    unfolding fresh_def using q that by blast
  have q: "n \<notin> set (q # xs)" if "ring_map v q = Some xs" "n \<in> task_nodes" for q xs
    using that by (cases q) (auto simp: task_nodes_iff)
  show "fresh (ring_map v) n" if "n \<in> task_nodes"
    unfolding fresh_def using q that by blast
qed

section \<open>Changes the processes do not see\<close>

definition pcb_nodes :: "nat \<Rightarrow> knode set" where
  "pcb_nodes c = {At_list c, At_children_blocked c, At_children_unblocked c, At_sibiling c}"

lemma sched_ok_cong:
  assumes ok: "sched_ok k v" and rep: "queues_rep (links k') v" and rest: "current k' = current k" "idle_task k' = idle_task k"
    and same: "\<And>p. p \<in> all_tasks k v \<Longrightarrow> loose (links k') p = loose (links k) p"
      "\<And>p. p \<in> all_tasks k v \<Longrightarrow> PID (tasks k' p) = PID (tasks k p)"
  shows "sched_ok k' v"
proof -
  have all: "all_tasks k' v = all_tasks k v" by (simp add: all_tasks_def rest)
  have "pids_ok k' (all_tasks k v)"
    using ok same(2) unfolding sched_ok_def pids_ok_def inj_on_def by metis
  moreover have "idle_ok k' v (the (idle_task k))"
    using ok same(1) [OF idle_in_all [OF ok]] by (auto simp: sched_ok_def idle_ok_def rest)
  moreover have "loose (links k') (current k')"
    using ok same(1) [OF current_in_all] by (simp add: sched_ok_def rest)
  ultimately show ?thesis using rep unfolding sched_ok_def all by blast
qed

lemma family_ok_cong:
  assumes f: "family_ok k v" and c: "lists_closed v (all_tasks k v)" and b: "set (blocked v) \<subseteq> all_tasks k v"
    and all: "all_tasks k' v = all_tasks k v"
    and same: "\<And>p. p \<in> all_tasks k v \<Longrightarrow> parent (tasks k' p) = parent (tasks k p)"
  shows "family_ok k' v"
proof -
  have m: "x \<in> all_tasks k v"
    if "children_blocked v p = Some xs \<or> children_unblocked v p = Some xs" "x \<in> set xs" for p xs x
    using c that unfolding lists_closed_def by blast
  show ?thesis
    unfolding family_ok_def all
  proof (intro conjI allI impI ballI)
    fix p xs x assume x: "children_blocked v p = Some xs" "x \<in> set xs"
    then have "x \<in> all_tasks k v" using m by blast
    then show "parent (tasks k' x) = Some p" "x \<in> set (blocked v)" using family_okD(1) [OF f x] same by simp_all
  next
    fix p xs x assume x: "children_unblocked v p = Some xs" "x \<in> set xs"
    then have "x \<in> all_tasks k v" using m by blast
    then show "parent (tasks k' x) = Some p" "x \<notin> set (blocked v)" using family_okD(2) [OF f x] same by simp_all
  next
    fix p assume p: "p \<in> all_tasks k v"
    show "children_blocked v p \<noteq> None" by (rule family_okD(3) [OF f p])
    show "children_unblocked v p \<noteq> None" by (rule family_okD(4) [OF f p])
  next
    fix x p assume x: "x \<in> all_tasks k v" "parent (tasks k' x) = Some p"
    then show "\<exists>cb cu. children_blocked v p = Some cb \<and> children_unblocked v p = Some cu \<and> x \<in> set cb \<union> set cu"
      using family_okD(5) [OF f x(1)] same [OF x(1)] by simp
  qed
qed

lemma resumes_ok_cong:
  assumes ok: "resumes_ok k v" and b: "set (blocked v) \<subseteq> all_tasks k v" "set (kbd_blocked v) \<subseteq> all_tasks k v"
    and rest: "all_tasks k' v = all_tasks k v" "current k' = current k" "idle_task k' = idle_task k"
    and same: "\<And>p. p \<in> all_tasks k v \<Longrightarrow> resume (tasks k' p) = resume (tasks k p)"
  shows "resumes_ok k' v"
  unfolding resumes_ok_def rest
proof (intro conjI ballI allI impI)
  note r = ok [unfolded resumes_ok_def]
  show "resume (tasks k' p) = Sys_block" if "p \<in> set (blocked v)" for p
    using r same b(1) that by auto
  show "\<exists>b n. resume (tasks k' p) = Sys_read b n" if "p \<in> set (kbd_blocked v)" for p
    using r same b(2) that by auto
  fix p assume p: "p \<in> all_tasks k v" "p \<noteq> current k"
  show "resume (tasks k' p) \<noteq> Sys_exit" using r same p by simp
  fix a n assume "resume (tasks k' p) = Sys_read a n"
  then have "resume (tasks k p) = Sys_read a n" using same [OF p(1)] by simp
  then show "idle_task k \<noteq> Some p" "0 < n" "n \<le> 256" "user_range a n" using r p by blast+
qed

lemma procs_ok_unseen:
  assumes ok: "procs_ok k v" and c: "c \<notin> all_tasks k v"
    and links: "\<And>n. n \<notin> task_nodes \<Longrightarrow> n \<notin> pcb_nodes c \<Longrightarrow>
           nxt (links k') n = nxt (links k) n \<and> prv (links k') n = prv (links k) n"
    and tl: "tasks_linked (links k') (all_tasks k v)"
    and tasks: "\<And>p. p \<noteq> c \<Longrightarrow> PID (tasks k' p) = PID (tasks k p) \<and> parent (tasks k' p) = parent (tasks k p) \<and>
           resume (tasks k' p) = resume (tasks k p)"
    and rest: "current k' = current k" "idle_task k' = idle_task k" "pidGlobal k \<le> pidGlobal k'"
      "kbd_st k' = kbd_st k" "scr k' = scr k" "tss k' = tss k" "msr k' = msr k"
  shows "procs_ok k' v" and "all_tasks k' v = all_tasks k v"
proof -
  note d = procs_okD [OF ok]
  have L: "set (ready v) \<subseteq> all_tasks k v" "set (blocked v) \<subseteq> all_tasks k v" "set (kbd_blocked v) \<subseteq> all_tasks k v"
    by (auto simp: all_tasks_def)
  note fr = fresh_knode [OF d(3) L]
  show all: "all_tasks k' v = all_tasks k v" by (simp add: all_tasks_def rest)
  have rep: "queues_rep (links k') v"
    unfolding queues_rep_def
  proof (rule fam_cong [of "links k"])
    show "fam ring (links k) (ring_map v)" using d(1) by (simp add: sched_ok_def queues_rep_def)
    show "nxt (links k') n = nxt (links k) n \<and> prv (links k') n = prv (links k) n" if "\<not> fresh (ring_map v) n" for n
      using links [of n] fr(1) [OF c, of n] fr(2) [of n] that by (auto simp: pcb_nodes_def)
  qed
  have ne: "p \<noteq> c" if "p \<in> all_tasks k v" for p using that c by auto
  have loose: "loose (links k') p = loose (links k) p" if "p \<in> all_tasks k v" for p
  proof -
    have "At_list p \<notin> task_nodes" "At_list p \<notin> pcb_nodes c"
      using ne [OF that] by (simp_all add: task_nodes_iff pcb_nodes_def)
    then show ?thesis using links [of "At_list p"] by (simp add: detached_def)
  qed
  note i = idle_in_all [OF d(1)]
  have "sched_ok k' v"
    by (rule sched_ok_cong [OF d(1) rep rest(1,2)]) (use loose tasks ne in auto)
  moreover have "family_ok k' v"
    by (rule family_ok_cong [OF d(2,3) L(2) all]) (use tasks ne in auto)
  moreover have "resumes_ok k' v"
    by (rule resumes_ok_cong [OF d(6) L(2,3) all rest(1,2)]) (use tasks ne in auto)
  moreover have "\<forall>p\<in>all_tasks k v. PID (tasks k' p) \<le> pidGlobal k'"
    using d(5) tasks ne rest(3) by (metis order_trans)
  ultimately show "procs_ok k' v"
    using d(3,7-9) tl by (simp add: procs_ok_def stack_ok_def all rest)
qed

section \<open>The small system\<close>

abbreviation demo_live :: "nat set" where
  "demo_live \<equiv> {300..304}"

definition demo_code :: "nat \<Rightarrow> nat" where
  "demo_code j = 550 + j"

lemma demo_live_cases: "p \<in> demo_live \<longleftrightarrow> p = 300 \<or> p = 301 \<or> p = 302 \<or> p = 303 \<or> p = 304"
  by auto

lemma demo_live_eq: "demo_live = {300, 301, 302, 303, 304}"
  by auto

lemma demo_all_tasks: "all_tasks demo_kernel demo_queues = demo_live"
  unfolding demo_live_eq by (auto simp: all_tasks_def demo_queues_def)

lemma demo_table: "table demo_kernel f = demo_tables f"
  by (simp add: table_def demo_kernel_def)

lemma demo_dir [simp]: "get_DIR demo_kernel p = p + 50"
  by (simp add: get_DIR_def demo_task_def)

lemma demo_user_table: "p \<in> demo_live \<Longrightarrow> user_table demo_kernel p = p + 60"
  by (simp add: user_table_def demo_table demo_tables_def get_frame_def)

lemma demo_data_frame:
  assumes "p \<in> demo_live" and "j < 28"
  shows "present (demo_tables (p + 60)) j"
    and "get_frame (demo_tables (p + 60)) j = (if j < 20 then 30 * p - 8500 + j else 530 + j)"
proof -
  have r: "360 \<le> p + 60" "p + 60 < 370" "\<not> (350 \<le> p + 60 \<and> p + 60 < 360)" "500 + 30 * (p + 60 - 360) = 30 * p - 8500"
    using assms(1) by auto
  have "30 * p - 8500 + j < 1048576" using assms by auto
  then show "present (demo_tables (p + 60)) j"
    and "get_frame (demo_tables (p + 60)) j = (if j < 20 then 30 * p - 8500 + j else 530 + j)"
    unfolding demo_tables_def if_not_P [OF r(3)] using r assms(2) by (simp_all add: present_def get_frame_def)
qed

fun demo_frame :: "frame_use \<Rightarrow> nat" where
  "demo_frame (Use_pcb p) = p"
| "demo_frame (Use_dir p) = p + 50"
| "demo_frame (Use_user_table p) = p + 60"
| "demo_frame (Use_data p j) = 500 + 30 * (p - 300) + j"
| "demo_frame (Use_code j) = 550 + j"
| "demo_frame Use_kernel_table = 400"
| "demo_frame Use_kernel_table2 = 401"

lemma demo_frame_of: "in_use demo_live 300 u \<Longrightarrow> frame_of demo_kernel demo_code u = demo_frame u"
proof (cases u)
  case (Use_data p j)
  assume "in_use demo_live 300 u"
  then have p: "p \<in> demo_live" "j < 20" using Use_data by simp_all
  then have "30 * p - 8500 + j = 500 + 30 * (p - 300) + j" unfolding atLeastAtMost_iff by linarith
  then show ?thesis
    using p demo_data_frame(2) [of p j] demo_user_table [OF p(1)] by (simp add: Use_data demo_table)
qed (simp_all add: demo_user_table demo_code_def)

lemma demo_data_inj: "500 + 30 * a + j = 500 + 30 * b + l \<Longrightarrow> j < 20 \<Longrightarrow> l < 20 \<Longrightarrow> a = b \<and> j = (l::nat)"
  by presburger

lemma demo_code_gap: "500 + 30 * a + j = 550 + l \<Longrightarrow> j < 20 \<Longrightarrow> l < 8 \<Longrightarrow> False" for a :: nat
  by presburger

lemma demo_frame_inj:
  assumes "in_use demo_live 300 u" and "in_use demo_live 300 w" and "demo_frame u = demo_frame w"
  shows "u = w"
proof (cases u)
  case (Use_data p j)
  note u = this
  show ?thesis
  proof (cases w)
    case (Use_data q l)
    have pq: "300 \<le> p" "300 \<le> q" "j < 20" "l < 20" using assms(1,2) by (simp_all add: u Use_data)
    then have "p - 300 = q - 300 \<and> j = l"
      using assms(3) demo_data_inj [of "p - 300" j "q - 300" l] by (simp add: u Use_data)
    then have "p = q \<and> j = l" using pq by linarith
    then show ?thesis by (simp add: u Use_data)
  next
    case (Use_code l)
    then show ?thesis using assms demo_code_gap [of "p - 300" j l] by (simp add: u)
  qed (use assms in \<open>simp_all add: u\<close>)
next
  case (Use_code j)
  note u = this
  show ?thesis
  proof (cases w)
    case (Use_data p l)
    then show ?thesis using assms demo_code_gap [of "p - 300" l j] by (simp add: u)
  qed (use assms in \<open>simp_all add: u\<close>)
qed (use assms in \<open>cases w; simp\<close>)+

lemma demo_frames_apart: "frames_apart demo_kernel demo_live 300 demo_code"
  unfolding frames_apart_def
proof (intro conjI allI impI)
  show "inj_on (frame_of demo_kernel demo_code) {u. in_use demo_live 300 u}"
    using demo_frame_inj by (simp add: inj_on_def demo_frame_of)
next
  fix u assume u: "in_use demo_live 300 u"
  have fr: "frames demo_kernel = \<lparr>phys_mem = (\<lambda>i. if 700 \<le> i \<and> i < 1100 then FREE_FRAME else USED_FRAME),
               first_kernel = 16, last_kernel = 290\<rparr>" by (simp add: demo_kernel_def)
  have "290 \<le> frame_of demo_kernel demo_code u \<and> frame_of demo_kernel demo_code u < 700"
    unfolding demo_frame_of [OF u] using u by (cases u) (simp_all, linarith)
  then show "last_kernel (frames demo_kernel) \<le> frame_of demo_kernel demo_code u"
    "frame_of demo_kernel demo_code u < TOTAL_PAGES"
    "frame_of demo_kernel demo_code u \<notin> free_frames (frames demo_kernel)"
    by (simp_all add: fr free_frames_def)
qed simp_all

lemma demo_mem_ok: "mem_ok demo_kernel demo_live 300 demo_code"
proof -
  have fr: "frames demo_kernel = \<lparr>phys_mem = (\<lambda>i. if 700 \<le> i \<and> i < 1100 then FREE_FRAME else USED_FRAME),
               first_kernel = 16, last_kernel = 290\<rparr>" by (simp add: demo_kernel_def)
  have "kernel_mapped demo_kernel"
    by (simp add: kernel_mapped_def fr demo_table demo_tables_def present_def get_frame_def)
  moreover have "frames_ok (frames demo_kernel)" by (simp add: fr frames_ok_def)
  moreover have "paging (mach demo_kernel)" "cr3 (mach demo_kernel) = 351" by (simp_all add: demo_kernel_def paging_def)
  moreover have "sees_kernel demo_kernel p" if "p \<in> demo_live" for p
    using that by (simp add: sees_kernel_def demo_table demo_tables_def present_def get_frame_def)
  moreover have "sees_user demo_kernel demo_code p" if "p \<in> demo_live - {300}" for p
    using that demo_data_frame [of p] demo_user_table [of p]
    by (auto simp: sees_user_def demo_code_def demo_table demo_tables_def present_def)
  ultimately have "mem_base demo_kernel demo_live 300 demo_code"
    using demo_frames_apart by (simp add: mem_base_def)
  moreover have "shm_ok demo_kernel (user_tables demo_kernel demo_live 300)"
  proof (rule shm_okI)
    show "finite (user_tables demo_kernel demo_live 300)" by (simp add: user_tables_def)
    fix u p assume "u \<in> user_tables demo_kernel demo_live 300" "28 \<le> p" "p < 1024" "present (table demo_kernel u) p"
    then show "\<exists>i<10. shared_frames demo_kernel i = int (get_frame (table demo_kernel u) p)"
      by (auto simp: user_tables_def demo_user_table demo_table demo_tables_def present_def)
  qed simp_all
  ultimately show ?thesis by (simp add: mem_ok_def)
qed

lemma demo_tasks_linked: "tasks_linked demo_links demo_live"
  unfolding tasks_linked_def
proof (intro conjI ballI allI impI)
  fix n assume "n \<in> insert List_tasks (At_task_list ` demo_live)"
  then show "nxt demo_links n \<in> Some ` task_nodes" "prv demo_links n \<in> Some ` task_nodes"
    by (auto simp: demo_links_def demo_edges_def task_nodes_iff)
next
  fix n assume "n \<notin> task_nodes"
  then show "nxt demo_links n \<notin> Some ` task_nodes" "prv demo_links n \<notin> Some ` task_nodes"
    by (auto simp: demo_links_def demo_edges_def task_nodes_iff split: if_splits)
qed

lemma demo_kernel_ok: "kernel_ok demo_kernel demo_queues demo_code"
proof -
  have "lists_closed demo_queues demo_live" by (auto simp: lists_closed_def demo_queues_def split: if_splits)
  moreover have "resumes_ok demo_kernel demo_queues"
    unfolding resumes_ok_def demo_all_tasks by (auto simp: demo_queues_def demo_task_def user_range_def)
  moreover have "stack_ok demo_kernel" by (simp add: stack_ok_def demo_kernel_def)
  ultimately show ?thesis
    using demo_sched_ok demo_family_ok demo_mem_ok demo_tasks_linked
    by (auto simp: kernel_ok_def procs_ok_def demo_all_tasks demo_task_def empty_kbd_ok screen_ok_def initial_screen_def)
qed

end
