(* ===== verification/Moves.thy ===== *)
theory Moves
  imports Invariant
begin

text \<open>
  What the scheduler, the blocking calls and the keyboard may change: \<open>moved k k'\<close> allows the list nodes, the
  saved state of processes, the process that runs with its stack and directory, the quantum, the clock and the keyboard
  buffer, and keeps the list of all tasks. Such a change keeps the invariant of the memory; the
  invariants of queues and families are those of theories \<open>Sched\<close> and \<open>Blocking\<close>.
\<close>

section \<open>The relation\<close>

definition moved :: "kernel \<Rightarrow> kernel \<Rightarrow> bool" where
  "moved k k' \<longleftrightarrow>
     (\<exists>h t c q s ms x kb z. k' = k\<lparr>links := h, tasks := t, current := c, remaining_quantum := q, tss := s, msr := ms,
        mach := (mach k)\<lparr>cr3 := x\<rparr>, kbd_st := kb, zeos_ticks := z\<rparr>) \<and>
     (\<forall>p. PID (tasks k' p) = PID (tasks k p) \<and> parent (tasks k' p) = parent (tasks k p) \<and> get_DIR k' p = get_DIR k p) \<and>
     (cr3 (mach k) = get_DIR k (current k) \<longrightarrow> cr3 (mach k') = get_DIR k' (current k')) \<and>
     (stack_ok k \<longrightarrow> stack_ok k') \<and> (\<forall>L. tasks_linked (links k) L \<longrightarrow> tasks_linked (links k') L)"

lemma movedD:
  assumes "moved k k'"
  shows "frames k' = frames k" "table k' = table k" "paging (mach k') = paging (mach k)" "ram (mach k') = ram (mach k)"
    "scr k' = scr k" "idle_task k' = idle_task k" "pidGlobal k' = pidGlobal k"
    "kernel_page_table k' = kernel_page_table k" "kernel_page_table2 k' = kernel_page_table2 k"
    "shared_frames k' = shared_frames k" "shared_refs k' = shared_refs k" "shared_marked_rm k' = shared_marked_rm k"
    "buffer_sys k' = buffer_sys k" "PID (tasks k' p) = PID (tasks k p)" "parent (tasks k' p) = parent (tasks k p)"
    "get_DIR k' p = get_DIR k p" "cr3 (mach k) = get_DIR k (current k) \<Longrightarrow> cr3 (mach k') = get_DIR k' (current k')"
    "stack_ok k \<Longrightarrow> stack_ok k'" "tasks_linked (links k) L \<Longrightarrow> tasks_linked (links k') L"
proof -
  obtain h t c q s ms x kb z where "k' = k\<lparr>links := h, tasks := t, current := c, remaining_quantum := q, tss := s, msr := ms,
        mach := (mach k)\<lparr>cr3 := x\<rparr>, kbd_st := kb, zeos_ticks := z\<rparr>" using assms unfolding moved_def by blast
  then show "frames k' = frames k" "table k' = table k" "paging (mach k') = paging (mach k)" "ram (mach k') = ram (mach k)"
    "scr k' = scr k" "idle_task k' = idle_task k" "pidGlobal k' = pidGlobal k"
    "kernel_page_table k' = kernel_page_table k" "kernel_page_table2 k' = kernel_page_table2 k"
    "shared_frames k' = shared_frames k" "shared_refs k' = shared_refs k" "shared_marked_rm k' = shared_marked_rm k"
    "buffer_sys k' = buffer_sys k"
    by (simp_all add: table_def fun_eq_iff paging_def)
qed (use assms in \<open>simp_all add: moved_def\<close>)

text \<open>Without a switch.\<close>

lemma moved_stay:
  assumes "k' = k\<lparr>links := h, tasks := t, remaining_quantum := q, kbd_st := kb, zeos_ticks := z\<rparr>"
    and "\<And>p. PID (t p) = PID (tasks k p) \<and> parent (t p) = parent (tasks k p) \<and>
           dir_pages_baseAddr (t p) = dir_pages_baseAddr (tasks k p)"
    and "\<And>L. tasks_linked (links k) L \<Longrightarrow> tasks_linked h L"
  shows "moved k k'"
  unfolding moved_def
proof (intro conjI)
  have "k' = k\<lparr>links := h, tasks := t, current := current k, remaining_quantum := q, tss := tss k, msr := msr k,
      mach := (mach k)\<lparr>cr3 := cr3 (mach k)\<rparr>, kbd_st := kb, zeos_ticks := z\<rparr>" by (simp add: assms(1))
  then show "\<exists>h t c q s ms x kb z. k' = k\<lparr>links := h, tasks := t, current := c, remaining_quantum := q, tss := s, msr := ms,
      mach := (mach k)\<lparr>cr3 := x\<rparr>, kbd_st := kb, zeos_ticks := z\<rparr>" by blast
qed (use assms in \<open>simp_all add: get_DIR_def stack_ok_def\<close>)

lemma moved_refl: "moved k k"
  by (rule moved_stay [where h = "links k" and t = "tasks k" and q = "remaining_quantum k" and kb = "kbd_st k"
        and z = "zeos_ticks k"]) simp_all

lemma moved_links: "(\<And>L. tasks_linked (links k) L \<Longrightarrow> tasks_linked h L) \<Longrightarrow> moved k (k\<lparr>links := h\<rparr>)"
  by (rule moved_stay [where h = h and t = "tasks k" and q = "remaining_quantum k" and kb = "kbd_st k"
        and z = "zeos_ticks k"]) simp_all

lemma moved_trans:
  assumes a: "moved k k'" and b: "moved k' k''"
  shows "moved k k''"
proof -
  obtain h t c q s ms x kb z where k': "k' = k\<lparr>links := h, tasks := t, current := c, remaining_quantum := q, tss := s,
      msr := ms, mach := (mach k)\<lparr>cr3 := x\<rparr>, kbd_st := kb, zeos_ticks := z\<rparr>" using a unfolding moved_def by blast
  obtain h' t' c' q' s' ms' x' kb' z' where k'': "k'' = k'\<lparr>links := h', tasks := t', current := c', remaining_quantum := q',
      tss := s', msr := ms', mach := (mach k')\<lparr>cr3 := x'\<rparr>, kbd_st := kb', zeos_ticks := z'\<rparr>"
    using b unfolding moved_def by blast
  have "k'' = k\<lparr>links := h', tasks := t', current := c', remaining_quantum := q',
      tss := s', msr := ms', mach := (mach k)\<lparr>cr3 := x'\<rparr>, kbd_st := kb', zeos_ticks := z'\<rparr>" unfolding k'' k' by simp
  then have "\<exists>h t c q s ms x kb z. k'' = k\<lparr>links := h, tasks := t, current := c, remaining_quantum := q, tss := s, msr := ms,
      mach := (mach k)\<lparr>cr3 := x\<rparr>, kbd_st := kb, zeos_ticks := z\<rparr>" by blast
  then show ?thesis using a b unfolding moved_def by simp
qed

section \<open>The operations\<close>

lemma moved_on_links_del: "on_links (list_del n) k = Some k' \<Longrightarrow> n \<notin> task_nodes \<Longrightarrow> moved k k'"
  using tasks_other(2) [of "links k" _ n n] by (auto dest!: on_links_SomeD intro!: moved_links)

lemma moved_on_links_add:
  "on_links (list_add_tail n q) k = Some k' \<Longrightarrow> n \<notin> task_nodes \<Longrightarrow> q \<notin> task_nodes \<Longrightarrow> moved k k'"
  using tasks_other(1) [of "links k" _ n q] by (auto dest!: on_links_SomeD intro!: moved_links)

lemma on_links_other:
  "on_links f k = Some k' \<Longrightarrow> tasks k' = tasks k \<and> current k' = current k \<and> kbd_st k' = kbd_st k"
  by (auto dest: on_links_SomeD)

lemma moved_update_state:
  assumes "update_process_state_rr t (Some q) k = Some k'" and "q \<notin> task_nodes"
  shows "moved k k'" and "tasks k' = tasks k" and "current k' = current k" and "kbd_st k' = kbd_st k"
proof -
  obtain k1 where k1: "k1 = k \<or> on_links (list_del (At_list t)) k = Some k1"
      "on_links (list_add_tail (At_list t) q) k1 = Some k'"
    using assms(1) by (auto simp: update_process_state_rr_def bind_eq_Some_conv Let_def split: if_splits)
  then show "moved k k'"
    using moved_trans [OF moved_on_links_del moved_on_links_add] moved_on_links_add assms(2) by auto
  show "tasks k' = tasks k" "current k' = current k" "kbd_st k' = kbd_st k"
    using k1 on_links_other by (metis (no_types, lifting))+
qed

text \<open>A switch saves where the old process continues and runs the new one on its stack and directory.\<close>

lemma moved_task_switch: "moved k (task_switch new here k)"
proof (cases "new = current k")
  case True
  then show ?thesis by (simp add: task_switch_def inner_task_switch_def moved_refl)
next
  case False
  let ?k = "task_switch new here k"
  have e: "?k = k\<lparr>links := links k, tasks := (tasks k)(current k := (tasks k (current k))\<lparr>resume := here\<rparr>), current := new,
      remaining_quantum := remaining_quantum k, tss := (tss k)\<lparr>esp0 := KERNEL_ESP new\<rparr>,
      msr := (msr k)(0x175 := KERNEL_ESP new),
      mach := (mach k)\<lparr>cr3 := get_DIR k new\<rparr>, kbd_st := kbd_st k, zeos_ticks := zeos_ticks k\<rparr>"
    using False by (simp add: task_switch_def inner_task_switch_def cambio_pila_def Let_def writeMSR_def set_cr3_def
        upd_task_def get_DIR_def)
  show ?thesis
    unfolding moved_def
  proof (intro conjI)
    show "\<exists>h t c q s ms x kb z. ?k = k\<lparr>links := h, tasks := t, current := c, remaining_quantum := q, tss := s, msr := ms,
      mach := (mach k)\<lparr>cr3 := x\<rparr>, kbd_st := kb, zeos_ticks := z\<rparr>" using e by blast
  qed (unfold e, simp_all add: get_DIR_def stack_ok_def)
qed

lemma task_switch_tasks:
  "current (task_switch new here k) = new \<and> kbd_st (task_switch new here k) = kbd_st k \<and>
   tasks (task_switch new here k) =
     (if new = current k then tasks k else (tasks k)(current k := (tasks k (current k))\<lparr>resume := here\<rparr>))"
  by (simp add: task_switch_def inner_task_switch_def cambio_pila_def Let_def writeMSR_def set_cr3_def upd_task_def)

lemma moved_sched_next:
  assumes "sched_next_rr here k = Some k'"
  shows "moved k k'" and "kbd_st k' = kbd_st k" and "tasks k' =
     (if current k' = current k then tasks k else (tasks k)(current k := (tasks k (current k))\<lparr>resume := here\<rparr>))"
proof -
  obtain k1 new where sel: "(if \<not> list_empty Readyqueue (links k) then do {
                   lf \<leftarrow> list_first Readyqueue (links k);
                   k \<leftarrow> on_links (list_del lf) k;
                   new \<leftarrow> list_head_to_task_struct lf;
                   Some (k, new) }
                 else do { i \<leftarrow> idle_task k; Some (k, i) }) = Some (k1, new)"
      and k1_2: "k' = (let k = k1\<lparr>remaining_quantum := get_quantum k1 new\<rparr>
             in if PID (tasks k (current k)) \<noteq> PID (tasks k new) then task_switch new here k else k)"
    using assms unfolding sched_next_rr_def bind_eq_Some_conv Let_def by auto
  have k1_1: "k1 = k \<or> (\<exists>p. on_links (list_del (At_list p)) k = Some k1)"
    using sel by (auto simp: bind_eq_Some_conv split: if_splits elim!: list_head_to_task_struct.elims)
  have m1: "moved k k1" "tasks k1 = tasks k" "current k1 = current k" "kbd_st k1 = kbd_st k"
    using k1_1 moved_refl moved_on_links_del on_links_other by (metis no_task_node(1))+
  let ?k = "k1\<lparr>remaining_quantum := get_quantum k1 new\<rparr>"
  have m2: "moved k1 ?k"
    by (rule moved_stay [where h = "links k1" and t = "tasks k1" and q = "get_quantum k1 new" and kb = "kbd_st k1"
        and z = "zeos_ticks k1"]) simp_all
  show "moved k k'"
    using moved_trans [OF m1(1) m2] moved_trans [OF moved_trans [OF m1(1) m2] moved_task_switch] k1_2
    by (simp add: Let_def)
  show "kbd_st k' = kbd_st k" "tasks k' =
     (if current k' = current k then tasks k else (tasks k)(current k := (tasks k (current k))\<lparr>resume := here\<rparr>))"
    using k1_2 m1(2-4) task_switch_tasks [of new here ?k] by (auto simp: Let_def split: if_splits)
qed

section \<open>The scheduler and the blocking calls\<close>

lemma moved_quantum: "moved k (k\<lparr>remaining_quantum := q\<rparr>)"
  by (rule moved_stay [where h = "links k" and t = "tasks k" and q = q and kb = "kbd_st k" and z = "zeos_ticks k"]) simp_all

lemma moved_kbd: "moved k (k\<lparr>kbd_st := kb\<rparr>)"
  by (rule moved_stay [where h = "links k" and t = "tasks k" and q = "remaining_quantum k" and kb = kb
        and z = "zeos_ticks k"]) simp_all

lemma moved_upd_task:
  assumes "PID (f (tasks k p)) = PID (tasks k p)" and "parent (f (tasks k p)) = parent (tasks k p)"
    and "dir_pages_baseAddr (f (tasks k p)) = dir_pages_baseAddr (tasks k p)"
  shows "moved k (upd_task p f k)"
  unfolding upd_task_def
  by (rule moved_stay [where h = "links k" and t = "(tasks k)(p := f (tasks k p))" and q = "remaining_quantum k"
        and kb = "kbd_st k" and z = "zeos_ticks k"]) (use assms in simp_all)

lemma moved_schedule:
  assumes "schedule k = Some k'"
  shows "moved k k'" and "kbd_st k' = kbd_st k" and "tasks k' =
     (if current k' = current k then tasks k else (tasks k)(current k := (tasks k (current k))\<lparr>resume := Clock_routine\<rparr>))"
proof -
  let ?k = "update_sched_data_rr k"
  have m: "moved k ?k" by (simp add: update_sched_data_rr_def moved_quantum)
  have s: "tasks ?k = tasks k" "current ?k = current k" "kbd_st ?k = kbd_st k" by (simp_all add: update_sched_data_rr_def)
  have "moved k k' \<and> kbd_st k' = kbd_st k \<and> tasks k' =
     (if current k' = current k then tasks k else (tasks k)(current k := (tasks k (current k))\<lparr>resume := Clock_routine\<rparr>))"
  proof (cases "needs_sched_rr ?k = 0")
    case True
    then show ?thesis using assms m s by (auto simp: schedule_def Let_def)
  next
    case False
    then obtain k1 where k1: "update_process_state_rr (current ?k) (Some Readyqueue) ?k = Some k1"
        "sched_next_rr Clock_routine k1 = Some k'"
      using assms by (auto simp: schedule_def Let_def bind_eq_Some_conv)
    note u = moved_update_state [OF k1(1) no_task_node(5)] and n = moved_sched_next [OF k1(2)]
    show ?thesis using moved_trans [OF moved_trans [OF m u(1)] n(1)] n(2,3) u(2-4) s by simp
  qed
  then show "moved k k'" "kbd_st k' = kbd_st k" "tasks k' =
     (if current k' = current k then tasks k else (tasks k)(current k := (tasks k (current k))\<lparr>resume := Clock_routine\<rparr>))"
    by blast+
qed

lemma moved_leave:
  assumes "update_process_state_rr t (Some q) k = Some k1" and "sched_next_rr here k1 = Some k'" and "q \<notin> task_nodes"
  shows "moved k k'" and "kbd_st k' = kbd_st k"
  using moved_trans [OF moved_update_state(1) [OF assms(1,3)] moved_sched_next(1) [OF assms(2)]]
    moved_sched_next(2) [OF assms(2)] moved_update_state(4) [OF assms(1,3)] by simp_all

lemma moved_sys_block:
  assumes "sys_block k = Some (r, k')"
  shows "moved k k'" and "kbd_st k' = kbd_st k"
proof -
  let ?me = "current k"
  have "moved k k' \<and> kbd_st k' = kbd_st k"
  proof (cases "pending_unblocks (tasks k ?me) > 0")
    case True
    then show ?thesis using assms by (auto simp: sys_block_def Let_def intro!: moved_upd_task)
  next
    case False
    then obtain k1 k2 where k: "(case parent (tasks k ?me) of
               Some q \<Rightarrow> do {
                 k \<leftarrow> on_links (list_del (At_sibiling ?me)) k;
                 on_links (list_add_tail (At_sibiling ?me) (At_children_blocked q)) k }
             | None \<Rightarrow> Some k) = Some k1"
        "update_process_state_rr ?me (Some Blocked) k1 = Some k2" "sched_next_rr Sys_block k2 = Some k'"
      using assms by (auto simp: sys_block_def Let_def bind_eq_Some_conv)
    have "moved k k1 \<and> kbd_st k1 = kbd_st k"
    proof (cases "parent (tasks k ?me)")
      case None
      then show ?thesis using k(1) by (simp add: moved_refl)
    next
      case (Some q)
      then obtain k0 where k0: "on_links (list_del (At_sibiling ?me)) k = Some k0"
          "on_links (list_add_tail (At_sibiling ?me) (At_children_blocked q)) k0 = Some k1"
        using k(1) by (auto simp: bind_eq_Some_conv)
      show ?thesis
        using moved_trans [OF moved_on_links_del [OF k0(1)] moved_on_links_add [OF k0(2)]]
          on_links_other [OF k0(1)] on_links_other [OF k0(2)] by simp
    qed
    then show ?thesis using moved_trans moved_leave [OF k(2,3)] by (metis no_task_node(6))
  qed
  then show "moved k k'" "kbd_st k' = kbd_st k" by simp_all
qed

lemma moved_sys_unblock:
  assumes "sys_unblock pid k = Some (r, k')"
  shows "moved k k'" and "kbd_st k' = kbd_st k" and "current k' = current k"
    and "\<And>p. resume (tasks k' p) = resume (tasks k p)"
proof -
  let ?me = "current k"
  have wake: "moved k k' \<and> kbd_st k' = kbd_st k \<and> current k' = current k \<and> (\<forall>p. resume (tasks k' p) = resume (tasks k p))"
    if "on_links (list_del (At_sibiling c)) k = Some k1"
      "on_links (list_add_tail (At_sibiling c) (At_children_unblocked ?me)) k1 = Some k2"
      "update_process_state_rr c (Some Readyqueue) k2 = Some k'" for c k1 k2
    using moved_trans [OF moved_trans [OF moved_on_links_del [OF that(1)] moved_on_links_add [OF that(2)]]
        moved_update_state(1) [OF that(3)]]
      moved_update_state(2-4) [OF that(3)] on_links_other [OF that(1)] on_links_other [OF that(2)] by simp
  have "moved k k' \<and> kbd_st k' = kbd_st k \<and> current k' = current k \<and> (\<forall>p. resume (tasks k' p) = resume (tasks k p))"
    using assms
    by (auto simp: sys_unblock_def Let_def bind_eq_Some_conv moved_refl split: option.splits
        intro!: moved_upd_task dest: wake)
  then show "moved k k'" "kbd_st k' = kbd_st k" "current k' = current k"
    "\<And>p. resume (tasks k' p) = resume (tasks k p)" by simp_all
qed

section \<open>Keeping the invariant\<close>

lemma kernel_ok_moved:
  assumes ok: "kernel_ok k v cf" and m: "moved k k'"
    and new: "sched_ok k' v'" "family_ok k' v'" "lists_closed v' (all_tasks k v)" "resumes_ok k' v'" "kbd_ok (kbd_st k')"
    and all: "all_tasks k' v' = all_tasks k v"
  shows "kernel_ok k' v' cf"
proof -
  note d = kernel_okD [OF ok] and md = movedD [OF m]
  note mo = mem_okD [OF d(3)]
  have cur: "current k' \<in> all_tasks k v" using current_in_all [of k' v'] by (simp add: all)
  have "mem_ok k' (all_tasks k v) (the (idle_task k)) cf"
    by (rule mem_ok_run [OF d(3)]) (use md(1-16) md(17) [OF mo(6)] mo(5) cur in simp_all)
  moreover have "procs_ok k' v'"
    using new md(18) [OF d(11)] md(19) [OF d(5)] d(6,9) by (simp add: procs_ok_def all md(5,7,14))
  ultimately show ?thesis by (simp add: kernel_ok_def all md(6))
qed

text \<open>Changes to the data that no invariant speaks of.\<close>

lemma kernel_ok_data:
  assumes ok: "kernel_ok k v cf" and kb: "kbd_ok kb" and sc: "screen_ok s"
  shows "kernel_ok (k\<lparr>kbd_st := kb, mach := (mach k)\<lparr>ram := r\<rparr>, scr := s, zeos_ticks := z\<rparr>) v cf"
proof -
  let ?k = "k\<lparr>kbd_st := kb, mach := (mach k)\<lparr>ram := r\<rparr>, scr := s, zeos_ticks := z\<rparr>"
  note d = kernel_okD [OF ok]
  note mo = mem_okD [OF d(3)]
  have t: "table ?k = table k" unfolding table_def fun_eq_iff by simp
  have g: "get_DIR ?k p = get_DIR k p" for p by (simp add: get_DIR_def)
  have all: "all_tasks ?k v = all_tasks k v" by (simp add: all_tasks_def)
  have "mem_ok ?k (all_tasks k v) (the (idle_task k)) cf"
    by (rule mem_ok_run [OF d(3)]) (use mo(5,6) t g in \<open>simp_all only:\<close>, simp_all add: paging_def)
  moreover have "sched_ok ?k v" using d(1) sched_ok_same [of ?k k v] by simp
  moreover have "family_ok ?k v" by (rule family_ok_same [OF d(2)]) (simp_all add: all)
  moreover have "resumes_ok ?k v"
    by (rule resumes_ok_cong [OF d(7) _ _ all]) (simp_all add: all_tasks_def subset_iff)
  moreover have "stack_ok ?k" using d(11) by (simp add: stack_ok_def)
  ultimately show ?thesis using d(4-6) kb sc by (simp add: kernel_ok_def procs_ok_def all)
qed

text \<open>What a process that is switched in must find in its PCB.\<close>

definition resume_fine :: "kernel \<Rightarrow> nat \<Rightarrow> bool" where
  "resume_fine k p \<longleftrightarrow>
     resume (tasks k p) \<noteq> Sys_exit \<and>
     (\<forall>b n. resume (tasks k p) = Sys_read b n \<longrightarrow>
        idle_task k \<noteq> Some p \<and> 0 < n \<and> n \<le> 256 \<and> user_range b n)"

lemma resumes_okD:
  assumes "resumes_ok k v" and "p \<in> all_tasks k v" and "p \<noteq> current k"
  shows "resume_fine k p"
  using assms unfolding resumes_ok_def resume_fine_def by blast

lemma resumes_okI:
  assumes "\<And>p. p \<in> set (blocked v) \<Longrightarrow> resume (tasks k p) = Sys_block"
    and "\<And>p. p \<in> set (kbd_blocked v) \<Longrightarrow> \<exists>b n. resume (tasks k p) = Sys_read b n"
    and "\<And>p. p \<in> all_tasks k v \<Longrightarrow> p \<noteq> current k \<Longrightarrow> resume_fine k p"
  shows "resumes_ok k v"
  using assms unfolding resumes_ok_def resume_fine_def by blast

lemma resumes_ok_same:
  assumes ok: "resumes_ok k v" and all: "all_tasks k' v' = all_tasks k v"
    and same: "\<And>p. resume (tasks k' p) = resume (tasks k p)" "idle_task k' = idle_task k" "current k' = current k"
    and q: "set (blocked v') \<subseteq> set (blocked v)" "set (kbd_blocked v') \<subseteq> set (kbd_blocked v)"
  shows "resumes_ok k' v'"
  using assms unfolding resumes_ok_def by auto

lemma resumes_ok_switch:
  assumes ok: "resumes_ok k v" "sched_ok k v" and all: "all_tasks k' v' = all_tasks k v"
    and same: "\<And>p. p \<noteq> current k \<Longrightarrow> resume (tasks k' p) = resume (tasks k p)" "idle_task k' = idle_task k"
    and here: "resume (tasks k' (current k)) = here" "resume_fine k' (current k)" "current k' \<noteq> current k"
    and q: "set (blocked v') \<subseteq> set (blocked v) \<union> (if here = Sys_block then {current k} else {})"
      "set (kbd_blocked v') \<subseteq> set (kbd_blocked v) \<union> (if \<exists>b n. here = Sys_read b n then {current k} else {})"
  shows "resumes_ok k' v'" and "resume_fine k' (current k')"
proof -
  have nq: "current k \<notin> set (blocked v)" "current k \<notin> set (kbd_blocked v)"
    using ok(2) loose_not_queued [of "links k" v "current k"] by (simp_all add: sched_ok_def)
  note r = ok(1) [unfolded resumes_ok_def]
  have f: "resume_fine k' p" if "p \<in> all_tasks k v" for p
  proof (cases "p = current k")
    case False
    then show ?thesis using resumes_okD [OF ok(1) that False] same(1) [OF False] same(2) unfolding resume_fine_def by simp
  qed (use here in simp)
  show "resumes_ok k' v'"
  proof (rule resumes_okI)
    fix p assume "p \<in> set (blocked v')"
    then have "p \<in> set (blocked v) \<or> p = current k \<and> here = Sys_block" using q(1) by (auto split: if_splits)
    then show "resume (tasks k' p) = Sys_block" using r nq same(1) here(1) by metis
  next
    fix p assume "p \<in> set (kbd_blocked v')"
    then have "p \<in> set (kbd_blocked v) \<or> p = current k \<and> (\<exists>b n. here = Sys_read b n)"
      using q(2) by (auto split: if_splits)
    then show "\<exists>b n. resume (tasks k' p) = Sys_read b n" using r nq same(1) here(1) by metis
  qed (use f all in simp)
  show "resume_fine k' (current k')" using f current_in_all [of k' v'] by (simp add: all)
qed

lemma lists_closed_same:
  "lists_closed v L \<Longrightarrow> children_blocked v' = children_blocked v \<Longrightarrow> children_unblocked v' = children_unblocked v \<Longrightarrow>
     lists_closed v' L"
  by (simp add: lists_closed_def)

end
