(* ===== verification/User_Memory.thy ===== *)
theory User_Memory
  imports Invariant
begin

text \<open>
  The bytes of a process: where the code and data pages of its image are, that buffers in it are mapped and apart from the
  kernel's buffer, and what an operation writes (\<open>wrote\<close>).
\<close>

section \<open>User buffers\<close>

text \<open>Where the byte at address \<open>a\<close> of the image of process \<open>p\<close> is.\<close>

definition user_place :: "kernel \<Rightarrow> nat \<Rightarrow> nat \<Rightarrow> nat" where
  "user_place k p a = get_frame (table k (user_table k p)) (a div 4096 - 2048) * 4096 + a mod 4096"

text \<open>The byte a process finds at an address of its image.\<close>

definition image_byte :: "kernel \<Rightarrow> nat \<Rightarrow> nat \<Rightarrow> byte" where
  "image_byte k p a = ram (mach k) (user_place k p a)"

lemma image_frame:
  assumes ok: "mem_ok k L i cf" and p: "p \<in> L" "p \<noteq> i" and j: "j < 28"
  shows "in_use L i (if j < 20 then Use_data p j else Use_code (j - 20))"
    and "frame_of k cf (if j < 20 then Use_data p j else Use_code (j - 20)) = get_frame (table k (user_table k p)) j"
proof -
  show "in_use L i (if j < 20 then Use_data p j else Use_code (j - 20))" using p j by auto
  have "cf (j - 20) = get_frame (table k (user_table k p)) j" if "\<not> j < 20"
  proof -
    have "j - 20 < 8" "20 + (j - 20) = j" using j that by simp_all
    moreover have "\<forall>l<8. get_frame (table k (user_table k p)) (20 + l) = cf l"
      using mem_okD(10) [OF ok p] by (simp add: sees_user_def)
    ultimately show ?thesis by metis
  qed
  then show "frame_of k cf (if j < 20 then Use_data p j else Use_code (j - 20)) = get_frame (table k (user_table k p)) j"
    by simp
qed

lemma image_frame_inj:
  assumes ok: "mem_ok k L i cf" and p: "p \<in> L" "p \<noteq> i" and j: "j < 28" "l < 28"
    and e: "get_frame (table k (user_table k p)) j = get_frame (table k (user_table k p)) l"
  shows "j = l"
proof -
  have "(if j < 20 then Use_data p j else Use_code (j - 20)) = (if l < 20 then Use_data p l else Use_code (l - 20))"
    by (rule frames_apartD(1) [OF mem_okD(8) [OF ok] image_frame(1) [OF ok p j(1)] image_frame(1) [OF ok p j(2)]])
      (use image_frame(2) [OF ok p] j e in simp)
  then show ?thesis by (auto split: if_splits)
qed

lemma user_place_inj:
  assumes ok: "mem_ok k L i cf" and p: "p \<in> L" "p \<noteq> i" and a: "0x800000 \<le> a" "a < 0x81C000"
    and b: "0x800000 \<le> b" "b < 0x81C000" and e: "user_place k p a = user_place k p b"
  shows "a = b"
proof -
  let ?f = "\<lambda>a. get_frame (table k (user_table k p)) (a div 4096 - 2048)"
  have q: "user_place k p a div 4096 = ?f a" "user_place k p b div 4096 = ?f b"
    "user_place k p a mod 4096 = a mod 4096" "user_place k p b mod 4096 = b mod 4096"
    by (simp_all add: user_place_def)
  have "?f a = ?f b" "a mod 4096 = b mod 4096" using q e by simp_all
  moreover have "2048 \<le> a div 4096" "a div 4096 < 0x81C" "2048 \<le> b div 4096" "b div 4096 < 0x81C" using a b by simp_all
  moreover from this have "a div 4096 - 2048 < 28" "b div 4096 - 2048 < 28" by simp_all
  ultimately have "a div 4096 - 2048 = b div 4096 - 2048" using image_frame_inj [OF ok p] by blast
  then have "a div 4096 = b div 4096" using \<open>2048 \<le> a div 4096\<close> \<open>2048 \<le> b div 4096\<close> by simp
  then show ?thesis using \<open>a mod 4096 = b mod 4096\<close> by (metis mult_div_mod_eq)
qed

lemma user_place_frame:
  assumes ok: "mem_ok k L i cf" and p: "p \<in> L" "p \<noteq> i" and a: "0x800000 \<le> a" "a < 0x81C000"
  shows "\<exists>j<28. user_place k p a div 4096 = get_frame (table k (user_table k p)) j"
    and "last_kernel (frames k) * 4096 \<le> user_place k p a"
proof -
  have j: "a div 4096 - 2048 < 28" using a by simp
  have d: "user_place k p a div 4096 = get_frame (table k (user_table k p)) (a div 4096 - 2048)"
    by (simp add: user_place_def)
  then show "\<exists>j<28. user_place k p a div 4096 = get_frame (table k (user_table k p)) j" using j by blast
  have "last_kernel (frames k) \<le> get_frame (table k (user_table k p)) (a div 4096 - 2048)"
    using frames_apartD(5) [OF mem_okD(8) [OF ok] image_frame(1) [OF ok p j]] image_frame(2) [OF ok p j] by simp
  then show "last_kernel (frames k) * 4096 \<le> user_place k p a" unfolding user_place_def by simp
qed

text \<open>The user's buffer and that of the kernel, as the copy routines need them.\<close>

lemma user_buffer:
  assumes ok: "mem_ok k L i cf" and me: "current k \<noteq> i" and r: "user_range a (int n)"
  shows "mapped (mach k) a n (\<lambda>x. user_place k (current k) (unat a + x))"
    and "inj_on (\<lambda>x. user_place k (current k) (unat a + x)) {..<n}"
    and "m \<le> 256 \<Longrightarrow> mapped (mach k) (buffer_sys k) m (\<lambda>x. unat (buffer_sys k) + x)"
    and "m \<le> 256 \<Longrightarrow> (\<lambda>x. unat (buffer_sys k) + x) ` {..<m} \<inter> (\<lambda>x. user_place k (current k) (unat a + x)) ` {..<n} = {}"
proof -
  note md = mem_okD [OF ok]
  have a: "0x800000 \<le> unat a" "unat a + n \<le> 0x81C000" using r unfolding user_range_def by linarith+
  show "mapped (mach k) a n (\<lambda>x. user_place k (current k) (unat a + x))"
    using user_range_mapped [OF ok me a] by (simp add: user_place_def)
  show "inj_on (\<lambda>x. user_place k (current k) (unat a + x)) {..<n}"
  proof (rule inj_onI)
    fix x y assume x: "x \<in> {..<n}" "y \<in> {..<n}"
      and e: "user_place k (current k) (unat a + x) = user_place k (current k) (unat a + y)"
    have "x < n" "y < n" using x by simp_all
    then have "0x800000 \<le> unat a + x" "unat a + x < 0x81C000" "0x800000 \<le> unat a + y" "unat a + y < 0x81C000"
      using a by linarith+
    then have "unat a + x = unat a + y" by (rule user_place_inj [OF ok md(3) me _ _ _ _ e])
    then show "x = y" by simp
  qed
  show "mapped (mach k) (buffer_sys k) m (\<lambda>x. unat (buffer_sys k) + x)" if "m \<le> 256"
    using buffer_mapped [OF ok] that by (rule mapped_take)
  have b: "unat (buffer_sys k) + 256 \<le> last_kernel (frames k) * 4096" using md(7) by (simp add: kernel_mapped_def)
  have lk: "last_kernel (frames k) * 4096 \<le> user_place k (current k) (unat a + x)" if "x < n" for x
    by (rule user_place_frame(2) [OF ok md(3) me]) (use a that in linarith)+
  show "(\<lambda>x. unat (buffer_sys k) + x) ` {..<m} \<inter> (\<lambda>x. user_place k (current k) (unat a + x)) ` {..<n} = {}"
    if "m \<le> 256"
  proof -
    have "unat (buffer_sys k) + x \<noteq> user_place k (current k) (unat a + y)" if "x < 256" "y < n" for x y
      using b lk [OF that(2)] that(1) by linarith
    then show ?thesis using that by (auto simp: disjoint_iff)
  qed
qed

text \<open>\<open>wrote F k k'\<close>: bytes change in frames of \<open>F\<close> only.\<close>

definition wrote :: "nat set \<Rightarrow> kernel \<Rightarrow> kernel \<Rightarrow> bool" where
  "wrote F k k' \<longleftrightarrow> (\<forall>a. ram (mach k') a \<noteq> ram (mach k) a \<longrightarrow> a div 4096 \<in> F)"

text \<open>The frames of a process's image (idle has none), and of the kernel's image with its buffer.\<close>

definition image_frames :: "kernel \<Rightarrow> nat \<Rightarrow> nat set" where
  "image_frames k p =
     (if idle_task k = Some p then {} else get_frame (table k (user_table k p)) ` {..<NUM_PAG_DATA + NUM_PAG_CODE})"

definition kernel_image :: "kernel \<Rightarrow> nat set" where
  "kernel_image k = {..<last_kernel (frames k)}"

lemma wrote_same: "ram (mach k') = ram (mach k) \<Longrightarrow> wrote F k k'"
  by (simp add: wrote_def)

lemma wrote_trans: "wrote F k k' \<Longrightarrow> wrote G k' k'' \<Longrightarrow> wrote (F \<union> G) k k''"
  unfolding wrote_def by (metis UnCI)

lemma wrote_mono: "wrote F k k' \<Longrightarrow> F \<subseteq> G \<Longrightarrow> wrote G k k'"
  by (auto simp: wrote_def)

lemma buffer_in_kernel_image:
  assumes "mem_ok k L i cf" and "x < 256"
  shows "(unat (buffer_sys k) + x) div 4096 \<in> kernel_image k"
  using mem_okD(7) [OF assms(1)] assms(2) by (simp add: kernel_mapped_def kernel_image_def div_less_iff_less_mult)

end
