(* ===== verification/Steps.thy ===== *)
theory Steps
  imports Moves User_Memory
begin

text \<open>
  The clock, the keyboard and the blocking calls keep the invariant of the kernel, and the process they switch to
  finds in its PCB where it continues.
\<close>

section \<open>Safe steps\<close>

text \<open>The invariant holds afterwards, no process is lost, no frame in use moves, and bytes change in frames of \<open>F\<close> only.\<close>

definition safe_step :: "(nat \<Rightarrow> nat) \<Rightarrow> nat set \<Rightarrow> kernel \<Rightarrow> queues \<Rightarrow> kernel \<Rightarrow> queues \<Rightarrow> bool" where
  "safe_step cf F k v k' v' \<longleftrightarrow>
     kernel_ok k' v' cf \<and> all_tasks k v \<subseteq> all_tasks k' v' \<and> current k' \<in> all_tasks k v \<and> frames_kept k k' v cf \<and> wrote F k k'"

lemma safe_stepD:
  assumes "safe_step cf F k v k' v'"
  shows "kernel_ok k' v' cf" "all_tasks k v \<subseteq> all_tasks k' v'" "idle_task k' = idle_task k" "frames_kept k k' v cf"
    "wrote F k k'" "current k' \<in> all_tasks k v"
  using assms by (simp_all add: safe_step_def frames_kept_def)

lemma in_use_mono: "in_use L i u \<Longrightarrow> L \<subseteq> M \<Longrightarrow> in_use M i u"
  by (cases u) auto

lemma safe_step_trans:
  assumes a: "safe_step cf F k v k' v'" and b: "safe_step cf G k' v' k'' v''"
    and c: "current k'' \<in> all_tasks k v"
  shows "safe_step cf (F \<union> G) k v k'' v''"
proof -
  note x = safe_stepD [OF a] and y = safe_stepD [OF b]
  have "frames_kept k k'' v cf"
    unfolding frames_kept_def
  proof (intro conjI allI impI)
    show "idle_task k'' = idle_task k" using x(3) y(3) by simp
    fix u assume u: "in_use (all_tasks k v) (the (idle_task k)) u"
    then have "in_use (all_tasks k' v') (the (idle_task k')) u" using in_use_mono [OF _ x(2)] x(3) by simp
    then show "frame_of k'' cf u = frame_of k cf u" using u x(4) y(4) by (simp add: frames_kept_def)
  qed
  then show ?thesis using x y c wrote_trans by (auto simp: safe_step_def)
qed

lemma safe_step_mono: "safe_step cf F k v k' v' \<Longrightarrow> F \<subseteq> G \<Longrightarrow> safe_step cf G k v k' v'"
  unfolding safe_step_def using wrote_mono by blast

lemma safe_step_refl: "kernel_ok k v cf \<Longrightarrow> safe_step cf F k v k v"
  by (simp add: safe_step_def frames_kept_def wrote_same)

lemma safe_step_moved:
  assumes "kernel_ok k' v' cf" and "moved k k'" and "all_tasks k' v' = all_tasks k v"
  shows "safe_step cf {} k v k' v'"
proof -
  note md = movedD [OF assms(2)]
  have "frame_of k' cf u = frame_of k cf u" for u by (rule frame_of_cong [OF md(2,16,8,9)])
  moreover have "current k' \<in> all_tasks k v" using current_in_all [of k' v'] by (simp add: assms(3))
  ultimately show ?thesis using assms(1,3) md(4,6) by (simp add: safe_step_def frames_kept_def wrote_same)
qed

lemma safe_step_data:
  assumes ok: "kernel_ok k v cf" and kb: "kbd_ok kb" and sc: "screen_ok s"
    and r: "\<And>a. r a \<noteq> ram (mach k) a \<Longrightarrow> a div 4096 \<in> F"
  shows "safe_step cf F k v (k\<lparr>kbd_st := kb, mach := (mach k)\<lparr>ram := r\<rparr>, scr := s, zeos_ticks := z\<rparr>) v"
proof -
  let ?k = "k\<lparr>kbd_st := kb, mach := (mach k)\<lparr>ram := r\<rparr>, scr := s, zeos_ticks := z\<rparr>"
  have "table ?k = table k" unfolding table_def fun_eq_iff by simp
  then have "frame_of ?k cf u = frame_of k cf u" for u
    by (rule frame_of_cong) (simp_all add: get_DIR_def)
  then show ?thesis
    using kernel_ok_data [OF ok kb sc, where r = r and z = z] r
    by (simp add: safe_step_def frames_kept_def wrote_def all_tasks_def)
qed

section \<open>The scheduler\<close>

lemma schedule_ok:
  assumes ok: "kernel_ok k v cf"
  obtains k' v' where "schedule k = Some k'" and "safe_step cf {} k v k' v'" and "moved k k'"
    and "current k' \<noteq> current k \<Longrightarrow> resume_fine k' (current k')"
    and "if 1 < remaining_quantum k \<and> ready v \<noteq> [] then k' = k\<lparr>remaining_quantum := remaining_quantum k - 1\<rparr> \<and> v' = v
         else current k' = hd (ready v @ [current k]) \<and> v' = v\<lparr>ready := tl (ready v @ [current k])\<rparr> \<and>
           (\<forall>p. p \<noteq> current k \<longrightarrow> resume (tasks k' p) = resume (tasks k p))"
proof -
  note d = kernel_okD [OF ok]
  show thesis
  proof (cases "1 < remaining_quantum k \<and> ready v \<noteq> []")
    case True
    let ?k = "k\<lparr>remaining_quantum := remaining_quantum k - 1\<rparr>"
    have s: "schedule k = Some ?k" using schedule_keeps [OF d(1)] True by simp
    have all: "all_tasks ?k v = all_tasks k v" by (simp add: all_tasks_def)
    have "kernel_ok ?k v cf"
    proof (rule kernel_ok_moved [OF ok moved_quantum _ _ d(4) _ _ all])
      show "sched_ok ?k v" using d(1) sched_ok_same [of ?k k v] by simp
      show "family_ok ?k v" by (rule family_ok_same [OF d(2) _ all]) simp_all
      show "resumes_ok ?k v" by (rule resumes_ok_same [OF d(7) all]) simp_all
    qed (use d(8) in simp)
    then show thesis using that [OF s safe_step_moved [OF _ moved_quantum all] moved_quantum] True by simp
  next
    case False
    let ?v = "v\<lparr>ready := tl (ready v @ [current k])\<rparr>"
    obtain k' where k': "schedule k = Some k'" "current k' = hd (ready v @ [current k])" "sched_ok k' ?v"
        "idle_task k' = idle_task k"
      using schedule_rotates [OF d(1)] False by (metis not_le)
    note m = moved_schedule [OF k'(1)]
    have all: "all_tasks k' ?v = all_tasks k v"
      unfolding all_tasks_def k'(2,4) by (cases "ready v") auto
    have f: "family_ok k' ?v" by (rule family_ok_same [OF d(2) movedD(15) [OF m(1)] all]) simp_all
    have c: "lists_closed ?v (all_tasks k v)" by (rule lists_closed_same [OF d(4)]) simp_all
    have kb: "kbd_ok (kbd_st k')" using d(8) by (simp add: m(2))
    have "resumes_ok k' ?v \<and> (current k' \<noteq> current k \<longrightarrow> resume_fine k' (current k'))"
    proof (cases "current k' = current k")
      case True
      have "resumes_ok k' ?v" by (rule resumes_ok_same [OF d(7) all]) (use True m(3) k'(4) in simp_all)
      then show ?thesis using True by simp
    next
      case ne: False
      note sw = resumes_ok_switch [OF d(7,1) all _ k'(4) refl _ ne]
      have t: "resume (tasks k' (current k)) = Clock_routine" "p \<noteq> current k \<Longrightarrow> resume (tasks k' p) = resume (tasks k p)" for p
        using ne m(3) by simp_all
      have "resume_fine k' (current k)" by (simp add: resume_fine_def t(1))
      then show ?thesis using sw t(2) by simp
    qed
    then show thesis
      using that [OF k'(1) safe_step_moved [OF kernel_ok_moved [OF ok m(1) k'(3) f c _ kb all] m(1) all] m(1)]
        False k'(2) m(3) by auto
  qed
qed

section \<open>Blocking\<close>

lemma lists_closed_block:
  assumes "lists_closed v L" and "family_ok k v" and "current k \<in> all_tasks k v" and L: "L = all_tasks k v"
  shows "lists_closed (block_queues k v) L"
proof (cases "parent (tasks k (current k))")
  case None
  then show ?thesis using lists_closed_same [OF assms(1)] by (simp add: block_queues_def)
next
  case (Some q)
  obtain cb cu where c: "children_blocked v q = Some cb" "children_unblocked v q = Some cu"
    using family_okD(5) [OF assms(2,3) Some] by blast
  note l = assms(1) [unfolded lists_closed_def]
  have "set cb \<subseteq> L" "set (remove1 (current k) cu) \<subseteq> L" "q \<in> L" "current k \<in> L"
    using l c assms(3) L set_remove1_subset [of "current k" cu] by blast+
  then show ?thesis
    using l c Some by (auto simp: block_queues_def Let_def lists_closed_def)
qed

lemma sys_block_ok:
  assumes ok: "kernel_ok k v cf" and me: "idle_task k \<noteq> Some (current k)"
  obtains r k' v' where "sys_block k = Some (r, k')" and "safe_step cf {} k v k' v'"
    and "r \<noteq> Switched \<Longrightarrow> current k' = current k"
    and "r = Switched \<Longrightarrow> moved k k' \<and> resume_fine k' (current k')"
proof -
  note d = kernel_okD [OF ok]
  show thesis
  proof (cases "pending_unblocks (tasks k (current k)) > 0")
    case True
    let ?k = "upd_task (current k) (\<lambda>p. p\<lparr>pending_unblocks := pending_unblocks p - 1\<rparr>) k"
    have s: "sys_block k = Some (Return 0, ?k)" using True by (simp add: sys_block_def Let_def)
    have all: "all_tasks ?k v = all_tasks k v" by (simp add: all_tasks_def)
    have m: "moved k ?k" by (rule moved_upd_task) simp_all
    have "kernel_ok ?k v cf"
    proof (rule kernel_ok_moved [OF ok m _ _ d(4) _ _ all])
      show "sched_ok ?k v" using d(1) sched_ok_same [of ?k k v] by simp
      show "family_ok ?k v" by (rule family_ok_same [OF d(2) _ all]) simp_all
      show "resumes_ok ?k v" by (rule resumes_ok_same [OF d(7) all]) simp_all
    qed (use d(8) in simp)
    then show thesis using that [OF s safe_step_moved [OF _ m all]] by simp
  next
    case False
    let ?v = "block_queues k v"
    obtain k' where k': "sys_block k = Some (Switched, k')" "sched_ok k' ?v" "current k' = next_process k v"
        "current k' \<noteq> current k" "idle_task k' = idle_task k"
        "tasks k' = (tasks k)(current k := (tasks k (current k))\<lparr>resume := Sys_block\<rparr>)"
      using sys_block_blocks [OF d(1,2) me] False by (metis not_less)
    note m = moved_sys_block [OF k'(1)]
    obtain i where i: "idle_task k = Some i" using sched_ok_idle [OF d(1)] by blast
    have f: "family_ok k' ?v" by (rule block_family_ok [OF d(1,2) i k'(3,5) movedD(15) [OF m(1)]])
    have q: "blocked ?v = blocked v @ [current k]" "kbd_blocked ?v = kbd_blocked v" "ready ?v = tl (ready v)"
      by (simp_all add: block_queues_def Let_def split: option.splits)
    have all: "all_tasks k' ?v = all_tasks k v"
      unfolding all_tasks_def k'(3,5) q by (cases "ready v") (use i in \<open>auto simp: next_process_def\<close>)
    have c: "lists_closed ?v (all_tasks k v)" by (rule lists_closed_block [OF d(4,2) _ refl]) simp
    have kb: "kbd_ok (kbd_st k')" using d(8) by (simp add: m(2))
    have here: "resume (tasks k' (current k)) = Sys_block" by (simp add: k'(6))
    then have "resume_fine k' (current k)" by (simp add: resume_fine_def)
    then have "resumes_ok k' ?v" "resume_fine k' (current k')"
      using resumes_ok_switch [OF d(7,1) all _ k'(5) here _ k'(4)] k'(6) by (simp_all add: q)
    then show thesis
      using that [OF k'(1) safe_step_moved [OF kernel_ok_moved [OF ok m(1) k'(2) f c _ kb all] m(1) all]] m(1) by blast
  qed
qed

lemma find_live_child:
  assumes ok: "kernel_ok k v cf" and c: "children_blocked v (current k) = Some cb \<or> children_unblocked v (current k) = Some cb"
    and x: "x \<in> set cb"
  shows "x \<in> all_tasks k v"
  using kernel_okD(4) [OF ok] c x unfolding lists_closed_def by blast

lemma sys_unblock_ok:
  assumes ok: "kernel_ok k v cf"
  obtains r k' v' where "sys_unblock pid k = Some (r, k')" and "safe_step cf {} k v k' v'"
    and "current k' = current k"
proof -
  note d = kernel_okD [OF ok]
  let ?me = "current k"
  have rep: "queues_rep (links k) v" using d(1) by (simp add: sched_ok_def)
  obtain cb cu where cb: "children_blocked v ?me = Some cb" and cu: "children_unblocked v ?me = Some cu"
    using family_okD(3,4) [OF d(2) current_in_all] by blast
  note search = search_children [OF rep, of "At_children_blocked ?me" cb pid]
    search_children [OF rep, of "At_children_unblocked ?me" cu pid]
  show thesis
  proof (cases "find_child k pid cb")
    case (Some c)
    have cin: "c \<in> set cb" using find_child_Some [OF Some] by simp
    let ?v = "unblock_queues k c v"
    obtain h where h: "sys_unblock pid k = Some (0, k\<lparr>links := h\<rparr>)" "sched_ok (k\<lparr>links := h\<rparr>) ?v"
      using sys_unblock_wakes [OF d(1,2) cb Some] by blast
    note m = moved_sys_unblock [OF h(1)]
    have f: "family_ok (k\<lparr>links := h\<rparr>) ?v" by (rule unblock_family_ok [OF d(1,2) cb cin])
    have "c \<in> set (blocked v)" using family_okD(1) [OF d(2) cb cin] by simp
    moreover have "distinct (blocked v)" using queues_rep_distinct [OF rep] by simp
    ultimately have all: "all_tasks (k\<lparr>links := h\<rparr>) ?v = all_tasks k v"
      by (auto simp: all_tasks_def unblock_queues_def Let_def)
    have "set (remove1 c cb) \<subseteq> all_tasks k v" "c \<in> all_tasks k v" "set cu \<subseteq> all_tasks k v" "?me \<in> all_tasks k v"
      using find_live_child [OF ok, of cb] find_live_child [OF ok, of cu] cb cu cin set_remove1_subset [of c cb] by auto
    then have c: "lists_closed ?v (all_tasks k v)"
      using d(4) cb cu unfolding lists_closed_def by (auto simp: unblock_queues_def Let_def)
    have r: "resumes_ok (k\<lparr>links := h\<rparr>) ?v"
      by (rule resumes_ok_same [OF d(7) all]) (auto simp: unblock_queues_def Let_def dest: set_remove1_subset [THEN subsetD])
    have "kernel_ok (k\<lparr>links := h\<rparr>) ?v cf"
      by (rule kernel_ok_moved [OF ok m(1) h(2) f c r _ all]) (use d(8) in simp)
    then show thesis using that [OF h(1) safe_step_moved [OF _ m(1) all]] by simp
  next
    case None
    show thesis
    proof (cases "find_child k pid cu")
      case None
      then have "sys_unblock pid k = Some (-1, k)"
        using search cb cu \<open>find_child k pid cb = None\<close> by (simp add: sys_unblock_def Let_def)
      then show thesis using that safe_step_refl [OF ok] by blast
    next
      case (Some c)
      let ?k = "upd_task c (\<lambda>p. p\<lparr>pending_unblocks := pending_unblocks p + 1\<rparr>) k"
      have s: "sys_unblock pid k = Some (0, ?k)"
        using search cb cu Some \<open>find_child k pid cb = None\<close> by (simp add: sys_unblock_def Let_def)
      note m = moved_sys_unblock [OF s]
      have all: "all_tasks ?k v = all_tasks k v" by (simp add: all_tasks_def)
      have "kernel_ok ?k v cf"
      proof (rule kernel_ok_moved [OF ok m(1) _ _ d(4) _ _ all])
        show "sched_ok ?k v" using d(1) sched_ok_same [of ?k k v] by simp
        show "family_ok ?k v" by (rule family_ok_same [OF d(2) _ all]) simp_all
        show "resumes_ok ?k v" by (rule resumes_ok_same [OF d(7) all]) simp_all
      qed (use d(8) in simp)
      then show thesis using that [OF s safe_step_moved [OF _ m(1) all]] by simp
    qed
  qed
qed

section \<open>Reading\<close>

lemma serve_read_ok:
  assumes ok: "kernel_ok k v cf" and me: "idle_task k \<noteq> Some (current k)"
    and n: "0 < n" "n \<le> 256" and b: "user_range b n"
  obtains got k' where "serve_read b n k = Some (got, k')" and "current k' = current k"
    and "safe_step cf (kernel_image k \<union> image_frames k (current k)) k v k' v"
    and "kbd_contents (kbd_st k) = [] \<Longrightarrow> got = 0 \<and> k' = k" and "kbd_contents (kbd_st k) \<noteq> [] \<Longrightarrow> 0 < got"
proof (cases "kbd_contents (kbd_st k) = []")
  case True
  then show thesis using that [OF serve_read_empty] safe_step_refl [OF ok] kernel_okD(8) [OF ok] by simp
next
  case False
  note d = kernel_okD [OF ok]
  let ?me = "current k" and ?c = "kbd_contents (kbd_st k)"
  define t where "t = min (nat n) (length ?c)"
  have "0 < length ?c" using False by (simp only: length_greater_0_conv) simp
  then have t: "t = min (nat n) (length ?c)" "0 < t" "t \<le> 256" using n unfolding t_def by linarith+
  have cur: "?me \<noteq> the (idle_task k)" using me sched_ok_idle [OF d(1)] by auto
  have bt: "user_range b (int t)" using b t(1) n unfolding user_range_def by linarith
  note ub = user_buffer [OF d(3) cur bt]
  have inj: "inj_on (\<lambda>x. unat (buffer_sys k) + x) {..<t}" by (simp add: inj_on_def)
  obtain kb r where r: "serve_read b (int (nat n)) k = Some (int t, k\<lparr>kbd_st := kb, mach := (mach k)\<lparr>ram := r\<rparr>\<rparr>)"
      "kbd_ok kb" "\<And>a. a \<notin> (\<lambda>x. unat (buffer_sys k) + x) ` {..<t} \<union> (\<lambda>x. user_place k ?me (unat b + x)) ` {..<t} \<Longrightarrow>
         r a = ram (mach k) a"
    by (rule serve_read_gets [OF d(8) t(1,2) ub(3) [OF t(3)] inj ub(1,2) ub(4) [OF t(3)]]) (rule that)
  let ?k = "k\<lparr>kbd_st := kb, mach := (mach k)\<lparr>ram := r\<rparr>\<rparr>"
  have "a div 4096 \<in> kernel_image k \<union> image_frames k ?me" if w: "r a \<noteq> ram (mach k) a" for a
  proof -
    consider x where "x < t" "a = unat (buffer_sys k) + x" | x where "x < t" "a = user_place k ?me (unat b + x)"
      using r(3) [of a] w by blast
    then show ?thesis
    proof cases
      case 1
      then show ?thesis using buffer_in_kernel_image [OF d(3), of x] t(3) by simp
    next
      case 2
      then have ur: "0x800000 \<le> unat b + x" "unat b + x < 0x81C000" using bt unfolding user_range_def by linarith+
      obtain j where "j < 28" "a div 4096 = get_frame (table k (user_table k ?me)) j"
        using user_place_frame(1) [OF d(3) current_in_all cur ur] 2 by auto
      then show ?thesis using me by (simp add: image_frames_def)
    qed
  qed
  then have "safe_step cf (kernel_image k \<union> image_frames k ?me) k v ?k v"
    using safe_step_data [OF ok r(2) d(9), where r = r and z = "zeos_ticks k"] by simp
  then show thesis using that [of "int t" ?k] r(1) n(1) False t(2) by simp
qed

lemma moved_sys_read:
  assumes r: "sys_read b n k = Some (Switched, k')" and kb: "kbd_ok (kbd_st k)" "kbd_contents (kbd_st k) = []"
    and b: "b \<noteq> 0" "0 < n" "access_ok VERIFY_WRITE b (of_int n) \<noteq> 0"
  shows "moved k k'" and "kbd_st k' = kbd_st k"
proof -
  let ?me = "current k" and ?n = "if n > 256 then 256 else n"
  let ?k = "upd_task ?me (\<lambda>p. p\<lparr>kbd_chars_needed := ?n, kbd_user_buf := b, kbd_read_result := 0\<rparr>) k"
  have m: "moved k ?k" by (rule moved_upd_task) simp_all
  obtain k1 where k1: "update_process_state_rr ?me (Some Kbd_blocked) ?k = Some k1"
      "sched_next_rr (Sys_read b ?n) k1 = Some k'"
    using r b serve_read_empty [OF kb]
    by (auto simp: sys_read_def Let_def bind_eq_Some_conv simp del: upd_task_simps split: if_splits)
  note l = moved_leave [OF k1 no_task_node(7)]
  show "moved k k'" by (rule moved_trans [OF m l(1)])
  show "kbd_st k' = kbd_st k" using l(2) by simp
qed

text \<open>A buffer that a read or write refuses, or that lies in the pages of the image.\<close>

definition buffer_fits :: "int \<Rightarrow> dword \<Rightarrow> int \<Rightarrow> bool" where
  "buffer_fits type a n \<longleftrightarrow>
     a = 0 \<or> n < 0 \<or> access_ok type a (of_int n) = 0 \<or> int (unat a) + n \<le> 0x81C000"

lemma buffer_fits_range:
  assumes "buffer_fits type a n" and "a \<noteq> 0" and "0 \<le> n" and "access_ok type a (of_int n) \<noteq> 0"
  shows "user_range a n"
proof -
  have "0x800 \<le> unat a div 4096" using assms(4) unfolding access_ok_pages by (auto split: if_splits)
  then have "0x800000 \<le> unat a" by simp
  moreover have "int (unat a) + n \<le> 0x81C000" using assms unfolding buffer_fits_def by auto
  ultimately show ?thesis using assms(3) unfolding user_range_def by simp
qed

lemma sys_read_ok:
  assumes ok: "kernel_ok k v cf" and me: "idle_task k \<noteq> Some (current k)" and fits: "buffer_fits VERIFY_WRITE b n"
  obtains r k' v' where "sys_read b n k = Some (r, k')"
    and "safe_step cf (kernel_image k \<union> image_frames k (current k')) k v k' v'"
    and "r \<noteq> Switched \<Longrightarrow> current k' = current k" and "r = Switched \<Longrightarrow> moved k k' \<and> resume_fine k' (current k')"
proof -
  note d = kernel_okD [OF ok]
  let ?F = "kernel_image k \<union> image_frames k (current k)"
  consider r where "sys_read b n k = Some (Return r, k)" | "sys_read b n k = Some (Return 0, k\<lparr>kbd_st := kbd_buf_flush (kbd_st k)\<rparr>)"
    | "b \<noteq> 0" "0 < n" "access_ok VERIFY_WRITE b (of_int n) \<noteq> 0"
    by (cases "b = 0"; cases "n < 0"; cases "n = 0"; cases "access_ok VERIFY_WRITE b (of_int n) = 0")
      (simp_all add: sys_read_def)
  then show thesis
  proof cases
    case (1 r)
    then show thesis using that safe_step_refl [OF ok] by blast
  next
    case 2
    let ?k = "k\<lparr>kbd_st := kbd_buf_flush (kbd_st k)\<rparr>"
    have "kbd_ok (kbd_buf_flush (kbd_st k))" by (simp add: kbd_buf_flush_def kbd_ok_def)
    from safe_step_data [OF ok this d(9), where r = "ram (mach k)" and z = "zeos_ticks k" and F = ?F]
    have "safe_step cf ?F k v ?k v" by simp
    then show thesis by (intro that [OF 2]) simp_all
  next
    case 3
    have ur: "user_range b n" by (rule buffer_fits_range [OF fits]) (use 3 in simp_all)
    then have rm: "user_range b (min n 256)" using 3(2) unfolding user_range_def by linarith
    have m: "0 < min n 256" "min n 256 \<le> 256" using 3(2) by simp_all
    have mn: "(if n > 256 then 256 else n) = min n 256" by simp
    show thesis
    proof (cases "kbd_contents (kbd_st k) = []")
      case False
      obtain got k' where k': "serve_read b (min n 256) k = Some (got, k')" "current k' = current k"
          "safe_step cf ?F k v k' v" "0 < got"
        by (rule serve_read_ok [OF ok me m rm]) (use False in blast)
      have "sys_read b n k = Some (Return got, k')" using 3 k'(1,4) by (simp add: sys_read_def mn Let_def)
      then show thesis by (rule that) (use k'(2,3) in simp_all)
    next
      case True
      let ?v = "read_queues k v"
      obtain k' where k': "sys_read b n k = Some (Switched, k')" "sched_ok k' ?v" "current k' = next_process k v"
          "current k' \<noteq> current k"
          "tasks k' = (tasks k)(current k := (tasks k (current k))
             \<lparr>kbd_chars_needed := min n 256, kbd_user_buf := b, kbd_read_result := 0, resume := Sys_read b (min n 256)\<rparr>)"
        by (rule sys_read_waits [OF d(1) me d(8) True 3], rule that)
      note mv = moved_sys_read [OF k'(1) d(8) True 3]
      obtain i where i: "idle_task k = Some i" using sched_ok_idle [OF d(1)] by blast
      have ik: "idle_task k' = idle_task k" by (rule movedD(6) [OF mv(1)])
      have q: "blocked ?v = blocked v" "kbd_blocked ?v = kbd_blocked v @ [current k]" "ready ?v = tl (ready v)"
        by (simp_all add: read_queues_def)
      have all: "all_tasks k' ?v = all_tasks k v"
        unfolding all_tasks_def k'(3) ik q by (cases "ready v") (use i in \<open>auto simp: next_process_def\<close>)
      have f: "family_ok k' ?v"
        by (rule family_ok_same [OF d(2) movedD(15) [OF mv(1)] all]) (simp_all add: read_queues_def)
      have c: "lists_closed ?v (all_tasks k v)" by (rule lists_closed_same [OF d(4)]) (simp_all add: read_queues_def)
      have kb: "kbd_ok (kbd_st k')" using d(8) by (simp add: mv(2))
      have here: "resume (tasks k' (current k)) = Sys_read b (min n 256)" by (simp add: k'(5))
      then have "resume_fine k' (current k)" using me m rm ik by (simp add: resume_fine_def)
      then have "resumes_ok k' ?v" "resume_fine k' (current k')"
        using resumes_ok_switch [OF d(7,1) all _ ik here _ k'(4)] k'(5) by (simp_all add: q)
      then show thesis
        using that [OF k'(1) safe_step_mono [OF safe_step_moved [OF kernel_ok_moved [OF ok mv(1) k'(2) f c _ kb all] mv(1) all]]]
          mv(1) by blast
    qed
  qed
qed

section \<open>The keyboard interrupt\<close>

lemma moved_kbd_buf_write:
  assumes "kbd_buf_write c k = Some k'"
  shows "moved k k'" and "current k' = current k" and "tasks k' = tasks k"
proof -
  let ?k = "k\<lparr>kbd_st := kbd_put c (kbd_st k)\<rparr>"
  have m: "moved k ?k" by (rule moved_kbd)
  have w: "moved k k' \<and> current k' = current k \<and> tasks k' = tasks k"
    if "on_links (list_del (At_list t)) ?k = Some k1" "update_process_state_rr t (Some Readyqueue) k1 = Some k'" for t k1
    using moved_trans [OF moved_trans [OF m moved_on_links_del [OF that(1)]] moved_update_state(1) [OF that(2)]]
      moved_update_state(2,3) [OF that(2)] on_links_other [OF that(1)] by simp
  have "moved k k' \<and> current k' = current k \<and> tasks k' = tasks k"
    using assms m
    by (auto simp: kbd_buf_write_def Let_def bind_eq_Some_conv moved_refl split: if_splits
        elim!: list_head_to_task_struct.elims dest: w)
  then show "moved k k'" "current k' = current k" "tasks k' = tasks k" by simp_all
qed

lemma kbd_buf_write_ok:
  assumes ok: "kernel_ok k v cf"
  obtains k' v' where "kbd_buf_write c k = Some k'" and "safe_step cf {} k v k' v'" and "current k' = current k"
proof (cases "length (kbd_contents (kbd_st k)) < 256")
  case False
  have "length (kbd_contents (kbd_st k)) \<le> 256" using kernel_okD(8) [OF ok] by (auto simp: kbd_ok_def)
  then have "kbd_buf_write c k = Some k" using kbd_buf_write_full kernel_okD(8) [OF ok] False by simp
  then show thesis using that safe_step_refl [OF ok] by blast
next
  case True
  note d = kernel_okD [OF ok]
  define n where "n = Suc (length (kbd_contents (kbd_st k)))"
  let ?v = "wake_reader k n v"
  obtain k' where k': "kbd_buf_write c k = Some k'" "kbd_st k' = kbd_put c (kbd_st k)" "sched_ok k' ?v"
    by (rule kbd_buf_write_stores [OF d(1,8) True, folded n_def], rule that)
  note m = moved_kbd_buf_write [OF k'(1)]
  have i: "idle_task k' = idle_task k" by (rule movedD(6) [OF m(1)])
  have q: "blocked ?v = blocked v" "set (kbd_blocked ?v) \<subseteq> set (kbd_blocked v)"
      "children_blocked ?v = children_blocked v" "children_unblocked ?v = children_unblocked v"
      "set (ready ?v) \<union> set (kbd_blocked ?v) = set (ready v) \<union> set (kbd_blocked v)"
    by (auto simp: wake_reader_def split: list.splits)
  have all: "all_tasks k' ?v = all_tasks k v"
    using q(5) unfolding all_tasks_def i m(2) q(1) by blast
  have "kernel_ok k' ?v cf"
  proof (rule kernel_ok_moved [OF ok m(1) k'(3) _ _ _ _ all])
    show "family_ok k' ?v" by (rule family_ok_same [OF d(2) _ all]) (simp_all add: q m(3))
    show "lists_closed ?v (all_tasks k v)" by (rule lists_closed_same [OF d(4) q(3,4)])
    show "resumes_ok k' ?v" by (rule resumes_ok_same [OF d(7) all]) (use q i m in simp_all)
    show "kbd_ok (kbd_st k')" using kbd_ok_put [OF d(8)] by (simp add: k'(2))
  qed
  then show thesis using that [OF k'(1) safe_step_moved [OF _ m(1) all]] m(2) by blast
qed

end
