(* ===== verification/Shared_Space.thy ===== *)
theory Shared_Space
  imports User_Memory
begin

text \<open>
  What the operations on shared pages may change: \<open>shm_step u kt k k'\<close> allows the entries of the user table
  \<open>u\<close> behind the code pages, entry 512 of the kernel's table \<open>kt\<close>, and frames that were free or held a shared page.
  Such steps keep the invariant of the memory.
\<close>

section \<open>Steps\<close>

definition shm_step :: "nat \<Rightarrow> nat \<Rightarrow> kernel \<Rightarrow> kernel \<Rightarrow> bool" where
  "shm_step u kt k k' \<longleftrightarrow>
     (\<exists>r T x m sf sr sm. k' = k\<lparr>mach := (mach k)\<lparr>ram := r, tables := T, cr3 := x\<rparr>, frames := m,
        shared_frames := sf, shared_refs := sr, shared_marked_rm := sm\<rparr>) \<and>
     (\<forall>g j. table k' g j \<noteq> table k g j \<longrightarrow> g = u \<and> 28 \<le> j \<or> g = kt \<and> j = 512) \<and>
     (cr3 (mach k') = cr3 (mach k) \<or> cr3 (mach k') = get_DIR k (current k)) \<and>
     (frames_ok (frames k) \<longrightarrow> frames_ok (frames k')) \<and> first_kernel (frames k') = first_kernel (frames k) \<and>
     last_kernel (frames k') = last_kernel (frames k) \<and> pool k' \<subseteq> pool k \<and> wrote (pool k) k k'"

lemma shm_stepE:
  assumes "shm_step u kt k k'"
  obtains r T x m sf sr sm where "k' = k\<lparr>mach := (mach k)\<lparr>ram := r, tables := T, cr3 := x\<rparr>, frames := m,
        shared_frames := sf, shared_refs := sr, shared_marked_rm := sm\<rparr>"
  using assms unfolding shm_step_def by blast

lemma shm_stepD:
  assumes "shm_step u kt k k'"
  shows "tasks k' = tasks k" "links k' = links k" "current k' = current k" "scr k' = scr k" "kbd_st k' = kbd_st k"
    "idle_task k' = idle_task k" "pidGlobal k' = pidGlobal k" "kernel_page_table k' = kernel_page_table k"
    "kernel_page_table2 k' = kernel_page_table2 k" "buffer_sys k' = buffer_sys k" "paging (mach k') = paging (mach k)"
    "get_DIR k' = get_DIR k" "remaining_quantum k' = remaining_quantum k"
    "tss k' = tss k" "msr k' = msr k"
  using assms by (elim shm_stepE; simp add: get_DIR_def fun_eq_iff paging_def)+

lemma shm_step_table: "shm_step u kt k k' \<Longrightarrow> \<not> (g = u \<and> 28 \<le> j) \<Longrightarrow> \<not> (g = kt \<and> j = 512) \<Longrightarrow> table k' g j = table k g j"
  unfolding shm_step_def by blast

lemma shm_step_wrote: "shm_step u kt k k' \<Longrightarrow> wrote (pool k) k k'" "shm_step u kt k k' \<Longrightarrow> pool k' \<subseteq> pool k"
  by (simp_all add: shm_step_def)

lemma shm_stepI:
  assumes "k' = k\<lparr>mach := (mach k)\<lparr>ram := r, tables := T, cr3 := x\<rparr>, frames := m,
        shared_frames := sf, shared_refs := sr, shared_marked_rm := sm\<rparr>"
    and "\<And>g j. T g j \<noteq> table k g j \<Longrightarrow> g = u \<and> 28 \<le> j \<or> g = kt \<and> j = 512"
    and "x = cr3 (mach k) \<or> x = get_DIR k (current k)" and "frames_ok (frames k) \<Longrightarrow> frames_ok m"
    and "first_kernel m = first_kernel (frames k)" and "last_kernel m = last_kernel (frames k)" and "pool k' \<subseteq> pool k"
    and "\<And>a. r a \<noteq> ram (mach k) a \<Longrightarrow> a div 4096 \<in> pool k"
  shows "shm_step u kt k k'"
proof -
  have s: "table k' = T" "cr3 (mach k') = x" "frames k' = m" by (simp_all add: assms(1) table_def fun_eq_iff)
  have "\<exists>r T x m sf sr sm. k' = k\<lparr>mach := (mach k)\<lparr>ram := r, tables := T, cr3 := x\<rparr>, frames := m,
        shared_frames := sf, shared_refs := sr, shared_marked_rm := sm\<rparr>"
    using assms(1) by blast
  moreover have "wrote (pool k) k k'" using assms(8) by (simp add: wrote_def assms(1))
  ultimately show ?thesis using assms(2-7) unfolding shm_step_def s by simp
qed

lemma shm_step_refl: "shm_step u kt k k"
  by (rule shm_stepI [where r = "ram (mach k)" and T = "tables (mach k)" and x = "cr3 (mach k)" and m = "frames k"
        and sf = "shared_frames k" and sr = "shared_refs k" and sm = "shared_marked_rm k"])
    (simp_all add: table_def)

lemma shm_step_trans:
  assumes a: "shm_step u kt k k'" and b: "shm_step u kt k' k''"
  shows "shm_step u kt k k''"
proof -
  obtain r T x m sf sr sm where k': "k' = k\<lparr>mach := (mach k)\<lparr>ram := r, tables := T, cr3 := x\<rparr>, frames := m,
        shared_frames := sf, shared_refs := sr, shared_marked_rm := sm\<rparr>" using a by (rule shm_stepE)
  obtain r' T' x' m' sf' sr' sm' where k'': "k'' = k'\<lparr>mach := (mach k')\<lparr>ram := r', tables := T', cr3 := x'\<rparr>, frames := m',
        shared_frames := sf', shared_refs := sr', shared_marked_rm := sm'\<rparr>" using b by (rule shm_stepE)
  have e: "k'' = k\<lparr>mach := (mach k)\<lparr>ram := r', tables := T', cr3 := x'\<rparr>, frames := m',
        shared_frames := sf', shared_refs := sr', shared_marked_rm := sm'\<rparr>" unfolding k'' k' by simp
  have T': "table k'' = T'" by (simp add: e table_def fun_eq_iff)
  show ?thesis
  proof (rule shm_stepI [OF e])
    show "g = u \<and> 28 \<le> j \<or> g = kt \<and> j = 512" if "T' g j \<noteq> table k g j" for g j
      using that shm_step_table [OF a, of g j] shm_step_table [OF b, of g j] by (auto simp: T')
    show "frames_ok m'" if "frames_ok (frames k)"
      using a b that unfolding shm_step_def by (auto simp: k'')
    have "wrote (pool k) k k''"
      by (rule wrote_mono [OF wrote_trans [OF shm_step_wrote(1) [OF a] shm_step_wrote(1) [OF b]]])
        (use shm_step_wrote(2) [OF a] in simp)
    then show "a div 4096 \<in> pool k" if "r' a \<noteq> ram (mach k) a" for a using that by (simp add: wrote_def e)
    show "x' = cr3 (mach k) \<or> x' = get_DIR k (current k)" "first_kernel m' = first_kernel (frames k)"
      "last_kernel m' = last_kernel (frames k)" "pool k'' \<subseteq> pool k"
      using a b shm_stepD(3,12) [OF a] unfolding shm_step_def by (auto simp: k'')
  qed
qed

text \<open>They keep the invariant of the memory, but for the counts.\<close>

lemma mem_base_shm:
  assumes ok: "mem_base k L i cf" and me: "current k \<noteq> i"
    and st: "shm_step (user_table k (current k)) (the (kernel_page_table k)) k k'"
  shows "mem_base k' L i cf" and "user_tables k' L i = user_tables k L i"
    and "\<And>u. in_use L i u \<Longrightarrow> frame_of k' cf u = frame_of k cf u"
proof -
  note d = mem_baseD [OF ok]
  let ?u = "user_table k (current k)" and ?kt = "the (kernel_page_table k)"
  note t = shm_step_table [OF st] and sd = shm_stepD [OF st]
  note ta = tables_apart [OF d(8)]
  have rest: "cr3 (mach k') = get_DIR k (current k)" "frames_ok (frames k')" "pool k' \<subseteq> pool k"
    "first_kernel (frames k') = first_kernel (frames k)" "last_kernel (frames k') = last_kernel (frames k)"
    using st d(4,6) by (auto simp: shm_step_def)
  have "last_kernel (frames k) \<le> 512" using d(7) by (simp add: kernel_mapped_def)
  moreover have "?u \<noteq> ?kt" by (rule ta(5) [OF d(3) me])
  ultimately have tk: "table k' ?kt j = table k ?kt j" if "j < last_kernel (frames k)" for j
    using that by (intro t) auto
  have td: "table k' (get_DIR k p) j = table k (get_DIR k p) j" if "p \<in> L" for p j
    using ta(1,3) [OF that] d(3) me by (intro t) auto
  have tu: "table k' (user_table k p) j = table k (user_table k p) j" if "p \<in> L" "p \<noteq> i" "j < 28" for p j
    using ta(5) [OF that(1,2)] that(3) by (intro t) auto
  show "mem_base k' L i cf" "user_tables k' L i = user_tables k L i"
    "\<And>u. in_use L i u \<Longrightarrow> frame_of k' cf u = frame_of k cf u"
    by (rule mem_base_keep [OF ok]; use d sd rest td tu tk in simp)+
qed

section \<open>The operations are such steps\<close>

lemma shm_step_cleaned:
  assumes f: "shared_frames k i = int f" "f < TOTAL_PAGES" "last_kernel (frames k) \<le> f" and i: "i < 10"
    and kt: "get_PT k (current k) = kt"
  shows "shm_step u kt k (cleaned i f k)"
proof (rule shm_stepI)
  show "cleaned i f k = k\<lparr>mach := (mach k)\<lparr>ram := (\<lambda>a. if a div 4096 = f then 0 else ram (mach k) a),
          tables := (tables (mach k))(kt := (table k kt)(512 := 0)), cr3 := get_DIR k (current k)\<rparr>,
       frames := free_frame f (frames k), shared_frames := (shared_frames k)(i := -1),
       shared_refs := (shared_refs k)(i := 0), shared_marked_rm := (shared_marked_rm k)(i := 0)\<rparr>"
    by (simp add: cleaned_def kt)
  show "g = u \<and> 28 \<le> j \<or> g = kt \<and> j = 512"
    if "((tables (mach k))(kt := (table k kt)(512 := 0))) g j \<noteq> table k g j" for g j
    using that by (auto simp: table_def split: if_splits)
  show "a div 4096 \<in> pool k" if "(if a div 4096 = f then 0 else ram (mach k) a) \<noteq> ram (mach k) a" for a
    using f i that by (auto simp: pool_def split: if_splits)
  show "pool (cleaned i f k) \<subseteq> pool k"
    using f i by (auto simp: pool_def allocatable_def cleaned_def)
qed (simp_all add: frames_ok_free first_kernel_free)

lemma shm_step_flags:
  assumes "sr = shared_refs k'" "sm = shared_marked_rm k'"
    and "k' = k\<lparr>shared_refs := sr, shared_marked_rm := sm\<rparr>"
  shows "shm_step u kt k k'"
proof (rule shm_stepI)
  show "k' = k\<lparr>mach := (mach k)\<lparr>ram := ram (mach k), tables := tables (mach k), cr3 := cr3 (mach k)\<rparr>,
       frames := frames k, shared_frames := shared_frames k, shared_refs := sr, shared_marked_rm := sm\<rparr>"
    by (simp add: assms(3))
qed (use assms(3) in \<open>simp_all add: table_def pool_def\<close>)

lemma shm_step_map:
  assumes "28 \<le> p"
  shows "shm_step u kt k (set_cr3 (get_DIR k (current k)) ((upd_table u (\<lambda>t. t(p := e)) k)\<lparr>shared_refs := sr\<rparr>))"
proof (rule shm_stepI)
  show "set_cr3 (get_DIR k (current k)) ((upd_table u (\<lambda>t. t(p := e)) k)\<lparr>shared_refs := sr\<rparr>) =
      k\<lparr>mach := (mach k)\<lparr>ram := ram (mach k), tables := (tables (mach k))(u := (table k u)(p := e)),
          cr3 := get_DIR k (current k)\<rparr>,
       frames := frames k, shared_frames := shared_frames k, shared_refs := sr, shared_marked_rm := shared_marked_rm k\<rparr>"
    by (simp add: set_cr3_def upd_table_def table_def)
  show "g = u \<and> 28 \<le> j \<or> g = kt \<and> j = 512"
    if "((tables (mach k))(u := (table k u)(p := e))) g j \<noteq> table k g j" for g j
    using that assms by (auto simp: table_def split: if_splits)
qed (simp_all add: pool_def)

lemma shm_step_attached:
  assumes "28 \<le> p"
  shows "shm_step u kt k (attached i f u p k)"
  using shm_step_map [OF assms, of u kt k _ "set_ss_pag (table k u) p f 1 p"]
  by (simp add: attached_def upd_table_def set_ss_pag_upd [of _ p f 1, symmetric] table_def)

lemma shm_step_shmat_map:
  assumes f: "shared_frames k i = int f"
  shows "shm_step (user_table k (current k)) kt k (snd (shmat_map i addr k))"
  by (rule shmat_map_cases [OF f, of addr]) (simp_all add: shm_step_refl shm_step_attached)

lemma shm_step_shmat: "shm_step (user_table k (current k)) kt k (snd (sys_shmat i addr k))"
proof (cases "i < 0 \<or> i \<ge> 10 \<or> shared_marked_rm k (nat i) = 1")
  case True
  then show ?thesis by (auto simp: sys_shmat_def Let_def shm_step_refl)
next
  case False
  let ?i = "nat i"
  show ?thesis
  proof (cases "shared_frames k ?i < 0")
    case pos: False
    then obtain f where f: "shared_frames k ?i = int f" by (metis not_less nonneg_int_cases)
    then show ?thesis using False pos shm_step_shmat_map [OF f, of kt addr] by (simp add: sys_shmat_def Let_def)
  next
    case neg: True
    have step: "shm_step (user_table k (current k)) kt k (k\<lparr>frames := m, shared_frames := (shared_frames k)(?i := x)\<rparr>)"
      if "frames_ok (frames k) \<Longrightarrow> frames_ok m" "first_kernel m = first_kernel (frames k)"
        "last_kernel m = last_kernel (frames k)" "allocatable m \<subseteq> allocatable (frames k)"
        "x = -1 \<or> (\<exists>f. x = int f \<and> f \<in> allocatable (frames k))" for m x
    proof (rule shm_stepI)
      show "k\<lparr>frames := m, shared_frames := (shared_frames k)(?i := x)\<rparr> =
        k\<lparr>mach := (mach k)\<lparr>ram := ram (mach k), tables := tables (mach k), cr3 := cr3 (mach k)\<rparr>, frames := m,
          shared_frames := (shared_frames k)(?i := x), shared_refs := shared_refs k, shared_marked_rm := shared_marked_rm k\<rparr>"
        by simp
      show "pool (k\<lparr>frames := m, shared_frames := (shared_frames k)(?i := x)\<rparr>) \<subseteq> pool k"
        using that(4,5) by (auto simp: pool_def split: if_splits)
    qed (use that in \<open>simp_all add: table_def\<close>)
    show ?thesis
    proof (cases rule: alloc_frame_cases [of "frames k"])
      case 1
      then show ?thesis
        using False neg step [of "frames k" "-1"] by (simp add: sys_shmat_def Let_def kernel_alloc_frame_def)
    next
      case (2 f)
      let ?m = "(frames k)\<lparr>phys_mem := (phys_mem (frames k))(f := USED_FRAME)\<rparr>"
      let ?k = "k\<lparr>frames := ?m, shared_frames := (shared_frames k)(?i := int f)\<rparr>"
      have s: "shm_step (user_table k (current k)) kt k ?k"
      proof (rule step)
        show "frames_ok ?m" if "frames_ok (frames k)" using frames_ok_alloc [OF that] 2(3) by simp
        show "allocatable ?m \<subseteq> allocatable (frames k)" by (auto simp: allocatable_def)
      qed (use 2(1) in auto)
      have "shm_step (user_table ?k (current ?k)) kt ?k (snd (shmat_map ?i addr ?k))"
        by (rule shm_step_shmat_map) simp
      then show ?thesis
        using shm_step_trans [OF s] False neg 2(3) by (simp add: sys_shmat_def Let_def kernel_alloc_frame_def)
    qed
  qed
qed

lemma mem_ok_user_space:
  assumes ok: "mem_ok k L i cf" and me: "current k \<noteq> i"
  shows "user_space k (user_tables k L i)" and "get_PT k (current k) = the (kernel_page_table k)"
    and "user_table k (current k) \<in> user_tables k L i"
proof -
  note d = mem_okD [OF ok]
  note ta = tables_apart [OF d(8)]
  have sk: "sees_kernel k (current k)" by (rule d(9) [OF d(3)])
  then show pt: "get_PT k (current k) = the (kernel_page_table k)"
    by (simp add: get_PT_table sees_kernel_def)
  show u: "user_table k (current k) \<in> user_tables k L i" using d(3) me by (auto simp: user_tables_def)
  have "the (kernel_page_table k) \<notin> user_tables k L i" "get_DIR k (current k) \<notin> user_tables k L i"
    using ta(3) [OF d(3)] ta(5) by (force simp: user_tables_def)+
  then show "user_space k (user_tables k L i)"
    using u sk d(5) ta(1) [OF d(3)] by (auto simp: user_space_def kernel_space_def pt sees_kernel_def)
qed

lemma shm_step_drop:
  assumes ks: "kernel_space k" and f: "shared_frames k i = int f" "f < TOTAL_PAGES" "last_kernel (frames k) \<le> f"
    and i: "i < 10" and kt: "get_PT k (current k) = kt"
  shows "\<exists>k'. drop_reference i k = Some k' \<and> shm_step u kt k k'"
proof -
  let ?k = "k\<lparr>shared_refs := (shared_refs k)(i := shared_refs k i - 1)\<rparr>"
  have s: "shm_step u kt k ?k" by (rule shm_step_flags [OF refl refl]) simp
  have kt': "get_PT ?k (current ?k) = kt" using kt by (simp add: get_PT_def)
  have "kernel_space ?k" using ks by (simp add: kernel_space_def get_PT_def)
  then have "cleanup_shared_page i ?k = Some (cleaned i f ?k)"
    using f(1,2) by (intro cleanup_shared_page_eq) simp_all
  moreover have "shm_step u kt ?k (cleaned i f ?k)"
    by (rule shm_step_cleaned [OF _ f(2) _ i kt']) (use f in simp_all)
  ultimately show ?thesis
    using s shm_step_trans [OF s] by (auto simp: drop_reference_def Let_def)
qed

lemma shared_id_known:
  assumes ok: "mem_ok k L i cf" and s: "shared_id k' f = Some j" and same: "shared_frames k' = shared_frames k"
  shows "j < 10" and "shared_frames k j = int f" and "f < TOTAL_PAGES" and "last_kernel (frames k) \<le> f"
proof -
  note d = mem_okD [OF ok]
  have j: "j < 10 \<and> shared_frames k j = int f" using s same by (auto simp: shared_id_def find_Some_iff)
  then show "j < 10" "shared_frames k j = int f" by simp_all
  show "f < TOTAL_PAGES" using shm_okD(2) [OF d(11), of j f] j by simp
  have "f \<in> pool k" using j by (auto simp: pool_def)
  then show "last_kernel (frames k) \<le> f" by (rule pool_apart(2) [OF d(8)])
qed

text \<open>Unmapping a page.\<close>

lemma kernel_space_unmap:
  assumes ks: "user_space k U" and u: "u \<in> U"
  shows "kernel_space (set_cr3 x (upd_table u f k))" and "get_PT (set_cr3 x (upd_table u f k)) (current k) = get_PT k (current k)"
proof -
  have ne: "get_DIR k (current k) \<noteq> u" using ks u by (auto simp: user_space_def)
  show pt: "get_PT (set_cr3 x (upd_table u f k)) (current k) = get_PT k (current k)"
    unfolding get_PT_table using ne by simp
  show "kernel_space (set_cr3 x (upd_table u f k))"
    using ks ne pt by (simp add: user_space_def kernel_space_def paging_def)
qed

lemma shm_step_shmdt:
  assumes ok: "mem_ok k L i cf" and me: "current k \<noteq> i"
  obtains r k' where "sys_shmdt addr k = Some (r, k')" and "shm_ok k' (user_tables k L i)"
    and "shm_step (user_table k (current k)) (the (kernel_page_table k)) k k'"
proof (cases "\<exists>p. attached_at k addr p")
  case False
  then show thesis
    using that [OF sys_shmdt_refuses mem_okD(11) [OF ok] shm_step_refl] by blast
next
  case True
  then obtain p where at: "attached_at k addr p" by blast
  note us = mem_ok_user_space [OF ok me]
  let ?u = "user_table k (current k)" and ?kt = "the (kernel_page_table k)" and ?U = "user_tables k L i"
  obtain k' where k': "sys_shmdt addr k = Some (0, k')" "shm_ok k' ?U"
    using sys_shmdt_detaches [OF mem_okD(11) [OF ok] us(1) at] by metis
  have p: "unat addr = (2048 + p) * 4096" "28 \<le> p" "p < 1024" "present (table k ?u) p"
    using at by (simp_all add: attached_at_def)
  note a = address_of_page [OF p(1-3)]
  have c: "drop_bit 12 L_USER_START = (0x800 :: dword)" by (simp add: drop_bit_eq_div)
  let ?f = "get_frame (table k ?u) p"
  obtain j where j: "shared_id k ?f = Some j"
    using shared_id_Some [OF mem_okD(11) [OF ok] us(3) p(2-4)] by metis
  note sj = shared_id_known [OF ok j refl]
  let ?k = "set_cr3 (get_DIR k (current k)) (upd_table ?u (\<lambda>t. del_ss_pag t p) k)"
  note ks = kernel_space_unmap [OF us(1) us(3), of "get_DIR k (current k)" "\<lambda>t. del_ss_pag t p"]
  obtain k'' where k'': "drop_reference j ?k = Some k''" "shm_step ?u ?kt ?k k''"
    using shm_step_drop [OF ks(1), of j ?f ?kt ?u] sj ks(2) us(2) by auto
  have "sys_shmdt addr k = Some (0, k'')"
    using a j p(4) k''(1) by (simp add: sys_shmdt_def Let_def c)
  moreover have "shm_step ?u ?kt k ?k"
    using shm_step_map [OF p(2), of ?u ?kt k "shared_refs k" 0] by (simp add: del_ss_pag_def set_cr3_def upd_table_def)
  ultimately show thesis
    using that [of 0 k''] k' shm_step_trans [OF _ k''(2)] by simp
qed

lemma shm_step_shmrm:
  assumes ok: "mem_ok k L i cf" and me: "current k \<noteq> i"
  obtains r k' where "sys_shmrm s k = Some (r, k')" and "shm_ok k' (user_tables k L i)"
    and "shm_step (user_table k (current k)) (the (kernel_page_table k)) k k'"
proof (cases "s < 0 \<or> s \<ge> 10 \<or> shared_frames k (nat s) < 0")
  case True
  then have "sys_shmrm s k = Some (- EINVAL, k)" by (auto simp: sys_shmrm_def Let_def)
  then show thesis by (rule that [OF _ mem_okD(11) [OF ok] shm_step_refl])
next
  case False
  then have s: "0 \<le> s" "s < 10" "nat s < 10" by auto
  obtain f where f: "shared_frames k (nat s) = int f" using False by (metis not_less nonneg_int_cases)
  note us = mem_ok_user_space [OF ok me]
  note rm = sys_shmrm_ok [OF mem_okD(11) [OF ok] us(1) s(1,2) f]
  let ?u = "user_table k (current k)" and ?kt = "the (kernel_page_table k)"
  let ?k = "k\<lparr>shared_marked_rm := (shared_marked_rm k)(nat s := 1)\<rparr>"
  have fr: "f < TOTAL_PAGES" using shm_okD(2) [OF mem_okD(11) [OF ok] s(3) f] by simp
  have "f \<in> pool k" using s(3) f by (auto simp: pool_def)
  then have lf: "last_kernel (frames k) \<le> f" by (rule pool_apart(2) [OF mem_okD(8) [OF ok]])
  have a: "shm_step ?u ?kt k ?k" by (rule shm_step_flags [OF refl refl]) simp
  have kt: "get_PT ?k (current ?k) = ?kt" using us(2) by (simp add: get_PT_def)
  have "shm_step ?u ?kt ?k (cleaned (nat s) f ?k)"
    by (rule shm_step_cleaned [OF _ fr _ s(3) kt]) (use f lf in simp_all)
  then show thesis
    using that [OF rm(1)] rm a shm_step_trans [OF a] by auto
qed

end
