(* ===== verification/Fork.thy ===== *)
theory Fork
  imports Memory_Map
begin

text \<open>
  \<open>sys_fork\<close> of \<open>sys.c\<close>. The copy of the parent's PCB and stack page is \<open>copy_task_union\<close>: the fields of the
  PCB, the stack (through \<open>resume\<close>) and the raw pointers of the five list nodes inside it.
\<close>

section \<open>sys\_fork\<close>

definition copy_node :: "knode \<Rightarrow> knode \<Rightarrow> knode list_heap \<Rightarrow> knode list_heap" where
  "copy_node a b h = h\<lparr>nxt := (nxt h)(b := nxt h a), prv := (prv h)(b := prv h a)\<rparr>"

text \<open>\<open>copy_data (current(), child, sizeof (union task_union))\<close>\<close>

definition copy_task_union :: "nat \<Rightarrow> nat \<Rightarrow> kernel \<Rightarrow> kernel" where
  "copy_task_union p c k =
     k\<lparr>tasks := (tasks k)(c := tasks k p),
       links := fold (\<lambda>n h. copy_node (n p) (n c) h)
         [At_list, At_children_blocked, At_children_unblocked, At_sibiling, At_task_list] (links k)\<rparr>"

text \<open>The loop that gives the child frames for its data pages, from page \<open>i\<close> on; \<open>fs\<close> are the frames so far.
  On failure they are freed again.\<close>

function fork_data_pages :: "nat \<Rightarrow> nat \<Rightarrow> nat list \<Rightarrow> kernel \<Rightarrow> nat list option \<times> kernel" where
  "fork_data_pages child_ut i fs k =
     (if i < NUM_PAG_DATA then
        let (f, k) = kernel_alloc_frame k in
        if f < 0 then (None, fold kernel_free_frame fs k)
        else fork_data_pages child_ut (Suc i) (fs @ [nat f])
               (upd_table child_ut (\<lambda>t. set_ss_pag t i (nat f) 1) k)
      else (Some fs, k))"
  by pat_completeness auto
termination
  by (relation "measure (\<lambda>(u, i, fs, k). NUM_PAG_DATA - i)") auto

declare fork_data_pages.simps [simp del]

text \<open>One round of the loop that copies the data through the temporary mapping at page 512.\<close>

definition fork_copy_page :: "nat list \<Rightarrow> nat \<Rightarrow> kernel \<Rightarrow> kernel option" where
  "fork_copy_page fs i k = do {
     let me = current k;
     let k = upd_table (get_PT k me) (\<lambda>t. set_ss_pag t 512 (fs ! i) 0) k;
     let k = set_cr3 (get_DIR k me) k;
     k \<leftarrow> on_mach (copy_data (of_nat ((2048 + i) * PAGE_SIZE)) (of_nat (512 * PAGE_SIZE)) (int PAGE_SIZE)) k;
     Some (upd_table (get_PT k me) (\<lambda>t. del_ss_pag t 512) k) }"

definition fork_copy_pages :: "nat list \<Rightarrow> kernel \<Rightarrow> kernel option" where
  "fork_copy_pages fs k =
     fold (\<lambda>i r. Option.bind r (fork_copy_page fs i)) [0..<NUM_PAG_DATA] (Some k)"

text \<open>The child inherits a page of shared memory.\<close>

definition fork_share_page :: "nat \<Rightarrow> nat \<Rightarrow> nat \<Rightarrow> kernel \<Rightarrow> kernel" where
  "fork_share_page parent_ut child_ut shm_idx k =
     (if present (table k parent_ut) shm_idx then
        let shm_frame = get_frame (table k parent_ut) shm_idx in
        (case shared_id k shm_frame of
           Some i \<Rightarrow>
             let k = upd_table child_ut (\<lambda>t. set_ss_pag t shm_idx shm_frame 1) k
             in k\<lparr>shared_refs := (shared_refs k)(i := shared_refs k i + 1)\<rparr>
         | None \<Rightarrow> k)
      else k)"

text \<open>The code of the parent mapped in the child.\<close>

definition fork_code_pages :: "nat \<Rightarrow> nat \<Rightarrow> kernel \<Rightarrow> kernel" where
  "fork_code_pages parent_ut child_ut k =
     fold (\<lambda>i k. upd_table child_ut
             (\<lambda>t. set_ss_pag t (NUM_PAG_DATA + i) (get_frame (table k parent_ut) (NUM_PAG_DATA + i)) 1) k)
       [0..<NUM_PAG_CODE] k"

text \<open>The middle of \<open>sys_fork\<close>, from \<open>allocate_DIR\<close> to the shared pages: the address space of the child.
  The result is 0 or the error \<open>sys_fork\<close> returns.\<close>

definition fork_address_space :: "nat \<Rightarrow> kernel \<Rightarrow> (int \<times> kernel) option" where
  "fork_address_space child k =
     (let me = current k;
          (r, k) = allocate_DIR child k;
          (child_ut_frame, k) = kernel_alloc_frame k
      in if child_ut_frame < 0 then do {
           k \<leftarrow> free_pcb child k;
           Some (- EAGAIN, k) }
         else
           let child_ut = nat child_ut_frame;
               k = map_new_frame child_ut k;
               k = upd_table child_ut clear_page_table k;
               k = upd_table (get_DIR k child) (\<lambda>t. set_ss_pag t 2 child_ut 1) k;
               parent_ut = user_table k me;
               k = fork_code_pages parent_ut child_ut k;
               (frames_data, k) = fork_data_pages child_ut 0 [] k
           in (case frames_data of
                 None \<Rightarrow> do {
                   let k = kernel_free_frame child_ut k;
                   k \<leftarrow> free_pcb child k;
                   Some (- EAGAIN, k) }
               | Some fs \<Rightarrow> do {
                   k \<leftarrow> fork_copy_pages fs k;
                   let k = set_cr3 (get_DIR k me) k;
                   Some (0, fold (fork_share_page parent_ut child_ut)
                              [NUM_PAG_DATA + NUM_PAG_CODE..<PT_ENTRIES] k) }))"

text \<open>The end of \<open>sys_fork\<close>: identity, family and queues of the child.\<close>

definition fork_enlist :: "nat \<Rightarrow> kernel \<Rightarrow> (int \<times> kernel) option" where
  "fork_enlist child k = do {
     let me = current k;
     let k = k\<lparr>pidGlobal := pidGlobal k + 1\<rparr>;
     let k = upd_task child (\<lambda>p. p\<lparr>PID := pidGlobal k, quantum := 10, parent := Some me\<rparr>) k;
     let k = k\<lparr>links := INIT_LIST_HEAD (At_children_blocked child) (links k)\<rparr>;
     let k = k\<lparr>links := INIT_LIST_HEAD (At_children_unblocked child) (links k)\<rparr>;
     k \<leftarrow> on_links (list_add_tail (At_sibiling child) (At_children_unblocked me)) k;
     let k = upd_task child (\<lambda>p. p\<lparr>pending_unblocks := 0, resume := Ret_from_fork\<rparr>) k;
     k \<leftarrow> on_links (list_add_tail (At_list child) Readyqueue) k;
     Some (PID (tasks k child), k) }"

definition sys_fork :: "kernel \<Rightarrow> (int \<times> kernel) option" where
  "sys_fork k = do {
     (pcb_child, k) \<leftarrow> alloc_pcb k;
     (case pcb_child of
        None \<Rightarrow> Some (- ENOMEM, k)
      | Some child \<Rightarrow> do {
          let k = copy_task_union (current k) child k;
          (r, k) \<leftarrow> fork_address_space child k;
          if r < 0 then Some (r, k) else fork_enlist child k }) }"

section \<open>A frame for the kernel\<close>

lemma kernel_alloc_frame_cases:
  assumes "frames_ok (frames k)"
  obtains "allocatable (frames k) = {}" and "kernel_alloc_frame k = (-1, k)"
  | f m where "f \<in> allocatable (frames k)" and "kernel_alloc_frame k = (int f, k\<lparr>frames := m\<rparr>)"
      and "free_frames m = free_frames (frames k) - {f}" and "first_kernel m = first_kernel (frames k)"
      and "last_kernel m = last_kernel (frames k)" and "frames_ok m"
      and "allocatable m = allocatable (frames k) - {f}"
proof (cases "frames k" rule: alloc_frame_cases)
  case 1
  then show ?thesis using that(1) by (simp add: kernel_alloc_frame_def)
next
  case (2 f)
  let ?m = "(frames k)\<lparr>phys_mem := (phys_mem (frames k))(f := USED_FRAME)\<rparr>"
  have "frames_ok ?m" using frames_ok_alloc [OF assms] 2(3) by simp
  moreover have "allocatable ?m = allocatable (frames k) - {f}" by (auto simp: allocatable_def free_frames_def)
  ultimately show ?thesis using that(2) [of f ?m] 2 by (simp add: kernel_alloc_frame_def)
qed

text \<open>The identity mapping of a new frame, in the table for its half of memory.\<close>

lemma map_new_frame_eq:
  assumes "kernel_page_table k = Some kt" and "kernel_page_table2 k = Some kt2"
  shows "map_new_frame f k = (if f < 1024 then upd_table kt (\<lambda>t. set_ss_pag t f f 0) k
           else upd_table kt2 (\<lambda>t. set_ss_pag t (f - 1024) f 0) k)"
  using assms by (simp add: map_new_frame_def auto_map_kernel_frame_def)

lemma map_new_frame_simps [simp]:
  "frames (map_new_frame f k) = frames k" "scr (map_new_frame f k) = scr k"
  "kbd_st (map_new_frame f k) = kbd_st k" "links (map_new_frame f k) = links k"
  "current (map_new_frame f k) = current k" "idle_task (map_new_frame f k) = idle_task k"
  "init_task (map_new_frame f k) = init_task k"
  "kernel_page_table (map_new_frame f k) = kernel_page_table k"
  "kernel_page_table2 (map_new_frame f k) = kernel_page_table2 k"
  "remaining_quantum (map_new_frame f k) = remaining_quantum k"
  "pidGlobal (map_new_frame f k) = pidGlobal k" "zeos_ticks (map_new_frame f k) = zeos_ticks k"
  "shared_frames (map_new_frame f k) = shared_frames k" "shared_refs (map_new_frame f k) = shared_refs k"
  "shared_marked_rm (map_new_frame f k) = shared_marked_rm k" "tss (map_new_frame f k) = tss k"
  "msr (map_new_frame f k) = msr k" "buffer_sys (map_new_frame f k) = buffer_sys k"
  "tasks (map_new_frame f k) = tasks k"
  "ram (mach (map_new_frame f k)) = ram (mach k)" "cr3 (mach (map_new_frame f k)) = cr3 (mach k)"
  "cr0 (mach (map_new_frame f k)) = cr0 (mach k)"
  by (simp_all add: map_new_frame_def auto_map_kernel_frame_def split: option.splits)

lemma map_new_frame_table:
  assumes "kernel_page_table k = Some kt" and "kernel_page_table2 k = Some kt2" and "kt \<noteq> kt2"
  shows "g \<noteq> kt \<Longrightarrow> g \<noteq> kt2 \<Longrightarrow> table (map_new_frame f k) g = table k g"
    and "j \<noteq> f \<Longrightarrow> table (map_new_frame f k) kt j = table k kt j"
  using assms by (auto simp: map_new_frame_eq)

text \<open>Two states that differ at most in frames, tables and PCB fields of one process.\<close>

definition grows :: "nat \<Rightarrow> nat set \<Rightarrow> kernel \<Rightarrow> kernel \<Rightarrow> bool" where
  "grows c N k k' \<longleftrightarrow>
     (\<exists>m T r. k' = k\<lparr>frames := m, mach := (mach k)\<lparr>tables := T\<rparr>,
        tasks := (tasks k)(c := (tasks k c)\<lparr>dir_pages_baseAddr := r\<rparr>)\<rparr>) \<and>
     N \<subseteq> allocatable (frames k) \<and> free_frames (frames k') = free_frames (frames k) - N \<and>
     allocatable (frames k') = allocatable (frames k) - N \<and>
     first_kernel (frames k') = first_kernel (frames k) \<and> last_kernel (frames k') = last_kernel (frames k) \<and>
     frames_ok (frames k') \<and>
     (\<forall>g. g \<notin> N \<longrightarrow> g \<noteq> the (kernel_page_table k) \<longrightarrow> g \<noteq> the (kernel_page_table2 k) \<longrightarrow> table k' g = table k g) \<and>
     (\<forall>j. j \<notin> N \<longrightarrow> table k' (the (kernel_page_table k)) j = table k (the (kernel_page_table k)) j)"

lemma growsD:
  assumes "grows c N k k'"
  shows "scr k' = scr k" "kbd_st k' = kbd_st k" "links k' = links k" "current k' = current k"
    "idle_task k' = idle_task k" "init_task k' = init_task k" "kernel_page_table k' = kernel_page_table k"
    "kernel_page_table2 k' = kernel_page_table2 k" "remaining_quantum k' = remaining_quantum k"
    "pidGlobal k' = pidGlobal k" "zeos_ticks k' = zeos_ticks k" "shared_frames k' = shared_frames k"
    "shared_refs k' = shared_refs k" "shared_marked_rm k' = shared_marked_rm k" "tss k' = tss k"
    "msr k' = msr k" "buffer_sys k' = buffer_sys k" "ram (mach k') = ram (mach k)"
    "cr3 (mach k') = cr3 (mach k)" "cr0 (mach k') = cr0 (mach k)"
    "tasks k' = (tasks k)(c := (tasks k c)\<lparr>dir_pages_baseAddr := get_DIR k' c\<rparr>)"
    "N \<subseteq> allocatable (frames k)" "free_frames (frames k') = free_frames (frames k) - N"
    "allocatable (frames k') = allocatable (frames k) - N"
    "first_kernel (frames k') = first_kernel (frames k)" "last_kernel (frames k') = last_kernel (frames k)"
    "frames_ok (frames k')"
    "g \<notin> N \<Longrightarrow> g \<noteq> the (kernel_page_table k) \<Longrightarrow> g \<noteq> the (kernel_page_table2 k) \<Longrightarrow> table k' g = table k g"
    "j \<notin> N \<Longrightarrow> table k' (the (kernel_page_table k)) j = table k (the (kernel_page_table k)) j"
    "p \<noteq> c \<Longrightarrow> get_DIR k' p = get_DIR k p"
proof -
  obtain m T r where e: "k' = k\<lparr>frames := m, mach := (mach k)\<lparr>tables := T\<rparr>,
        tasks := (tasks k)(c := (tasks k c)\<lparr>dir_pages_baseAddr := r\<rparr>)\<rparr>"
    using assms unfolding grows_def by blast
  show "scr k' = scr k" "kbd_st k' = kbd_st k" "links k' = links k" "current k' = current k"
    "idle_task k' = idle_task k" "init_task k' = init_task k" "kernel_page_table k' = kernel_page_table k"
    "kernel_page_table2 k' = kernel_page_table2 k" "remaining_quantum k' = remaining_quantum k"
    "pidGlobal k' = pidGlobal k" "zeos_ticks k' = zeos_ticks k" "shared_frames k' = shared_frames k"
    "shared_refs k' = shared_refs k" "shared_marked_rm k' = shared_marked_rm k" "tss k' = tss k"
    "msr k' = msr k" "buffer_sys k' = buffer_sys k" "ram (mach k') = ram (mach k)"
    "cr3 (mach k') = cr3 (mach k)" "cr0 (mach k') = cr0 (mach k)"
    "tasks k' = (tasks k)(c := (tasks k c)\<lparr>dir_pages_baseAddr := get_DIR k' c\<rparr>)"
    "p \<noteq> c \<Longrightarrow> get_DIR k' p = get_DIR k p"
    by (simp_all add: e get_DIR_def)
qed (use assms in \<open>auto simp: grows_def\<close>)

lemma grows_refl: "frames_ok (frames k) \<Longrightarrow> grows c {} k k"
  unfolding grows_def
  by (intro conjI exI [of _ "frames k"] exI [of _ "tables (mach k)"]
      exI [of _ "dir_pages_baseAddr (tasks k c)"]) simp_all

lemma grows_trans:
  assumes a: "grows c M k k'" and b: "grows c N k' k''"
  shows "grows c (M \<union> N) k k''"
proof -
  obtain m T r where e: "k' = k\<lparr>frames := m, mach := (mach k)\<lparr>tables := T\<rparr>,
        tasks := (tasks k)(c := (tasks k c)\<lparr>dir_pages_baseAddr := r\<rparr>)\<rparr>"
    using a unfolding grows_def by blast
  obtain m' T' r' where e': "k'' = k'\<lparr>frames := m', mach := (mach k')\<lparr>tables := T'\<rparr>,
        tasks := (tasks k')(c := (tasks k' c)\<lparr>dir_pages_baseAddr := r'\<rparr>)\<rparr>"
    using b unfolding grows_def by blast
  have "k'' = k\<lparr>frames := m', mach := (mach k)\<lparr>tables := T'\<rparr>,
        tasks := (tasks k)(c := (tasks k c)\<lparr>dir_pages_baseAddr := r'\<rparr>)\<rparr>"
    unfolding e' e by simp
  then have "\<exists>m T r. k'' = k\<lparr>frames := m, mach := (mach k)\<lparr>tables := T\<rparr>,
        tasks := (tasks k)(c := (tasks k c)\<lparr>dir_pages_baseAddr := r\<rparr>)\<rparr>" by blast
  moreover note x = growsD [OF a] and y = growsD [OF b]
  have "\<forall>g. g \<notin> M \<union> N \<longrightarrow> g \<noteq> the (kernel_page_table k) \<longrightarrow> g \<noteq> the (kernel_page_table2 k) \<longrightarrow>
        table k'' g = table k g"
    using x(28) y(28) unfolding x(7,8) by auto
  moreover have "\<forall>j. j \<notin> M \<union> N \<longrightarrow>
        table k'' (the (kernel_page_table k)) j = table k (the (kernel_page_table k)) j"
    using x(29) y(29) unfolding x(7,8) by auto
  moreover have "M \<union> N \<subseteq> allocatable (frames k)" using x(22) y(22) unfolding x(24) by blast
  moreover have "free_frames (frames k'') = free_frames (frames k) - (M \<union> N)"
    "allocatable (frames k'') = allocatable (frames k) - (M \<union> N)"
    unfolding y(23,24) x(23,24) by blast+
  ultimately show ?thesis
    unfolding grows_def using y(25-27) unfolding x(25-27) by auto
qed

text \<open>Changes inside the new tables.\<close>

lemma grows_upd_table:
  assumes "grows c N k k'" and "g \<in> N" and "g \<noteq> the (kernel_page_table k)"
  shows "grows c N k (upd_table g f k')"
proof -
  obtain m T r where e: "k' = k\<lparr>frames := m, mach := (mach k)\<lparr>tables := T\<rparr>,
        tasks := (tasks k)(c := (tasks k c)\<lparr>dir_pages_baseAddr := r\<rparr>)\<rparr>"
    using assms unfolding grows_def by blast
  have "upd_table g f k' = k\<lparr>frames := m, mach := (mach k)\<lparr>tables := T(g := f (T g))\<rparr>,
        tasks := (tasks k)(c := (tasks k c)\<lparr>dir_pages_baseAddr := r\<rparr>)\<rparr>"
    unfolding e by (simp add: upd_table_def)
  then have "\<exists>m T r. upd_table g f k' = k\<lparr>frames := m, mach := (mach k)\<lparr>tables := T\<rparr>,
        tasks := (tasks k)(c := (tasks k c)\<lparr>dir_pages_baseAddr := r\<rparr>)\<rparr>" by blast
  moreover note growsD [OF assms(1)]
  ultimately show ?thesis using assms(2,3) unfolding grows_def by auto
qed

text \<open>One frame more, mapped in the kernel's tables.\<close>

lemma grows_alloc:
  assumes "frames_ok (frames k)" and kt: "kernel_page_table k = Some kt" "kernel_page_table2 k = Some kt2" "kt \<noteq> kt2"
    and f: "f \<in> allocatable (frames k)" "free_frames m = free_frames (frames k) - {f}"
      "first_kernel m = first_kernel (frames k)" "last_kernel m = last_kernel (frames k)" "frames_ok m"
      "allocatable m = allocatable (frames k) - {f}"
  shows "grows c {f} k (map_new_frame f (k\<lparr>frames := m\<rparr>))"
proof -
  let ?k = "k\<lparr>frames := m\<rparr>"
  let ?g = "if f < 1024 then kt else kt2" and ?j = "if f < 1024 then f else f - 1024"
  have "map_new_frame f ?k = upd_table ?g (\<lambda>t. set_ss_pag t ?j f 0) ?k"
    using map_new_frame_eq [of ?k kt kt2] kt by simp
  also have "\<dots> = k\<lparr>frames := m, mach := (mach k)\<lparr>tables := (tables (mach k))(?g := set_ss_pag (tables (mach k) ?g) ?j f 0)\<rparr>,
        tasks := (tasks k)(c := (tasks k c)\<lparr>dir_pages_baseAddr := dir_pages_baseAddr (tasks k c)\<rparr>)\<rparr>"
    by (simp add: upd_table_def)
  finally have "\<exists>m' T r. map_new_frame f ?k = k\<lparr>frames := m', mach := (mach k)\<lparr>tables := T\<rparr>,
        tasks := (tasks k)(c := (tasks k c)\<lparr>dir_pages_baseAddr := r\<rparr>)\<rparr>" by blast
  moreover have "table (map_new_frame f ?k) g = table k g" if "g \<noteq> kt" "g \<noteq> kt2" for g
    using map_new_frame_table(1) [of ?k kt kt2 g f] kt that by simp
  moreover have "table (map_new_frame f ?k) kt j = table k kt j" if "j \<noteq> f" for j
    using map_new_frame_table(2) [of ?k kt kt2 j f] kt that by simp
  ultimately show ?thesis using f kt unfolding grows_def by simp
qed

lemma grows_dir:
  assumes "frames_ok (frames k)"
  shows "grows c {} k (upd_task c (\<lambda>p. p\<lparr>dir_pages_baseAddr := d\<rparr>) k)"
proof -
  have "upd_task c (\<lambda>p. p\<lparr>dir_pages_baseAddr := d\<rparr>) k =
      k\<lparr>frames := frames k, mach := (mach k)\<lparr>tables := tables (mach k)\<rparr>,
        tasks := (tasks k)(c := (tasks k c)\<lparr>dir_pages_baseAddr := d\<rparr>)\<rparr>"
    by (simp add: upd_task_def)
  then have "\<exists>m T r. upd_task c (\<lambda>p. p\<lparr>dir_pages_baseAddr := d\<rparr>) k = k\<lparr>frames := m, mach := (mach k)\<lparr>tables := T\<rparr>,
        tasks := (tasks k)(c := (tasks k c)\<lparr>dir_pages_baseAddr := r\<rparr>)\<rparr>" by blast
  then show ?thesis using assms unfolding grows_def by simp
qed

lemma rest_same_grows:
  assumes "grows c N k k'"
  shows "rest_same k k'"
proof -
  obtain m T r where "k' = k\<lparr>frames := m, mach := (mach k)\<lparr>tables := T\<rparr>,
        tasks := (tasks k)(c := (tasks k c)\<lparr>dir_pages_baseAddr := r\<rparr>)\<rparr>"
    using assms unfolding grows_def by blast
  then show ?thesis
    by (intro rest_sameI [where f = m and m = "(mach k)\<lparr>tables := T\<rparr>" and l = "links k" and r = "shared_refs k"]) simp
qed

lemma confined_grows: "grows c N k k' \<Longrightarrow> confined N k k'"
  using growsD [of c N k k'] rest_same_grows [of c N k k'] unfolding confined_def by auto

section \<open>The directory and the tables of the child\<close>

lemma allocate_DIR_cases:
  assumes fo: "frames_ok (frames k)" and kt: "kernel_page_table k = Some kt" "kernel_page_table2 k = Some kt2" "kt \<noteq> kt2"
    and me: "current k \<noteq> c" "get_DIR k (current k) = D" "D \<noteq> kt" "D \<noteq> kt2"
    and used: "D \<notin> allocatable (frames k)" "kt \<notin> allocatable (frames k)"
  obtains "allocatable (frames k) = {}" and "allocate_DIR c k = (-1, k)"
  | d k' where "allocate_DIR c k = (1, k')" and "grows c {d} k k'" and "get_DIR k' c = d"
      and "table k' d 0 = table k D 0" and "table k' d 1 = table k D 1"
      and "\<And>j. 2 \<le> j \<Longrightarrow> j < 1024 \<Longrightarrow> table k' d j = 0"
proof (cases rule: kernel_alloc_frame_cases [OF fo])
  case 1
  then show ?thesis using that(1) by (simp add: allocate_DIR_def)
next
  case (2 d m)
  let ?k1 = "map_new_frame d (k\<lparr>frames := m\<rparr>)"
  let ?k2 = "upd_task c (\<lambda>p. p\<lparr>dir_pages_baseAddr := d\<rparr>) ?k1"
  let ?k3 = "upd_table d clear_page_table ?k2"
  let ?k4 = "upd_table d (\<lambda>e. e(0 := table ?k3 (get_DIR ?k3 (current ?k3)) 0)) ?k3"
  let ?k5 = "upd_table d (\<lambda>e. e(1 := table ?k4 (get_DIR ?k4 (current ?k4)) 1)) ?k4"
  have ne: "d \<noteq> D" "d \<noteq> kt" using 2(1) used by auto
  have g1: "grows c {d} k ?k1" by (rule grows_alloc [OF fo kt 2(1,3-7)])
  have "frames_ok (frames ?k1)" using 2 by simp
  then have "grows c ({d} \<union> {}) k ?k2" by (rule grows_trans [OF g1 grows_dir])
  then have "grows c {d} k ?k2" by simp
  then have g: "grows c {d} k ?k5"
    by (intro grows_upd_table) (use ne kt in simp_all)
  have r: "allocate_DIR c k = (1, ?k5)" using 2(2) by (simp add: allocate_DIR_def Let_def)
  have t1: "table ?k1 D = table k D"
    using map_new_frame_table(1) [of "k\<lparr>frames := m\<rparr>" kt kt2 D d] kt me by simp
  have dir: "get_DIR ?k5 c = d" "get_DIR ?k3 (current k) = D" "get_DIR ?k4 (current k) = D"
    using me by (simp_all add: get_DIR_def)
  have "table ?k5 d 0 = table k D 0" "table ?k5 d 1 = table k D 1"
    using dir ne t1 by simp_all
  moreover have "table ?k5 d j = 0" if "2 \<le> j" "j < 1024" for j
    using that by (simp add: clear_page_table_eq)
  ultimately show ?thesis using that(2) r g dir(1) by blast
qed

text \<open>The user table of the child.\<close>

lemma new_user_table:
  assumes fo: "frames_ok (frames k)" and kt: "kernel_page_table k = Some kt" "kernel_page_table2 k = Some kt2" "kt \<noteq> kt2"
    and used: "kt \<notin> allocatable (frames k)"
    and d: "get_DIR k c = d" "d \<notin> allocatable (frames k)" "d \<noteq> kt" "d \<noteq> kt2"
    and f: "u \<in> allocatable (frames k)" "free_frames m = free_frames (frames k) - {u}"
      "first_kernel m = first_kernel (frames k)" "last_kernel m = last_kernel (frames k)" "frames_ok m"
      "allocatable m = allocatable (frames k) - {u}"
  defines "k1 \<equiv> upd_table u clear_page_table (map_new_frame u (k\<lparr>frames := m\<rparr>))"
  defines "k2 \<equiv> upd_table d (\<lambda>t. set_ss_pag t 2 u 1) k1"
  shows "grows c {u} k k1" and "\<And>j. j < 1024 \<Longrightarrow> table k2 u j = 0"
    and "table k2 d = set_ss_pag (table k d) 2 u 1" and "get_DIR k1 c = d"
    and "\<And>g. g \<noteq> d \<Longrightarrow> table k2 g = table k1 g"
proof -
  have ne: "u \<noteq> d" "u \<noteq> kt" using f(1) used d by auto
  have "grows c {u} k (map_new_frame u (k\<lparr>frames := m\<rparr>))" by (rule grows_alloc [OF fo kt f])
  then show "grows c {u} k k1" unfolding k1_def by (rule grows_upd_table) (use ne kt in simp_all)
  show "table k2 u j = 0" if "j < 1024" for j
    using that ne by (simp add: k2_def k1_def clear_page_table_eq)
  have "table (map_new_frame u (k\<lparr>frames := m\<rparr>)) d = table k d"
    using map_new_frame_table(1) [of "k\<lparr>frames := m\<rparr>" kt kt2 d u] kt d by simp
  then show "table k2 d = set_ss_pag (table k d) 2 u 1" using ne by (simp add: k2_def k1_def)
  show "get_DIR k1 c = d" using d(1) by (simp add: k1_def get_DIR_def)
  show "\<And>g. g \<noteq> d \<Longrightarrow> table k2 g = table k1 g" by (simp add: k2_def)
qed

lemma upd_table_twice: "upd_table g f (upd_table g f' k) = upd_table g (\<lambda>t. f (f' t)) k"
  by (simp add: upd_table_def)

lemma upd_table_id: "upd_table g (\<lambda>t. t) k = k"
  by (simp add: upd_table_def)

lemma upd_table_cong: "f (table k g) = f' (table k g) \<Longrightarrow> upd_table g f k = upd_table g f' k"
  by (simp add: upd_table_def table_def)

text \<open>A loop that fills entries of one table from another.\<close>

lemma fill_table:
  assumes "pu \<noteq> cu"
  shows "fold (\<lambda>i k. upd_table cu (\<lambda>t. set_ss_pag t (a + i) (get_frame (table k pu) (a + i)) 1) k) [0..<n] k =
           upd_table cu (\<lambda>t j. if a \<le> j \<and> j < a + n then set_ss_pag t j (get_frame (table k pu) j) 1 j else t j) k"
proof (induction n)
  case 0
  have "\<not> (a \<le> j \<and> j < a + 0)" for j by simp
  then show ?case by (simp only: upt_0 fold.simps(1) id_apply if_False upd_table_id)
next
  case (Suc n)
  show ?case
    unfolding upt_Suc_append [OF le0] fold_append comp_def Suc
    using assms by (auto simp: upd_table_twice set_ss_pag_def Let_def fun_eq_iff intro!: upd_table_cong)
qed

lemma fork_code_pages_eq:
  assumes "pu \<noteq> cu"
  shows "fork_code_pages pu cu k =
    upd_table cu (\<lambda>t j. if 20 \<le> j \<and> j < 28 then set_ss_pag t j (get_frame (table k pu) j) 1 j else t j) k"
  using fill_table [OF assms, of 20 8 k] by (simp add: fork_code_pages_def)

section \<open>Frames for the data\<close>

text \<open>On success the pages from \<open>i\<close> on get new frames; on failure all frames are given back.\<close>

lemma free_frames_fold:
  assumes "\<And>f. f \<in> set fs \<Longrightarrow> f < 2048" and "frames_ok (frames k)"
  shows "\<exists>m. fold kernel_free_frame fs k = k\<lparr>frames := m\<rparr> \<and>
           free_frames m = free_frames (frames k) \<union> set fs \<and> frames_ok m \<and>
           first_kernel m = first_kernel (frames k) \<and> last_kernel m = last_kernel (frames k)"
  using assms
proof (induction fs arbitrary: k)
  case Nil
  then show ?case by (intro exI [of _ "frames k"]) simp
next
  case (Cons f fs)
  let ?k = "kernel_free_frame f k"
  have e: "?k = k\<lparr>frames := free_frame f (frames k)\<rparr>" by (simp add: kernel_free_frame_def)
  have fk: "first_kernel (free_frame f (frames k)) = first_kernel (frames k)" by (simp add: free_frame_def)
  have "frames_ok (frames ?k)" using frames_ok_free Cons.prems(2) by (simp add: e)
  then obtain m where m: "fold kernel_free_frame fs ?k = ?k\<lparr>frames := m\<rparr>"
      "free_frames m = free_frames (frames ?k) \<union> set fs" "frames_ok m"
      "first_kernel m = first_kernel (frames ?k)" "last_kernel m = last_kernel (frames ?k)"
    using Cons.IH [of ?k] Cons.prems(1) by auto
  then show ?case using Cons.prems(1) [of f] fk
    by (intro exI [of _ m]) (simp add: e)
qed

lemma fork_data_pages_some:
  assumes "frames_ok (frames k)" and "u \<noteq> the (kernel_page_table k)" and "i \<le> 20"
    and "20 - i \<le> card (allocatable (frames k))" and "grows c N k0 k" and "u \<in> N"
    and "the (kernel_page_table k0) \<notin> allocatable (frames k0)"
  shows "\<exists>gs k'. fork_data_pages u i fs k = (Some (fs @ gs), k') \<and> length gs = 20 - i \<and> distinct gs \<and>
           set gs \<subseteq> allocatable (frames k) \<and> grows c (N \<union> set gs) k0 k' \<and>
           (\<forall>j. i \<le> j \<and> j < 20 \<longrightarrow> present (table k' u) j \<and> get_frame (table k' u) j = gs ! (j - i)) \<and>
           (\<forall>j. \<not> (i \<le> j \<and> j < 20) \<longrightarrow> table k' u j = table k u j) \<and>
           (\<forall>g. g \<noteq> u \<longrightarrow> table k' g = table k g) \<and> get_DIR k' = get_DIR k"
  using assms
proof (induction "20 - i" arbitrary: i fs k N)
  case 0
  then have "i = 20" by simp
  then show ?case using 0 by (intro exI [of _ "[]"] exI [of _ k]) (auto simp: fork_data_pages.simps)
next
  case (Suc n)
  then have i: "i < 20" by simp
  show ?case
  proof (cases rule: kernel_alloc_frame_cases [OF Suc.prems(1)])
    case 1
    then show ?thesis using Suc.prems(4) i by simp
  next
    case (2 f m)
    let ?k = "upd_table u (\<lambda>t. set_ss_pag t i f 1) (k\<lparr>frames := m\<rparr>)"
    have e: "fork_data_pages u i fs k = fork_data_pages u (Suc i) (fs @ [f]) ?k"
      using i 2(2) by (subst fork_data_pages.simps) simp
    note gd = growsD [OF Suc.prems(5)]
    have fN: "f \<in> allocatable (frames k0)" "f \<notin> N" using 2(1) gd(24) by auto
    have "grows c (N \<union> {f}) k0 (k\<lparr>frames := m\<rparr>)"
    proof -
      obtain m' T r where kk: "k = k0\<lparr>frames := m', mach := (mach k0)\<lparr>tables := T\<rparr>,
          tasks := (tasks k0)(c := (tasks k0 c)\<lparr>dir_pages_baseAddr := r\<rparr>)\<rparr>"
        using Suc.prems(5) unfolding grows_def by blast
      have "k\<lparr>frames := m\<rparr> = k0\<lparr>frames := m, mach := (mach k0)\<lparr>tables := T\<rparr>,
          tasks := (tasks k0)(c := (tasks k0 c)\<lparr>dir_pages_baseAddr := r\<rparr>)\<rparr>" unfolding kk by simp
      then have "\<exists>m' T r. k\<lparr>frames := m\<rparr> = k0\<lparr>frames := m', mach := (mach k0)\<lparr>tables := T\<rparr>,
          tasks := (tasks k0)(c := (tasks k0 c)\<lparr>dir_pages_baseAddr := r\<rparr>)\<rparr>" by blast
      moreover have "N \<union> {f} \<subseteq> allocatable (frames k0)" using gd(22) fN by blast
      moreover have "free_frames m = free_frames (frames k0) - (N \<union> {f})"
        "allocatable m = allocatable (frames k0) - (N \<union> {f})" unfolding 2(3,7) gd(23,24) by blast+
      ultimately show ?thesis unfolding grows_def using 2(4-6) gd(25,26,28,29) by simp
    qed
    then have g: "grows c (N \<union> {f}) k0 ?k"
      by (rule grows_upd_table) (use Suc.prems(2,6) gd(7) in simp_all)
    have fr: "frames_ok (frames ?k)" "u \<noteq> the (kernel_page_table ?k)" using 2(6) Suc.prems(2) by simp_all
    have ca: "20 - Suc i \<le> card (allocatable (frames ?k))"
      using Suc.prems(4) i 2(1,7) by (simp add: card_Diff_singleton)
    have ih: "\<exists>gs k'. fork_data_pages u (Suc i) (fs @ [f]) ?k = (Some ((fs @ [f]) @ gs), k') \<and>
        length gs = 20 - Suc i \<and> distinct gs \<and> set gs \<subseteq> allocatable (frames ?k) \<and>
        grows c (N \<union> {f} \<union> set gs) k0 k' \<and>
        (\<forall>j. Suc i \<le> j \<and> j < 20 \<longrightarrow> present (table k' u) j \<and> get_frame (table k' u) j = gs ! (j - Suc i)) \<and>
        (\<forall>j. \<not> (Suc i \<le> j \<and> j < 20) \<longrightarrow> table k' u j = table ?k u j) \<and>
        (\<forall>g. g \<noteq> u \<longrightarrow> table k' g = table ?k g) \<and> get_DIR k' = get_DIR ?k"
      by (rule Suc.hyps(1) [OF _ fr _ ca g]) (use Suc.hyps(2) Suc.prems(6,7) i in simp_all)
    obtain gs k' where k': "fork_data_pages u (Suc i) (fs @ [f]) ?k = (Some ((fs @ [f]) @ gs), k')"
        "length gs = 20 - Suc i" "distinct gs" "set gs \<subseteq> allocatable (frames ?k)"
        "grows c (N \<union> {f} \<union> set gs) k0 k'"
        "\<forall>j. Suc i \<le> j \<and> j < 20 \<longrightarrow> present (table k' u) j \<and> get_frame (table k' u) j = gs ! (j - Suc i)"
        "\<forall>j. \<not> (Suc i \<le> j \<and> j < 20) \<longrightarrow> table k' u j = table ?k u j"
        "\<forall>g. g \<noteq> u \<longrightarrow> table k' g = table ?k g" "get_DIR k' = get_DIR ?k"
      using ih by (elim exE conjE) (rule that)
    have f20: "f < 1048576" using allocatableD(2) [OF 2(1)] by simp
    have ti: "table k' u i = set_ss_pag (table k u) i f 1 i" using k'(7) by simp
    have pi: "present (table k' u) i" "get_frame (table k' u) i = f"
      using get_frame_set_ss_pag [OF f20, of "table k u" i 1] present_set_ss_pag [of "table k u" i f 1 i]
      by (simp_all add: ti present_def get_frame_def)
    show ?thesis
    proof (intro exI [of _ "f # gs"] exI [of _ k'] conjI allI impI)
      show "fork_data_pages u i fs k = (Some (fs @ f # gs), k')" using e k'(1) by simp
      show "length (f # gs) = 20 - i" using k'(2) i by simp
      show "distinct (f # gs)" "set (f # gs) \<subseteq> allocatable (frames k)" using k'(3,4) 2(1,7) by auto
      show "grows c (N \<union> set (f # gs)) k0 k'" using k'(5) by (simp add: Un_assoc insert_commute)
      fix j assume j: "i \<le> j \<and> j < 20"
      show "present (table k' u) j" using k'(6) pi j by (cases "j = i") auto
      show "get_frame (table k' u) j = (f # gs) ! (j - i)"
        using k'(6) pi j by (cases "j = i") (auto simp: nth_Cons')
    next
      fix j assume "\<not> (i \<le> j \<and> j < 20)"
      then show "table k' u j = table k u j" using k'(7) i by auto
    next
      fix g assume "g \<noteq> u"
      then show "table k' g = table k g" using k'(8) by simp
    qed (use k'(9) in \<open>simp add: get_DIR_def fun_eq_iff\<close>)
  qed
qed

lemma fork_data_pages_none:
  assumes "frames_ok (frames k)" and "i \<le> 20" and "card (allocatable (frames k)) < 20 - i"
    and "set fs \<subseteq> {..<2048}"
  shows "\<exists>m T. fork_data_pages u i fs k = (None, k\<lparr>frames := m, mach := (mach k)\<lparr>tables := T\<rparr>\<rparr>) \<and>
           free_frames m = free_frames (frames k) \<union> set fs \<and> frames_ok m \<and>
           first_kernel m = first_kernel (frames k) \<and> last_kernel m = last_kernel (frames k) \<and>
           (\<forall>g. g \<noteq> u \<longrightarrow> T g = table k g)"
  using assms
proof (induction "20 - i" arbitrary: i fs k)
  case 0
  then show ?case by simp
next
  case (Suc n)
  then have i: "i < 20" by simp
  show ?case
  proof (cases rule: kernel_alloc_frame_cases [OF Suc.prems(1)])
    case 1
    have "fork_data_pages u i fs k = (None, fold kernel_free_frame fs k)"
      using i 1(2) by (subst fork_data_pages.simps) simp
    moreover obtain m where m: "fold kernel_free_frame fs k = k\<lparr>frames := m\<rparr>"
        "free_frames m = free_frames (frames k) \<union> set fs" "frames_ok m"
        "first_kernel m = first_kernel (frames k)" "last_kernel m = last_kernel (frames k)"
      using free_frames_fold [of fs k] Suc.prems(1,4) by auto
    moreover have "k\<lparr>frames := m\<rparr> = k\<lparr>frames := m, mach := (mach k)\<lparr>tables := tables (mach k)\<rparr>\<rparr>" by simp
    ultimately show ?thesis
      by (intro exI [of _ m] exI [of _ "tables (mach k)"]) (simp add: table_def)
  next
    case (2 f m)
    let ?k = "upd_table u (\<lambda>t. set_ss_pag t i f 1) (k\<lparr>frames := m\<rparr>)"
    have e: "fork_data_pages u i fs k = fork_data_pages u (Suc i) (fs @ [f]) ?k"
      using i 2(2) by (subst fork_data_pages.simps) simp
    have f: "f \<in> free_frames (frames k)" "f < 2048" using allocatableD [OF 2(1)] by simp_all
    have fs: "set (fs @ [f]) \<subseteq> {..<2048}" using Suc.prems(4) f(2) by simp
    have "card (allocatable m) = card (allocatable (frames k)) - 1"
      using 2(1,7) by (simp add: card_Diff_singleton)
    moreover have "0 < card (allocatable (frames k))" using 2(1) by (auto simp: card_gt_0_iff)
    ultimately have ca: "card (allocatable (frames ?k)) < 20 - Suc i" using Suc.prems(3) by simp
    have fr: "frames_ok (frames ?k)" using 2(6) by simp
    have ih: "\<exists>m' T. fork_data_pages u (Suc i) (fs @ [f]) ?k = (None, ?k\<lparr>frames := m', mach := (mach ?k)\<lparr>tables := T\<rparr>\<rparr>) \<and>
        free_frames m' = free_frames (frames ?k) \<union> set (fs @ [f]) \<and> frames_ok m' \<and>
        first_kernel m' = first_kernel (frames ?k) \<and> last_kernel m' = last_kernel (frames ?k) \<and>
        (\<forall>g. g \<noteq> u \<longrightarrow> T g = table ?k g)"
      by (rule Suc.hyps(1) [OF _ fr _ ca fs]) (use Suc.hyps(2) i in simp_all)
    obtain m' T where k': "fork_data_pages u (Suc i) (fs @ [f]) ?k =
          (None, ?k\<lparr>frames := m', mach := (mach ?k)\<lparr>tables := T\<rparr>\<rparr>)"
        "free_frames m' = free_frames (frames ?k) \<union> set (fs @ [f])" "frames_ok m'"
        "first_kernel m' = first_kernel (frames ?k)" "last_kernel m' = last_kernel (frames ?k)"
        "\<forall>g. g \<noteq> u \<longrightarrow> T g = table ?k g"
      using ih by (elim exE conjE) (rule that)
    have eq: "?k\<lparr>frames := m', mach := (mach ?k)\<lparr>tables := T\<rparr>\<rparr> = k\<lparr>frames := m', mach := (mach k)\<lparr>tables := T\<rparr>\<rparr>"
      by (simp add: upd_table_def)
    have "free_frames m' = free_frames (frames k) \<union> set fs"
      using k'(2) 2(3) f(1) by auto
    then show ?thesis
      using k' e 2(4,5) by (intro exI [of _ m'] exI [of _ T]) (simp add: eq)
  qed
qed

section \<open>Copying the data\<close>

text \<open>The address space the copy needs: the kernel's table \<open>kt\<close>, the user table \<open>pu\<close> with the data pages.\<close>

definition copy_space :: "kernel \<Rightarrow> nat \<Rightarrow> nat \<Rightarrow> bool" where
  "copy_space k kt pu \<longleftrightarrow>
     (let D = get_DIR k (current k) in
      paging (mach k) \<and> present (table k D) 0 \<and> get_frame (table k D) 0 = kt \<and>
      present (table k D) 2 \<and> get_frame (table k D) 2 = pu \<and> kt \<noteq> D \<and> kt \<noteq> pu \<and>
      (\<forall>j<20. present (table k pu) j))"

text \<open>Page \<open>j\<close> copied: frame \<open>f\<close> gets the bytes of frame \<open>g\<close>, and kernel page 512 ends up unmapped.\<close>

definition copied :: "nat \<Rightarrow> nat \<Rightarrow> nat \<Rightarrow> kernel \<Rightarrow> kernel" where
  "copied kt f g k =
     k\<lparr>mach := (mach k)\<lparr>ram := (\<lambda>a. if a div 4096 = f then ram (mach k) (g * 4096 + a mod 4096)
                                      else ram (mach k) a),
          tables := (tables (mach k))(kt := (table k kt)(512 := 0)),
          cr3 := get_DIR k (current k)\<rparr>\<rparr>"

lemma fork_copy_page_eq:
  assumes sp: "copy_space k kt pu" and j: "j < 20" and f: "f < 1048576"
    and fj: "fs ! j = f" and g: "g = get_frame (table k pu) j" "f \<noteq> g"
  shows "fork_copy_page fs j k = Some (copied kt f g k)"
proof -
  let ?D = "get_DIR k (current k)"
  let ?k = "set_cr3 ?D (upd_table kt (\<lambda>t. set_ss_pag t 512 f 0) k)"
  have s: "paging (mach k)" "present (table k ?D) 0" "get_frame (table k ?D) 0 = kt"
    "present (table k ?D) 2" "get_frame (table k ?D) 2 = pu" "kt \<noteq> ?D" "kt \<noteq> pu"
    "present (table k pu) j"
    using sp j by (simp_all add: copy_space_def Let_def)
  have pt: "get_PT k (current k) = kt" using s(3) by (simp add: get_PT_table)
  have pg: "paging (mach ?k)" using s(1) by (simp add: paging_def)
  have d: "tables (mach ?k) ?D = table k ?D" "tables (mach ?k) kt = set_ss_pag (table k kt) 512 f 0"
    "tables (mach ?k) pu = table k pu" "cr3 (mach ?k) = ?D"
    using s(6,7) by (simp_all add: set_cr3_def upd_table_def table_def)
  have q: "(2048 + j) div 1024 = 2" "(2048 + j) mod 1024 = j"
    using j mod_mult_self3 [of 2 1024 j] by simp_all
  have pf: "page_frame (mach ?k) 512 = Some f"
    using s f d by (simp add: page_frame_def Let_def)
  have pp: "page_frame (mach ?k) (2048 + j) = Some g"
    unfolding page_frame_def q Let_def using s d g(1) by simp
  have e: "of_nat ((2048 + j) * 4096) + of_nat x = (of_nat ((2048 + j) * 4096 + x) :: dword)"
    "of_nat (512 * 4096) + of_nat x = (of_nat (512 * 4096 + x) :: dword)" for x by simp_all
  have P: "mapped (mach ?k) (of_nat ((2048 + j) * 4096)) 4096 (\<lambda>x. g * 4096 + x)"
    unfolding mapped_def e using translate_page [OF pg, of "2048 + j"] pp j by simp
  have Q: "mapped (mach ?k) (of_nat (512 * 4096)) 4096 (\<lambda>x. f * 4096 + x)"
    unfolding mapped_def e using translate_page [OF pg, of 512] pf by simp
  have ne: "g * 4096 + x \<noteq> f * 4096 + y" if "x < 4096" "y < 4096" for x y
  proof
    assume "g * 4096 + x = f * 4096 + y"
    then have "(g * 4096 + x) div 4096 = (f * 4096 + y) div 4096" by simp
    then show False using that g(2) by simp
  qed
  have inj: "inj_on (\<lambda>x. f * 4096 + x) {..<4096::nat}" by (simp add: inj_on_def)
  let ?r = "blit (\<lambda>x. g * 4096 + x) (\<lambda>x. f * 4096 + x) [0..<4096] (ram (mach ?k))"
  have c: "copy_data (of_nat ((2048 + j) * 4096)) (of_nat (512 * 4096)) (int 4096) (mach ?k) =
      Some ((mach ?k)\<lparr>ram := ?r\<rparr>)"
    by (rule copy_data_blit(1) [OF P Q ne])
  have rr: "?r = (\<lambda>a. if a div 4096 = f then ram (mach k) (g * 4096 + a mod 4096) else ram (mach k) a)"
  proof
    fix a
    have b: "\<And>x. x < 4096 \<Longrightarrow> ?r (f * 4096 + x) = ram (mach ?k) (g * 4096 + x)"
      "\<And>a. a \<notin> (\<lambda>x. f * 4096 + x) ` {..<4096} \<Longrightarrow> ?r a = ram (mach ?k) a"
      using blit_disjoint [of 4096 "\<lambda>x. g * 4096 + x" "\<lambda>x. f * 4096 + x" "ram (mach ?k)", OF ne inj] by blast+
    show "?r a = (if a div 4096 = f then ram (mach k) (g * 4096 + a mod 4096) else ram (mach k) a)"
    proof (cases "a div 4096 = f")
      case True
      then have a: "a = f * 4096 + a mod 4096" by (metis div_mult_mod_eq)
      have "?r (f * 4096 + a mod 4096) = ram (mach ?k) (g * 4096 + a mod 4096)" by (rule b(1)) simp
      then have "?r a = ram (mach ?k) (g * 4096 + a mod 4096)" unfolding a [symmetric] .
      then show ?thesis using True by (simp only: refl if_True set_cr3_simps upd_table_simps)
    next
      case False
      then have "a \<notin> (\<lambda>x. f * 4096 + x) ` {..<4096}" by auto
      then have "?r a = ram (mach ?k) a" by (rule b(2))
      then show ?thesis using False by (simp only: if_False set_cr3_simps upd_table_simps)
    qed
  qed
  have m: "on_mach (copy_data (of_nat ((2048 + j) * 4096)) (of_nat (512 * 4096)) (int 4096)) ?k =
      Some (?k\<lparr>mach := (mach ?k)\<lparr>ram := (\<lambda>a. if a div 4096 = f then ram (mach k) (g * 4096 + a mod 4096)
                                             else ram (mach k) a)\<rparr>\<rparr>)"
    using c unfolding rr by (simp add: on_mach_def)
  have pt': "get_PT (?k\<lparr>mach := (mach ?k)\<lparr>ram := r\<rparr>\<rparr>) (current k) = kt" for r
    using s(3,6) by (simp add: get_PT_def get_DIR_def set_cr3_def upd_table_def table_def)
  have dl: "del_ss_pag (set_ss_pag t 512 f 0) 512 = t(512 := 0)" for t
    by (simp add: del_ss_pag_def fun_eq_iff)
  have pt1: "get_DIR (upd_table kt (\<lambda>t. set_ss_pag t 512 f 0) k) (current k) = ?D" by simp
  show ?thesis
    unfolding fork_copy_page_def Let_def fj pt pt1 m
    by (simp only: bind.bind_lunit pt' set_cr3_simps upd_table_simps kernel.simps)
      (simp add: pt' copied_def set_cr3_def upd_table_def dl table_def)
qed


lemma fork_copy_pages_prefix:
  assumes sp: "copy_space k kt pu" and fs: "length fs = 20" "distinct fs" "set fs \<subseteq> {..<2048}"
    and own: "\<And>j. j < 20 \<Longrightarrow> get_frame (table k pu) j \<notin> set fs" and n: "n \<le> 20"
  shows "\<exists>r T c. fold (\<lambda>i s. Option.bind s (fork_copy_page fs i)) [0..<n] (Some k) =
             Some (k\<lparr>mach := (mach k)\<lparr>ram := r, tables := T, cr3 := c\<rparr>\<rparr>) \<and>
           (\<forall>j<n. \<forall>x<4096. r (fs ! j * 4096 + x) = ram (mach k) (get_frame (table k pu) j * 4096 + x)) \<and>
           (\<forall>a. a div 4096 \<notin> set fs \<longrightarrow> r a = ram (mach k) a) \<and>
           (\<forall>g. g \<noteq> kt \<longrightarrow> T g = table k g) \<and> (\<forall>j. j \<noteq> 512 \<longrightarrow> T kt j = table k kt j) \<and>
           (0 < n \<longrightarrow> T kt 512 = 0)"
  using n
proof (induction n)
  case 0
  show ?case
    by (intro exI [of _ "ram (mach k)"] exI [of _ "tables (mach k)"] exI [of _ "cr3 (mach k)"])
      (simp add: table_def)
next
  case (Suc n)
  then obtain r T c where st: "fold (\<lambda>i s. Option.bind s (fork_copy_page fs i)) [0..<n] (Some k) =
             Some (k\<lparr>mach := (mach k)\<lparr>ram := r, tables := T, cr3 := c\<rparr>\<rparr>)"
      "\<And>j x. j < n \<Longrightarrow> x < 4096 \<Longrightarrow> r (fs ! j * 4096 + x) = ram (mach k) (get_frame (table k pu) j * 4096 + x)"
      "\<And>a. a div 4096 \<notin> set fs \<Longrightarrow> r a = ram (mach k) a"
      "\<And>g. g \<noteq> kt \<Longrightarrow> T g = table k g" "\<And>j. j \<noteq> 512 \<Longrightarrow> T kt j = table k kt j"
    by auto
  let ?k = "k\<lparr>mach := (mach k)\<lparr>ram := r, tables := T, cr3 := c\<rparr>\<rparr>"
  let ?f = "fs ! n" and ?g = "get_frame (table k pu) n"
  have tk: "table ?k = T" by (simp add: table_def fun_eq_iff)
  have kp: "kt \<noteq> pu" "kt \<noteq> get_DIR k (current k)" using sp by (simp_all add: copy_space_def Let_def)
  have tp: "table ?k pu = table k pu" "table ?k (get_DIR k (current k)) = table k (get_DIR k (current k))"
    unfolding tk using st(4) kp by metis+
  have dd: "get_DIR ?k = get_DIR k" "current ?k = current k" "paging (mach ?k) = paging (mach k)"
    by (simp_all add: get_DIR_def fun_eq_iff paging_def)
  have rk: "ram (mach ?k) = r" by simp
  have sp': "copy_space ?k kt pu"
    using sp unfolding copy_space_def dd tp Let_def by blast
  have "?f \<in> set fs" using fs(1) Suc.prems by simp
  then have fin: "?f \<in> set fs" "?f < 1048576" using fs(3) by auto
  have gn: "?g \<notin> set fs" using own Suc.prems by simp
  then have fg: "?f \<noteq> ?g" using fin(1) by metis
  have step: "fork_copy_page fs n ?k = Some (copied kt ?f ?g ?k)"
    by (rule fork_copy_page_eq [OF sp' _ fin(2) refl _ fg]) (use Suc.prems tp in simp_all)
  let ?r = "\<lambda>a. if a div 4096 = ?f then r (?g * 4096 + a mod 4096) else r a"
  have cp: "copied kt ?f ?g ?k = k\<lparr>mach := (mach k)\<lparr>ram := ?r, tables := T(kt := (T kt)(512 := 0)),
      cr3 := get_DIR k (current k)\<rparr>\<rparr>"
    unfolding copied_def tk dd rk by simp
  have a1: "fold (\<lambda>i s. Option.bind s (fork_copy_page fs i)) [0..<Suc n] (Some k) =
      Some (k\<lparr>mach := (mach k)\<lparr>ram := ?r, tables := T(kt := (T kt)(512 := 0)), cr3 := get_DIR k (current k)\<rparr>\<rparr>)"
    unfolding upt_Suc_append [OF le0] fold_append comp_def st(1) cp [symmetric] using step by simp
  have a2: "?r (fs ! j * 4096 + x) = ram (mach k) (get_frame (table k pu) j * 4096 + x)"
    if "j < Suc n" "x < 4096" for j x
  proof (cases "j = n")
    case True
    have "(?g * 4096 + x) div 4096 \<notin> set fs" using gn that(2) by simp
    then show ?thesis using that(2) st(3) [of "?g * 4096 + x"] True by simp
  next
    case False
    then have "fs ! j \<noteq> ?f" using fs(1,2) that(1) Suc.prems by (simp add: nth_eq_iff_index_eq)
    then show ?thesis using st(2) [of j x] that False by simp
  qed
  have a3: "?r a = ram (mach k) a" if "a div 4096 \<notin> set fs" for a
    using st(3) [OF that] that fin(1) by auto
  have a4: "(T(kt := (T kt)(512 := 0))) g = table k g" if "g \<noteq> kt" for g
    using st(4) that by simp
  have a5: "(T(kt := (T kt)(512 := 0))) kt j = table k kt j" if "j \<noteq> 512" for j
    using st(5) that by simp
  show ?case
    by (intro exI conjI allI impI, rule a1)
      (rule a2, assumption+, rule a3, assumption, rule a4, assumption, rule a5, assumption, simp)
qed

section \<open>Shared pages\<close>

lemma shared_id_frame:
  "shared_id k f = Some i \<Longrightarrow> i < 10 \<and> shared_frames k i = int f"
  by (auto simp: shared_id_def find_Some_iff)

text \<open>A process with no shared page yet does not change the counts.\<close>

lemma shm_ok_insert:
  assumes ok: "shm_ok k U" and u: "\<And>p. 28 \<le> p \<Longrightarrow> p < 1024 \<Longrightarrow> \<not> present (table k u) p"
  shows "shm_ok k (insert u U)"
proof -
  have "mapped_pages k f u = {}" for f using u by (auto simp: mapped_pages_def)
  then have m: "mappings k (insert u U) f = mappings k U f" for f
    using shm_okD(1) [OF ok] by (cases "u \<in> U") (simp_all add: mappings_def insert_absorb)
  show ?thesis
  proof (rule shm_okI)
    show "finite (insert u U)" using shm_okD(1) [OF ok] by simp
    show "f < TOTAL_PAGES \<and> f \<notin> free_frames (frames k) \<and> shared_refs k i = mappings k (insert u U) f \<and>
        (shared_marked_rm k i = 1 \<longrightarrow> shared_refs k i > 0)" if "i < 10" "shared_frames k i = int f" for i f
      unfolding m by (rule shm_okD(2) [OF ok that])
    show "shared_frames k i = -1 \<and> shared_refs k i = 0 \<and> shared_marked_rm k i = 0"
      if "i < 10" "\<not> (\<exists>f. shared_frames k i = int f)" for i
      by (rule shm_okD(3) [OF ok that])
    show "a = b" if "a < 10" "b < 10" "shared_frames k a = int g" "shared_frames k b = int g" for a b g
      by (rule shm_okD(4) [OF ok that])
    show "\<exists>i<10. shared_frames k i = int (get_frame (table k w) p)"
      if "w \<in> insert u U" "28 \<le> p" "p < 1024" "present (table k w) p" for w p
      using that u shm_okD(5) [OF ok] by auto
  qed
qed

lemma fork_share_prefix:
  assumes ok: "shm_ok k U" and pu: "pu \<in> U" and cu: "cu \<in> U" "pu \<noteq> cu"
    and empty: "\<And>j. 28 \<le> j \<Longrightarrow> j < 1024 \<Longrightarrow> \<not> present (table k cu) j" and n: "28 \<le> n" "n \<le> 1024"
  shows "\<exists>t r. fold (fork_share_page pu cu) [28..<n] k = (upd_table cu (\<lambda>_. t) k)\<lparr>shared_refs := r\<rparr> \<and>
           shm_ok ((upd_table cu (\<lambda>_. t) k)\<lparr>shared_refs := r\<rparr>) U \<and>
           (\<forall>j. 28 \<le> j \<and> j < n \<longrightarrow> present t j = present (table k pu) j \<and>
              (present t j \<longrightarrow> get_frame t j = get_frame (table k pu) j)) \<and>
           (\<forall>j. \<not> (28 \<le> j \<and> j < n) \<longrightarrow> t j = table k cu j)"
  using n
proof (induction n rule: dec_induct)
  case base
  have e: "(upd_table cu (\<lambda>_. table k cu) k)\<lparr>shared_refs := shared_refs k\<rparr> = k"
    by (simp add: upd_table_def table_def)
  show ?case
    by (intro exI [of _ "table k cu"] exI [of _ "shared_refs k"]) (use ok in \<open>auto simp: e\<close>)
next
  case (step n)
  then obtain t r where st: "fold (fork_share_page pu cu) [28..<n] k = (upd_table cu (\<lambda>_. t) k)\<lparr>shared_refs := r\<rparr>"
      "shm_ok ((upd_table cu (\<lambda>_. t) k)\<lparr>shared_refs := r\<rparr>) U"
      "\<And>j. 28 \<le> j \<Longrightarrow> j < n \<Longrightarrow> present t j = present (table k pu) j \<and>
              (present t j \<longrightarrow> get_frame t j = get_frame (table k pu) j)"
      "\<And>j. \<not> (28 \<le> j \<and> j < n) \<Longrightarrow> t j = table k cu j"
    by auto
  let ?k = "(upd_table cu (\<lambda>_. t) k)\<lparr>shared_refs := r\<rparr>"
  have tp: "table ?k pu = table k pu" "table ?k cu = t" using cu(2) by simp_all
  have fold: "fold (fork_share_page pu cu) [28..<Suc n] k = fork_share_page pu cu n ?k"
    using step.hyps(1) st(1) by simp
  have np: "\<not> present t n" using st(4) [of n] empty [of n] step by (simp add: present_def)
  show ?case
  proof (cases "present (table k pu) n")
    case False
    have "fork_share_page pu cu n ?k = ?k"
      unfolding fork_share_page_def tp using False by simp
    then show ?thesis
      unfolding fold using st np False
      by (intro exI [of _ t] exI [of _ r]) (auto simp: less_Suc_eq)
  next
    case True
    let ?f = "get_frame (table k pu) n"
    obtain i where i: "shared_id ?k ?f = Some i" "i < 10" "shared_frames ?k i = int ?f"
      using shared_id_Some [OF st(2) pu, of n] step True tp by (metis Suc_le_lessD)
    let ?t = "set_ss_pag t n ?f 1" and ?r = "r(i := r i + 1)"
    have e: "fork_share_page pu cu n ?k = (upd_table cu (\<lambda>_. ?t) k)\<lparr>shared_refs := ?r\<rparr>"
      unfolding fork_share_page_def tp using True i(1) tp(2) by (simp add: Let_def) (simp add: upd_table_def)
    have f: "?f < 1048576" by (rule get_frame_bound)
    have "shm_ok ((upd_table cu (\<lambda>_. ?t) k)\<lparr>shared_refs := ?r\<rparr>) U"
      by (rule attach_ok [OF st(2) cu(1) i(2,3), of n])
        (use step np tp in simp_all)
    moreover have "\<forall>j. 28 \<le> j \<and> j < Suc n \<longrightarrow> present ?t j = present (table k pu) j \<and>
        (present ?t j \<longrightarrow> get_frame ?t j = get_frame (table k pu) j)"
      using st(3) f True by (auto simp: less_Suc_eq)
    moreover have "\<forall>j. \<not> (28 \<le> j \<and> j < Suc n) \<longrightarrow> ?t j = table k cu j"
      using st(4) step.hyps(1) by auto
    ultimately show ?thesis unfolding fold e by blast
  qed
qed

end
