(* ===== verification/Fork_Space.thy ===== *)
theory Fork_Space
  imports Fork
begin

text \<open>
  The middle of \<open>sys_fork\<close> proved: from a state with the memory invariant and 22 free frames,
  \<open>fork_address_space\<close> succeeds, the invariant holds with the child among the processes, and
  \<open>child_memory\<close> says what the child sees: its own copy of the parent's data, the same code, the same shared pages.
\<close>

section \<open>The tables of the child\<close>

lemma entry_of:
  assumes "T j = set_ss_pag t j f u j" and "f < 1048576"
  shows "present T j \<and> get_frame T j = f"
  using get_frame_set_ss_pag [OF assms(2), of t j u] present_set_ss_pag [of t j f u j] assms(1)
  by (simp add: present_def get_frame_def)

text \<open>A frame that nothing uses, for the PCB of the child.\<close>

definition spare :: "kernel \<Rightarrow> nat set \<Rightarrow> nat \<Rightarrow> (nat \<Rightarrow> nat) \<Rightarrow> nat \<Rightarrow> bool" where
  "spare k L i cf c \<longleftrightarrow> c \<notin> L \<and> c < TOTAL_PAGES \<and> last_kernel (frames k) \<le> c \<and> c \<notin> free_frames (frames k) \<and>
     (\<forall>u. in_use L i u \<longrightarrow> frame_of k cf u \<noteq> c) \<and> (\<forall>s<NUM_SHARED_PAGES. shared_frames k s \<noteq> int c)"

text \<open>What the child gets: directory \<open>d\<close>, user table \<open>u\<close>, data frames \<open>fs\<close>, before the copy.\<close>

definition child_tables :: "kernel \<Rightarrow> (nat \<Rightarrow> nat) \<Rightarrow> nat \<Rightarrow> nat \<Rightarrow> nat list \<Rightarrow> kernel \<Rightarrow> bool" where
  "child_tables k cf d u fs k' \<longleftrightarrow>
     table k' d 0 = table k (get_DIR k (current k)) 0 \<and> table k' d 1 = table k (get_DIR k (current k)) 1 \<and>
     present (table k' d) 2 \<and> get_frame (table k' d) 2 = u \<and>
     (\<forall>j<20. present (table k' u) j \<and> get_frame (table k' u) j = fs ! j) \<and>
     (\<forall>j<8. present (table k' u) (20 + j) \<and> get_frame (table k' u) (20 + j) = cf j)"

text \<open>The directory and the user table of the child, with the code pages.\<close>

lemma fork_user_table:
  assumes ok: "mem_ok k L i cf" and me: "current k \<noteq> i" and c: "c \<notin> L"
    and room: "2 \<le> card (allocatable (frames k))"
  obtains d u k3 where "d \<noteq> u" and "grows c {d, u} k k3" and "get_DIR k3 c = d"
    and "table k3 d 0 = table k (get_DIR k (current k)) 0" and "table k3 d 1 = table k (get_DIR k (current k)) 1"
    and "present (table k3 d) 2" and "get_frame (table k3 d) 2 = u"
    and "\<And>j. j < 8 \<Longrightarrow> present (table k3 u) (20 + j) \<and> get_frame (table k3 u) (20 + j) = cf j"
    and "\<And>j. 28 \<le> j \<Longrightarrow> j < 1024 \<Longrightarrow> table k3 u j = 0"
    and "fork_address_space c k =
       (let (frames_data, k') = fork_data_pages u 0 [] k3
        in case frames_data of
             None \<Rightarrow> do { k \<leftarrow> free_pcb c (kernel_free_frame u k'); Some (- EAGAIN, k) }
           | Some fs \<Rightarrow> do {
               k'' \<leftarrow> fork_copy_pages fs k';
               let k'' = set_cr3 (get_DIR k'' (current k)) k'';
               Some (0, fold (fork_share_page (user_table k (current k)) u) [28..<PT_ENTRIES] k'') })"
proof -
  note md = mem_okD [OF ok]
  note fa = frames_apartD [OF md(8)]
  let ?me = "current k" and ?D = "get_DIR k (current k)"
  obtain kt kt2 where kt: "kernel_page_table k = Some kt" "kernel_page_table2 k = Some kt2"
    using md(7) by (auto simp: kernel_mapped_def)
  note ta = tables_apart [OF md(8) md(3), unfolded kt option.sel]
  have kne: "kt \<noteq> kt2" by (rule ta(8))
  have al: "f \<notin> allocatable (frames k)" if "in_use L i w" "frame_of k cf w = f" for w f
    using fa(3) [OF that(1)] that(2) allocatableD(1) by blast
  have ktu: "kt \<notin> allocatable (frames k)" using al [of Use_kernel_table kt] kt by simp
  have kt2u: "kt2 \<notin> allocatable (frames k)" using al [of Use_kernel_table2 kt2] kt by simp
  have Du: "?D \<notin> allocatable (frames k)" using al [of "Use_dir ?me" ?D] md(3) by simp
  have cm: "?me \<noteq> c" using c md(3) by auto
  obtain d k1 where k1: "allocate_DIR c k = (1, k1)" "grows c {d} k k1" "get_DIR k1 c = d"
      "table k1 d 0 = table k ?D 0" "table k1 d 1 = table k ?D 1"
      "\<And>j. 2 \<le> j \<Longrightarrow> j < 1024 \<Longrightarrow> table k1 d j = 0"
  proof (cases rule: allocate_DIR_cases [OF md(4) kt kne cm refl ta(1,2) Du ktu])
    case 1
    then show thesis using room by simp
  next
    case (2 d k')
    show thesis by (rule that [OF 2])
  qed
  note g1 = growsD [OF k1(2)]
  have kt1: "kernel_page_table k1 = Some kt" "kernel_page_table2 k1 = Some kt2" using g1(7,8) kt by simp_all
  have a1: "allocatable (frames k1) = allocatable (frames k) - {d}" "d \<in> allocatable (frames k)"
    using g1(22,24) by auto
  have card1: "1 \<le> card (allocatable (frames k1))" using a1 room by (simp add: card_Diff_singleton)
  obtain u m where u: "u \<in> allocatable (frames k1)" "kernel_alloc_frame k1 = (int u, k1\<lparr>frames := m\<rparr>)"
      "free_frames m = free_frames (frames k1) - {u}" "first_kernel m = first_kernel (frames k1)"
      "last_kernel m = last_kernel (frames k1)" "frames_ok m" "allocatable m = allocatable (frames k1) - {u}"
  proof (cases rule: kernel_alloc_frame_cases [OF g1(27)])
    case 1
    then show thesis using card1 by simp
  next
    case (2 u m)
    show thesis by (rule that [OF 2])
  qed
  have ne: "d \<noteq> kt" "d \<noteq> kt2" "d \<notin> allocatable (frames k1)" "kt \<notin> allocatable (frames k1)" "u \<noteq> d" "u \<noteq> kt" "u \<noteq> kt2"
    using a1 u(1) ktu kt2u by auto
  let ?k2b = "upd_table u clear_page_table (map_new_frame u (k1\<lparr>frames := m\<rparr>))"
  let ?k2 = "upd_table d (\<lambda>t. set_ss_pag t 2 u 1) ?k2b"
  note nu = new_user_table [OF g1(27) kt1 kne ne(4) k1(3) ne(3,1,2) u(1,3-7)]
  have "grows c ({d} \<union> {u}) k ?k2b" by (rule grows_trans [OF k1(2) nu(1)])
  then have g2: "grows c {d, u} k ?k2"
    using grows_upd_table [of c "{d} \<union> {u}" k ?k2b d "\<lambda>t. set_ss_pag t 2 u 1"] ne(1) kt(1) by (simp add: insert_commute)
  have u20: "u < 1048576" using allocatableD(2) [OF u(1)] by simp
  have dt: "table ?k2 d 0 = table k ?D 0" "table ?k2 d 1 = table k ?D 1" "present (table ?k2 d) 2"
    "get_frame (table ?k2 d) 2 = u"
    unfolding nu(3) using k1(4,5) u20 by simp_all
  have T2: "table ?k2 ?D = table k ?D" "get_DIR ?k2 ?me = ?D"
    using growsD(28) [OF g2, of ?D] growsD(30) [OF g2 cm] ta(1,2) kt Du a1 u(1) by auto
  have pu2: "user_table ?k2 ?me = user_table k ?me" by (simp only: user_table_def T2)
  let ?pu = "user_table k ?me"
  have "?pu \<notin> allocatable (frames k)" using al [of "Use_user_table ?me" ?pu] md(3) me by simp
  then have pune: "?pu \<notin> {d, u}" "?pu \<noteq> u" using a1 u(1) by auto
  have pt: "table ?k2 ?pu = table k ?pu" using growsD(28) [OF g2 pune(1)] ta(5,6) me kt by simp
  define k3 where "k3 = fork_code_pages ?pu u ?k2"
  have k3: "k3 = upd_table u (\<lambda>t j. if 20 \<le> j \<and> j < 28 then set_ss_pag t j (get_frame (table k ?pu) j) 1 j else t j) ?k2"
    unfolding k3_def fork_code_pages_eq [OF pune(2)] pt by (rule refl)
  have g3: "grows c {d, u} k k3" unfolding k3 by (rule grows_upd_table [OF g2]) (use ne kt in simp_all)
  have t3: "table k3 d = table ?k2 d" "\<And>j. 20 \<le> j \<Longrightarrow> j < 28 \<Longrightarrow>
      table k3 u j = set_ss_pag (table ?k2 u) j (get_frame (table k ?pu) j) 1 j"
      "\<And>j. j < 1024 \<Longrightarrow> \<not> (20 \<le> j \<and> j < 28) \<Longrightarrow> table k3 u j = 0"
    unfolding k3 using ne(5) nu(2) by auto
  have code: "present (table k3 u) (20 + j) \<and> get_frame (table k3 u) (20 + j) = cf j" if "j < 8" for j
    using entry_of [where T = "table k3 u" and j = "20 + j", OF t3(2) get_frame_bound] md(10) [OF md(3) me] that
    by (simp add: sees_user_def)
  have dir3: "get_DIR k3 c = d" using nu(4) by (simp add: k3)
  have code_end: "(20::nat) + 8 = 28" by simp
  show thesis
  proof (rule that [OF ne(5) [symmetric] g3 dir3])
    show "fork_address_space c k =
       (let (frames_data, k') = fork_data_pages u 0 [] k3
        in case frames_data of
             None \<Rightarrow> do { k \<leftarrow> free_pcb c (kernel_free_frame u k'); Some (- EAGAIN, k) }
           | Some fs \<Rightarrow> do {
               k'' \<leftarrow> fork_copy_pages fs k';
               let k'' = set_cr3 (get_DIR k'' (current k)) k'';
               Some (0, fold (fork_share_page (user_table k (current k)) u) [28..<PT_ENTRIES] k'') })"
      unfolding fork_address_space_def Let_def k1(1) prod.case u(2) nat_int nu(4) pu2 k3_def [symmetric] code_end
      by simp
  qed (use dt t3 code in \<open>simp_all only: refl\<close>, simp_all add: t3(3))
qed

lemma fork_tables:
  assumes ok: "mem_ok k L i cf" and me: "current k \<noteq> i" and c: "c \<notin> L"
    and room: "22 \<le> card (allocatable (frames k))"
  obtains d u fs k4 where "length fs = 20" and "distinct (d # u # fs)"
    and "grows c (set (d # u # fs)) k k4" and "get_DIR k4 c = d" and "child_tables k cf d u fs k4"
    and "\<And>j. 28 \<le> j \<Longrightarrow> j < 1024 \<Longrightarrow> \<not> present (table k4 u) j"
    and "fork_address_space c k = do {
           k' \<leftarrow> fork_copy_pages fs k4;
           let k' = set_cr3 (get_DIR k' (current k)) k';
           Some (0, fold (fork_share_page (user_table k (current k)) u) [28..<PT_ENTRIES] k') }"
proof -
  note md = mem_okD [OF ok]
  note fa = frames_apartD [OF md(8)]
  let ?kt = "the (kernel_page_table k)"
  have room2: "2 \<le> card (allocatable (frames k))" using room by simp
  obtain d u k3 where k3: "d \<noteq> u" "grows c {d, u} k k3" "get_DIR k3 c = d"
      "table k3 d 0 = table k (get_DIR k (current k)) 0" "table k3 d 1 = table k (get_DIR k (current k)) 1"
      "present (table k3 d) 2" "get_frame (table k3 d) 2 = u"
      "\<And>j. j < 8 \<Longrightarrow> present (table k3 u) (20 + j) \<and> get_frame (table k3 u) (20 + j) = cf j"
      "\<And>j. 28 \<le> j \<Longrightarrow> j < 1024 \<Longrightarrow> table k3 u j = 0"
      "fork_address_space c k =
       (let (frames_data, k') = fork_data_pages u 0 [] k3
        in case frames_data of
             None \<Rightarrow> do { k \<leftarrow> free_pcb c (kernel_free_frame u k'); Some (- EAGAIN, k) }
           | Some fs \<Rightarrow> do {
               k'' \<leftarrow> fork_copy_pages fs k';
               let k'' = set_cr3 (get_DIR k'' (current k)) k'';
               Some (0, fold (fork_share_page (user_table k (current k)) u) [28..<PT_ENTRIES] k'') })"
    by (rule fork_user_table [OF ok me c room2], rule that)
  note g3 = growsD [OF k3(2)]
  have ktu: "?kt \<notin> allocatable (frames k)" using fa(3) [of Use_kernel_table] allocatableD(1) by auto
  have u3: "u \<noteq> the (kernel_page_table k3)" using g3(7,22) ktu by auto
  have card3: "20 - 0 \<le> card (allocatable (frames k3))"
    using g3(22,24) k3(1) room by (simp add: card_Diff_subset)
  have "\<exists>gs k'. fork_data_pages u 0 [] k3 = (Some ([] @ gs), k') \<and> length gs = 20 - 0 \<and> distinct gs \<and>
      set gs \<subseteq> allocatable (frames k3) \<and> grows c ({d, u} \<union> set gs) k k' \<and>
      (\<forall>j. 0 \<le> j \<and> j < 20 \<longrightarrow> present (table k' u) j \<and> get_frame (table k' u) j = gs ! (j - 0)) \<and>
      (\<forall>j. \<not> (0 \<le> j \<and> j < 20) \<longrightarrow> table k' u j = table k3 u j) \<and>
      (\<forall>g. g \<noteq> u \<longrightarrow> table k' g = table k3 g) \<and> get_DIR k' = get_DIR k3"
    by (rule fork_data_pages_some [OF g3(27) u3 _ card3 k3(2) _ ktu]) simp_all
  then obtain fs k4 where k4: "fork_data_pages u 0 [] k3 = (Some fs, k4)" "length fs = 20" "distinct fs"
      "set fs \<subseteq> allocatable (frames k3)" "grows c ({d, u} \<union> set fs) k k4"
      "\<And>j. j < 20 \<Longrightarrow> present (table k4 u) j \<and> get_frame (table k4 u) j = fs ! j"
      "\<And>j. 20 \<le> j \<Longrightarrow> table k4 u j = table k3 u j"
      "\<And>g. g \<noteq> u \<Longrightarrow> table k4 g = table k3 g" "get_DIR k4 = get_DIR k3"
    by auto
  have "present (table k4 u) (20 + j) \<and> get_frame (table k4 u) (20 + j) = cf j" if "j < 8" for j
    using k4(7) [of "20 + j"] k3(8) [OF that] by (simp add: present_def get_frame_def)
  then have ct: "child_tables k cf d u fs k4"
    using k4(6) k4(8) [OF k3(1)] k3(4-7) by (simp add: child_tables_def)
  show thesis
  proof (rule that [OF k4(2) _ _ _ ct])
    show "distinct (d # u # fs)" using k4(3,4) k3(1) g3(24) by auto
    show "grows c (set (d # u # fs)) k k4" using k4(5) by simp
    show "\<not> present (table k4 u) j" if "28 \<le> j" "j < 1024" for j
      using k4(7) [of j] k3(9) [OF that] that by (simp add: present_def)
  qed (simp_all add: k3(3,10) k4(1,9))
qed

section \<open>The copy\<close>

text \<open>The state with the tables and the data of the child in place; of the rest of memory only the temporary
  mapping of kernel page 512 has changed.\<close>

definition child_built :: "kernel \<Rightarrow> (nat \<Rightarrow> nat) \<Rightarrow> nat \<Rightarrow> nat \<Rightarrow> nat \<Rightarrow> nat list \<Rightarrow> kernel \<Rightarrow> bool" where
  "child_built k cf c d u fs K \<longleftrightarrow>
     length fs = 20 \<and> distinct (d # u # fs) \<and> set (d # u # fs) \<subseteq> allocatable (frames k) \<and> rest_same k K \<and>
     links K = links k \<and> tasks K = (tasks k)(c := (tasks k c)\<lparr>dir_pages_baseAddr := d\<rparr>) \<and>
     cr0 (mach K) = cr0 (mach k) \<and> cr3 (mach K) = get_DIR k (current k) \<and>
     free_frames (frames K) = free_frames (frames k) - set (d # u # fs) \<and> frames_ok (frames K) \<and>
     first_kernel (frames K) = first_kernel (frames k) \<and> last_kernel (frames K) = last_kernel (frames k) \<and>
     child_tables k cf d u fs K \<and>
     (\<forall>g. g \<notin> set (d # u # fs) \<longrightarrow> g \<noteq> the (kernel_page_table k) \<longrightarrow> g \<noteq> the (kernel_page_table2 k) \<longrightarrow>
        table K g = table k g) \<and>
     (\<forall>j. j \<notin> set (d # u # fs) \<longrightarrow> j \<noteq> 512 \<longrightarrow>
        table K (the (kernel_page_table k)) j = table k (the (kernel_page_table k)) j) \<and>
     table K (the (kernel_page_table k)) 512 = 0 \<and>
     (\<forall>j<20. \<forall>x<4096. ram (mach K) (fs ! j * 4096 + x) =
        ram (mach k) (get_frame (table k (user_table k (current k))) j * 4096 + x)) \<and>
     (\<forall>a. a div 4096 \<notin> set fs \<longrightarrow> ram (mach K) a = ram (mach k) a)"

lemma child_builtD:
  assumes "child_built k cf c d u fs K"
  shows "length fs = 20" "distinct (d # u # fs)" "set (d # u # fs) \<subseteq> allocatable (frames k)" "rest_same k K"
    "links K = links k" "tasks K = (tasks k)(c := (tasks k c)\<lparr>dir_pages_baseAddr := d\<rparr>)"
    "paging (mach K) = paging (mach k)" "cr3 (mach K) = get_DIR k (current k)"
    "free_frames (frames K) = free_frames (frames k) - set (d # u # fs)" "frames_ok (frames K)"
    "first_kernel (frames K) = first_kernel (frames k)" "last_kernel (frames K) = last_kernel (frames k)"
    "child_tables k cf d u fs K"
    "g \<notin> set (d # u # fs) \<Longrightarrow> g \<noteq> the (kernel_page_table k) \<Longrightarrow> g \<noteq> the (kernel_page_table2 k) \<Longrightarrow>
       table K g = table k g"
    "j \<notin> set (d # u # fs) \<Longrightarrow> j \<noteq> 512 \<Longrightarrow>
       table K (the (kernel_page_table k)) j = table k (the (kernel_page_table k)) j"
    "table K (the (kernel_page_table k)) 512 = 0"
    "j < 20 \<Longrightarrow> x < 4096 \<Longrightarrow> ram (mach K) (fs ! j * 4096 + x) =
       ram (mach k) (get_frame (table k (user_table k (current k))) j * 4096 + x)"
    "a div 4096 \<notin> set fs \<Longrightarrow> ram (mach K) a = ram (mach k) a"
  using assms by (simp_all add: child_built_def paging_def)

lemma fork_copied:
  assumes ok: "mem_ok k L i cf" and me: "current k \<noteq> i" and c: "c \<notin> L" and room: "22 \<le> card (allocatable (frames k))"
  obtains d u fs J where "child_built k cf c d u fs J" and "shared_refs J = shared_refs k"
    and "\<And>j. 28 \<le> j \<Longrightarrow> j < 1024 \<Longrightarrow> \<not> present (table J u) j"
    and "fork_address_space c k = Some (0, fold (fork_share_page (user_table k (current k)) u) [28..<PT_ENTRIES] J)"
proof -
  note md = mem_okD [OF ok]
  let ?me = "current k" and ?kt = "the (kernel_page_table k)" and ?pu = "user_table k (current k)"
  obtain d u fs k4 where f4: "length fs = 20" "distinct (d # u # fs)"
      "grows c (set (d # u # fs)) k k4" "get_DIR k4 c = d" "child_tables k cf d u fs k4"
      "\<And>j. 28 \<le> j \<Longrightarrow> j < 1024 \<Longrightarrow> \<not> present (table k4 u) j"
      "fork_address_space c k = do {
           k' \<leftarrow> fork_copy_pages fs k4;
           let k' = set_cr3 (get_DIR k' ?me) k';
           Some (0, fold (fork_share_page ?pu u) [28..<PT_ENTRIES] k') }"
    by (rule fork_tables [OF ok me c room], rule that)
  note g4 = growsD [OF f4(3)]
  have dirk: "get_DIR k4 p = get_DIR k p" if "p \<in> L" for p using g4(30) [of p] that c by auto
  have m4: "mem_ok k4 L i cf" "\<And>p. p \<in> L \<Longrightarrow> user_table k4 p = user_table k p"
    "\<And>p. p \<in> L \<Longrightarrow> p \<noteq> i \<Longrightarrow> table k4 (user_table k p) = table k (user_table k p)"
    by (rule mem_ok_confined [OF ok confined_grows [OF f4(3)] dirk]; assumption)+
  note md4 = mem_okD [OF m4(1)]
  have unused: "frame_of k cf w \<notin> set (d # u # fs)" if "in_use L i w" for w
    using frames_apartD(3) [OF md(8) that] g4(22) allocatableD(1) by blast
  have ktN: "?kt \<notin> set (d # u # fs)" using unused [of Use_kernel_table] by simp
  have putab: "table k4 ?pu = table k ?pu" by (rule m4(3) [OF md(3) me])
  have cur4: "current k4 = ?me" by (rule g4(4))
  have "sees_kernel k4 ?me" "sees_user k4 cf ?me" using md4(9,10) md(3) me by simp_all
  then have sp: "copy_space k4 ?kt ?pu"
    using md4(5) dirk [OF md(3)] m4(2) [OF md(3)] tables_apart(1,5) [OF md(8) md(3)] me g4(7)
    unfolding copy_space_def Let_def sees_kernel_def sees_user_def cur4
    by (simp add: user_table_def eq_commute)
  have own: "get_frame (table k4 ?pu) j \<notin> set fs" if "j < 20" for j
    using unused [of "Use_data ?me j"] md(3) me that putab by simp
  have fsN: "distinct fs" "set fs \<subseteq> {..<2048}" using f4(2) g4(22) allocatableD(2) [of _ "frames k"] by auto
  obtain r T c5 where k5: "fork_copy_pages fs k4 = Some (k4\<lparr>mach := (mach k4)\<lparr>ram := r, tables := T, cr3 := c5\<rparr>\<rparr>)"
      "\<And>j x. j < 20 \<Longrightarrow> x < 4096 \<Longrightarrow> r (fs ! j * 4096 + x) = ram (mach k4) (get_frame (table k4 ?pu) j * 4096 + x)"
      "\<And>a. a div 4096 \<notin> set fs \<Longrightarrow> r a = ram (mach k4) a"
      "\<And>g. g \<noteq> ?kt \<Longrightarrow> T g = table k4 g" "\<And>j. j \<noteq> 512 \<Longrightarrow> T ?kt j = table k4 ?kt j" "T ?kt 512 = 0"
    using fork_copy_pages_prefix [OF sp f4(1) fsN own, of 20] unfolding fork_copy_pages_def by auto
  define J where "J = k4\<lparr>mach := (mach k4)\<lparr>ram := r, tables := T, cr3 := get_DIR k ?me\<rparr>\<rparr>"
  have T: "table J = T" by (simp add: J_def table_def fun_eq_iff)
  have Tne: "T d = table k4 d" "T u = table k4 u" using ktN k5(4) by auto
  have "fork_address_space c k = Some (0, fold (fork_share_page ?pu u) [28..<PT_ENTRIES] J)"
    unfolding f4(7) k5(1) using dirk [OF md(3)] by (simp add: J_def set_cr3_def get_DIR_def)
  moreover have "child_built k cf c d u fs J"
    unfolding child_built_def
  proof (intro conjI allI impI)
    show "rest_same k J"
      by (rule rest_same_trans [OF rest_same_grows [OF f4(3)]],
          rule rest_sameI [where f = "frames k4" and l = "links k4" and t = "tasks k4" and r = "shared_refs k4"])
        (simp add: J_def)
    show "child_tables k cf d u fs J" using f4(5) unfolding child_tables_def T Tne .
    show "tasks J = (tasks k)(c := (tasks k c)\<lparr>dir_pages_baseAddr := d\<rparr>)"
      using g4(21) f4(4) by (simp add: J_def)
    show "table J g = table k g" if "g \<notin> set (d # u # fs)" "g \<noteq> ?kt" "g \<noteq> the (kernel_page_table2 k)" for g
      using g4(28) [OF that] k5(4) that(2) by (simp add: T)
    show "table J ?kt j = table k ?kt j" if "j \<notin> set (d # u # fs)" "j \<noteq> 512" for j
      using g4(29) [OF that(1)] k5(5) [OF that(2)] by (simp add: T)
    show "ram (mach J) (fs ! j * 4096 + x) = ram (mach k) (get_frame (table k ?pu) j * 4096 + x)"
      if "j < 20" "x < 4096" for j x
      using k5(2) [OF that] g4(18) putab by (simp add: J_def)
    show "ram (mach J) a = ram (mach k) a" if "a div 4096 \<notin> set fs" for a
      using k5(3) [OF that] g4(18) by (simp add: J_def)
  qed (use f4(1,2) g4 k5(6) in \<open>simp_all add: J_def T [unfolded J_def]\<close>)
  moreover have "\<not> present (table J u) j" if "28 \<le> j" "j < 1024" for j
    using f4(6) [OF that] by (simp add: T Tne)
  moreover have "shared_refs J = shared_refs k" by (simp add: J_def g4(13))
  ultimately show thesis using that by blast
qed

text \<open>The shared pages.\<close>

lemma built_unused:
  assumes ok: "mem_ok k L i cf" and b: "child_built k cf c d u fs K"
  shows "in_use L i w \<Longrightarrow> frame_of k cf w \<notin> set (d # u # fs)"
    and "p \<in> L \<Longrightarrow> table K (get_DIR k p) = table k (get_DIR k p)"
    and "p \<in> L \<Longrightarrow> p \<noteq> i \<Longrightarrow> table K (user_table k p) = table k (user_table k p)"
    and "u \<notin> user_tables k L i" and "u \<noteq> the (kernel_page_table k)"
    and "f \<in> set (d # u # fs) \<Longrightarrow> f \<in> free_frames (frames k) \<and> f < 2048 \<and> last_kernel (frames k) \<le> f"
proof -
  note md = mem_okD [OF ok] and bd = child_builtD [OF b]
  show unused: "frame_of k cf w \<notin> set (d # u # fs)" if "in_use L i w" for w
    using frames_apartD(3) [OF md(8) that] bd(3) allocatableD(1) by blast
  show "table K (get_DIR k p) = table k (get_DIR k p)" if "p \<in> L"
    using unused [of "Use_dir p"] that tables_apart(1,2) [OF md(8) that] by (intro bd(14)) simp_all
  show "table K (user_table k p) = table k (user_table k p)" if "p \<in> L" "p \<noteq> i"
    using unused [of "Use_user_table p"] that tables_apart(5,6) [OF md(8) that] by (intro bd(14)) simp_all
  show "u \<notin> user_tables k L i" using unused [of "Use_user_table p" for p] by (fastforce simp: user_tables_def)
  show "u \<noteq> the (kernel_page_table k)" using unused [of Use_kernel_table] by simp
  show "f \<in> free_frames (frames k) \<and> f < 2048 \<and> last_kernel (frames k) \<le> f" if "f \<in> set (d # u # fs)"
    using that bd(3) allocatableD [of f "frames k"] by auto
qed

lemma fork_shared:
  assumes ok: "mem_ok k L i cf" and me: "current k \<noteq> i" and b: "child_built k cf c d u fs J"
    and refs: "shared_refs J = shared_refs k" and empty: "\<And>j. 28 \<le> j \<Longrightarrow> j < 1024 \<Longrightarrow> \<not> present (table J u) j"
  obtains K where "fold (fork_share_page (user_table k (current k)) u) [28..<PT_ENTRIES] J = K"
    and "child_built k cf c d u fs K" and "shm_ok K (insert u (user_tables k L i))"
    and "\<And>j. 28 \<le> j \<Longrightarrow> j < 1024 \<Longrightarrow> present (table K u) j = present (table k (user_table k (current k))) j \<and>
           (present (table K u) j \<longrightarrow> get_frame (table K u) j = get_frame (table k (user_table k (current k))) j)"
proof -
  note md = mem_okD [OF ok] and bd = child_builtD [OF b]
  note bu = built_unused [OF ok b]
  let ?pu = "user_table k (current k)" and ?U = "user_tables k L i"
  have puU: "?pu \<in> ?U" using md(3) me by (auto simp: user_tables_def)
  have pune: "?pu \<noteq> u" using bu(4) puU by auto
  have "shm_ok J ?U"
  proof (rule shm_ok_same [OF md(11)])
    show "table J w = table k w" if "w \<in> ?U" for w using that bu(3) by (auto simp: user_tables_def)
  qed (use shared_frame_used [OF md(11)] rest_sameD [OF bd(4)] refs bd(9) in auto)
  then have s: "shm_ok J (insert u ?U)" by (rule shm_ok_insert [OF _ empty])
  obtain t r where K: "fold (fork_share_page ?pu u) [28..<1024] J = (upd_table u (\<lambda>_. t) J)\<lparr>shared_refs := r\<rparr>"
      "shm_ok ((upd_table u (\<lambda>_. t) J)\<lparr>shared_refs := r\<rparr>) (insert u ?U)"
      "\<And>j. 28 \<le> j \<Longrightarrow> j < 1024 \<Longrightarrow> present t j = present (table J ?pu) j \<and>
              (present t j \<longrightarrow> get_frame t j = get_frame (table J ?pu) j)"
      "\<And>j. \<not> (28 \<le> j \<and> j < 1024) \<Longrightarrow> t j = table J u j"
    using fork_share_prefix [OF s, of ?pu u 1024] puU pune empty by auto
  let ?K = "(upd_table u (\<lambda>_. t) J)\<lparr>shared_refs := r\<rparr>"
  have T: "table ?K g = (if g = u then t else table J g)" for g by simp
  have ne: "d \<noteq> u" using bd(2) by auto
  have low: "present t j = present (table J u) j" "get_frame t j = get_frame (table J u) j" if "j < 28" for j
    using K(4) [of j] that by (simp_all add: present_def get_frame_def)
  have "child_tables k cf d u fs ?K"
    using bd(13) ne low unfolding child_tables_def T by simp
  moreover have "rest_same k ?K"
    by (rule rest_same_trans [OF bd(4)],
        rule rest_sameI [where f = "frames J" and l = "links J" and t = "tasks J" and r = r]) (simp add: upd_table_def)
  ultimately have "child_built k cf c d u fs ?K"
    using b bu(5) unfolding child_built_def T by simp
  then show thesis
    using that [of ?K] K(1-3) bu(3) [OF md(3) me] by simp
qed

section \<open>The memory of the child\<close>

text \<open>A copy of the parent's data, the same code, the same shared pages.\<close>

definition child_memory :: "kernel \<Rightarrow> (nat \<Rightarrow> nat) \<Rightarrow> nat \<Rightarrow> nat list \<Rightarrow> kernel \<Rightarrow> bool" where
  "child_memory k cf c fs k' \<longleftrightarrow>
     (let pu = user_table k (current k); cu = user_table k' c in
      length fs = 20 \<and> distinct fs \<and> set fs \<subseteq> allocatable (frames k) \<and>
      (\<forall>j<20. present (table k' cu) j \<and> get_frame (table k' cu) j = fs ! j) \<and>
      (\<forall>j<20. \<forall>x<4096. ram (mach k') (fs ! j * 4096 + x) = ram (mach k) (get_frame (table k pu) j * 4096 + x)) \<and>
      (\<forall>a. a div 4096 \<notin> set fs \<longrightarrow> ram (mach k') a = ram (mach k) a) \<and>
      (\<forall>j<8. present (table k' cu) (20 + j) \<and> get_frame (table k' cu) (20 + j) = cf j) \<and>
      (\<forall>j. 28 \<le> j \<and> j < 1024 \<longrightarrow> present (table k' cu) j = present (table k pu) j \<and>
         (present (table k' cu) j \<longrightarrow> get_frame (table k' cu) j = get_frame (table k pu) j)))"

lemma built_child:
  assumes ok: "mem_ok k L i cf" and c: "c \<notin> L" and b: "child_built k cf c d u fs K"
  shows "get_DIR K c = d" and "user_table K c = u" and "sees_user K cf c"
    and "current k \<in> L \<Longrightarrow> sees_kernel K c"
    and "\<And>w. in_use L i w \<Longrightarrow> frame_of K cf w = frame_of k cf w"
proof -
  note md = mem_okD [OF ok] and bd = child_builtD [OF b]
  note bu = built_unused [OF ok b] and rs = rest_sameD [OF bd(4)]
  note ct = bd(13) [unfolded child_tables_def]
  show dir: "get_DIR K c = d" by (simp add: get_DIR_def bd(6))
  show ut: "user_table K c = u" using ct by (simp add: user_table_def dir)
  have "present (table K u) j" if "j < 28" for j
    using ct that by (cases "j < 20") (auto dest: spec [of _ "j - 20"])
  then show "sees_user K cf c" using ct by (simp add: sees_user_def dir ut)
  show "sees_kernel K c" if me: "current k \<in> L"
    using md(9) [OF me] ct unfolding sees_kernel_def dir rs(6,7) present_def get_frame_def by simp
  fix w assume w: "in_use L i w"
  have dk: "get_DIR K p = get_DIR k p" if "p \<in> L" for p using that c by (auto simp: get_DIR_def bd(6))
  have uk: "user_table K p = user_table k p" if "p \<in> L" for p
    using dk [OF that] bu(2) [OF that] by (simp add: user_table_def)
  show "frame_of K cf w = frame_of k cf w"
    using w dk uk bu(3) rs(6,7) by (cases w) simp_all
qed

lemma built_mem_ok:
  assumes ok: "mem_ok k L i cf" and c: "spare k L i cf c" and b: "child_built k cf c d u fs K"
    and shm: "shm_ok K (insert u (user_tables k L i))"
  shows "mem_ok K (insert c L) i cf"
proof -
  note md = mem_okD [OF ok] and bd = child_builtD [OF b]
  note bu = built_unused [OF ok b] and rs = rest_sameD [OF bd(4)]
  have cL: "c \<notin> L" "c \<noteq> i" using c md(2) by (auto simp: spare_def)
  note bc = built_child [OF ok cL(1) b]
  have dk: "get_DIR K p = get_DIR k p" if "p \<in> L" for p using that cL by (auto simp: get_DIR_def bd(6))
  have low: "j \<notin> set (d # u # fs)" "j \<noteq> 512" if "j < last_kernel (frames k)" for j
    using that bu(6) [of j] md(7) by (auto simp: kernel_mapped_def)
  have kt: "table K (the (kernel_page_table k)) j = table k (the (kernel_page_table k)) j"
    if "j < last_kernel (frames k)" for j by (rule bd(15) [OF low [OF that]])
  have base: "mem_base K L i cf" "user_tables K L i = user_tables k L i"
    by (rule mem_base_keep [OF md(12)];
        use md bd(7-12) rs dk bu(2,3) kt in \<open>auto simp: pool_def allocatable_def\<close>)+
  have "(\<forall>w. in_use L i w \<longrightarrow> frame_of K cf w \<noteq> f) \<and> last_kernel (frames K) \<le> f \<and> f < TOTAL_PAGES \<and>
      f \<notin> free_frames (frames K) \<and> (\<forall>s<10. shared_frames K s \<noteq> int f)"
    if "f \<in> set (c # get_DIR K c # user_table K c # fs)" for f
  proof (cases "f = c")
    case True
    then show ?thesis using c bc(5) rs(11) bd(9,12) by (auto simp: spare_def)
  next
    case False
    then have f: "f \<in> set (d # u # fs)" using that by (simp add: bc(1,2))
    then show ?thesis
      using bu(6) [OF f] bu(1) bc(5) shared_frame_used [OF md(11)] rs(11) bd(9,12) by fastforce
  qed
  moreover have "distinct (c # get_DIR K c # user_table K c # fs)"
    using bd(2) c bu(6) by (auto simp: bc(1,2) spare_def)
  moreover have "get_frame (table K (user_table K c)) j = fs ! j" if "j < 20" for j
    using bd(13) that by (simp add: bc(2) child_tables_def)
  ultimately have "mem_base K (insert c L) i cf"
    using mem_base_insert [OF base(1) cL(1) bd(1)] bc(3) bc(4) [OF md(3)] by blast
  moreover have "user_tables K (insert c L) i = insert u (user_tables k L i)"
  proof -
    have "insert c L - {i} = insert c (L - {i})" using cL by auto
    then show ?thesis using base(2) bc(2) by (simp add: user_tables_def)
  qed
  ultimately show ?thesis using shm by (simp add: mem_ok_def)
qed

lemma fork_address_space_ok:
  assumes ok: "mem_ok k L i cf" and me: "current k \<noteq> i" and c: "spare k L i cf c"
    and room: "22 \<le> card (allocatable (frames k))"
  obtains K d u fs where "fork_address_space c k = Some (0, K)" and "mem_ok K (insert c L) i cf"
    and "child_memory k cf c fs K" and "child_built k cf c d u fs K"
proof -
  note md = mem_okD [OF ok]
  have cL: "c \<notin> L" using c by (simp add: spare_def)
  obtain d u fs J where J: "child_built k cf c d u fs J" "shared_refs J = shared_refs k"
      "\<And>j. 28 \<le> j \<Longrightarrow> j < 1024 \<Longrightarrow> \<not> present (table J u) j"
      "fork_address_space c k = Some (0, fold (fork_share_page (user_table k (current k)) u) [28..<PT_ENTRIES] J)"
    by (rule fork_copied [OF ok me cL room], rule that)
  obtain K where K: "fold (fork_share_page (user_table k (current k)) u) [28..<PT_ENTRIES] J = K"
      "child_built k cf c d u fs K" "shm_ok K (insert u (user_tables k L i))"
      "\<And>j. 28 \<le> j \<Longrightarrow> j < 1024 \<Longrightarrow> present (table K u) j = present (table k (user_table k (current k))) j \<and>
           (present (table K u) j \<longrightarrow> get_frame (table K u) j = get_frame (table k (user_table k (current k))) j)"
    by (rule fork_shared [OF ok me J(1,2)]) (use J(3) in blast, rule that)
  note bd = child_builtD [OF K(2)] and bc = built_child [OF ok cL K(2)]
  have "child_memory k cf c fs K"
    using bd(1-3,13,17,18) K(4) by (simp add: child_memory_def Let_def bc(2) child_tables_def)
  moreover have "mem_ok K (insert c L) i cf" by (rule built_mem_ok [OF ok c K(2,3)])
  ultimately show thesis using that J(4) K(1,2) by simp
qed

end
