(* ===== verification/Fork_Call.thy ===== *)
theory Fork_Call
  imports Fork_Space Invariant
begin

text \<open>
  \<open>sys_fork\<close> as a whole: the PCB of the child at the beginning, its identity, family and queue at the end, and
  what is undone when the frames run out.
\<close>

section \<open>A PCB for the child\<close>

lemma alloc_pcb_cases:
  assumes fo: "frames_ok (frames k)" and kt: "kernel_page_table k = Some kt" "kernel_page_table2 k = Some kt2" "kt \<noteq> kt2"
    and tl: "tasks_linked (links k) L"
  obtains "allocatable (frames k) = {}" and "alloc_pcb k = Some (None, k)"
  | c k1 h where "c \<in> allocatable (frames k)" and "alloc_pcb k = Some (Some c, k1\<lparr>links := h\<rparr>)"
      and "grows c {c} k k1" and "tasks k1 = tasks k" and "tasks_linked h (insert c L)" and "loose h c"
      and "\<And>n. n \<notin> task_nodes \<Longrightarrow> n \<noteq> At_list c \<Longrightarrow> nxt h n = nxt (links k) n \<and> prv h n = prv (links k) n"
proof (cases rule: kernel_alloc_frame_cases [OF fo])
  case 1
  then show ?thesis using that(1) by (simp add: alloc_pcb_def)
next
  case (2 c m)
  let ?k1 = "map_new_frame c (k\<lparr>frames := m\<rparr>)"
  let ?h0 = "INIT_LIST_HEAD (At_task_list c) (links k)"
  let ?h1 = "?h0\<lparr>nxt := (nxt ?h0)(At_list c := None), prv := (prv ?h0)(At_list c := None)\<rparr>"
  have g: "grows c {c} k ?k1" by (rule grows_alloc [OF fo kt 2(1,3-7)])
  have "tasks_linked ?h1 L"
    using tl unfolding tasks_linked_def by (auto simp: INIT_LIST_HEAD_def task_nodes_iff)
  then obtain h where h: "list_add_tail (At_task_list c) List_tasks ?h1 = Some h" "tasks_linked h (insert c L)"
      "\<And>n. n \<notin> task_nodes \<Longrightarrow> nxt h n = nxt ?h1 n \<and> prv h n = prv ?h1 n"
    using tasks_add by blast
  have "alloc_pcb k = Some (Some c, ?k1\<lparr>links := h\<rparr>)"
    using 2(2) h(1) by (simp add: alloc_pcb_def Let_def on_links_def)
  moreover have "loose h c" using h(3) [of "At_list c"] by (simp add: detached_def task_nodes_iff)
  moreover have "nxt h n = nxt (links k) n \<and> prv h n = prv (links k) n" if "n \<notin> task_nodes" "n \<noteq> At_list c" for n
    using h(3) [OF that(1)] that by (auto simp: INIT_LIST_HEAD_def task_nodes_iff)
  ultimately show ?thesis using that(2) [OF 2(1) _ g _ h(2)] by simp
qed

lemma copy_task_union_links:
  assumes "p \<noteq> c" and "p \<in> L" and "tasks_linked (links k) (insert c L)"
  shows "tasks_linked (links (copy_task_union p c k)) (insert c L)"
    and "loose (links (copy_task_union p c k)) c = loose (links k) p"
    and "n \<noteq> At_task_list c \<Longrightarrow> n \<notin> pcb_nodes c \<Longrightarrow> nxt (links (copy_task_union p c k)) n = nxt (links k) n \<and>
           prv (links (copy_task_union p c k)) n = prv (links k) n"
    and "tasks (copy_task_union p c k) = (tasks k)(c := tasks k p)"
proof -
  show "tasks_linked (links (copy_task_union p c k)) (insert c L)"
    using assms unfolding tasks_linked_def by (auto simp: copy_task_union_def copy_node_def task_nodes_iff)
qed (use assms(1) in \<open>auto simp: copy_task_union_def copy_node_def detached_def pcb_nodes_def\<close>)

text \<open>\<open>sys_fork\<close> up to the copy of the parent's page: the processes do not notice.\<close>

lemma fork_begin:
  assumes ok: "kernel_ok k v cf"
  obtains "allocatable (frames k) = {}" and "alloc_pcb k = Some (None, k)"
  | c k1 k2 where "alloc_pcb k = Some (Some c, k1)" and "copy_task_union (current k1) c k1 = k2"
      and "c \<in> allocatable (frames k)" and "c \<notin> all_tasks k v" and "confined {c} k k2"
      and "allocatable (frames k2) = allocatable (frames k) - {c}" and "free_frames (frames k2) = free_frames (frames k) - {c}"
      and "kernel_ok k2 v cf" and "all_tasks k2 v = all_tasks k v" and "tasks k2 = (tasks k)(c := tasks k (current k))"
      and "tasks_linked (links k2) (insert c (all_tasks k v))" and "loose (links k2) c"
      and "spare k2 (all_tasks k v) (the (idle_task k)) cf c"
      and "\<And>n. n \<notin> task_nodes \<Longrightarrow> n \<notin> pcb_nodes c \<Longrightarrow>
             nxt (links k2) n = nxt (links k) n \<and> prv (links k2) n = prv (links k) n"
      and "frames_kept k k2 v cf"
proof -
  let ?L = "all_tasks k v" and ?i = "the (idle_task k)"
  note d = kernel_okD [OF ok]
  note md = mem_okD [OF d(3)]
  note fa = frames_apartD [OF md(8)]
  obtain kt kt2 where kt: "kernel_page_table k = Some kt" "kernel_page_table2 k = Some kt2"
    using md(7) by (auto simp: kernel_mapped_def)
  have kne: "kt \<noteq> kt2" using tables_apart(8) [OF md(8,3)] kt by simp
  show thesis
  proof (cases rule: alloc_pcb_cases [OF md(4) kt kne d(5)])
    case 1
    then show thesis by (rule that(1))
  next
    case (2 c k1 h)
    note ac = allocatableD [OF 2(1)]
    have cL: "c \<notin> ?L" using fa(3) [of "Use_pcb c"] ac(1) by auto
    then have mc: "current k \<noteq> c" using current_in_all [of k v] by auto
    note gd = growsD [OF 2(3)]
    let ?k1 = "k1\<lparr>links := h\<rparr>"
    define k2 where "k2 = copy_task_union (current k) c ?k1"
    note cp = copy_task_union_links [of "current k" c ?L ?k1, folded k2_def]
    have tl1: "tasks_linked (links ?k1) (insert c ?L)" using 2(5) by simp
    have e2: "k2 = k1\<lparr>links := links k2, tasks := (tasks k)(c := tasks k (current k))\<rparr>"
      using 2(4) by (simp add: k2_def copy_task_union_def)
    have sel: "frames k2 = frames k1" "tasks k2 = (tasks k)(c := tasks k (current k))" "current k2 = current k"
      "idle_task k2 = idle_task k" "pidGlobal k2 = pidGlobal k" "kbd_st k2 = kbd_st k" "scr k2 = scr k"
      "shared_frames k2 = shared_frames k" "tss k2 = tss k" "msr k2 = msr k"
      using gd by (subst e2; simp)+
    have cnf: "confined {c} k k2"
      by (subst e2, rule confined_other(3), rule confined_grows [OF 2(3)])
    have tl2: "tasks_linked (links k2) (insert c ?L)" by (rule cp(1) [OF mc current_in_all tl1])
    have lk: "nxt (links k2) n = nxt (links k) n \<and> prv (links k2) n = prv (links k) n"
      if "n \<notin> task_nodes" "n \<notin> pcb_nodes c" for n
      using cp(3) [OF mc current_in_all tl1, of n] 2(7) [of n] that by (auto simp: task_nodes_iff pcb_nodes_def)
    have dir: "get_DIR k2 p = get_DIR k p" if "p \<in> ?L" for p
      using that cL by (auto simp: get_DIR_def sel)
    note m2 = mem_ok_confined [OF d(3) cnf dir]
    have "procs_ok k2 v" and all2: "all_tasks k2 v = ?L"
      by (rule procs_ok_unseen [OF d(10) cL lk tasks_linked_mono [OF tl2]]; use sel in auto)+
    then have ok2: "kernel_ok k2 v cf" using m2(1) by (simp add: kernel_ok_def sel)
    have "loose h (current k)"
      using 2(7) [of "At_list (current k)"] d(1) mc
      by (auto simp: sched_ok_def detached_def task_nodes_iff)
    then have l2: "loose (links k2) c" using cp(2) [OF mc current_in_all tl1] by simp
    have s2: "spare k2 ?L ?i cf c"
    proof -
      have "frame_of k2 cf u \<noteq> c" if "in_use ?L ?i u" for u
      proof -
        have "frame_of k2 cf u = frame_of k cf u" by (rule m2(5) [OF _ that]) assumption
        then show ?thesis using fa(3) [OF that] ac(1) by auto
      qed
      moreover have "shared_frames k s \<noteq> int c" if "s < 10" for s
        using shared_frame_used [OF md(11) that] ac(1) by auto
      ultimately show ?thesis
        using cL ac gd(23,26) by (auto simp: spare_def sel)
    qed
    have cp2: "copy_task_union (current ?k1) c ?k1 = k2" using gd(4) by (simp add: k2_def)
    show thesis
      by (rule that(2) [OF 2(2) cp2 2(1) cL cnf _ _ ok2 all2 sel(2) tl2 l2 s2 lk])
        (use gd(23,24) m2(5) in \<open>simp_all add: sel frames_kept_def\<close>)
  qed
qed

section \<open>The child joins\<close>

definition fork_queues :: "kernel \<Rightarrow> nat \<Rightarrow> queues \<Rightarrow> queues" where
  "fork_queues k c v =
     v\<lparr>children_blocked := (children_blocked v)(c \<mapsto> []),
       children_unblocked := (children_unblocked v)(c \<mapsto> [], current k \<mapsto> the (children_unblocked v (current k)) @ [c]),
       ready := ready v @ [c]\<rparr>"

text \<open>The PCB of the child at the end of \<open>sys_fork\<close>.\<close>

definition child_pcb :: "kernel \<Rightarrow> nat \<Rightarrow> task_struct" where
  "child_pcb k c = (tasks k c)\<lparr>PID := pidGlobal k + 1, quantum := 10, parent := Some (current k), pending_unblocks := 0,
     resume := Ret_from_fork\<rparr>"

lemma fork_enlist_rings:
  assumes ok: "sched_ok k v" and lc: "lists_closed v (all_tasks k v)" and c: "c \<notin> all_tasks k v"
  obtains h where "fork_enlist c k = Some (pidGlobal k + 1,
        k\<lparr>links := h, pidGlobal := pidGlobal k + 1, tasks := (tasks k)(c := child_pcb k c)\<rparr>)"
    and "queues_rep h (fork_queues k c v)"
    and "\<And>p. p \<in> all_tasks k v \<Longrightarrow> loose (links k) p \<Longrightarrow> loose h p"
    and "\<And>M. tasks_linked (links k) M \<Longrightarrow> tasks_linked h M"
proof -
  let ?me = "current k"
  have L: "set (ready v) \<subseteq> all_tasks k v" "set (blocked v) \<subseteq> all_tasks k v" "set (kbd_blocked v) \<subseteq> all_tasks k v"
    by (auto simp: all_tasks_def)
  have mc: "?me \<noteq> c" using c current_in_all [of k v] by auto
  have f: "fam ring (links k) (ring_map v)" using ok by (simp add: sched_ok_def queues_rep_def)
  note fr = fresh_knode(1) [OF lc L c]
  obtain cu where cu: "children_unblocked v ?me = Some cu"
    using lc current_in_all [of k v] unfolding lists_closed_def by blast
  let ?F1 = "(ring_map v)(At_children_blocked c \<mapsto> [])"
  let ?F2 = "?F1(At_children_unblocked c \<mapsto> [])"
  let ?F3 = "?F2(At_children_unblocked ?me \<mapsto> map At_sibiling cu @ [At_sibiling c])"
  let ?F4 = "?F3(Readyqueue \<mapsto> map At_list (ready v) @ [At_list c])"
  let ?h1 = "INIT_LIST_HEAD (At_children_blocked c) (links k)"
  let ?h2 = "INIT_LIST_HEAD (At_children_unblocked c) ?h1"
  have f1: "fam ring ?h1 ?F1" by (rule fam_init [OF f fr]) simp
  have "fresh (ring_map v) (At_children_unblocked c)" by (rule fr) simp
  then have f2: "fam ring ?h2 ?F2" by (intro fam_init [OF f1] fresh_upd) simp_all
  have q2: "?F2 (At_children_unblocked ?me) = Some (map At_sibiling cu)" using cu mc by simp
  have "fresh (ring_map v) (At_sibiling c)" by (rule fr) simp
  then have s2: "fresh ?F2 (At_sibiling c)" by (intro fresh_upd) simp_all
  obtain h3 where h3: "list_add_tail (At_sibiling c) (At_children_unblocked ?me) ?h2 = Some h3" "fam ring h3 ?F3"
      "\<And>a. fresh ?F2 a \<Longrightarrow> a \<noteq> At_sibiling c \<Longrightarrow> detached h3 a = detached ?h2 a"
    using lq.fam_add_tail [OF f2 q2 s2] by blast
  have q3: "?F3 Readyqueue = Some (map At_list (ready v))" by simp
  have lfr: "At_list c \<notin> set (At_children_unblocked ?me # map At_sibiling cu @ [At_sibiling c])" by auto
  have "fresh (ring_map v) (At_list c)" by (rule fr) simp
  then have "fresh ?F2 (At_list c)" by (intro fresh_upd) simp_all
  then have s3: "fresh ?F3 (At_list c)" using lfr by (rule fresh_upd)
  obtain h4 where h4: "list_add_tail (At_list c) Readyqueue h3 = Some h4" "fam ring h4 ?F4"
      "\<And>a. fresh ?F3 a \<Longrightarrow> a \<noteq> At_list c \<Longrightarrow> detached h4 a = detached h3 a"
    using lq.fam_add_tail [OF h3(2) q3 s3] by blast
  define v2 where "v2 = v\<lparr>children_blocked := (children_blocked v)(c \<mapsto> []), children_unblocked := (children_unblocked v)(c \<mapsto> [])\<rparr>"
  have "ring_map v2 = ?F2"
    using ring_map_upd(5) [of "v\<lparr>children_blocked := (children_blocked v)(c \<mapsto> [])\<rparr>" c "[]"] by (simp add: v2_def)
  moreover have "fork_queues k c v = v2\<lparr>children_unblocked := (children_unblocked v2)(?me \<mapsto> cu @ [c]), ready := ready v2 @ [c]\<rparr>"
    using cu mc by (simp add: fork_queues_def v2_def)
  ultimately have "ring_map (fork_queues k c v) = ?F4"
    using ring_map_upd(5) [of v2 ?me] by (simp add: v2_def)
  then have rep: "queues_rep h4 (fork_queues k c v)" using h4(2) by (simp add: queues_rep_def)
  have loose: "loose h4 p" if p: "p \<in> all_tasks k v" "loose (links k) p" for p
  proof -
    have pc: "p \<noteq> c" using p(1) c by auto
    have "fresh (ring_map v) (At_list p)" using detached_fresh [OF _ p(2)] ok by (simp add: sched_ok_def)
    then have f2p: "fresh ?F2 (At_list p)" by (intro fresh_upd) simp_all
    then have f3p: "fresh ?F3 (At_list p)" by (rule fresh_upd) auto
    have "detached ?h2 (At_list p)" using p(2) by (simp add: detached_def INIT_LIST_HEAD_def)
    then show ?thesis using h3(3) [OF f2p] h4(3) [OF f3p] pc by simp
  qed
  have tl: "tasks_linked h4 M" if "tasks_linked (links k) M" for M
  proof -
    have "tasks_linked ?h2 M"
      by (rule tasks_other(3), rule tasks_other(3) [OF that]) (rule no_task_node)+
    then have "tasks_linked h3 M" by (rule tasks_other(1) [OF _ _ _ h3(1)]) simp_all
    then show ?thesis by (rule tasks_other(1) [OF _ _ _ h4(1)]) simp_all
  qed
  let ?K = "k\<lparr>links := h4, pidGlobal := pidGlobal k + 1, tasks := (tasks k)(c := child_pcb k c)\<rparr>"
  have "fork_enlist c k = Some (pidGlobal k + 1, ?K)"
    using h3(1) h4(1) by (simp add: fork_enlist_def Let_def on_links_def upd_task_def child_pcb_def)
  then show thesis using that rep loose tl by blast
qed

lemma fork_all_tasks:
  assumes "current k' = current k" and "idle_task k' = idle_task k"
  shows "all_tasks k' (fork_queues k c v) = insert c (all_tasks k v)"
  by (auto simp: all_tasks_def fork_queues_def assms split: option.splits)

lemma lists_closedI:
  assumes "\<And>p. children_blocked v p \<noteq> None \<longleftrightarrow> p \<in> L" and "\<And>p. children_unblocked v p \<noteq> None \<longleftrightarrow> p \<in> L"
    and "\<And>p xs. children_blocked v p = Some xs \<Longrightarrow> set xs \<subseteq> L"
    and "\<And>p xs. children_unblocked v p = Some xs \<Longrightarrow> set xs \<subseteq> L"
  shows "lists_closed v L"
  using assms unfolding lists_closed_def by blast

lemma lists_closedD:
  assumes "lists_closed v L"
  shows "children_blocked v p \<noteq> None \<longleftrightarrow> p \<in> L" and "children_unblocked v p \<noteq> None \<longleftrightarrow> p \<in> L"
    and "children_blocked v p = Some xs \<Longrightarrow> set xs \<subseteq> L" and "children_unblocked v p = Some xs \<Longrightarrow> set xs \<subseteq> L"
    and "children_blocked v p = Some xs \<or> children_unblocked v p = Some xs \<Longrightarrow> x \<in> set xs \<Longrightarrow> x \<in> L"
  using assms unfolding lists_closed_def by blast+

lemma fork_lists_closed:
  assumes lc: "lists_closed v (all_tasks k v)"
  shows "lists_closed (fork_queues k c v) (insert c (all_tasks k v))"
proof -
  note d = lists_closedD [OF lc]
  obtain cu where cu: "children_unblocked v (current k) = Some cu"
    using d(2) [of "current k"] by auto
  have v: "children_blocked (fork_queues k c v) = (children_blocked v)(c \<mapsto> [])"
    "children_unblocked (fork_queues k c v) = (children_unblocked v)(c \<mapsto> [], current k \<mapsto> cu @ [c])"
    using cu by (simp_all add: fork_queues_def)
  show ?thesis
  proof (rule lists_closedI)
    fix p
    show "children_blocked (fork_queues k c v) p \<noteq> None \<longleftrightarrow> p \<in> insert c (all_tasks k v)"
      using d(1) [of p] by (simp add: v)
    show "children_unblocked (fork_queues k c v) p \<noteq> None \<longleftrightarrow> p \<in> insert c (all_tasks k v)"
      using d(2) [of p] by (simp add: v)
  next
    fix p xs assume "children_blocked (fork_queues k c v) p = Some xs"
    then show "set xs \<subseteq> insert c (all_tasks k v)" using d(3) [of p xs] by (auto simp: v split: if_splits)
  next
    fix p xs assume "children_unblocked (fork_queues k c v) p = Some xs"
    then show "set xs \<subseteq> insert c (all_tasks k v)"
      using d(4) [of p xs] d(4) [OF cu] by (auto simp: v split: if_splits)
  qed
qed

lemma fork_family_ok:
  assumes fam: "family_ok k v" and lc: "lists_closed v (all_tasks k v)" and c: "c \<notin> all_tasks k v"
    and rest: "current k' = current k" "idle_task k' = idle_task k"
    and pa: "\<And>p. p \<noteq> c \<Longrightarrow> parent (tasks k' p) = parent (tasks k p)" "parent (tasks k' c) = Some (current k)"
  shows "family_ok k' (fork_queues k c v)"
proof -
  let ?me = "current k" and ?L = "all_tasks k v" and ?v = "fork_queues k c v"
  have mc: "?me \<noteq> c" using c current_in_all [of k v] by auto
  obtain cu where cu: "children_unblocked v ?me = Some cu"
    using lc current_in_all [of k v] unfolding lists_closed_def by blast
  have v: "children_blocked ?v = (children_blocked v)(c \<mapsto> [])"
    "children_unblocked ?v = (children_unblocked v)(c \<mapsto> [], ?me \<mapsto> cu @ [c])" "blocked ?v = blocked v"
    using cu by (simp_all add: fork_queues_def)
  have m: "x \<noteq> c" if "children_blocked v p = Some xs \<or> children_unblocked v p = Some xs" "x \<in> set xs" for p xs x
    using lc c that unfolding lists_closed_def by blast
  have bc: "c \<notin> set (blocked v)" using c by (auto simp: all_tasks_def)
  show ?thesis
    unfolding family_ok_def fork_all_tasks [OF rest] v
  proof (intro conjI allI impI ballI)
    fix p xs x assume x: "((children_blocked v)(c \<mapsto> [])) p = Some xs" "x \<in> set xs"
    then have "children_blocked v p = Some xs" by (auto split: if_splits)
    moreover from this have "x \<noteq> c" using m x(2) by blast
    ultimately show "parent (tasks k' x) = Some p" "x \<in> set (blocked v)"
      using family_okD(1) [OF fam _ x(2)] pa(1) by simp_all
  next
    fix p xs x assume x: "((children_unblocked v)(c \<mapsto> [], ?me \<mapsto> cu @ [c])) p = Some xs" "x \<in> set xs"
    have "parent (tasks k' x) = Some p \<and> x \<notin> set (blocked v)"
    proof (cases "x = c")
      case True
      then have "p = ?me" using x m by (auto split: if_splits)
      then show ?thesis using True pa(2) bc by simp
    next
      case False
      then obtain ys where "children_unblocked v p = Some ys" "x \<in> set ys" using x cu by (auto split: if_splits)
      then show ?thesis
        using family_okD(2) [OF fam] pa(1) [OF False] by auto
    qed
    then show "parent (tasks k' x) = Some p" "x \<notin> set (blocked v)" by simp_all
  next
    fix p assume "p \<in> insert c ?L"
    then show "((children_blocked v)(c \<mapsto> [])) p \<noteq> None"
      and "((children_unblocked v)(c \<mapsto> [], ?me \<mapsto> cu @ [c])) p \<noteq> None"
      using family_okD(3,4) [OF fam] by auto
  next
    fix x p assume x: "x \<in> insert c ?L" "parent (tasks k' x) = Some p"
    show "\<exists>cb xs. ((children_blocked v)(c \<mapsto> [])) p = Some cb \<and>
        ((children_unblocked v)(c \<mapsto> [], ?me \<mapsto> cu @ [c])) p = Some xs \<and> x \<in> set cb \<union> set xs"
    proof (cases "x = c")
      case True
      then have "p = ?me" using x(2) pa(2) by simp
      then show ?thesis using family_okD(3) [OF fam, of ?me] mc True by auto
    next
      case False
      then have "x \<in> ?L" "parent (tasks k x) = Some p" using x pa(1) by auto
      from family_okD(5) [OF fam this] obtain cb xs where "children_blocked v p = Some cb"
          "children_unblocked v p = Some xs" "x \<in> set cb \<union> set xs" by blast
      moreover from this have "p \<noteq> c" using lc c unfolding lists_closed_def by blast
      ultimately show ?thesis using cu by auto
    qed
  qed
qed

lemma fork_enlist_ok:
  assumes ok: "procs_ok k v" and c: "c \<notin> all_tasks k v"
    and mem: "mem_ok k (insert c (all_tasks k v)) (the (idle_task k)) cf"
    and tl: "tasks_linked (links k) (insert c (all_tasks k v))"
  obtains h where "fork_enlist c k = Some (pidGlobal k + 1,
        k\<lparr>links := h, pidGlobal := pidGlobal k + 1, tasks := (tasks k)(c := child_pcb k c)\<rparr>)"
    and "kernel_ok (k\<lparr>links := h, pidGlobal := pidGlobal k + 1, tasks := (tasks k)(c := child_pcb k c)\<rparr>)
           (fork_queues k c v) cf"
proof -
  note d = procs_okD [OF ok]
  obtain h where h: "fork_enlist c k = Some (pidGlobal k + 1,
        k\<lparr>links := h, pidGlobal := pidGlobal k + 1, tasks := (tasks k)(c := child_pcb k c)\<rparr>)"
    "queues_rep h (fork_queues k c v)" "\<And>p. p \<in> all_tasks k v \<Longrightarrow> loose (links k) p \<Longrightarrow> loose h p"
    "\<And>M. tasks_linked (links k) M \<Longrightarrow> tasks_linked h M"
    using fork_enlist_rings [OF d(1,3) c] by blast
  let ?K = "k\<lparr>links := h, pidGlobal := pidGlobal k + 1, tasks := (tasks k)(c := child_pcb k c)\<rparr>"
  have all: "all_tasks ?K (fork_queues k c v) = insert c (all_tasks k v)" by (rule fork_all_tasks) simp_all
  have mc: "current k \<noteq> c" using c current_in_all [of k v] by auto
  have ic: "the (idle_task k) \<noteq> c" using c idle_in_all [OF d(1)] by auto
  have ne: "p \<noteq> c" if "p \<in> all_tasks k v" for p using that c by auto
  have "sched_ok ?K (fork_queues k c v)"
  proof -
    have "pids_ok k (all_tasks k v)" using d(1) by (simp add: sched_ok_def)
    then have "pids_ok ?K (insert c (all_tasks k v))"
      using d(5) ne by (fastforce simp: pids_ok_def inj_on_def child_pcb_def)
    moreover have "loose h (current k)" using h(3) [OF current_in_all] d(1) by (simp add: sched_ok_def)
    moreover have "idle_ok ?K (fork_queues k c v) (the (idle_task k))"
      using d(1) h(3) [OF idle_in_all [OF d(1)]] by (auto simp: sched_ok_def idle_ok_def fork_queues_def)
    ultimately show ?thesis using h(2) unfolding sched_ok_def all by auto
  qed
  moreover have "family_ok ?K (fork_queues k c v)"
    by (rule fork_family_ok [OF d(2,3) c]) (simp_all add: child_pcb_def)
  moreover have "mem_ok ?K (insert c (all_tasks k v)) (the (idle_task k)) cf"
  proof (rule mem_ok_run [OF mem])
    show "get_DIR ?K p = get_DIR k p" for p by (simp add: get_DIR_def child_pcb_def)
  qed (use mem_okD(3,5,6) [OF mem] mc in \<open>simp_all add: get_DIR_def\<close>)
  moreover have "resumes_ok ?K (fork_queues k c v)"
    using d(6) c ic ne unfolding resumes_ok_def all
    by (auto simp: fork_queues_def child_pcb_def all_tasks_def)
  moreover have "\<forall>p\<in>insert c (all_tasks k v). PID (tasks ?K p) \<le> pidGlobal ?K"
    using d(5) by (fastforce simp: child_pcb_def)
  moreover have "lists_closed (fork_queues k c v) (insert c (all_tasks k v))" by (rule fork_lists_closed [OF d(3)])
  moreover have "tasks_linked h (insert c (all_tasks k v))" by (rule h(4) [OF tl])
  ultimately have "kernel_ok ?K (fork_queues k c v) cf"
    using d(7-9) unfolding kernel_ok_def procs_ok_def all by (simp add: stack_ok_def)
  then show thesis using that h(1) by blast
qed

section \<open>Fork without enough frames\<close>

lemma fork_gives_up:
  assumes ok: "kernel_ok k v cf" and c: "c \<in> allocatable (frames k)" "c \<notin> all_tasks k v" and cnf: "confined N k K"
    and links: "\<And>n. n \<notin> task_nodes \<Longrightarrow> n \<notin> pcb_nodes c \<Longrightarrow>
           nxt (links K) n = nxt (links k) n \<and> prv (links K) n = prv (links k) n"
    and tl: "tasks_linked (links K) (insert c (all_tasks k v))"
    and tasks: "\<And>p. p \<noteq> c \<Longrightarrow> tasks K p = tasks k p"
  obtains k' where "free_pcb c K = Some k'" and "kernel_ok k' v cf" and "free_frames (frames k') = insert c (free_frames (frames K))"
    and "current k' = current k" and "ram (mach k') = ram (mach k)" and "last_kernel (frames k') = last_kernel (frames k)"
    and "frames_kept k k' v cf" and "rest_same k k'" and "\<And>p. p \<noteq> c \<Longrightarrow> tasks k' p = tasks k p"
proof -
  note d = kernel_okD [OF ok] and cd = confinedD [OF cnf]
  note rs = rest_sameD [OF cd(1)]
  obtain h where h: "list_del (At_task_list c) (links K) = Some h" "tasks_linked h (insert c (all_tasks k v) - {c})"
      "\<And>n. n \<notin> task_nodes \<Longrightarrow> nxt h n = nxt (links K) n \<and> prv h n = prv (links K) n"
    using tasks_del [OF tl] by blast
  let ?k = "kernel_free_frame c (K\<lparr>links := h\<rparr>)"
  have e: "free_pcb c K = Some ?k" using h(1) by (simp add: free_pcb_def on_links_def)
  note cn = confined_free [OF confined_other(1) [OF cnf, of h] allocatableD(1) [OF c(1)]]
  have dir: "get_DIR ?k p = get_DIR k p" if "p \<in> all_tasks k v" for p
  proof -
    have "p \<noteq> c" using that c(2) by auto
    then show ?thesis using tasks [of p] by (simp add: get_DIR_def kernel_free_frame_def)
  qed
  note mem = mem_ok_confined(1,5) [OF d(3) cn(1) dir]
  have lk: "nxt (links ?k) n = nxt (links k) n \<and> prv (links ?k) n = prv (links k) n"
    if "n \<notin> task_nodes" "n \<notin> pcb_nodes c" for n
    using h(3) [OF that(1)] links [OF that] by (simp add: kernel_free_frame_def)
  have tk: "tasks_linked (links ?k) (all_tasks k v)" using h(2) c(2) by (simp add: kernel_free_frame_def)
  have "procs_ok ?k v" "all_tasks ?k v = all_tasks k v"
    by (rule procs_ok_unseen [OF d(10) c(2) lk tk]; use tasks rs in \<open>simp add: kernel_free_frame_def\<close>)+
  moreover have sel: "current ?k = current k" "idle_task ?k = idle_task k" "ram (mach ?k) = ram (mach k)"
    using rs cd(3) by (simp_all add: kernel_free_frame_def)
  ultimately have "kernel_ok ?k v cf" using mem(1) by (simp add: kernel_ok_def sel)
  moreover have "frames_kept k ?k v cf" using mem(2) sel(2) by (simp add: frames_kept_def)
  moreover have "rest_same k ?k" "\<And>p. p \<noteq> c \<Longrightarrow> tasks ?k p = tasks k p"
    using confinedD(1) [OF cn(1)] tasks by (simp_all add: kernel_free_frame_def)
  ultimately show thesis using that e cn(2) sel confinedD(9) [OF cn(1)] by simp
qed

text \<open>Fewer than 22 frames after the PCB: what was taken is given back, but for the directory.\<close>

lemma fork_fails:
  assumes ok: "kernel_ok k v cf" and me: "idle_task k \<noteq> Some (current k)"
    and few: "card (allocatable (frames k)) < 23" and some: "allocatable (frames k) \<noteq> {}"
  obtains k' D where "sys_fork k = Some (- EAGAIN, k')" and "kernel_ok k' v cf" and "current k' = current k"
    and "ram (mach k') = ram (mach k)" and "D \<subseteq> allocatable (frames k)"
    and "card D = (if card (allocatable (frames k)) = 1 then 0 else 1)"
    and "allocatable (frames k') = allocatable (frames k) - D" and "frames_kept k k' v cf"
    and "rest_same k k'" and "\<And>p. p \<in> all_tasks k v \<Longrightarrow> tasks k' p = tasks k p"
proof (cases rule: fork_begin [OF ok])
  case 1
  then show thesis using some by simp
next
  case (2 c k1 k2)
  let ?A = "allocatable (frames k)"
  note result = that
  note d2 = kernel_okD(3) [OF 2(8)] and d = kernel_okD [OF ok]
  note md = mem_okD [OF d2]
  note fa = frames_apartD [OF md(8)]
  have idle: "current k2 \<noteq> the (idle_task k2)" "current k2 \<noteq> c"
    using me sched_ok_idle [OF d(1)] rest_sameD(3,4) [OF confinedD(1) [OF 2(5)]] 2(4) current_in_all [of k v] by auto
  have cA: "card (allocatable (frames k2)) = card ?A - 1"
    using 2(3,6) by (simp add: card_Diff_singleton)
  have A1: "1 \<le> card ?A" using some by (simp add: Suc_leI card_gt_0_iff)
  have finish: thesis
    if K: "fork_address_space c k2 = do { k \<leftarrow> free_pcb c K; Some (- EAGAIN, k) }"
      and cnf: "confined N k K" and l: "links K = links k2" and t: "\<And>p. p \<noteq> c \<Longrightarrow> tasks K p = tasks k2 p"
      and D: "free_frames (frames K) = free_frames (frames k) - insert c D" "D \<subseteq> ?A - {c}"
        "card D = (if card ?A = 1 then 0 else 1)" for K N D
  proof -
    obtain k' where k': "free_pcb c K = Some k'" "kernel_ok k' v cf"
        "free_frames (frames k') = insert c (free_frames (frames K))" "current k' = current k"
        "ram (mach k') = ram (mach k)" "last_kernel (frames k') = last_kernel (frames k)" "frames_kept k k' v cf"
        "rest_same k k'" "\<And>p. p \<noteq> c \<Longrightarrow> tasks k' p = tasks k p"
      by (rule fork_gives_up [OF ok 2(3,4) cnf _ _ _, rotated -1]) (use 2 l t in auto)
    have "sys_fork k = Some (- EAGAIN, k')"
      using 2(1,2) K k'(1) by (simp add: sys_fork_def)
    moreover have "allocatable (frames k') = ?A - D"
      using k'(3,6) D(1,2) 2(3) by (auto simp: allocatable_def)
    moreover have "tasks k' p = tasks k p" if "p \<in> all_tasks k v" for p using k'(9) 2(4) that by metis
    ultimately show thesis using result k'(2,4,5,7,8) D(2,3) by blast
  qed
  obtain kt kt2 where kt: "kernel_page_table k2 = Some kt" "kernel_page_table2 k2 = Some kt2"
    using md(7) by (auto simp: kernel_mapped_def)
  note ta = tables_apart [OF md(8) md(3), unfolded kt option.sel]
  have al: "f \<notin> allocatable (frames k2)" if "in_use (all_tasks k2 v) (the (idle_task k2)) w" "frame_of k2 cf w = f" for w f
    using fa(3) [OF that(1)] that(2) allocatableD(1) by blast
  have ktu: "kt \<notin> allocatable (frames k2)" using al [of Use_kernel_table kt] kt by simp
  have Du: "get_DIR k2 (current k2) \<notin> allocatable (frames k2)"
    using al [of "Use_dir (current k2)"] md(3) by simp
  consider "card ?A = 1" | "card ?A = 2" | "2 \<le> card (allocatable (frames k2))" using A1 cA by linarith
  then show thesis
  proof cases
    case c1: 1
    have e: "allocatable (frames k2) = {}" using c1 cA by simp
    then have "kernel_alloc_frame k2 = (-1, k2)"
      by (cases rule: kernel_alloc_frame_cases [OF md(4)]) auto
    moreover have "allocate_DIR c k2 = (-1, k2)"
      by (cases rule: allocate_DIR_cases [OF md(4) kt ta(8) idle(2) refl ta(1,2) Du ktu]) (use e in \<open>auto dest: growsD(22)\<close>)
    ultimately have "fork_address_space c k2 = do { k \<leftarrow> free_pcb c k2; Some (- EAGAIN, k) }"
      by (simp add: fork_address_space_def Let_def)
    then show thesis by (rule finish [OF _ 2(5), of "{}"]) (use 2(7) c1 in simp_all)
  next
    case c2: 2
    then have n0: "allocatable (frames k2) \<noteq> {}" using cA by auto
    obtain x k3 where k3: "allocate_DIR c k2 = (1, k3)" "grows c {x} k2 k3"
      by (cases rule: allocate_DIR_cases [OF md(4) kt ta(8) idle(2) refl ta(1,2) Du ktu]) (use n0 in auto)
    note g3 = growsD [OF k3(2)]
    have "card (allocatable (frames k3)) = 0"
      using g3(22,24) cA c2 by (simp add: card_Diff_singleton)
    then have "kernel_alloc_frame k3 = (-1, k3)"
      by (cases rule: kernel_alloc_frame_cases [OF g3(27)]) auto
    then have e: "fork_address_space c k2 = do { k \<leftarrow> free_pcb c k3; Some (- EAGAIN, k) }"
      using k3(1) by (simp add: fork_address_space_def Let_def)
    have x: "x \<in> allocatable (frames k2)" "x \<in> ?A - {c}" using g3(22) 2(6) by auto
    show thesis
      by (rule finish [OF e confined_trans [OF 2(5) confined_grows [OF k3(2)]], of "{x}"])
        (use g3(3,21,23) 2(7) x c2 in auto)
  next
    case c3: 3
    obtain x u k3 where k3: "x \<noteq> u" "grows c {x, u} k2 k3"
        "fork_address_space c k2 =
         (let (frames_data, k') = fork_data_pages u 0 [] k3
          in case frames_data of
               None \<Rightarrow> do { k \<leftarrow> free_pcb c (kernel_free_frame u k'); Some (- EAGAIN, k) }
             | Some fs \<Rightarrow> do {
                 k'' \<leftarrow> fork_copy_pages fs k';
                 let k'' = set_cr3 (get_DIR k'' (current k2)) k'';
                 Some (0, fold (fork_share_page (user_table k2 (current k2)) u) [28..<PT_ENTRIES] k'') })"
      by (rule fork_user_table [OF d2 idle(1) _ c3]) (use 2(4,9) in \<open>auto intro: that\<close>)
    note g3 = growsD [OF k3(2)]
    have xu: "x \<in> allocatable (frames k2)" "u \<in> allocatable (frames k2)" "x \<in> ?A - {c}" "u \<in> ?A - {c}"
      using g3(22) 2(6) by auto
    have "card (allocatable (frames k3)) < 20 - 0"
      using g3(22,24) k3(1) cA few by (simp add: card_Diff_subset)
    then obtain m T where m: "fork_data_pages u 0 [] k3 = (None, k3\<lparr>frames := m, mach := (mach k3)\<lparr>tables := T\<rparr>\<rparr>)"
        "free_frames m = free_frames (frames k3)" "frames_ok m" "first_kernel m = first_kernel (frames k3)"
        "last_kernel m = last_kernel (frames k3)" "\<And>g. g \<noteq> u \<Longrightarrow> T g = table k3 g"
      using fork_data_pages_none [OF g3(27), of 0 "[]" u] by auto
    let ?K = "k3\<lparr>frames := m, mach := (mach k3)\<lparr>tables := T\<rparr>\<rparr>"
    have cn: "confined ({c} \<union> {x, u}) k k3" by (rule confined_trans [OF 2(5) confined_grows [OF k3(2)]])
    have cm: "confined ({c} \<union> {x, u}) k (k3\<lparr>frames := m\<rparr>)"
      by (rule confined_frames [OF cn]) (use m confinedD(7) [OF cn] in simp_all)
    have "u \<noteq> the (kernel_page_table k)"
      using xu(2) ktu kt rest_sameD(6) [OF confinedD(1) [OF 2(5)]] by auto
    then have "confined ({c} \<union> {x, u}) k (k3\<lparr>frames := m\<rparr>\<lparr>mach := (mach (k3\<lparr>frames := m\<rparr>))\<lparr>tables := T\<rparr>\<rparr>)"
      by (intro confined_table [OF cm]) (use m(6) in simp_all)
    then have cK: "confined ({c} \<union> {x, u}) k ?K" by simp
    have uf: "u \<in> free_frames (frames k)" using xu(4) allocatableD(1) by blast
    have e: "fork_address_space c k2 = do { k \<leftarrow> free_pcb c (kernel_free_frame u ?K); Some (- EAGAIN, k) }"
      unfolding k3(3) m(1) by simp
    show thesis
    proof (rule finish [OF e confined_free(1) [OF cK uf], of "{x}"])
      show "free_frames (frames (kernel_free_frame u ?K)) = free_frames (frames k) - insert c {x}"
        unfolding confined_free(2) [OF cK uf] using m(2) g3(23) 2(7) uf xu(4) k3(1) by auto
    qed (use g3(3,21) xu c3 cA in \<open>auto simp: kernel_free_frame_def\<close>)
  qed
qed

section \<open>Fork with enough frames\<close>

lemma child_memory_cong:
  assumes "child_memory k cf c fs K" and "user_table k (current k) = user_table j (current j)"
    and "table k (user_table k (current k)) = table j (user_table j (current j))" and "ram (mach k) = ram (mach j)"
    and "allocatable (frames k) \<subseteq> allocatable (frames j)"
    and "mach K = mach K'" and "get_DIR K c = get_DIR K' c"
  shows "child_memory j cf c fs K'"
proof -
  have e: "table K = table K'" using assms(6) by (simp add: table_def fun_eq_iff)
  have u: "user_table K c = user_table K' c" using assms(7) by (simp add: user_table_def e)
  have p: "table k (user_table j (current j)) = table j (user_table j (current j))" using assms(2,3) by simp
  show ?thesis
    using assms(1) subset_trans [OF _ assms(5), of "set fs"]
    unfolding child_memory_def Let_def u e assms(2) p assms(4,6) by fast
qed

lemma fork_succeeds:
  assumes ok: "kernel_ok k v cf" and me: "idle_task k \<noteq> Some (current k)" and room: "23 \<le> card (allocatable (frames k))"
  obtains c d fs k' where "sys_fork k = Some (pidGlobal k + 1, k')" and "c \<notin> all_tasks k v"
    and "kernel_ok k' (fork_queues k c v) cf" and "current k' = current k" and "child_memory k cf c fs k'"
    and "tasks k' = (tasks k)(c := (tasks k (current k))\<lparr>dir_pages_baseAddr := d, PID := pidGlobal k + 1, quantum := 10,
             parent := Some (current k), pending_unblocks := 0, resume := Ret_from_fork\<rparr>)"
    and "card (allocatable (frames k')) + 23 = card (allocatable (frames k))"
    and "table k' (the (kernel_page_table k')) 512 = 0" and "frames_kept k k' v cf"
    and "rest_same (k\<lparr>pidGlobal := pidGlobal k + 1\<rparr>) k'"
proof (cases rule: fork_begin [OF ok])
  case 1
  then show thesis using room by simp
next
  case (2 c k1 k2)
  note result = that
  let ?L = "all_tasks k v" and ?i = "the (idle_task k)"
  note d = kernel_okD [OF ok] and rs = rest_sameD [OF confinedD(1) [OF 2(5)]]
  note d2 = kernel_okD [OF 2(8), unfolded 2(9) rs(4)]
  have me2: "current k2 \<noteq> ?i" using me sched_ok_idle [OF d(1)] rs(3) by auto
  have ne: "p \<noteq> c" if "p \<in> ?L" for p using that 2(4) by auto
  have r2: "22 \<le> card (allocatable (frames k2))" using room 2(3,6) by (simp add: card_Diff_singleton)
  obtain K x u fs where K: "fork_address_space c k2 = Some (0, K)" "mem_ok K (insert c ?L) ?i cf"
      "child_memory k2 cf c fs K" "child_built k2 cf c x u fs K"
    by (rule fork_address_space_ok [OF d2(3) me2 2(13) r2], rule that)
  note bd = child_builtD [OF K(4)]
  note rK = rest_sameD [OF bd(4)]
  have tK: "PID (tasks K p) = PID (tasks k2 p) \<and> parent (tasks K p) = parent (tasks k2 p) \<and>
      resume (tasks K p) = resume (tasks k2 p)" for p by (simp add: bd(6))
  have c2: "c \<notin> all_tasks k2 v" using 2(4,9) by simp
  have tl2: "tasks_linked (links K) (all_tasks k2 v)"
    unfolding bd(5) 2(9) by (rule tasks_linked_mono [OF 2(11)]) auto
  have "procs_ok K v" "all_tasks K v = all_tasks k2 v"
    by (rule procs_ok_unseen [OF d2(10) c2 _ tl2 tK]; simp add: bd(5) rK)+
  then have pK: "procs_ok K v" "all_tasks K v = ?L" by (simp_all add: 2(9))
  have iK: "the (idle_task K) = ?i" by (simp add: rK rs)
  obtain h where h: "fork_enlist c K = Some (pidGlobal K + 1,
        K\<lparr>links := h, pidGlobal := pidGlobal K + 1, tasks := (tasks K)(c := child_pcb K c)\<rparr>)"
      "kernel_ok (K\<lparr>links := h, pidGlobal := pidGlobal K + 1, tasks := (tasks K)(c := child_pcb K c)\<rparr>)
           (fork_queues K c v) cf"
    by (rule fork_enlist_ok [OF pK(1)]) (use K(2) 2(4,11) bd(5) in \<open>simp_all add: pK(2) iK\<close>)
  let ?K = "K\<lparr>links := h, pidGlobal := pidGlobal K + 1, tasks := (tasks K)(c := child_pcb K c)\<rparr>"
  have g: "pidGlobal K = pidGlobal k" "current K = current k" using rK rs by simp_all
  have "sys_fork k = Some (pidGlobal k + 1, ?K)"
    using 2(1,2) K(1) h(1) g(1) by (simp add: sys_fork_def)
  moreover have "fork_queues K c v = fork_queues k c v" by (simp add: fork_queues_def g(2))
  moreover have "child_memory k cf c fs ?K"
  proof (rule child_memory_cong [OF K(3)])
    have dir: "get_DIR k2 p = get_DIR k p" if "p \<in> ?L" for p using ne [OF that] by (simp add: get_DIR_def 2(10))
    note mc = mem_ok_confined [OF d(3) 2(5) dir]
    show "user_table k2 (current k2) = user_table k (current k)"
      and "table k2 (user_table k2 (current k2)) = table k (user_table k (current k))"
      using mc(3,4) [of "current k"] me2 rs(3) by simp_all
    show "ram (mach k2) = ram (mach k)" by (rule confinedD(3) [OF 2(5)])
    show "allocatable (frames k2) \<subseteq> allocatable (frames k)" using 2(6) by blast
  qed (simp_all add: get_DIR_def child_pcb_def)
  moreover have "tasks ?K = (tasks k)(c := (tasks k (current k))\<lparr>dir_pages_baseAddr := x, PID := pidGlobal k + 1,
      quantum := 10, parent := Some (current k), pending_unblocks := 0, resume := Ret_from_fork\<rparr>)"
    by (simp add: child_pcb_def bd(6) 2(10) g)
  moreover have "card (allocatable (frames ?K)) + 23 = card (allocatable (frames k))"
  proof -
    have "allocatable (frames K) = allocatable (frames k2) - set (x # u # fs)"
      using bd(9,12) by (auto simp: allocatable_def)
    moreover have "card (set (x # u # fs)) = 22" using distinct_card [OF bd(2)] bd(1) by simp
    ultimately have "card (allocatable (frames K)) + 22 = card (allocatable (frames k2))"
      using bd(3) card_mono [OF _ bd(3)] by (simp add: card_Diff_subset)
    then show ?thesis using 2(3,6) card_Suc_Diff1 [of "allocatable (frames k)" c] by simp
  qed
  moreover have "table ?K (the (kernel_page_table ?K)) 512 = 0" using bd(16) rK(6) by (simp add: table_def)
  moreover have "frames_kept k ?K v cf"
    unfolding frames_kept_def
  proof (intro conjI allI impI)
    show "idle_task ?K = idle_task k" by (simp add: rK rs)
    fix u assume u: "in_use ?L ?i u"
    have "frame_of ?K cf u = frame_of K cf u"
      by (rule frame_of_cong) (simp_all add: get_DIR_def child_pcb_def)
    also have "\<dots> = frame_of k2 cf u" by (rule built_child(5) [OF d2(3) 2(13)[unfolded spare_def, THEN conjunct1] K(4) u])
    also have "\<dots> = frame_of k cf u" using 2(15) u by (simp add: frames_kept_def)
    finally show "frame_of ?K cf u = frame_of k cf u" .
  qed
  moreover have "rest_same (k\<lparr>pidGlobal := pidGlobal k + 1\<rparr>) ?K"
    using rest_same_trans [OF confinedD(1) [OF 2(5)] bd(4)] by (elim rest_sameE) (simp add: rest_same_def)
  ultimately show thesis using result [of ?K c fs x] h(2) 2(4) g(2) by simp
qed

section \<open>Properties\<close>


lemma demo_allocatable: "allocatable (frames demo_kernel) = {700..<1100}"
  by (auto simp: allocatable_def free_frames_def demo_kernel_def)


text \<open>
  C18. \<open>sys_fork\<close> with fewer than 23 free frames is refused, with \<open>-ENOMEM\<close> when there is none for the PCB and with
  \<open>-EAGAIN\<close> otherwise; no process changes, the invariant of the kernel holds with the same queues, and no byte of user memory is
  written. The frames taken are free again except one, the page directory, which is lost unless it was the
  directory itself that could not be allocated.
\<close>

theorem fork_refused:
  assumes "kernel_ok k v cf" and "idle_task k \<noteq> Some (current k)" and "card (allocatable (frames k)) < 23"
  shows "\<exists>k' D. sys_fork k = Some (if allocatable (frames k) = {} then - ENOMEM else - EAGAIN, k') \<and>
           kernel_ok k' v cf \<and> current k' = current k \<and> ram (mach k') = ram (mach k) \<and>
           (\<forall>p\<in>all_tasks k v. tasks k' p = tasks k p) \<and> pidGlobal k' = pidGlobal k \<and>
           allocatable (frames k') = allocatable (frames k) - D \<and> D \<subseteq> allocatable (frames k) \<and>
           card D = (if card (allocatable (frames k)) \<le> 1 then 0 else 1)"
proof (cases "allocatable (frames k) = {}")
  case True
  then have "sys_fork k = Some (- ENOMEM, k)"
    by (cases rule: fork_begin [OF assms(1)]) (simp_all add: sys_fork_def)
  then show ?thesis using True assms(1) by simp
next
  case False
  have n: "card (allocatable (frames k)) \<noteq> 0" using False by simp
  obtain k' D where k': "sys_fork k = Some (- EAGAIN, k')" "kernel_ok k' v cf" "current k' = current k"
      "ram (mach k') = ram (mach k)" "D \<subseteq> allocatable (frames k)"
      "card D = (if card (allocatable (frames k)) = 1 then 0 else 1)"
      "allocatable (frames k') = allocatable (frames k) - D" "frames_kept k k' v cf" "rest_same k k'"
      "\<And>p. p \<in> all_tasks k v \<Longrightarrow> tasks k' p = tasks k p"
    by (rule fork_fails [OF assms False], rule that)
  have "card (allocatable (frames k)) = 1 \<or> 1 < card (allocatable (frames k))" using n by linarith
  then have "card D = (if card (allocatable (frames k)) \<le> 1 then 0 else 1)" using k'(6) by (elim disjE) simp_all
  then show ?thesis using k' rest_sameD(9) [OF k'(9)] False by (intro exI [of _ k'] exI [of _ D]) simp
qed

text \<open>The small system with two free frames left.\<close>

definition demo_full :: kernel where
  "demo_full = demo_kernel\<lparr>frames := (frames demo_kernel)\<lparr>phys_mem := (\<lambda>i. if i = 700 \<or> i = 701 then FREE_FRAME else USED_FRAME)\<rparr>\<rparr>"

lemma demo_full_ok: "kernel_ok demo_full demo_queues demo_code" and demo_full_allocatable: "allocatable (frames demo_full) = {700, 701}"
proof -
  have fr: "free_frames (frames demo_full) = {700, 701}" "last_kernel (frames demo_full) = 290"
    "first_kernel (frames demo_full) = 16" by (auto simp: free_frames_def demo_full_def demo_kernel_def)
  then show "allocatable (frames demo_full) = {700, 701}" by (auto simp: allocatable_def)
  have fk: "last_kernel (frames demo_kernel) = 290" "first_kernel (frames demo_kernel) = 16"
    "free_frames (frames demo_kernel) = {700..<1100}" by (auto simp: demo_kernel_def free_frames_def)
  have "confined {} demo_kernel demo_full"
    unfolding confined_def
  proof (intro conjI allI impI)
    show "rest_same demo_kernel demo_full" by (simp add: rest_same_def demo_full_def)
    show "frames_ok (frames demo_full)" by (simp add: demo_full_def frames_ok_def demo_kernel_def)
  qed (simp_all add: fr fk, simp_all add: demo_full_def)
  then have m: "mem_ok demo_full demo_live 300 demo_code"
    by (rule mem_ok_confined(1) [OF demo_mem_ok]) (simp add: get_DIR_def demo_full_def)
  have "procs_ok demo_full demo_queues \<and> all_tasks demo_full demo_queues = all_tasks demo_kernel demo_queues"
    using procs_ok_unseen [OF kernel_okD(10) [OF demo_kernel_ok], of 7 demo_full] demo_tasks_linked
    by (simp add: demo_full_def demo_all_tasks)
  then show "kernel_ok demo_full demo_queues demo_code"
    using m by (simp add: kernel_ok_def demo_all_tasks) (simp add: demo_full_def)
qed

theorem fork_refused_witness:
  "\<exists>k' D. sys_fork demo_full = Some (- EAGAIN, k') \<and> kernel_ok k' demo_queues demo_code \<and>
     allocatable (frames k') = {700, 701} - D \<and> card D = 1"
proof -
  have "idle_task demo_full \<noteq> Some (current demo_full)" by (simp add: demo_full_def)
  moreover have "card (allocatable (frames demo_full)) < 23" by (simp add: demo_full_allocatable)
  ultimately show ?thesis
    using fork_refused [OF demo_full_ok] by (auto simp: demo_full_allocatable)
qed

text \<open>
  C19. A successful \<open>sys_fork\<close> leaves kernel page 512 unmapped, which the temporary mapping used for the copy
  removes in the table all processes share: the frame 512 loses the identity mapping that \<open>auto_map_kernel_frame\<close>
  gives to frames that hold a PCB, a directory or a page table, and an access to it faults from then on.
\<close>

theorem fork_unmaps_page_512:
  assumes "kernel_ok k v cf" and "idle_task k \<noteq> Some (current k)" and "23 \<le> card (allocatable (frames k))"
  shows "\<exists>k'. sys_fork k = Some (pidGlobal k + 1, k') \<and> page_frame (mach k') 512 = None"
proof -
  obtain c d fs k' where k': "sys_fork k = Some (pidGlobal k + 1, k')" "kernel_ok k' (fork_queues k c v) cf"
      "current k' = current k" "table k' (the (kernel_page_table k')) 512 = 0"
    by (rule fork_succeeds [OF assms], rule that)
  note md = mem_okD [OF kernel_okD(3) [OF k'(2)]]
  have "sees_kernel k' (current k')" by (rule md(9) [OF md(3)])
  then have "page_frame (mach k') 512 = None"
    using k'(4) by (simp add: page_frame_def sees_kernel_def md(6) Let_def table_def present_def)
  then show ?thesis using k'(1) by blast
qed

theorem fork_unmaps_page_512_witness:
  "page_frame (mach demo_kernel) 512 = Some 512 \<and>
   (\<exists>k'. sys_fork demo_kernel = Some (305, k') \<and> page_frame (mach k') 512 = None)"
proof
  have "23 \<le> card (allocatable (frames demo_kernel))" by (simp add: demo_allocatable)
  from fork_unmaps_page_512 [OF demo_kernel_ok _ this]
  show "\<exists>k'. sys_fork demo_kernel = Some (305, k') \<and> page_frame (mach k') 512 = None" by simp
  show "page_frame (mach demo_kernel) 512 = Some 512"
    by (simp add: page_frame_def demo_kernel_def demo_tables_def Let_def present_def get_frame_def)
qed

end
