(* ===== verification/Exit.thy ===== *)
theory Exit
  imports Steps Shared_Space
begin

text \<open>
  \<open>sys_exit\<close> of \<open>sys.c\<close> and \<open>free_user_pages\<close> of \<open>mm.c\<close>: the shared pages go one by one, each step keeping the
  invariant of the memory, then the frames of the process, and the next process runs. What the call forgets is the node
  in the list of its parent's children.
\<close>

section \<open>sys\_exit\<close>

definition free_user_pages :: "nat \<Rightarrow> kernel \<Rightarrow> kernel" where
  "free_user_pages process_PT k =
     fold (\<lambda>pag k. upd_table process_PT (\<lambda>t. t(pag := 0))
                     (kernel_free_frame (get_frame (table k process_PT) pag) k)) [0..<NUM_PAG_DATA] k"

definition exit_shared_page :: "nat \<Rightarrow> nat \<Rightarrow> kernel \<Rightarrow> kernel option" where
  "exit_shared_page ut pt_idx k =
     (if present (table k ut) pt_idx then
        (case shared_id k (get_frame (table k ut) pt_idx) of
           Some i \<Rightarrow> drop_reference i (upd_table ut (\<lambda>t. del_ss_pag t pt_idx) k)
         | None \<Rightarrow> Some k)
      else Some k)"

definition sys_exit :: "kernel \<Rightarrow> kernel option" where
  "sys_exit k = do {
     let curr = current k;
     let ut = user_table k curr;
     k \<leftarrow> fold (\<lambda>pt_idx r. Option.bind r (exit_shared_page ut pt_idx))
            [NUM_PAG_DATA + NUM_PAG_CODE..<PT_ENTRIES] (Some k);
     let k = set_cr3 (get_DIR k curr) k;
     let k = free_user_pages ut k;
     let k = kernel_free_frame (get_frame (table k (get_DIR k curr)) 2) k;
     let k = upd_table (get_DIR k curr) (\<lambda>t. t(2 := 0)) k;
     let k = kernel_free_frame (dir_pages_baseAddr (tasks k curr)) k;
     k \<leftarrow> free_pcb curr k;
     sched_next_rr Sys_exit k }"

section \<open>The shared pages go\<close>

lemma fold_bind_None [simp]: "fold (\<lambda>x r. Option.bind r (f x)) xs None = None"
  by (induction xs) simp_all

lemma exit_shared_page_ok:
  assumes ok: "mem_ok k L i cf" and me: "current k \<noteq> i" and p: "28 \<le> p" "p < 1024"
  obtains k' where "exit_shared_page (user_table k (current k)) p k = Some k'"
    and "shm_step (user_table k (current k)) (the (kernel_page_table k)) k k'" and "mem_ok k' L i cf"
    and "\<And>q. present (table k' (user_table k (current k))) q \<Longrightarrow> present (table k (user_table k (current k))) q \<and> q \<noteq> p"
    and "free_frames (frames k) \<subseteq> free_frames (frames k')"
proof (cases "present (table k (user_table k (current k))) p")
  case False
  then show thesis using that [of k] ok shm_step_refl by (auto simp: exit_shared_page_def)
next
  case True
  let ?u = "user_table k (current k)" and ?kt = "the (kernel_page_table k)" and ?U = "user_tables k L i"
  note md = mem_okD [OF ok]
  note us = mem_ok_user_space [OF ok me]
  define f where "f = get_frame (table k ?u) p"
  obtain j where j: "shared_id k f = Some j"
    using shared_id_Some [OF md(11) us(3) p True] unfolding f_def by metis
  note sj = shared_id_known [OF ok j refl]
  let ?k = "upd_table ?u (\<lambda>t. del_ss_pag t p) k"
  have ne: "get_DIR k (current k) \<noteq> ?u" "get_PT k (current k) \<notin> ?U" "kernel_space k"
    using us(1) us(3) by (auto simp: user_space_def)
  have pt: "get_PT ?k (current ?k) = get_PT k (current k)" unfolding get_PT_table using ne(1) by simp
  have ks: "kernel_space ?k" using ne pt by (simp add: kernel_space_def paging_def)
  have pu: "get_PT ?k (current ?k) \<notin> ?U" unfolding pt by (rule ne(2))
  obtain k' where k': "drop_reference j ?k = Some k'" "shm_ok k' ?U"
      "k' = ?k\<lparr>shared_refs := (shared_refs k)(j := shared_refs k j - 1)\<rparr> \<or>
       k' = cleaned j f (?k\<lparr>shared_refs := (shared_refs k)(j := shared_refs k j - 1)\<rparr>) \<and>
         shared_refs k j = 1 \<and> shared_marked_rm k j = 1"
    by (rule drop_mapping_ok [OF md(11) us(3) sj(1,2) p True f_def [symmetric] ks pu])
      (simp_all split: if_splits)
  have s1: "shm_step ?u ?kt k ?k"
  proof -
    have "set_cr3 (get_DIR k (current k)) ((upd_table ?u (\<lambda>t. t(p := 0)) k)\<lparr>shared_refs := shared_refs k\<rparr>) = ?k"
      by (simp add: del_ss_pag_def set_cr3_def upd_table_def flip: md(6))
    then show ?thesis using shm_step_map [OF p(1), of ?u ?kt k "shared_refs k" 0] by simp
  qed
  obtain k'' where k'': "drop_reference j ?k = Some k''" "shm_step ?u ?kt ?k k''"
    using shm_step_drop [OF ks, of j f ?kt ?u] sj pt us(2) by auto
  have st: "shm_step ?u ?kt k k'" using shm_step_trans [OF s1 k''(2)] k'(1) k''(1) by simp
  have e: "exit_shared_page ?u p k = Some k'" using True j k'(1) by (simp add: exit_shared_page_def f_def)
  note mb = mem_base_shm [OF md(12) me st]
  have m: "mem_ok k' L i cf" using mb(1,2) k'(2) by (simp add: mem_ok_def)
  have q: "present (table k ?u) q \<and> q \<noteq> p" if "present (table k' ?u) q" for q
  proof -
    have "?u \<noteq> get_PT (?k\<lparr>shared_refs := r\<rparr>) (current k)" for r
      using pu us(3) by (auto simp: get_PT_def)
    then have "table k' ?u = table ?k ?u"
      using k'(3) by (auto simp: cleaned_def table_def [of "_\<lparr>mach := _\<rparr>"] table_def [of k'] table_def)
    then show ?thesis using that by (auto split: if_splits simp: del_ss_pag_def present_def)
  qed
  have "free_frames (frames k) \<subseteq> free_frames (frames k')" using k'(3) sj(3) by (auto simp: cleaned_def)
  then show thesis using that [OF e st m q] by blast
qed

lemma exit_shared_pages_ok:
  assumes "mem_ok k L i cf" and "current k \<noteq> i" and "\<And>p. p \<in> set ps \<Longrightarrow> 28 \<le> p \<and> p < 1024"
  obtains k' where "fold (\<lambda>p r. Option.bind r (exit_shared_page (user_table k (current k)) p)) ps (Some k) = Some k'"
    and "shm_step (user_table k (current k)) (the (kernel_page_table k)) k k'" and "mem_ok k' L i cf"
    and "\<And>q. present (table k' (user_table k (current k))) q \<Longrightarrow> present (table k (user_table k (current k))) q \<and> q \<notin> set ps"
    and "free_frames (frames k) \<subseteq> free_frames (frames k')"
  using assms
proof (induction ps arbitrary: k thesis)
  case Nil
  then show thesis by (intro Nil.prems(1) [of k]) (simp_all add: shm_step_refl)
next
  case (Cons p ps)
  let ?u = "user_table k (current k)" and ?kt = "the (kernel_page_table k)"
  obtain k1 where k1: "exit_shared_page ?u p k = Some k1" "shm_step ?u ?kt k k1" "mem_ok k1 L i cf"
      "\<And>q. present (table k1 ?u) q \<Longrightarrow> present (table k ?u) q \<and> q \<noteq> p" "free_frames (frames k) \<subseteq> free_frames (frames k1)"
    by (rule exit_shared_page_ok [OF Cons.prems(2,3), of p]) (use Cons.prems(4) [of p] that in auto)
  note sd = shm_stepD [OF k1(2)]
  have u: "user_table k1 (current k1) = ?u" "the (kernel_page_table k1) = ?kt"
    using mem_base_shm(3) [OF mem_okD(12) [OF Cons.prems(2)] Cons.prems(3) k1(2), of "Use_user_table (current k)"]
      mem_okD(3) [OF Cons.prems(2)] Cons.prems(3) by (simp_all add: sd)
  have ne: "current k1 \<noteq> i" using Cons.prems(3) by (simp add: sd)
  have ps: "28 \<le> q \<and> q < 1024" if "q \<in> set ps" for q using Cons.prems(4) [of q] that by simp
  obtain k' where k': "fold (\<lambda>p r. Option.bind r (exit_shared_page ?u p)) ps (Some k1) = Some k'"
      "shm_step ?u ?kt k1 k'" "mem_ok k' L i cf"
      "\<And>q. present (table k' ?u) q \<Longrightarrow> present (table k1 ?u) q \<and> q \<notin> set ps" "free_frames (frames k1) \<subseteq> free_frames (frames k')"
    by (rule Cons.IH [OF _ k1(3) ne ps, unfolded u]; blast)
  show thesis
    by (rule Cons.prems(1) [OF _ shm_step_trans [OF k1(2) k'(2)] k'(3)]) (use k1(1,4,5) k'(1,4,5) in auto)
qed

section \<open>The frames of the process go\<close>

definition own_frames :: "kernel \<Rightarrow> nat \<Rightarrow> nat set" where
  "own_frames k c = {c, get_DIR k c, user_table k c} \<union> get_frame (table k (user_table k c)) ` {..<NUM_PAG_DATA}"

lemma own_frames_uses:
  assumes "c \<in> L" and "c \<noteq> i"
  shows "frame_of k cf ` {u. in_use L i u \<and> \<not> in_use (L - {c}) i u} = own_frames k c"
proof -
  have "{u. in_use L i u \<and> \<not> in_use (L - {c}) i u} =
      {Use_pcb c, Use_dir c, Use_user_table c} \<union> Use_data c ` {..<20}"
  proof (rule set_eqI)
    fix u show "u \<in> {u. in_use L i u \<and> \<not> in_use (L - {c}) i u} \<longleftrightarrow>
        u \<in> {Use_pcb c, Use_dir c, Use_user_table c} \<union> Use_data c ` {..<20}"
      using assms by (cases u) auto
  qed
  then show ?thesis by (simp add: own_frames_def image_Un image_image)
qed

lemma own_frames_apart:
  assumes "mem_ok k L i cf" and "c \<in> L" and "c \<noteq> i" and "f \<in> own_frames k c"
  shows "f < TOTAL_PAGES" and "f \<notin> pool k" and "last_kernel (frames k) \<le> f" and "f \<notin> free_frames (frames k)"
proof -
  note fa = frames_apartD [OF mem_okD(8) [OF assms(1)]]
  obtain u where u: "in_use L i u" "f = frame_of k cf u"
    using assms(4) unfolding own_frames_uses [OF assms(2,3), of k cf, symmetric] by blast
  show "f < TOTAL_PAGES" "last_kernel (frames k) \<le> f" "f \<notin> free_frames (frames k)"
    unfolding u(2) using fa(2,3,5) [OF u(1)] by simp_all
  show "f \<notin> pool k" unfolding u(2) by (rule pool_apart(1) [OF mem_okD(8) [OF assms(1)] u(1)])
qed

lemma free_user_pages_upto:
  assumes "\<And>j. j < n \<Longrightarrow> get_frame (table k u) j < TOTAL_PAGES" and "frames_ok (frames k)"
  shows "\<exists>m T. fold (\<lambda>pag k. upd_table u (\<lambda>t. t(pag := 0)) (kernel_free_frame (get_frame (table k u) pag) k)) [0..<n] k =
             k\<lparr>frames := m, mach := (mach k)\<lparr>tables := T\<rparr>\<rparr> \<and>
           free_frames m = free_frames (frames k) \<union> get_frame (table k u) ` {..<n} \<and> frames_ok m \<and>
           first_kernel m = first_kernel (frames k) \<and> last_kernel m = last_kernel (frames k) \<and>
           (\<forall>g. g \<noteq> u \<longrightarrow> T g = table k g) \<and> (\<forall>j. n \<le> j \<longrightarrow> T u j = table k u j)"
  using assms
proof (induction n)
  case 0
  have "k = k\<lparr>frames := frames k, mach := (mach k)\<lparr>tables := tables (mach k)\<rparr>\<rparr>" by simp
  then show ?case using 0 by (intro exI [of _ "frames k"] exI [of _ "tables (mach k)"]) (simp add: table_def)
next
  case (Suc n)
  let ?f = "get_frame (table k u) n"
  let ?g = "\<lambda>pag k. upd_table u (\<lambda>t. t(pag := 0)) (kernel_free_frame (get_frame (table k u) pag) k)"
  have lt: "get_frame (table k u) j < TOTAL_PAGES" if "j < n" for j using Suc.prems(1) [of j] that by simp
  obtain m T where IH: "fold ?g [0..<n] k = k\<lparr>frames := m, mach := (mach k)\<lparr>tables := T\<rparr>\<rparr>"
      "free_frames m = free_frames (frames k) \<union> get_frame (table k u) ` {..<n}" "frames_ok m"
      "first_kernel m = first_kernel (frames k)" "last_kernel m = last_kernel (frames k)"
      "\<forall>g. g \<noteq> u \<longrightarrow> T g = table k g" "\<forall>j. n \<le> j \<longrightarrow> T u j = table k u j"
    using Suc.IH [OF lt Suc.prems(2)] by blast
  have T: "table (k\<lparr>frames := m, mach := (mach k)\<lparr>tables := T\<rparr>\<rparr>) = T" by (simp add: table_def fun_eq_iff)
  have "T u n = table k u n" using IH(7) by simp
  then have f: "get_frame (T u) n = ?f" by (simp add: get_frame_def)
  have "fold ?g [0..<Suc n] k = ?g n (k\<lparr>frames := m, mach := (mach k)\<lparr>tables := T\<rparr>\<rparr>)" using IH(1) by simp
  also have "\<dots> = k\<lparr>frames := free_frame ?f m, mach := (mach k)\<lparr>tables := T(u := (T u)(n := 0))\<rparr>\<rparr>"
    by (simp add: T f upd_table_def kernel_free_frame_def)
  finally have e: "fold ?g [0..<Suc n] k =
      k\<lparr>frames := free_frame ?f m, mach := (mach k)\<lparr>tables := T(u := (T u)(n := 0))\<rparr>\<rparr>" .
  show ?case
    by (rule exI [of _ "free_frame ?f m"], rule exI [of _ "T(u := (T u)(n := 0))"], intro conjI, rule e)
      (use IH Suc.prems(1) [of n] in \<open>auto simp: frames_ok_free first_kernel_free lessThan_Suc\<close>)
qed

lemma exit_frees:
  assumes ok: "mem_ok k L i cf" and me: "current k \<noteq> i" and tl: "tasks_linked (links k) L"
  obtains m T h where "(let curr = current k; k = set_cr3 (get_DIR k curr) k;
         k = free_user_pages (user_table k curr) k;
         k = kernel_free_frame (get_frame (table k (get_DIR k curr)) 2) k;
         k = upd_table (get_DIR k curr) (\<lambda>t. t(2 := 0)) k;
         k = kernel_free_frame (dir_pages_baseAddr (tasks k curr)) k
       in free_pcb curr k) = Some (k\<lparr>frames := m, mach := (mach k)\<lparr>tables := T\<rparr>, links := h\<rparr>)"
    and "free_frames m = free_frames (frames k) \<union> own_frames k (current k)" and "frames_ok m"
    and "first_kernel m = first_kernel (frames k)" and "last_kernel m = last_kernel (frames k)"
    and "\<forall>g. g \<noteq> user_table k (current k) \<longrightarrow> g \<noteq> get_DIR k (current k) \<longrightarrow> T g = table k g"
    and "tasks_linked h (L - {current k})"
    and "\<forall>n. n \<notin> task_nodes \<longrightarrow> nxt h n = nxt (links k) n \<and> prv h n = prv (links k) n"
proof -
  let ?me = "current k"
  let ?u = "user_table k ?me" and ?d = "get_DIR k ?me"
  note md = mem_okD [OF ok]
  note own = own_frames_apart [OF ok md(3) me]
  have lt: "get_frame (table k ?u) j < TOTAL_PAGES" if "j < 20" for j
    by (rule own(1)) (use that in \<open>simp add: own_frames_def\<close>)
  have lu: "?u < 2048" "?d < 2048" "?me < 2048"
    using own(1) [of ?u] own(1) [of ?d] own(1) [of ?me] by (simp_all add: own_frames_def)
  have du: "?d \<noteq> ?u" by (rule tables_apart(3) [OF md(8,3,3) me])
  have dd: "dir_pages_baseAddr (tasks k ?me) = ?d" by (simp add: get_DIR_def)
  have c3: "set_cr3 ?d k = k" by (simp add: set_cr3_def flip: md(6))
  obtain m T where f: "free_user_pages ?u k = k\<lparr>frames := m, mach := (mach k)\<lparr>tables := T\<rparr>\<rparr>"
      "free_frames m = free_frames (frames k) \<union> get_frame (table k ?u) ` {..<20}" "frames_ok m"
      "first_kernel m = first_kernel (frames k)" "last_kernel m = last_kernel (frames k)"
      "\<And>g. g \<noteq> ?u \<Longrightarrow> T g = table k g"
    using free_user_pages_upto [of 20 k ?u, OF lt md(4)] unfolding free_user_pages_def by auto
  obtain h where h: "list_del (At_task_list ?me) (links k) = Some h" "tasks_linked h (L - {?me})"
      "\<And>n. n \<notin> task_nodes \<Longrightarrow> nxt h n = nxt (links k) n \<and> prv h n = prv (links k) n"
    using tasks_del [OF tl md(3)] by blast
  let ?m = "free_frame ?me (free_frame ?d (free_frame ?u m))"
  let ?T = "T(?d := (T ?d)(2 := 0))"
  have t2: "get_frame (T ?d) 2 = ?u" using f(6) [OF du] by (simp add: user_table_def)
  have t1: "table (k\<lparr>frames := x, mach := (mach k)\<lparr>tables := T\<rparr>\<rparr>) = T" for x by (simp add: table_def fun_eq_iff)
  show thesis
  proof (rule that [where m = ?m and T = ?T and h = h])
    show "(let curr = current k; k = set_cr3 (get_DIR k curr) k;
         k = free_user_pages (user_table k curr) k;
         k = kernel_free_frame (get_frame (table k (get_DIR k curr)) 2) k;
         k = upd_table (get_DIR k curr) (\<lambda>t. t(2 := 0)) k;
         k = kernel_free_frame (dir_pages_baseAddr (tasks k curr)) k
       in free_pcb curr k) = Some (k\<lparr>frames := ?m, mach := (mach k)\<lparr>tables := ?T\<rparr>, links := h\<rparr>)"
      unfolding Let_def c3 f(1)
      using h(1) by (simp add: t1 t2 dd kernel_free_frame_def upd_table_def free_pcb_def on_links_def)
    show "free_frames ?m = free_frames (frames k) \<union> own_frames k ?me"
      using lu by (auto simp: f(2) own_frames_def)
    show "\<forall>g. g \<noteq> ?u \<longrightarrow> g \<noteq> ?d \<longrightarrow> ?T g = table k g" using f(6) by simp
  qed (use h f in \<open>simp_all add: frames_ok_free first_kernel_free\<close>)
qed

section \<open>The next process\<close>

lemma shm_ok_drop_table:
  assumes ok: "shm_ok k U" and none: "\<And>p. 28 \<le> p \<Longrightarrow> p < 1024 \<Longrightarrow> \<not> present (table k u) p"
  shows "shm_ok k (U - {u})"
proof -
  note d = shm_okD [OF ok]
  have "mapped_pages k f u = {}" for f using none by (auto simp: mapped_pages_def)
  then have "mappings k (U - {u}) f = mappings k U f" for f
    using d(1) by (cases "u \<in> U") (simp_all add: mappings_def sum.remove [of U u])
  then show ?thesis using ok unfolding shm_ok_def by simp
qed

lemma exit_queues_ok:
  assumes ok: "sched_ok k v" and closed: "lists_closed v (all_tasks k v)" and me: "idle_task k \<noteq> Some (current k)"
    and same: "tasks k' = tasks k" "current k' = current k" "idle_task k' = idle_task k"
    and links: "\<And>n. n \<notin> task_nodes \<Longrightarrow> nxt (links k') n = nxt (links k) n \<and> prv (links k') n = prv (links k) n"
  obtains k'' where "sched_next_rr Sys_exit k' = Some k''" and "current k'' = next_process k v"
    and "next_process k v \<noteq> current k" and "sched_ok k'' (v\<lparr>ready := tl (ready v)\<rparr>)"
    and "all_tasks k'' (v\<lparr>ready := tl (ready v)\<rparr>) = all_tasks k v - {current k}"
    and "remaining_quantum k'' = quantum (tasks k (next_process k v))"
proof -
  let ?L = "all_tasks k v" and ?v = "v\<lparr>ready := tl (ready v)\<rparr>" and ?new = "next_process k v"
  obtain i where i: "idle_task k = Some i" "i \<in> set (ready v) \<or> loose (links k) i" "current k \<noteq> i"
    using ok me by (auto simp: sched_ok_def idle_ok_def)
  have L: "set (ready v) \<subseteq> ?L" "set (blocked v) \<subseteq> ?L" "set (kbd_blocked v) \<subseteq> ?L" by (auto simp: all_tasks_def)
  note fr = fresh_knode [OF closed L]
  have q: "queues_rep (links k) v" "loose (links k) (current k)" "pids_ok k ?L" using ok by (simp_all add: sched_ok_def)
  have rep: "queues_rep (links k') v"
    unfolding queues_rep_def
  proof (rule fam_cong [of "links k"])
    show "fam ring (links k) (ring_map v)" using q(1) by (simp add: queues_rep_def)
    show "nxt (links k') n = nxt (links k) n \<and> prv (links k') n = prv (links k) n" if "\<not> fresh (ring_map v) n" for n
      using links [of n] fr(2) [of n] that by blast
  qed
  have lo: "loose (links k') p = loose (links k) p" for p using links [of "At_list p"] by (simp add: detached_def)
  have pk: "pick i (ready v) = (?new, tl (ready v))" by (rule pick_next [OF i(1)])
  have li: "ready v = [] \<Longrightarrow> loose (links k') i" using i(2) lo by simp
  have i': "idle_task k' = Some i" by (simp add: same i(1))
  obtain h where h: "sched_next_rr Sys_exit k' = Some (switched Sys_exit ?new h k')" "queues_rep h ?v" "loose h ?new"
      "\<And>a. fresh (ring_map v) a \<Longrightarrow> detached h a = detached (links k') a"
    using sched_next_rr_picks [OF rep i' li pk] by blast
  let ?k = "switched Sys_exit ?new h k'"
  have nc: "?new \<noteq> current k"
    using pk i(3) loose_not_queued(1) [OF q(1,2)] by (cases "ready v") (auto simp: next_process_def)
  have cur: "current ?k = ?new"
  proof (rule switched_current [of _ ?L])
    show "pids_ok k' ?L" using q(3) by (simp add: pids_ok_def same)
    show "?new \<in> ?L" using i(1) by (cases "ready v") (auto simp: next_process_def all_tasks_def)
  qed (simp add: same)
  have idle: "idle_task ?k = Some i" by (simp add: switched_simps i')
  have nq: "current k \<notin> queued v" using loose_not_queued [OF q(1,2)] by (simp add: queued_def)
  have "all_tasks ?k ?v = insert i (queued v)"
    unfolding all_tasks_queued [OF idle] cur by (rule pick_queued [OF pk])
  moreover have "?L - {current k} = insert i (queued v)"
    unfolding all_tasks_queued [OF i(1)] using nq i(3) by auto
  ultimately have all: "all_tasks ?k ?v = ?L - {current k}" by simp
  have "i \<in> set (ready ?v) \<or> loose h i"
  proof (cases "i \<in> set (ready v)")
    case True
    then show ?thesis using pk h(3) by (cases "ready v") auto
  next
    case False
    then have "loose (links k') i" using i(2) lo by simp
    then show ?thesis using h(4) [OF detached_fresh [OF rep]] by simp
  qed
  then have "idle_ok ?k ?v i" using idle by (simp add: idle_ok_def switched_simps)
  moreover have "pids_ok ?k (?L - {current k})"
    using q(3) inj_on_subset [of _ ?L "?L - {current k}"] by (simp add: pids_ok_def switched_simps same Diff_subset)
  ultimately have "sched_ok ?k ?v" using h(2,3) cur all by (auto simp: sched_ok_def switched_simps)
  then show thesis using that [OF h(1) cur nc _ all] by (simp add: switched_simps same)
qed

section \<open>The whole call\<close>

lemma user_tables_remove:
  assumes "frames_apart k L i cf" and "c \<in> L" and "c \<noteq> i"
  shows "user_tables k (L - {c}) i = user_tables k L i - {user_table k c}"
proof -
  have "user_table k p \<noteq> user_table k c" if "p \<in> L" "p \<noteq> i" "p \<noteq> c" for p
    using tables_apart(7) [OF assms(1) that(1,2) assms(2,3) that(3)] .
  then show ?thesis by (auto simp: user_tables_def)
qed

lemma sys_exit_ok:
  assumes ok: "kernel_ok k v cf" and me: "idle_task k \<noteq> Some (current k)"
  obtains k' where "sys_exit k = Some k'" and "current k' = next_process k v" and "next_process k v \<noteq> current k"
    and "sched_ok k' (v\<lparr>ready := tl (ready v)\<rparr>)"
    and "all_tasks k' (v\<lparr>ready := tl (ready v)\<rparr>) = all_tasks k v - {current k}"
    and "mem_ok k' (all_tasks k v - {current k}) (the (idle_task k)) cf"
    and "own_frames k (current k) \<subseteq> allocatable (frames k')" and "allocatable (frames k) \<subseteq> allocatable (frames k')"
    and "wrote (pool k) k k'" and "stack_ok k'" and "tasks_linked (links k') (all_tasks k v - {current k})"
    and "remaining_quantum k' = quantum (tasks k (next_process k v))"
    and "resume_fine k' (current k')"
proof -
  let ?c = "current k" and ?L = "all_tasks k v" and ?i = "the (idle_task k)" and ?v = "v\<lparr>ready := tl (ready v)\<rparr>"
  let ?u = "user_table k ?c" and ?d = "get_DIR k ?c" and ?kt = "the (kernel_page_table k)"
  note d = kernel_okD [OF ok]
  have cur: "?c \<noteq> ?i" using me sched_ok_idle [OF d(1)] by auto
  have iL: "?i \<in> ?L" "?i \<in> ?L - {?c}" using idle_in_all [OF d(1)] cur by auto
  obtain K where K: "fold (\<lambda>p r. Option.bind r (exit_shared_page ?u p)) [28..<1024] (Some k) = Some K"
      "shm_step ?u ?kt k K" "mem_ok K ?L ?i cf"
      "\<And>q. present (table K ?u) q \<Longrightarrow> present (table k ?u) q \<and> q \<notin> set [28..<1024]"
      "free_frames (frames k) \<subseteq> free_frames (frames K)"
    by (rule exit_shared_pages_ok [OF d(3) cur, of "[28..<1024]"]) (use that in auto)
  note sd = shm_stepD [OF K(2)]
  note kf = mem_base_shm(3) [OF mem_okD(12) [OF d(3)] cur K(2)]
  have uK: "user_table K ?c = ?u" and curK: "current K = ?c" "current K \<noteq> ?i"
    using kf [of "Use_user_table ?c"] cur by (simp_all add: sd)
  note mK = mem_okD [OF K(3)]
  have tlK: "tasks_linked (links K) ?L" using d(5) by (simp add: sd)
  obtain m T h where F: "(let curr = current K; k = set_cr3 (get_DIR K curr) K;
         k = free_user_pages (user_table k curr) k;
         k = kernel_free_frame (get_frame (table k (get_DIR k curr)) 2) k;
         k = upd_table (get_DIR k curr) (\<lambda>t. t(2 := 0)) k;
         k = kernel_free_frame (dir_pages_baseAddr (tasks k curr)) k
       in free_pcb curr k) = Some (K\<lparr>frames := m, mach := (mach K)\<lparr>tables := T\<rparr>, links := h\<rparr>)"
      "free_frames m = free_frames (frames K) \<union> own_frames K (current K)" "frames_ok m"
      "first_kernel m = first_kernel (frames K)" "last_kernel m = last_kernel (frames K)"
      "\<forall>g. g \<noteq> user_table K (current K) \<longrightarrow> g \<noteq> get_DIR K (current K) \<longrightarrow> T g = table K g"
      "tasks_linked h (?L - {current K})"
      "\<forall>n. n \<notin> task_nodes \<longrightarrow> nxt h n = nxt (links K) n \<and> prv h n = prv (links K) n"
    by (rule exit_frees [OF K(3) curK(2) tlK], rule that)
  let ?K = "K\<lparr>frames := m, mach := (mach K)\<lparr>tables := T\<rparr>, links := h\<rparr>"
  have T: "table ?K = T" by (simp add: table_def fun_eq_iff)
  obtain k' where k': "sched_next_rr Sys_exit ?K = Some k'" "current k' = next_process k v" "next_process k v \<noteq> ?c"
      "sched_ok k' ?v" "all_tasks k' ?v = ?L - {?c}" "remaining_quantum k' = quantum (tasks k (next_process k v))"
    by (rule exit_queues_ok [OF d(1,4) me, of ?K]) (use F(8) that in \<open>auto simp: sd\<close>)
  note mv = moved_sched_next [OF k'(1)]
  note mvd = movedD [OF mv(1)]
  have new: "current k' \<in> ?L" "current k' \<noteq> ?c" using current_in_all [of k' ?v] k'(2,3,5) by auto
  have tk: "table k' = T" by (rule trans [OF mvd(2) T])
  note ta = tables_apart [OF mK(8)]
  have frs: "own_frames K ?c = own_frames k ?c"
  proof -
    have "get_frame (table K ?u) j = get_frame (table k ?u) j" if "j < 20" for j
      using kf [of "Use_data ?c j"] that cur by (simp add: uK)
    then show ?thesis by (auto simp: own_frames_def uK sd)
  qed
  have own: "f \<in> own_frames k ?c \<Longrightarrow> f \<notin> pool K \<and> last_kernel (frames K) \<le> f" for f
    using own_frames_apart(2,3) [OF K(3) mK(3) curK(2)] by (simp add: curK(1) frs)
  have oth: "table k' (get_DIR K p) = table K (get_DIR K p)" if p: "p \<in> ?L - {?c}" for p
  proof -
    have "get_DIR K p \<noteq> user_table K ?c" "get_DIR K p \<noteq> get_DIR K ?c"
      using ta(3) [of p ?c] ta(4) [of p ?c] p cur by simp_all
    then show ?thesis using F(6) by (simp add: tk curK)
  qed
  have ut: "table k' (user_table K p) = table K (user_table K p)" if p: "p \<in> ?L - {?c}" "p \<noteq> ?i" for p
  proof -
    have "user_table K p \<noteq> user_table K ?c" "user_table K p \<noteq> get_DIR K ?c"
      using ta(7) [of p ?c] ta(3) [of ?c p] p cur by (simp, force)
    then show ?thesis using F(6) by (simp add: tk curK)
  qed
  have ktt: "table k' (the (kernel_page_table K)) = table K (the (kernel_page_table K))"
  proof -
    have "the (kernel_page_table K) \<noteq> user_table K ?c" "the (kernel_page_table K) \<noteq> get_DIR K ?c"
      using ta(1) [of ?c] ta(5) [of ?c] cur by force+
    then show ?thesis using F(6) by (simp add: tk curK)
  qed
  have pl: "pool k' \<subseteq> pool K \<union> frame_of K cf ` {u. in_use ?L ?i u \<and> \<not> in_use (?L - {?c}) ?i u}"
    unfolding own_frames_uses [OF current_in_all cur]
    using F(2,5) by (auto simp: pool_def mvd(1,10) allocatable_def curK)
  have mb: "mem_base k' (?L - {?c}) ?i cf" "user_tables k' (?L - {?c}) ?i = user_tables K (?L - {?c}) ?i"
    by (rule mem_base_shrink [OF mK(12), of "?L - {?c}"];
        use mvd(1,3,8-10,13,16,17) oth ut ktt pl iL new mK(5,6) F(3-5) in
          \<open>simp add: get_DIR_def paging_def sd\<close>)+
  have sh: "shm_ok k' (user_tables k' (?L - {?c}) ?i)"
  proof -
    have "\<not> present (table K (user_table K ?c)) q" if "28 \<le> q" "q < 1024" for q
      using K(4) [of q] that by (auto simp: uK)
    then have "shm_ok K (user_tables K ?L ?i - {user_table K ?c})"
      by (rule shm_ok_drop_table [OF mK(11)])
    then have ks: "shm_ok K (user_tables K (?L - {?c}) ?i)"
      using user_tables_remove [OF mK(8) mK(3) curK(2)] by (simp add: curK(1))
    show ?thesis
      unfolding mb(2)
    proof (rule shm_ok_same [OF ks])
      show "table k' u = table K u" if "u \<in> user_tables K (?L - {?c}) ?i" for u
        using ut that by (auto simp: user_tables_def)
      show "nat (shared_frames K j) \<notin> free_frames (frames k')" if "j < 10" "0 \<le> shared_frames K j" for j
      proof -
        have "shared_frames K j = int (nat (shared_frames K j))" using that(2) by simp
        then have "nat (shared_frames K j) \<in> pool K" using that(1) unfolding pool_def by blast
        then have "nat (shared_frames K j) \<notin> own_frames K ?c" using own frs by blast
        then show ?thesis using shared_frame_used [OF mK(11) that] F(2) by (simp add: mvd(1) curK(1))
      qed
    qed (simp_all add: mvd)
  qed
  have tl: "tasks_linked (links k') (?L - {?c})" using mvd(19) F(7) by (simp add: curK(1))
  have "stack_ok ?K" using d(11) by (simp add: stack_ok_def sd)
  then have st: "stack_ok k'" by (rule mvd(18))
  have "resume (tasks k' (current k')) = resume (tasks k (current k'))"
    using mv(3) new(2) by (simp add: sd)
  then have rf: "resume_fine k' (current k')"
    using resumes_okD [OF d(7) new] mvd(6) by (simp add: resume_fine_def sd)
  have us: "user_table (set_cr3 x K) p = user_table K p" for x p by (simp add: user_table_def)
  have ex: "sys_exit k = Some k'"
    using K(1) F(1) k'(1) by (simp add: sys_exit_def Let_def curK uK us)
  have w: "wrote (pool k) k k'" using shm_step_wrote(1) [OF K(2)] by (simp add: wrote_def mvd(4))
  have "last_kernel (frames K) = last_kernel (frames k)" using K(2) by (simp add: shm_step_def)
  then have al: "allocatable (frames k) \<subseteq> allocatable (frames k')"
    using K(5) F(2,5) by (auto simp: allocatable_def mvd(1))
  have fk: "own_frames k ?c \<subseteq> allocatable (frames k')"
    using F(2,5) own by (auto simp: mvd(1) curK(1) frs allocatable_def)
  show thesis
    by (rule that [OF ex k'(2-5) _ fk al w st tl k'(6) rf]) (use mb sh in \<open>simp_all add: mem_ok_def\<close>)
qed

section \<open>Properties\<close>

text \<open>
  C13. \<open>sys_exit\<close> of a process other than idle ends it: the head of the ready queue (or idle) runs with its quantum and
  leaves the queue, the other queues stay, and the process is in none of them; its PCB, directory, page table and data pages are free
  again and no other process loses a frame; its shared pages are released with exact counts and the invariants of the scheduler and of
  the memory hold for the processes that are left.
\<close>

theorem exit_ends_process:
  assumes "kernel_ok k v cf" and "idle_task k \<noteq> Some (current k)"
  shows "\<exists>k'. sys_exit k = Some k' \<and> current k' = next_process k v \<and> current k' \<noteq> current k \<and>
           remaining_quantum k' = quantum (tasks k (current k')) \<and>
           sched_ok k' (v\<lparr>ready := tl (ready v)\<rparr>) \<and>
           all_tasks k' (v\<lparr>ready := tl (ready v)\<rparr>) = all_tasks k v - {current k} \<and>
           own_frames k (current k) \<subseteq> allocatable (frames k') \<and> allocatable (frames k) \<subseteq> allocatable (frames k') \<and>
           mem_ok k' (all_tasks k v - {current k}) (the (idle_task k)) cf"
proof -
  note d = kernel_okD [OF assms(1)]
  have cur: "current k \<noteq> the (idle_task k)" using assms(2) sched_ok_idle [OF d(1)] by auto
  obtain k' where k': "sys_exit k = Some k'" "current k' = next_process k v" "next_process k v \<noteq> current k"
      "sched_ok k' (v\<lparr>ready := tl (ready v)\<rparr>)"
      "all_tasks k' (v\<lparr>ready := tl (ready v)\<rparr>) = all_tasks k v - {current k}"
      "mem_ok k' (all_tasks k v - {current k}) (the (idle_task k)) cf"
      "own_frames k (current k) \<subseteq> allocatable (frames k')" "allocatable (frames k) \<subseteq> allocatable (frames k')"
      "remaining_quantum k' = quantum (tasks k (next_process k v))"
    by (rule sys_exit_ok [OF assms], rule that)
  then show ?thesis by (intro exI [of _ k']) simp
qed

lemma demo_not_idle: "idle_task demo_kernel \<noteq> Some (current demo_kernel)"
  by simp

lemma demo_own_frames: "own_frames demo_kernel 301 = {301, 351, 361} \<union> {530..<550}"
proof -
  have "get_frame (demo_tables 361) j = 530 + j" if "j < 20" for j
    using demo_data_frame(2) [of 301 j] that by simp
  then have "get_frame (demo_tables 361) ` {..<20} = (+) 530 ` {0..<20}"
    unfolding lessThan_atLeast0 by (intro image_cong) simp_all
  also have "\<dots> = {530..<550}" by (simp add: image_add_atLeastLessThan)
  finally have "get_frame (demo_tables 361) ` {..<20} = {530..<550}" .
  then show ?thesis by (simp add: own_frames_def demo_user_table demo_table)
qed

theorem exit_ends_process_witness:
  "\<exists>k'. sys_exit demo_kernel = Some k' \<and> current k' = 302 \<and> remaining_quantum k' = 10 \<and>
     all_tasks k' (demo_queues\<lparr>ready := []\<rparr>) = {300, 302, 303, 304} \<and> {530..<550} \<subseteq> allocatable (frames k')"
proof -
  obtain k' where k': "sys_exit demo_kernel = Some k'" "current k' = next_process demo_kernel demo_queues"
      "remaining_quantum k' = quantum (tasks demo_kernel (current k'))"
      "all_tasks k' (demo_queues\<lparr>ready := tl (ready demo_queues)\<rparr>) = all_tasks demo_kernel demo_queues - {current demo_kernel}"
      "own_frames demo_kernel (current demo_kernel) \<subseteq> allocatable (frames k')"
    using exit_ends_process [OF demo_kernel_ok demo_not_idle] by blast
  have n: "next_process demo_kernel demo_queues = 302" "ready demo_queues = [302]"
    by (simp_all add: next_process_def demo_queues_def)
  have "demo_live - {301} = {300, 302, 303, 304}" unfolding demo_live_eq by auto
  then have "all_tasks k' (demo_queues\<lparr>ready := []\<rparr>) = {300, 302, 303, 304}"
    using k'(4) unfolding demo_all_tasks by (simp add: n)
  moreover have "{530..<550} \<subseteq> allocatable (frames k')" using k'(5) by (simp add: demo_own_frames)
  ultimately show ?thesis using k'(1-3) by (simp add: n demo_task_def)
qed

text \<open>
  C14. \<open>sys_exit\<close> does not take the process out of the children of its parent: the parent's ring still runs through the node in the
  PCB of the ended process, a frame that is free. \<open>sys_unblock\<close> of the parent walks through it, and when the frame becomes
  the PCB of another child, adding its node again ruins the ring.
\<close>

theorem exit_leaves_stale_child:
  assumes "kernel_ok k v cf" and "idle_task k \<noteq> Some (current k)" and "parent (tasks k (current k)) = Some q"
  shows "\<exists>k' cu. sys_exit k = Some k' \<and> current k \<in> free_frames (frames k') \<and> current k \<in> set cu \<and>
           ring (links k') (At_children_unblocked q) (map At_sibiling cu)"
proof -
  note d = kernel_okD [OF assms(1)]
  obtain k' where k': "sys_exit k = Some k'" "sched_ok k' (v\<lparr>ready := tl (ready v)\<rparr>)"
      "own_frames k (current k) \<subseteq> allocatable (frames k')"
    by (rule sys_exit_ok [OF assms(1,2)], rule that)
  obtain as bs where c: "children_unblocked v q = Some (as @ current k # bs)"
    using unblocked_child_list [OF d(1,2) assms(3)] by metis
  have "fam ring (links k') (ring_map (v\<lparr>ready := tl (ready v)\<rparr>))"
    using k'(2) by (simp add: sched_ok_def queues_rep_def)
  then have "ring (links k') (At_children_unblocked q) (map At_sibiling (as @ current k # bs))"
    by (rule fam_rep) (simp add: c)
  moreover have "current k \<in> free_frames (frames k')"
    using k'(3) allocatableD(1) [of "current k"] by (auto simp: own_frames_def)
  ultimately show ?thesis using k'(1) by (intro exI [of _ k'] exI [of _ "as @ current k # bs"]) simp
qed

theorem exit_leaves_stale_child_witness:
  "\<exists>k1 k' cu. sys_block demo_kernel = Some (Switched, k1) \<and> sys_exit k1 = Some k' \<and> 302 \<in> free_frames (frames k') \<and>
     302 \<in> set cu \<and> ring (links k') (At_children_unblocked 301) (map At_sibiling cu)"
proof -
  obtain k1 where k1: "sys_block demo_kernel = Some (Switched, k1)" "current k1 = 302"
      "tasks k1 = (tasks demo_kernel)(301 := (tasks demo_kernel 301)\<lparr>resume := Sys_block\<rparr>)"
    using sys_block_blocks [OF demo_sched_ok demo_family_ok]
    by (auto simp: demo_task_def next_process_def demo_queues_def)
  obtain r k2 v1 where v1: "sys_block demo_kernel = Some (r, k2)" "safe_step demo_code {} demo_kernel demo_queues k2 v1"
    by (rule sys_block_ok [OF demo_kernel_ok demo_not_idle], rule that)
  have "k2 = k1" using v1(1) k1(1) by simp
  note s = safe_stepD [OF v1(2) [unfolded this]]
  have "idle_task k1 \<noteq> Some (current k1)" "parent (tasks k1 (current k1)) = Some 301"
    using s(3) k1(2,3) by (simp_all add: demo_task_def)
  from exit_leaves_stale_child [OF s(1) this] show ?thesis using k1(1,2) by auto
qed

end
