(* ===== verification/Boot.thy ===== *)
theory Boot
  imports Exit Fork_Call
begin

text \<open>
  The initialisation: \<open>init_mm\<close>, \<open>set_user_pages\<close> and \<open>set_kernel_pages\<close> of \<open>mm.c\<close>, \<open>init_idle\<close> and
  \<open>init_task1\<close> of \<open>sched.c\<close>, and \<open>main\<close> of \<open>system.c\<close>. Paging is off until the last steps, so that every address is
  physical; \<open>current()\<close> is then the page of the initial stack. The code does not test the frames it allocates
  here: a failed allocation makes a wild pointer, which is the fault \<open>None\<close>. The tables that
  \<open>show_PT_range\<close> of the binary library prints, the register loads and \<open>disable_blinking\<close> (ports of
  the display adapter) leave no trace in the model.
\<close>

section \<open>Memory\<close>

text \<open>The sizes of the kernel and of the user program stand in the image header.\<close>

definition init_mm :: "dword \<Rightarrow> dword \<Rightarrow> kernel \<Rightarrow> kernel" where
  "init_mm sys_size usr_size k =
     (let m = frames k;
          m = m\<lparr>first_kernel := unat (drop_bit 12 KERNEL_START)\<rparr>;
          m = m\<lparr>last_kernel := unat (drop_bit 12 (KERNEL_START + sys_size + usr_size) + 1)\<rparr>;
          m = snd (init_frames m)
      in init_shared_pages (k\<lparr>frames := m\<rparr>))"

text \<open>\<open>new_ph_pag\<close> is stored in a field of 20 bits, also when it is \<open>-1\<close>.\<close>

definition set_user_pages :: "nat \<Rightarrow> kernel \<Rightarrow> kernel" where
  "set_user_pages process_PT k =
     (let k = fold (\<lambda>pag k.
            let (new_ph_pag, k) = kernel_alloc_frame k;
                k = upd_table process_PT (\<lambda>t. t(NUM_PAG_DATA + pag := 0)) k;
                k = upd_table process_PT (\<lambda>t. t(NUM_PAG_DATA + pag :=
                      set_pbase_addr (of_int new_ph_pag) (t (NUM_PAG_DATA + pag)))) k;
                k = upd_table process_PT (\<lambda>t. t(NUM_PAG_DATA + pag := set_user 1 (t (NUM_PAG_DATA + pag)))) k
            in upd_table process_PT (\<lambda>t. t(NUM_PAG_DATA + pag := set_present 1 (t (NUM_PAG_DATA + pag)))) k)
          [0..<NUM_PAG_CODE] k
      in fold (\<lambda>pag k.
            let (new_ph_pag, k) = kernel_alloc_frame k;
                k = upd_table process_PT (\<lambda>t. t(pag := 0)) k;
                k = upd_table process_PT (\<lambda>t. t(pag := set_pbase_addr (of_int new_ph_pag) (t pag))) k;
                k = upd_table process_PT (\<lambda>t. t(pag := set_user 1 (t pag))) k;
                k = upd_table process_PT (\<lambda>t. t(pag := set_rw 1 (t pag))) k
            in upd_table process_PT (\<lambda>t. t(pag := set_present 1 (t pag))) k)
          [0..<NUM_PAG_DATA] k)"

definition set_kernel_pages :: "nat \<Rightarrow> kernel \<Rightarrow> kernel" where
  "set_kernel_pages process_PT k =
     (let k = fold (\<lambda>i k. upd_table process_PT (\<lambda>t. set_ss_pag t i i 0) k)
                [first_kernel (frames k)..<last_kernel (frames k)] k;
          k = upd_table process_PT (\<lambda>t. set_ss_pag t 0x90 0x90 0) k;
          k = upd_table process_PT (\<lambda>t. set_ss_pag t 0xb8 0xb8 0) k
      in k\<lparr>scr := printk [10] (scr k)\<rparr>)"

section \<open>The first two processes\<close>

definition init_idle :: "kernel \<Rightarrow> kernel option" where
  "init_idle k = do {
     (pcb, k) \<leftarrow> alloc_pcb k;
     p \<leftarrow> pcb;
     let k = upd_task p (\<lambda>t. t\<lparr>parent := None\<rparr>) k;
     let k = k\<lparr>links := INIT_LIST_HEAD (At_children_blocked p) (links k)\<rparr>;
     let k = k\<lparr>links := INIT_LIST_HEAD (At_children_unblocked p) (links k)\<rparr>;
     let k = upd_task p (\<lambda>t. t\<lparr>pending_unblocks := 0\<rparr>) k;
     let (r, k) = allocate_DIR p k;
     let k = upd_task p (\<lambda>t. t\<lparr>resume := Cpu_idle\<rparr>) k;
     let k = upd_task p (\<lambda>t. t\<lparr>PID := 0\<rparr>) k;
     let k = set_quantum p 10 k;
     Some (k\<lparr>idle_task := Some p\<rparr>) }"

text \<open>A frame that must exist, and its page table cleared.\<close>

definition new_table :: "kernel \<Rightarrow> (nat \<times> kernel) option" where
  "new_table k =
     (let (f, k) = kernel_alloc_frame k in
      if f < 0 then None else Some (nat f, upd_table (nat f) clear_page_table k))"

text \<open>\<open>init_task1\<close> in its parts: the PCB, the page tables, the entries that link them, and the pages made
  afterwards that the kernel must reach once paging is on.\<close>

definition init_pcb1 :: "nat \<Rightarrow> kernel \<Rightarrow> kernel" where
  "init_pcb1 p k =
     (let k = upd_task p (\<lambda>t. t\<lparr>PID := 1\<rparr>) k;
          k = set_quantum p 10 k;
          k = upd_task p (\<lambda>t. t\<lparr>parent := None\<rparr>) k;
          k = k\<lparr>links := INIT_LIST_HEAD (At_children_blocked p) (links k)\<rparr>;
          k = k\<lparr>links := INIT_LIST_HEAD (At_children_unblocked p) (links k)\<rparr>;
          k = k\<lparr>links := INIT_LIST_HEAD (At_sibiling p) (links k)\<rparr>
      in upd_task p (\<lambda>t. t\<lparr>pending_unblocks := 0\<rparr>) k)"

definition init_tables :: "kernel \<Rightarrow> ((nat \<times> nat \<times> nat \<times> nat) \<times> kernel) option" where
  "init_tables k = do {
     (Dir, k) \<leftarrow> new_table k;
     (so, k) \<leftarrow> new_table k;
     let k = set_kernel_pages so k;
     (so2, k) \<leftarrow> new_table k;
     (user, k) \<leftarrow> new_table k;
     let k = set_user_pages user k;
     Some ((Dir, so, so2, user), k) }"

definition link_tables :: "nat \<Rightarrow> nat \<Rightarrow> nat \<Rightarrow> nat \<Rightarrow> kernel \<Rightarrow> kernel" where
  "link_tables Dir so so2 user k =
     (let k = upd_table Dir (\<lambda>t. set_ss_pag t 0 so 0) k;
          k = upd_table Dir (\<lambda>t. set_ss_pag t 1 so2 0) k;
          k = upd_table Dir (\<lambda>t. set_ss_pag t 2 user 1) k;
          k = upd_table Dir (\<lambda>t. set_ss_pag t Dir Dir 0) k;
          k = upd_table so (\<lambda>t. set_ss_pag t so so 0) k;
          k = upd_table so (\<lambda>t. set_ss_pag t so2 so2 0) k
      in upd_table so (\<lambda>t. set_ss_pag t user user 1) k)"

definition map_boot_frames :: "nat \<Rightarrow> nat \<Rightarrow> nat \<Rightarrow> nat \<Rightarrow> nat \<Rightarrow> kernel \<Rightarrow> kernel" where
  "map_boot_frames idle p Dir so so2 k =
     (let k = auto_map_kernel_frame idle so (Some so2) k;
          k = auto_map_kernel_frame p so (Some so2) k;
          k = auto_map_kernel_frame Dir so (Some so2) k
      in auto_map_kernel_frame (get_DIR k idle) so (Some so2) k)"

definition init_task1 :: "kernel \<Rightarrow> kernel option" where
  "init_task1 k = do {
     (pcb, k) \<leftarrow> alloc_pcb k;
     p \<leftarrow> pcb;
     let k = init_pcb1 p k;
     ((Dir, so, so2, user), k) \<leftarrow> init_tables k;
     let k = link_tables Dir so so2 user k;
     idle \<leftarrow> idle_task k;
     let k = map_boot_frames idle p Dir so so2 k;
     let k = k\<lparr>kernel_page_table := Some so\<rparr>;
     let k = k\<lparr>kernel_page_table2 := Some so2\<rparr>;
     let k = upd_task p (\<lambda>t. t\<lparr>dir_pages_baseAddr := Dir\<rparr>) k;
     let k = upd_table (get_DIR k idle) (\<lambda>t. t(0 := table k Dir 0)) k;
     let k = upd_table (get_DIR k idle) (\<lambda>t. t(1 := table k Dir 1)) k;
     let k = set_cr3 (dir_pages_baseAddr (tasks k p)) k;
     let k = k\<lparr>tss := (tss k)\<lparr>esp0 := KERNEL_ESP p\<rparr>\<rparr>;
     let k = writeMSR 0x175 (esp0 (tss k)) k;
     Some (k\<lparr>init_task := Some p\<rparr>) }"

section \<open>main\<close>

text \<open>
  The processor tables are threaded beside the kernel state. After \<open>return_gate\<close> the processor is in
  user mode; the next entry into the kernel uses the stack in \<open>tss.esp0\<close>, that of task 1, which is
  therefore the current process from then on.
\<close>

record boot_image =
  sys_size :: dword
  usr_size :: dword
  tss_addr :: dword
  idt_addr :: dword
  initial_esp :: dword
  handler_addrs :: handlers

definition main ::
  "((nat \<Rightarrow> Gate) \<Rightarrow> (nat \<Rightarrow> Gate)) \<Rightarrow> boot_image \<Rightarrow> (nat \<Rightarrow> Descriptor) \<Rightarrow> (nat \<Rightarrow> Gate) \<Rightarrow> kernel \<Rightarrow>
     ((nat \<Rightarrow> Descriptor) \<times> (nat \<Rightarrow> Gate) \<times> kernel) option" where
  "main set_handlers img gdt idt k = do {
     let k = k\<lparr>scr := printk (text_bytes ''Kernel Loaded!    '') (scr k)\<rparr>;
     let (gdt, gdtR) = setGdt (tss_addr img) gdt;
     let (idt, ms, idtR) = setIdt set_handlers (handler_addrs img) (initial_esp img) (idt_addr img) idt (msr k);
     let (t, sel) = setTSS (initial_esp img) (tss k);
     let k = k\<lparr>msr := ms, tss := t\<rparr>;
     let k = init_mm (sys_size img) (usr_size img) k;
     let k = init_sched k;
     k \<leftarrow> init_idle k;
     k \<leftarrow> init_task1 k;
     k \<leftarrow> on_mach (Some \<circ> set_pe_flag) k;
     k \<leftarrow> on_mach (copy_data (KERNEL_START + sys_size img) L_USER_START (sint (usr_size img))) k;
     let k = k\<lparr>scr := printk (text_bytes ''Entering user mode...'') (scr k)\<rparr>;
     p \<leftarrow> init_task k;
     Some (gdt, idt, k\<lparr>current := p\<rparr>) }"

end
