(* ===== verification/Text.thy ===== *)
theory Text
  imports Prelude
begin

text \<open>
  The number printers \<open>itoa\<close> and \<open>itoa_hex\<close> of \<open>libc.c\<close>, \<open>itoa_hexadecimal\<close> of
  \<open>utils.c\<close>, and \<open>strlen\<close>. A C string buffer is a function from indices to bytes; the
  caller provides it, and the lemmas on the number of digits bound the part that is
  written. The three printers share two loops: one stores the digits of the number from the lowest to the
  highest, the other reverses them in place.
\<close>

type_synonym buffer = "nat \<Rightarrow> byte"

section \<open>The loops\<close>

text \<open>\<open>while (a > 0) { b[i] = digit (a % base); a = a / base; i++; }\<close>, from \<open>i\<close> on.\<close>

function digit_loop :: "nat \<Rightarrow> (nat \<Rightarrow> byte) \<Rightarrow> int \<Rightarrow> nat \<Rightarrow> buffer \<Rightarrow> nat \<times> buffer" where
  "digit_loop base digit a i b =
     (if a > 0 \<and> base > 1 then
        digit_loop base digit (a div int base) (Suc i) (b(i := digit (nat (a mod int base))))
      else (i, b))"
  by pat_completeness auto
termination
  by (relation "measure (\<lambda>(base, digit, a, i, b). nat a)")
    (auto simp: nat_less_iff int_div_less_self)

declare digit_loop.simps [simp del]

text \<open>
  \<open>for (i1 = 0; i1 < i / 2; i1++) { c = b[i1]; b[i1] = b[i - i1 - 1]; b[i - i1 - 1] = c; }\<close>
\<close>

definition reverse_loop :: "nat \<Rightarrow> buffer \<Rightarrow> buffer" where
  "reverse_loop i b =
     fold (\<lambda>i1 b. let c = b i1 in b(i1 := b (i - i1 - 1), i - i1 - 1 := c)) [0..<i div 2] b"

section \<open>The printers\<close>

definition dec_digit :: "nat \<Rightarrow> byte" where
  "dec_digit d = of_nat d + 48"

definition itoa :: "int \<Rightarrow> buffer \<Rightarrow> buffer" where
  "itoa a b =
     (if a = 0 then b(0 := 48, 1 := 0)
      else
        let (i, b) = digit_loop 10 dec_digit a 0 b;
            b = reverse_loop i b
        in b(i := 0))"

text \<open>\<open>hex[d]\<close> for the table \<open>"0123456789ABCDEF"\<close>\<close>

definition hex_table :: "byte list" where
  "hex_table = [48, 49, 50, 51, 52, 53, 54, 55, 56, 57, 65, 66, 67, 68, 69, 70]"

definition itoa_hex :: "dword \<Rightarrow> buffer \<Rightarrow> buffer" where
  "itoa_hex a b =
     (if a = 0 then b(0 := 48, 1 := 0)
      else
        let (i, b) = digit_loop 16 (\<lambda>d. hex_table ! d) (uint a) 0 b;
            b = reverse_loop i b
        in b(i := 0))"

text \<open>The signed loop of \<open>utils.c\<close>, with the digits computed and not looked up.\<close>

definition hexadecimal_digit :: "nat \<Rightarrow> byte" where
  "hexadecimal_digit resto = (if resto < 10 then of_nat resto + 48 else of_nat (resto - 10) + 65)"

definition itoa_hexadecimal :: "int \<Rightarrow> buffer \<Rightarrow> buffer" where
  "itoa_hexadecimal a b =
     (if a = 0 then b(0 := 48, 1 := 0)
      else
        let (i, b) = digit_loop 16 hexadecimal_digit a 0 b;
            b = reverse_loop i b
        in b(i := 0))"

text \<open>\<open>strlen\<close>: \<open>None\<close> when no byte of the buffer ends the string.\<close>

partial_function (option) strlen_loop :: "buffer \<Rightarrow> nat \<Rightarrow> nat option" where
  "strlen_loop a i = (if a i \<noteq> 0 then strlen_loop a (Suc i) else Some i)"

definition strlen :: "buffer \<Rightarrow> nat option" where
  "strlen a = strlen_loop a 0"

section \<open>What the loops do\<close>

text \<open>The number of digits of \<open>a\<close> in a base: no digit for 0.\<close>

fun ndigits :: "nat \<Rightarrow> nat \<Rightarrow> nat" where
  "ndigits base a = (if a > 0 \<and> base > 1 then Suc (ndigits base (a div base)) else 0)"

declare ndigits.simps [simp del]

lemma ndigits_0 [simp]: "ndigits base 0 = 0"
  by (simp add: ndigits.simps)

lemma ndigits_bounds:
  assumes "base > 1"
  shows "a < base ^ ndigits base a" and "a > 0 \<Longrightarrow> base ^ (ndigits base a - 1) \<le> a"
proof -
  have "a < base ^ ndigits base a \<and> (a > 0 \<longrightarrow> base ^ (ndigits base a - 1) \<le> a)"
    using assms
  proof (induction base a rule: ndigits.induct)
    case (1 base a)
    show ?case
    proof (cases "a > 0")
      case False
      then show ?thesis by (simp add: ndigits.simps)
    next
      case True
      let ?n = "ndigits base (a div base)"
      have n: "ndigits base a = Suc ?n" using True 1 by (simp add: ndigits.simps)
      have IH: "a div base < base ^ ?n" "a div base > 0 \<Longrightarrow> base ^ (?n - 1) \<le> a div base"
        using 1 True by auto
      have "a < base ^ Suc ?n"
        using IH(1) 1(2) by (simp add: div_less_iff_less_mult mult.commute)
      moreover have "base ^ ?n \<le> a"
      proof (cases "a div base > 0")
        case True
        then have "?n > 0" using 1(2) by (simp add: ndigits.simps [of base "a div base"])
        then have "base ^ ?n = base * base ^ (?n - 1)" by (simp flip: power_Suc)
        also have "\<dots> \<le> base * (a div base)" using IH(2) True by simp
        also have "\<dots> \<le> a" by simp
        finally show ?thesis .
      next
        case False
        then have "?n = 0" by simp
        then show ?thesis using True by simp
      qed
      ultimately show ?thesis unfolding n by simp
    qed
  qed
  then show "a < base ^ ndigits base a" and "a > 0 \<Longrightarrow> base ^ (ndigits base a - 1) \<le> a"
    by simp_all
qed

lemma digit_loop_nat:
  assumes "base > 1"
  shows "digit_loop base digit (int a) i b =
           (i + ndigits base a,
            \<lambda>j. if i \<le> j \<and> j < i + ndigits base a then digit (a div base ^ (j - i) mod base) else b j)"
  using assms
proof (induction base a arbitrary: i b rule: ndigits.induct)
  case (1 base a)
  show ?case
  proof (cases "a > 0")
    case False
    then show ?thesis by (auto simp: digit_loop.simps fun_eq_iff)
  next
    case True
    have step: "digit_loop base digit (int a) i b =
        digit_loop base digit (int (a div base)) (Suc i) (b(i := digit (a mod base)))"
      using True 1(2) by (subst digit_loop.simps) (simp add: zdiv_int nat_mod_distrib flip: zmod_int)
    have n: "ndigits base a = Suc (ndigits base (a div base))"
      using True 1(2) by (simp add: ndigits.simps [of base a])
    have div: "a div base div base ^ (j - Suc i) = a div base ^ (j - i)" if "i < j" for j
    proof -
      have "j - i = Suc (j - Suc i)" using that by simp
      then show ?thesis by (simp only: power_Suc div_mult2_eq)
    qed
    show ?thesis
      unfolding step n using 1 True by (auto simp: fun_eq_iff div)
  qed
qed

lemma reverse_loop_nth:
  "reverse_loop i b = (\<lambda>j. if j < i then b (i - 1 - j) else b j)"
proof -
  let ?f = "\<lambda>i1 b. let c = b i1 in b(i1 := b (i - i1 - 1), i - i1 - 1 := c)"
  have "fold ?f [0..<k] b =
      (\<lambda>j. if j < k \<or> i - k \<le> j \<and> j < i then b (i - 1 - j) else b j)" if "k \<le> i div 2" for k
    using that
  proof (induction k)
    case 0
    then show ?case by (auto simp: fun_eq_iff)
  next
    case (Suc k)
    then have k: "k < i - 1 - k" by auto
    have IH: "fold ?f [0..<k] b =
        (\<lambda>j. if j < k \<or> i - k \<le> j \<and> j < i then b (i - 1 - j) else b j)"
      using Suc.prems by (intro Suc.IH) simp
    show ?case
      unfolding upt_Suc_append [OF le0] fold_append comp_apply IH using k
      by (auto simp: fun_eq_iff Let_def)
  qed
  from this [of "i div 2"] show ?thesis
    unfolding reverse_loop_def by (auto simp: fun_eq_iff intro!: arg_cong [of _ _ b])
qed

lemma strlen_eq:
  assumes "\<And>j. j < n \<Longrightarrow> b j \<noteq> 0" and "b n = 0"
  shows "strlen b = Some n"
proof -
  have "strlen_loop b (n - k) = Some n" if "k \<le> n" for k
    using that
  proof (induction k)
    case 0
    then show ?case using assms(2) by (simp add: strlen_loop.simps)
  next
    case (Suc k)
    then have "b (n - Suc k) \<noteq> 0" using assms(1) [of "n - Suc k"] by simp
    then show ?case using Suc by (simp add: strlen_loop.simps [of b "n - Suc k"] Suc_diff_Suc)
  qed
  from this [of n] show ?thesis by (simp add: strlen_def)
qed

section \<open>Reading a printed number back\<close>

definition number_of :: "nat \<Rightarrow> (byte \<Rightarrow> nat) \<Rightarrow> byte list \<Rightarrow> nat" where
  "number_of base val s = foldl (\<lambda>v c. base * v + val c) 0 s"

text \<open>The values of the characters \<open>0\<close> to \<open>9\<close> and \<open>A\<close> to \<open>F\<close>.\<close>

definition digit_value :: "byte \<Rightarrow> nat" where
  "digit_value c = (if unat c < 65 then unat c - 48 else unat c - 55)"

text \<open>The body the printers share, and the string it leaves in the buffer.\<close>

lemma print_digits:
  assumes base: "base > 1" and a: "a > 0"
    and digit: "\<And>d. d < base \<Longrightarrow> digit d \<noteq> 0 \<and> digit_value (digit d) = d"
    and out: "out = (let (i, b) = digit_loop base digit (int a) 0 b; b = reverse_loop i b in b(i := 0))"
  shows "strlen out = Some (ndigits base a)"
    and "number_of base digit_value (map out [0..<ndigits base a]) = a"
    and "\<And>j. j > ndigits base a \<Longrightarrow> out j = b j"
proof -
  let ?n = "ndigits base a"
  have out_j: "out j = (if j < ?n then digit (a div base ^ (?n - 1 - j) mod base)
      else if j = ?n then 0 else b j)" for j
    unfolding out digit_loop_nat [OF base] Let_def prod.case reverse_loop_nth by auto
  show "\<And>j. j > ?n \<Longrightarrow> out j = b j" by (simp add: out_j)
  have "a div base ^ k mod base < base" for k using base by simp
  then have d: "digit (a div base ^ k mod base) \<noteq> 0"
      "digit_value (digit (a div base ^ k mod base)) = a div base ^ k mod base" for k
    using digit by blast+
  show "strlen out = Some ?n"
    by (rule strlen_eq) (simp_all add: out_j d)
  have "number_of base digit_value (map out [0..<k]) = a div base ^ (?n - k)" if "k \<le> ?n" for k
    using that
  proof (induction k)
    case 0
    then show ?case using ndigits_bounds(1) [OF base, of a] by (simp add: number_of_def)
  next
    case (Suc k)
    then have IH: "number_of base digit_value (map out [0..<k]) = a div base ^ (?n - k)" by simp
    have k: "digit_value (out k) = a div base ^ (?n - Suc k) mod base"
      using Suc.prems by (simp add: out_j d)
    have eq: "base ^ (?n - k) = base ^ (?n - Suc k) * base"
      using Suc.prems by (simp flip: power_Suc2 add: Suc_diff_Suc)
    have "number_of base digit_value (map out [0..<Suc k]) =
        base * (a div base ^ (?n - k)) + a div base ^ (?n - Suc k) mod base"
      using IH k by (simp add: number_of_def)
    also have "\<dots> = a div base ^ (?n - Suc k)"
      unfolding eq div_mult2_eq by (rule mult_div_mod_eq)
    finally show ?case .
  qed
  from this [of ?n] show "number_of base digit_value (map out [0..<?n]) = a" by simp
qed

lemma all_upt: "list_all p [0..<n] \<Longrightarrow> d < n \<Longrightarrow> p d"
  by (simp add: list_all_iff)

lemma dec_digit_ok: "d < 10 \<Longrightarrow> dec_digit d \<noteq> 0 \<and> digit_value (dec_digit d) = d"
  by (rule all_upt [of _ 10]) (simp_all add: upt_rec dec_digit_def digit_value_def)

lemma hex_table_ok: "d < 16 \<Longrightarrow> hex_table ! d \<noteq> 0 \<and> digit_value (hex_table ! d) = d"
  by (rule all_upt [of _ 16]) (simp_all add: upt_rec hex_table_def digit_value_def)

lemma hexadecimal_digit_ok:
  "d < 16 \<Longrightarrow> hexadecimal_digit d \<noteq> 0 \<and> digit_value (hexadecimal_digit d) = d"
  by (rule all_upt [of _ 16]) (simp_all add: upt_rec hexadecimal_digit_def digit_value_def)

lemma ndigits_le:
  assumes "base > 1" and "a < base ^ k"
  shows "ndigits base a \<le> k"
proof (cases "a > 0")
  case True
  then have "base ^ (ndigits base a - 1) < base ^ k"
    using ndigits_bounds(2) [OF assms(1) True] assms(2) by simp
  then show ?thesis using assms(1) by (simp add: power_strict_increasing_iff)
qed simp

lemma strlen_zero_string: "strlen (b(0 := 48, Suc 0 := 0)) = Some 1"
  by (rule strlen_eq) (auto simp: less_Suc_eq)

lemma number_of_zero: "number_of base digit_value (map (b(0 := 48, Suc 0 := 0)) [0..<1]) = 0"
  by (simp add: number_of_def digit_value_def)

text \<open>The characters of \<open>itoa\<close> are digits.\<close>

definition is_digit :: "byte \<Rightarrow> bool" where
  "is_digit c \<longleftrightarrow> 48 \<le> c \<and> c \<le> 57"

lemma dec_digit_is_digit: "d < 10 \<Longrightarrow> is_digit (dec_digit d)"
  by (rule all_upt [of _ 10]) (simp_all add: upt_rec dec_digit_def is_digit_def)

lemma itoa_string:
  assumes "0 \<le> a" "a < 2 ^ 31"
  obtains n where "strlen (itoa a b) = Some n" "0 < n" "n \<le> 10" "\<forall>j<n. is_digit (itoa a b j)" "itoa a b n = 0"
    "int (number_of 10 digit_value (map (itoa a b) [0..<n])) = a" "\<forall>j>n. itoa a b j = b j"
proof (cases "a = 0")
  case True
  then show ?thesis using strlen_zero_string [of b] number_of_zero [of 10 b]
    by (intro that [of 1]) (auto simp: itoa_def is_digit_def)
next
  case False
  let ?a = "nat a" and ?n = "ndigits 10 (nat a)"
  have out: "itoa a b =
      (let (i, b) = digit_loop 10 dec_digit (int ?a) 0 b; b = reverse_loop i b in b(i := 0))"
    using assms False by (simp add: itoa_def)
  have b: "(10 :: nat) > 1" by simp
  have "itoa a b j = (if j < ?n then dec_digit (?a div 10 ^ (?n - 1 - j) mod 10) else if j = ?n then 0 else b j)" for j
    unfolding out digit_loop_nat [OF b] Let_def prod.case reverse_loop_nth by auto
  then have "\<forall>j<?n. is_digit (itoa a b j)" "itoa a b ?n = 0" by (simp_all add: dec_digit_is_digit)
  moreover have "?n \<le> 10" using assms by (intro ndigits_le) simp_all
  moreover have "?n > 0" using assms False by (simp add: ndigits.simps)
  ultimately show ?thesis
    using print_digits [OF b _ dec_digit_ok out] assms False by (intro that [of ?n]) simp_all
qed

section \<open>Properties\<close>

text \<open>
  For a number that is not negative, \<open>itoa\<close> leaves a terminated string that reads back
  as the number in base ten, of at most ten characters when the number fits an \<open>int\<close>, and
  leaves the buffer after the terminator alone.
\<close>

theorem itoa_reads_back:
  assumes "0 \<le> a" and "a < 2 ^ 31"
  shows "\<exists>n. strlen (itoa a b) = Some n \<and> 0 < n \<and> n \<le> 10 \<and>
           int (number_of 10 digit_value (map (itoa a b) [0..<n])) = a \<and>
           (\<forall>j. j > n \<longrightarrow> itoa a b j = b j)"
  by (rule itoa_string [OF assms, of b]) blast

theorem itoa_reads_back_witness: "\<exists>n. strlen (itoa 2026 (\<lambda>_. 7)) = Some n \<and> n \<le> 10"
  using itoa_reads_back [of 2026 "\<lambda>_. 7"] by auto

text \<open>
  \<open>itoa_hex\<close> prints every 32-bit value, those with the top bit set included: at most
  eight digits, terminated, that read back as the value.
\<close>

theorem itoa_hex_reads_back:
  "\<exists>n. strlen (itoa_hex a b) = Some n \<and> 0 < n \<and> n \<le> 8 \<and>
       number_of 16 digit_value (map (itoa_hex a b) [0..<n]) = unat a \<and>
       (\<forall>j. j > n \<longrightarrow> itoa_hex a b j = b j)"
proof (cases "a = 0")
  case True
  then show ?thesis
    using strlen_zero_string [of b] number_of_zero [of 16 b]
    by (auto simp: itoa_hex_def)
next
  case False
  let ?n = "ndigits 16 (unat a)"
  have out: "itoa_hex a b = (let (i, b) = digit_loop 16 (\<lambda>d. hex_table ! d) (int (unat a)) 0 b;
      b = reverse_loop i b in b(i := 0))"
    using False by (simp add: itoa_hex_def)
  have pos: "unat a > 0" using False by (simp add: unat_gt_0)
  then have "?n > 0" by (simp add: ndigits.simps)
  moreover have "unat a < 16 ^ 8" using unsigned_less [of a] by simp
  then have "?n \<le> 8" by (intro ndigits_le) simp_all
  ultimately show ?thesis
    using print_digits [OF _ pos hex_table_ok out] by (intro exI [of _ ?n]) auto
qed

theorem itoa_hex_reads_back_witness:
  "\<exists>n. strlen (itoa_hex 0xFFFFFFF0 (\<lambda>_. 7)) = Some n \<and> n \<le> 8"
  using itoa_hex_reads_back [of "0xFFFFFFF0" "\<lambda>_. 7"] by auto

text \<open>
  C40. The kernel's \<open>itoa_hexadecimal\<close> and the library's \<open>itoa_hex\<close> fill the buffer alike
  on every number that is not negative, although one computes its digits and the other
  looks them up.
\<close>

theorem hexadecimal_printers_agree:
  assumes "0 \<le> a" and "a < 2 ^ 31"
  shows "itoa_hexadecimal a b = itoa_hex (word_of_int a) b"
proof -
  have u: "uint (word_of_int a :: dword) = a"
    using assms by (simp add: uint_word_of_int)
  have eq: "hexadecimal_digit d = hex_table ! d" if "d < 16" for d
    using that by (rule all_upt [of _ 16, rotated])
      (simp add: upt_rec hexadecimal_digit_def hex_table_def)
  have "hexadecimal_digit (x mod 16) = hex_table ! (x mod 16)" for x by (rule eq) simp
  then have "digit_loop 16 hexadecimal_digit (int (nat a)) 0 b =
      digit_loop 16 (\<lambda>d. hex_table ! d) (int (nat a)) 0 b"
    by (simp only: digit_loop_nat [where base = 16, simplified])
  moreover have "(word_of_int a :: dword) = 0 \<longleftrightarrow> a = 0"
    using u by (metis uint_0_eq uint_0_iff)
  ultimately show ?thesis
    using assms u by (simp add: itoa_hexadecimal_def itoa_hex_def)
qed

theorem hexadecimal_printers_agree_witness:
  "itoa_hexadecimal 0x801000 (\<lambda>_. 1) = itoa_hex 0x801000 (\<lambda>_. 1)"
  using hexadecimal_printers_agree [of "0x801000" "\<lambda>_. 1"] by simp

text \<open>
  On a negative number \<open>itoa\<close> and \<open>itoa_hexadecimal\<close> print nothing: their loops stop at
  once and the string is empty. \<open>pagefault_routine\<close> prints such an address for every fault
  in the upper half of the address space.
\<close>

theorem signed_printers_drop_negatives:
  assumes "a < 0"
  shows "strlen (itoa a b) = Some 0 \<and> strlen (itoa_hexadecimal a b) = Some 0"
proof -
  have "digit_loop base digit a 0 b = (0, b)" for base digit
    using assms by (simp add: digit_loop.simps)
  then show ?thesis
    using assms by (auto simp: itoa_def itoa_hexadecimal_def reverse_loop_def intro: strlen_eq)
qed

theorem signed_printers_drop_negatives_witness: "strlen (itoa (-38) (\<lambda>_. 1)) = Some 0"
  using signed_printers_drop_negatives [of "-38" "\<lambda>_. 1"] by simp

end
