(* ===== verification/Dispatch.thy ===== *)
theory Dispatch
  imports Boot Text
begin

text \<open>
  The ways into the kernel: the system call entry of \<open>entry.S\<close> with the table of \<open>sys_call_table.S\<close>, and the
  interrupt routines of \<open>interrupt.c\<close>. A system call number is in \<open>eax\<close>, its arguments in \<open>edx\<close>, \<open>ecx\<close> and
  \<open>ebx\<close>, which \<open>SAVE_ALL\<close> pushes where the C routine finds its parameters. \<open>kernel_step\<close> is one entry
  and the way out of it: when the process that entered gave the processor away, the one now running
  continues at its \<open>resume_point\<close> and gets the result of the call it was in.
\<close>

section \<open>The system call table\<close>

datatype sys_routine =
    Call_exit | Call_fork | Call_read | Call_write | Call_gettime | Call_getpid | Call_block
  | Call_unblock | Call_gotoxy | Call_set_color | Call_shmat | Call_shmdt | Call_shmrm
  | Call_get_stats | Call_ni

definition sys_call_table :: "sys_routine list" where
  "sys_call_table =
    [Call_ni, Call_exit, Call_fork, Call_read, Call_write, Call_ni, Call_ni, Call_ni, Call_ni, Call_ni,
     Call_gettime, Call_ni, Call_ni, Call_ni, Call_ni, Call_ni, Call_ni, Call_ni, Call_ni, Call_ni,
     Call_getpid, Call_block, Call_unblock, Call_gotoxy, Call_set_color, Call_shmat, Call_shmdt, Call_shmrm,
     Call_ni, Call_ni, Call_ni, Call_ni, Call_ni, Call_ni, Call_ni, Call_get_stats]"

abbreviation (input) MAX_SYSCALL :: int where
  "MAX_SYSCALL \<equiv> 36"

fun call_routine :: "sys_routine \<Rightarrow> dword \<Rightarrow> dword \<Rightarrow> dword \<Rightarrow> kernel \<Rightarrow> (outcome \<times> kernel) option" where
  "call_routine Call_exit a b c k = do {
     k' \<leftarrow> sys_exit k;
     if current k' = current k then None else Some (Switched, k') }"
| "call_routine Call_fork a b c k = do { (r, k) \<leftarrow> sys_fork k; Some (Return r, k) }"
| "call_routine Call_read a b c k = sys_read a (sint b) k"
| "call_routine Call_write a b c k = do { (r, k) \<leftarrow> sys_write (sint a) b (sint c) k; Some (Return r, k) }"
| "call_routine Call_gettime a b c k = Some (Return (sys_gettime k), k)"
| "call_routine Call_getpid a b c k = Some (Return (sys_getpid k), k)"
| "call_routine Call_block a b c k = sys_block k"
| "call_routine Call_unblock a b c k = do { (r, k) \<leftarrow> sys_unblock (sint a) k; Some (Return r, k) }"
| "call_routine Call_gotoxy a b c k =
     (let (r, s) = sys_gotoxy (sint a) (sint b) (scr k) in Some (Return r, k\<lparr>scr := s\<rparr>))"
| "call_routine Call_set_color a b c k =
     (let (r, s) = sys_set_color (sint a) (sint b) (scr k) in Some (Return r, k\<lparr>scr := s\<rparr>))"
| "call_routine Call_shmat a b c k = (let (r, k) = sys_shmat (sint a) b k in Some (Return r, k))"
| "call_routine Call_shmdt a b c k = do { (r, k) \<leftarrow> sys_shmdt a k; Some (Return r, k) }"
| "call_routine Call_shmrm a b c k = do { (r, k) \<leftarrow> sys_shmrm (sint a) k; Some (Return r, k) }"
| "call_routine Call_get_stats a b c k = Some (Return (sys_get_stats (sint a) (frames k)), k)"
| "call_routine Call_ni a b c k = Some (Return (sys_ni_syscall k), k)"

text \<open>
  The test of \<open>entry.S\<close> is \<open>jg\<close>: the number \<open>MAX_SYSCALL\<close> itself passes and calls whatever word follows
  the table, which is the fault \<open>None\<close> here.
\<close>

definition system_call_handler :: "dword \<Rightarrow> dword \<Rightarrow> dword \<Rightarrow> dword \<Rightarrow> kernel \<Rightarrow> (outcome \<times> kernel) option" where
  "system_call_handler n a b c k =
     (if sint n < 0 then Some (Return (- ENOSYS), k)
      else if sint n > MAX_SYSCALL then Some (Return (- ENOSYS), k)
      else if unat n < length sys_call_table then call_routine (sys_call_table ! unat n) a b c k
      else None)"

section \<open>Interrupts\<close>

text \<open>
  \<open>char_map\<close> has 98 entries; the four letters outside ASCII are multi-character constants of which the compiler
  keeps the last byte. An index behind the table reads foreign memory, the fault \<open>None\<close>.
\<close>

definition char_map :: "byte list" where
  "char_map =
    [0, 0, 49, 50, 51, 52, 53, 54, 55, 56, 57, 48, 39, 189, 0, 0,
     113, 119, 101, 114, 116, 121, 117, 105, 111, 112, 96, 43, 0, 0, 97, 115,
     100, 102, 103, 104, 106, 107, 108, 189, 0, 189, 0, 189, 122, 120, 99, 118,
     98, 110, 109, 44, 46, 45, 0, 42, 0, 0, 0, 0, 0, 0, 0, 0,
     0, 0, 0, 0, 0, 0, 0, 55, 56, 57, 45, 52, 53, 54, 43, 49,
     50, 51, 48, 0, 0, 0, 60, 0, 0, 0, 0, 0, 0, 0, 0, 0,
     0, 0]"

definition keyboard_routine :: "byte \<Rightarrow> kernel \<Rightarrow> kernel option" where
  "keyboard_routine pv k =
     (let isbreak = pv AND 0x80 in
      if isbreak = 0 then
        (if unat (pv AND 0x7F) < length char_map then
           let toprint = char_map ! unat (pv AND 0x7F) in
           if toprint \<noteq> 0 then kbd_buf_write toprint k else Some k
         else None)
      else Some k)"

text \<open>\<open>zeos_show_clock\<close> of the binary library draws the time: a parameter.\<close>

definition clock_routine :: "(int \<Rightarrow> screen \<Rightarrow> screen) \<Rightarrow> kernel \<Rightarrow> kernel option" where
  "clock_routine zeos_show_clock k =
     (let k = k\<lparr>zeos_ticks := zeos_ticks k + 1\<rparr>;
          k = (if zeos_ticks k mod 18 = 0 then k\<lparr>scr := zeos_show_clock (zeos_ticks k) (scr k)\<rparr> else k)
      in schedule k)"

text \<open>
  What \<open>pagefault_routine\<close> shows before its endless loop. \<open>junk\<close> is the initial content of its ten-byte buffer.
\<close>

definition pagefault_routine :: "buffer \<Rightarrow> int \<Rightarrow> screen \<Rightarrow> screen" where
  "pagefault_routine junk fault_eip s =
     (let s = printk [10] s;
          s = printk (text_bytes ''Process generates a PAGE FAULT exception at EIP: 0x'') s;
          buff = itoa_hexadecimal fault_eip junk;
          s = printk (map buff [0..<10]) s
      in printk [10] s)"

section \<open>One entry into the kernel\<close>

text \<open>What the process that has just been switched in still does in the kernel, and the result it takes
  to user mode, if it was in a system call.\<close>

definition resume_current :: "kernel \<Rightarrow> (int option \<times> kernel) option" where
  "resume_current k =
     (case resume (tasks k (current k)) of
        Cpu_idle \<Rightarrow> Some (None, k)
      | Ret_from_fork \<Rightarrow> Some (Some 0, k)
      | Clock_routine \<Rightarrow> Some (None, k)
      | Sys_block \<Rightarrow> Some (Some 0, k)
      | Sys_read b n \<Rightarrow> do { (got, k) \<leftarrow> sys_read_resumed b n k; Some (Some got, k) }
      | Sys_exit \<Rightarrow> None)"

datatype event = Syscall dword dword dword dword | Tick | Scancode byte

fun kernel_step :: "(int \<Rightarrow> screen \<Rightarrow> screen) \<Rightarrow> event \<Rightarrow> kernel \<Rightarrow> (int option \<times> kernel) option" where
  "kernel_step clk (Syscall n a b c) k = do {
     (out, k') \<leftarrow> system_call_handler n a b c k;
     (case out of
        Return r \<Rightarrow> Some (Some r, k')
      | Switched \<Rightarrow> resume_current k') }"
| "kernel_step clk Tick k = do {
     k' \<leftarrow> clock_routine clk k;
     if current k' = current k then Some (None, k') else resume_current k' }"
| "kernel_step clk (Scancode s) k = do {
     k' \<leftarrow> keyboard_routine s k;
     Some (None, k') }"

end
