(* ===== verification/Whole.thy ===== *)
theory Whole
  imports Steps Shared_Space Fork_Call Dispatch
begin

text \<open>
  The kernel as a whole: every entry (\<open>kernel_step\<close>) from a state that satisfies the invariant \<open>kernel_ok\<close> returns to user
  mode in such a state, so the invariant holds in every state the kernel can reach, and an entry changes no byte of
  the data of a process other than the one it returns to. \<open>event_ok\<close> lists what is assumed of an entry.
\<close>

section \<open>System calls\<close>

lemma sys_write_ok:
  assumes ok: "kernel_ok k v cf" and me: "idle_task k \<noteq> Some (current k)" and fits: "buffer_fits VERIFY_READ b n"
  obtains r k' where "sys_write fd b n k = Some (r, k')" and "safe_step cf (kernel_image k) k v k' v"
    and "current k' = current k"
proof -
  note d = kernel_okD [OF ok]
  have cur: "current k \<noteq> the (idle_task k)" using me sched_ok_idle [OF d(1)] by auto
  consider r where "sys_write fd b n k = Some (r, k)"
    | "fd = 1" "b \<noteq> 0" "0 \<le> n" "access_ok VERIFY_READ b (of_int n) \<noteq> 0"
    by (cases "fd = 1"; cases "b = 0"; cases "n < 0"; cases "access_ok VERIFY_READ b (of_int n) = 0")
      (auto simp: sys_write_def check_fd_def)
  then show thesis
  proof cases
    case (1 r)
    then show thesis using that safe_step_refl [OF ok] by blast
  next
    case 2
    define m where "m = nat n"
    have m: "n = int m" using 2(3) by (simp add: m_def)
    have ur: "user_range b (int m)" using buffer_fits_range [OF fits 2(2,3,4)] by (simp add: m)
    note ub = user_buffer [OF d(3) cur ur]
    let ?P = "\<lambda>x. user_place k (current k) (unat b + x)" and ?Q = "\<lambda>x. unat (buffer_sys k) + x"
    have "write_ready k b m ?P ?Q"
      using ub(1) ub(3,4) [of 256] by (auto simp: write_ready_def inj_on_def)
    moreover have "access_ok VERIFY_READ b (of_nat m) \<noteq> 0" using 2(4) by (simp add: m)
    ultimately obtain k' where k': "sys_write 1 b (int m) k = Some (int m, k')"
        "shown ?Q (map (\<lambda>i. ram (mach k) (?P i)) [0..<m]) k k'"
      using sys_write_shows [OF _ 2(2)] by blast
    then obtain r cs where r: "k' = k\<lparr>mach := (mach k)\<lparr>ram := r\<rparr>, scr := fold printc cs (scr k)\<rparr>"
        "\<And>a. a \<notin> ?Q ` {..<256} \<Longrightarrow> r a = ram (mach k) a"
      unfolding shown_def by blast
    have w: "a div 4096 \<in> kernel_image k" if wr: "r a \<noteq> ram (mach k) a" for a
    proof -
      obtain x where "x < 256" "a = ?Q x" using r(2) wr by blast
      then show ?thesis using buffer_in_kernel_image [OF d(3), of x] by simp
    qed
    have "safe_step cf (kernel_image k) k v k' v"
      using safe_step_data [OF ok d(8) fold_printc_ok [OF d(9)] w, where z = "zeos_ticks k"] by (simp add: r(1))
    then show thesis using that [of "int m" k'] k'(1) 2(1) r(1) by (simp add: m)
  qed
qed

lemma screen_call_ok:
  assumes ok: "kernel_ok k v cf" and s: "screen_ok s"
  shows "safe_step cf {} k v (k\<lparr>scr := s\<rparr>) v"
  using safe_step_data [OF ok kernel_okD(8) [OF ok] s, where r = "ram (mach k)" and z = "zeos_ticks k" and F = "{}"]
  by simp

lemma shared_call_ok:
  assumes ok: "kernel_ok k v cf" and me: "current k \<noteq> the (idle_task k)"
    and st: "shm_step (user_table k (current k)) (the (kernel_page_table k)) k k'"
    and sh: "shm_ok k' (user_tables k (all_tasks k v) (the (idle_task k)))"
  shows "safe_step cf (pool k) k v k' v"
proof -
  note d = kernel_okD [OF ok]
  note sd = shm_stepD [OF st]
  note mb = mem_base_shm [OF mem_okD(12) [OF d(3)] me st]
  have all: "all_tasks k' v = all_tasks k v" by (simp add: all_tasks_def sd)
  obtain r T x m sf sr sm where e: "k' = k\<lparr>mach := (mach k)\<lparr>ram := r, tables := T, cr3 := x\<rparr>, frames := m,
        shared_frames := sf, shared_refs := sr, shared_marked_rm := sm\<rparr>" using st by (rule shm_stepE)
  have "mem_ok k' (all_tasks k v) (the (idle_task k)) cf" using mb(1,2) sh by (simp add: mem_ok_def)
  moreover have "sched_ok k' v" using d(1) sched_ok_same [of k' k v] by (simp add: sd)
  moreover have "family_ok k' v" by (rule family_ok_same [OF d(2) _ all]) (simp_all add: sd)
  moreover have "resumes_ok k' v" by (rule resumes_ok_same [OF d(7) all]) (simp_all add: sd)
  moreover have "stack_ok k'" using d(11) by (simp add: stack_ok_def e)
  ultimately have "kernel_ok k' v cf" using d(4-6,8,9) by (simp add: kernel_ok_def procs_ok_def all sd)
  then show ?thesis using mb(3) shm_step_wrote(1) [OF st] by (simp add: safe_step_def frames_kept_def all sd(3,6))
qed

lemma shared_calls_ok:
  assumes ok: "kernel_ok k v cf" and me: "idle_task k \<noteq> Some (current k)"
  shows "\<exists>r k'. sys_shmat i a k = (r, k') \<and> safe_step cf (pool k) k v k' v \<and> current k' = current k"
    and "\<exists>r k'. sys_shmdt a k = Some (r, k') \<and> safe_step cf (pool k) k v k' v \<and> current k' = current k"
    and "\<exists>r k'. sys_shmrm i k = Some (r, k') \<and> safe_step cf (pool k) k v k' v \<and> current k' = current k"
proof -
  note d = kernel_okD [OF ok]
  have cur: "current k \<noteq> the (idle_task k)" using me sched_ok_idle [OF d(1)] by auto
  note us = mem_ok_user_space [OF d(3) cur]
  note safe = shared_call_ok [OF ok cur]
  obtain r k' where k': "sys_shmat i a k = (r, k')" by (cases "sys_shmat i a k")
  have st: "shm_step (user_table k (current k)) (the (kernel_page_table k)) k k'"
    using shm_step_shmat [of k "the (kernel_page_table k)" i a] by (simp add: k')
  have "shm_ok k' (user_tables k (all_tasks k v) (the (idle_task k)))"
    using sys_shmat_ok [OF mem_okD(11) [OF d(3)] us(3) k'] by simp
  then show "\<exists>r k'. sys_shmat i a k = (r, k') \<and> safe_step cf (pool k) k v k' v \<and> current k' = current k"
    using k' safe [OF st] shm_stepD(3) [OF st] by blast
  show "\<exists>r k'. sys_shmdt a k = Some (r, k') \<and> safe_step cf (pool k) k v k' v \<and> current k' = current k"
    by (rule shm_step_shmdt [OF d(3) cur, of a]) (use safe shm_stepD(3) in blast)
  show "\<exists>r k'. sys_shmrm i k = Some (r, k') \<and> safe_step cf (pool k) k v k' v \<and> current k' = current k"
    by (rule shm_step_shmrm [OF d(3) cur, of i]) (use safe shm_stepD(3) in blast)
qed

lemma sys_fork_ok:
  assumes ok: "kernel_ok k v cf" and me: "idle_task k \<noteq> Some (current k)"
  obtains r k' v' where "sys_fork k = Some (r, k')" and "safe_step cf (pool k) k v k' v'" and "current k' = current k"
proof -
  note d = kernel_okD [OF ok]
  consider "allocatable (frames k) = {}" | "allocatable (frames k) \<noteq> {}" "card (allocatable (frames k)) < 23"
    | "23 \<le> card (allocatable (frames k))" by linarith
  then show thesis
  proof cases
    case 1
    then have "sys_fork k = Some (- ENOMEM, k)"
      by (cases rule: fork_begin [OF ok]) (simp_all add: sys_fork_def)
    then show thesis using that safe_step_refl [OF ok] by blast
  next
    case 2
    obtain k' D where k': "sys_fork k = Some (- EAGAIN, k')" "kernel_ok k' v cf" "current k' = current k"
        "ram (mach k') = ram (mach k)" "frames_kept k k' v cf"
      by (rule fork_fails [OF ok me 2(2,1)], rule that)
    then have "all_tasks k' v = all_tasks k v" by (simp add: all_tasks_def frames_kept_def)
    then have "safe_step cf (pool k) k v k' v" using k' by (simp add: safe_step_def wrote_same)
    then show thesis by (rule that [OF k'(1) _ k'(3)])
  next
    case 3
    obtain c fs k' where k': "sys_fork k = Some (pidGlobal k + 1, k')" "kernel_ok k' (fork_queues k c v) cf"
        "current k' = current k" "child_memory k cf c fs k'" "frames_kept k k' v cf"
      by (rule fork_succeeds [OF ok me 3], rule that)
    have "set (ready v) \<union> set (blocked v) \<union> set (kbd_blocked v) \<subseteq> queued (fork_queues k c v)"
      by (auto simp: queued_def fork_queues_def)
    then have "all_tasks k v \<subseteq> all_tasks k' (fork_queues k c v)"
      using k'(3,5) by (auto simp: all_tasks_def queued_def frames_kept_def)
    moreover have "wrote (pool k) k k'"
      using k'(4) by (auto simp: child_memory_def Let_def wrote_def pool_def)
    ultimately show thesis using that [OF k'(1) _ k'(3)] k' by (simp add: safe_step_def)
  qed
qed

section \<open>Going back to user mode\<close>

lemma resume_current_ok:
  assumes ok: "kernel_ok k v cf" and f: "resume_fine k (current k)"
  obtains r k' where "resume_current k = Some (r, k')" and "current k' = current k"
    and "safe_step cf (kernel_image k \<union> image_frames k (current k)) k v k' v"
proof (cases "resume (tasks k (current k))")
  case (Sys_read b n)
  then have n: "idle_task k \<noteq> Some (current k)" "0 < n" "n \<le> 256" "user_range b n"
    using f by (simp_all add: resume_fine_def)
  obtain got k' where k': "serve_read b n k = Some (got, k')" "current k' = current k"
      "safe_step cf (kernel_image k \<union> image_frames k (current k)) k v k' v"
    by (rule serve_read_ok [OF ok n], rule that)
  have "resume_current k = Some (Some got, k')"
    using k'(1) Sys_read by (simp add: resume_current_def sys_read_resumed_def)
  then show thesis by (rule that [OF _ k'(2,3)])
next
  case Sys_exit
  then show thesis using f by (simp add: resume_fine_def)
qed (use that safe_step_refl [OF ok] in \<open>simp_all add: resume_current_def\<close>)

lemma image_frames_moved: "moved k k' \<Longrightarrow> image_frames k' p = image_frames k p"
  and kernel_image_moved: "moved k k' \<Longrightarrow> kernel_image k' = kernel_image k"
  by (simp_all add: image_frames_def kernel_image_def user_table_def movedD)

text \<open>A switch, and then the way out of the process switched to.\<close>

lemma switch_and_resume:
  assumes s: "safe_step cf F k v k1 v1" and m: "moved k k1" and f: "resume_fine k1 (current k1)"
    and F: "F \<subseteq> G" "kernel_image k \<subseteq> G" "image_frames k (current k1) \<subseteq> G"
  obtains r k' where "resume_current k1 = Some (r, k')" and "safe_step cf G k v k' v1" and "current k' = current k1"
proof -
  obtain r k' where k': "resume_current k1 = Some (r, k')" "current k' = current k1"
      "safe_step cf (kernel_image k1 \<union> image_frames k1 (current k1)) k1 v1 k' v1"
    by (rule resume_current_ok [OF safe_stepD(1) [OF s] f], rule that)
  have "safe_step cf (F \<union> (kernel_image k1 \<union> image_frames k1 (current k1))) k v k' v1"
    by (rule safe_step_trans [OF s k'(3)]) (simp add: k'(2) safe_stepD(6) [OF s])
  then have "safe_step cf G k v k' v1"
    by (rule safe_step_mono) (use F image_frames_moved [OF m] kernel_image_moved [OF m] in auto)
  then show thesis using that k'(1,2) by blast
qed

section \<open>Entries\<close>

text \<open>
  What is assumed of an entry. \<open>idle\<close> makes no system call; \<open>exit\<close> is excluded (it leaves the process in the
  lists of its parent), as is number 36, which the entry does not refuse; the buffer of a read or write that passes
  \<open>access_ok\<close> does not reach into the page behind the image; a key is in the table.
\<close>

fun event_ok :: "kernel \<Rightarrow> event \<Rightarrow> bool" where
  "event_ok k (Syscall n a b c) \<longleftrightarrow>
     idle_task k \<noteq> Some (current k) \<and> n \<noteq> 1 \<and> n \<noteq> 36 \<and>
     (n = 3 \<longrightarrow> buffer_fits VERIFY_WRITE a (sint b)) \<and> (n = 4 \<longrightarrow> buffer_fits VERIFY_READ b (sint c))"
| "event_ok k Tick \<longleftrightarrow> True"
| "event_ok k (Scancode s) \<longleftrightarrow> s AND 0x80 = 0 \<longrightarrow> unat (s AND 0x7F) < length char_map"

text \<open>The frames an entry may write when the process \<open>p\<close> runs after it.\<close>

definition may_write :: "kernel \<Rightarrow> nat \<Rightarrow> nat set" where
  "may_write k p = pool k \<union> kernel_image k \<union> image_frames k p"

lemma call_cases:
  assumes "i < length sys_call_table" and "i \<noteq> 1"
  shows "sys_call_table ! i = Call_ni \<or> sys_call_table ! i \<in> {Call_fork, Call_gettime, Call_getpid, Call_block, Call_unblock,
      Call_gotoxy, Call_set_color, Call_shmat, Call_shmdt, Call_shmrm, Call_get_stats} \<or>
      i = 3 \<and> sys_call_table ! i = Call_read \<or> i = 4 \<and> sys_call_table ! i = Call_write"
proof -
  have "\<forall>i\<in>set [0..<length sys_call_table]. i \<noteq> 1 \<longrightarrow> (sys_call_table ! i = Call_ni \<or> sys_call_table ! i \<in> {Call_fork, Call_gettime, Call_getpid, Call_block, Call_unblock,
      Call_gotoxy, Call_set_color, Call_shmat, Call_shmdt, Call_shmrm, Call_get_stats} \<or>
      i = 3 \<and> sys_call_table ! i = Call_read \<or> i = 4 \<and> sys_call_table ! i = Call_write)"
    by (simp add: sys_call_table_def upt_rec_numeral)
  then show ?thesis using assms by simp
qed

lemma call_routine_ok:
  assumes ok: "kernel_ok k v cf" and me: "idle_task k \<noteq> Some (current k)" and r: "r \<noteq> Call_exit"
    and rd: "r = Call_read \<Longrightarrow> buffer_fits VERIFY_WRITE a (sint b)"
    and wr: "r = Call_write \<Longrightarrow> buffer_fits VERIFY_READ b (sint c)"
  obtains out k' v' where "call_routine r a b c k = Some (out, k')" and "safe_step cf (may_write k (current k')) k v k' v'"
    and "out \<noteq> Switched \<Longrightarrow> current k' = current k" and "out = Switched \<Longrightarrow> moved k k' \<and> resume_fine k' (current k')"
proof -
  note result = that
  have done1: thesis if "call_routine r a b c k = Some (Return x, k')" "safe_step cf F k v k' v'" "current k' = current k"
      "F \<subseteq> may_write k (current k)" for x k' v' F
    by (rule result [OF that(1)]) (use safe_step_mono [OF that(2)] that(3,4) in simp_all)
  have scr: thesis if "call_routine r a b c k = Some (Return x, k\<lparr>scr := s\<rparr>)" "screen_ok s" for x s
    by (rule done1 [OF that(1) screen_call_ok [OF ok that(2)]]) simp_all
  have same: thesis if "call_routine r a b c k = Some (Return x, k)" for x
    by (rule done1 [OF that safe_step_refl [OF ok, where F = "{}"]]) simp_all
  have pool: "pool k \<subseteq> may_write k p" "kernel_image k \<subseteq> may_write k p" "{} \<subseteq> may_write k p"
      "kernel_image k \<union> image_frames k p \<subseteq> may_write k p" for p
    by (auto simp: may_write_def)
  note sh = shared_calls_ok [OF ok me]
  note so = kernel_okD(9) [OF ok]
  show thesis
  proof (cases r)
    case Call_fork
    obtain x k' v' where k': "sys_fork k = Some (x, k')" "safe_step cf (pool k) k v k' v'" "current k' = current k"
      by (rule sys_fork_ok [OF ok me], rule that)
    show thesis by (rule done1 [OF _ k'(2,3) pool(1)]) (simp add: Call_fork k'(1))
  next
    case Call_read
    obtain x k' v' where k': "sys_read a (sint b) k = Some (x, k')"
        "safe_step cf (kernel_image k \<union> image_frames k (current k')) k v k' v'"
        "x \<noteq> Switched \<Longrightarrow> current k' = current k" "x = Switched \<Longrightarrow> moved k k' \<and> resume_fine k' (current k')"
      by (rule sys_read_ok [OF ok me rd [OF Call_read]], rule that)
    show thesis
      by (rule result [of x k' v']) (use Call_read k' safe_step_mono [OF k'(2) pool(4)] in simp_all)
  next
    case Call_write
    obtain x k' where k': "sys_write (sint a) b (sint c) k = Some (x, k')" "safe_step cf (kernel_image k) k v k' v"
        "current k' = current k"
      by (rule sys_write_ok [OF ok me wr [OF Call_write]], rule that)
    show thesis by (rule done1 [OF _ k'(2,3) pool(2)]) (simp add: Call_write k'(1))
  next
    case Call_block
    obtain x k' v' where k': "sys_block k = Some (x, k')" "safe_step cf {} k v k' v'"
        "x \<noteq> Switched \<Longrightarrow> current k' = current k" "x = Switched \<Longrightarrow> moved k k' \<and> resume_fine k' (current k')"
      by (rule sys_block_ok [OF ok me], rule that)
    show thesis
      by (rule result [of x k' v']) (use Call_block k' safe_step_mono [OF k'(2) pool(3)] in simp_all)
  next
    case Call_unblock
    obtain x k' v' where k': "sys_unblock (sint a) k = Some (x, k')" "safe_step cf {} k v k' v'" "current k' = current k"
      by (rule sys_unblock_ok [OF ok], rule that)
    show thesis by (rule done1 [OF _ k'(2,3) pool(3)]) (simp add: Call_unblock k'(1))
  next
    case Call_gotoxy
    have "screen_ok (snd (sys_gotoxy (sint a) (sint b) (scr k)))"
      using console_exec_ok(1) [OF so, of "GotoXY (sint a) (sint b)"] by simp
    then show thesis using scr by (simp add: Call_gotoxy case_prod_beta)
  next
    case Call_set_color
    have "screen_ok (snd (sys_set_color (sint a) (sint b) (scr k)))"
      using console_exec_ok(1) [OF so, of "SetColor (sint a) (sint b)"] by simp
    then show thesis using scr by (simp add: Call_set_color case_prod_beta)
  next
    case Call_shmat
    then show thesis using sh(1) [of "sint a" b] done1 [OF _ _ _ pool(1)] by auto
  next
    case Call_shmdt
    then show thesis using sh(2) [of a] done1 [OF _ _ _ pool(1)] by auto
  next
    case Call_shmrm
    then show thesis using sh(3) [of "sint a"] done1 [OF _ _ _ pool(1)] by auto
  qed (use r same in simp_all)
qed

lemma syscall_step_ok:
  assumes ok: "kernel_ok k v cf" and ev: "event_ok k (Syscall n a b c)"
  obtains r k' v' where "kernel_step clk (Syscall n a b c) k = Some (r, k')"
    and "safe_step cf (may_write k (current k')) k v k' v'"
proof -
  have me: "idle_task k \<noteq> Some (current k)" and n: "n \<noteq> 1" "n \<noteq> 36"
    and rw: "n = 3 \<Longrightarrow> buffer_fits VERIFY_WRITE a (sint b)" "n = 4 \<Longrightarrow> buffer_fits VERIFY_READ b (sint c)"
    using ev by auto
  show thesis
  proof (cases "sint n < 0 \<or> sint n > MAX_SYSCALL")
    case True
    then have "system_call_handler n a b c k = Some (Return (- ENOSYS), k)" by (auto simp: system_call_handler_def)
    then show thesis using that [of "Some (- ENOSYS)" k v] safe_step_refl [OF ok] by simp
  next
    case False
    have "uint n = sint n mod 2 ^ 32" using uint_word_of_int [of "sint n", where 'a = 32] by simp
    then have u: "int (unat n) = sint n" using False by simp
    have "unat n \<noteq> 36" using n(2) by (auto simp: word_unat_eq_iff)
    then have "unat n < 36" using u False by linarith
    moreover have "length sys_call_table = 36" by (simp add: sys_call_table_def)
    ultimately have i: "unat n < length sys_call_table" by simp
    have "unat n \<noteq> 1" using n(1) by (simp add: word_unat_eq_iff)
    note cc = call_cases [OF i this]
    let ?r = "sys_call_table ! unat n"
    have h: "system_call_handler n a b c k = call_routine ?r a b c k"
      using False i by (simp add: system_call_handler_def)
    obtain out k1 v1 where k1: "call_routine ?r a b c k = Some (out, k1)"
        "safe_step cf (may_write k (current k1)) k v k1 v1"
        "out \<noteq> Switched \<Longrightarrow> current k1 = current k" "out = Switched \<Longrightarrow> moved k k1 \<and> resume_fine k1 (current k1)"
    proof (rule call_routine_ok [OF ok me, of ?r a b c])
      show "?r \<noteq> Call_exit" using cc by auto
      show "buffer_fits VERIFY_WRITE a (sint b)" if "?r = Call_read"
        using cc that by (intro rw(1)) (auto simp: word_unat_eq_iff)
      show "buffer_fits VERIFY_READ b (sint c)" if "?r = Call_write"
        using cc that by (intro rw(2)) (auto simp: word_unat_eq_iff)
    qed (rule that)
    show thesis
    proof (cases out)
      case (Return x)
      then show thesis using that [OF _ k1(2)] h k1(1) by simp
    next
      case Switched
      have sub: "{} \<subseteq> may_write k (current k1)" "kernel_image k \<subseteq> may_write k (current k1)"
          "image_frames k (current k1) \<subseteq> may_write k (current k1)" by (auto simp: may_write_def)
      obtain r k' where k': "resume_current k1 = Some (r, k')" "safe_step cf (may_write k (current k1)) k v k' v1"
          "current k' = current k1"
        by (rule switch_and_resume [OF k1(2) _ _ subset_refl sub(2,3)]) (use k1(4) Switched that in auto)
      show thesis by (rule that [of r k' v1]) (use h k1(1) k' Switched in simp_all)
    qed
  qed
qed

lemma tick_step_ok:
  assumes ok: "kernel_ok k v cf" and clk: "\<And>t s. screen_ok s \<Longrightarrow> screen_ok (clk t s)"
  obtains r k' v' where "kernel_step clk Tick k = Some (r, k')" and "safe_step cf (may_write k (current k')) k v k' v'"
proof -
  note d = kernel_okD [OF ok]
  define s where "s = (if (zeos_ticks k + 1) mod 18 = 0 then clk (zeos_ticks k + 1) (scr k) else scr k)"
  let ?k = "k\<lparr>scr := s, zeos_ticks := zeos_ticks k + 1\<rparr>"
  have e: "?k = k\<lparr>zeos_ticks := zeos_ticks k + 1, scr := s\<rparr>" by simp
  have c: "clock_routine clk k = schedule ?k"
    unfolding e by (simp add: clock_routine_def Let_def s_def)
  have so: "screen_ok s" using d(9) clk by (simp add: s_def)
  have a: "safe_step cf {} k v ?k v"
    using safe_step_data [OF ok d(8) so, where r = "ram (mach k)" and z = "zeos_ticks k + 1" and F = "{}"] by simp
  have all: "all_tasks ?k v = all_tasks k v" by (simp add: all_tasks_def)
  obtain k1 v1 where k1: "schedule ?k = Some k1" "safe_step cf {} ?k v k1 v1" "moved ?k k1"
      "current k1 \<noteq> current ?k \<Longrightarrow> resume_fine k1 (current k1)"
    by (rule schedule_ok [OF safe_stepD(1) [OF a]], rule that)
  have b: "safe_step cf {} k v k1 v1"
    using safe_step_trans [OF a k1(2)] safe_stepD(6) [OF k1(2)] by (simp add: all)
  show thesis
  proof (cases "current k1 = current k")
    case True
    then show thesis using that [of None k1 v1] safe_step_mono [OF b] c k1(1) by simp
  next
    case False
    have f: "resume_fine k1 (current k1)" using k1(4) False by simp
    have i: "kernel_image ?k = kernel_image k" "image_frames ?k p = image_frames k p" "pool ?k = pool k" for p
      by (simp_all add: kernel_image_def image_frames_def user_table_def get_DIR_def pool_def)
    obtain r k' where k': "resume_current k1 = Some (r, k')" "safe_step cf (may_write ?k (current k1)) ?k v k' v1"
        "current k' = current k1"
      by (rule switch_and_resume [OF k1(2,3) f, of "may_write ?k (current k1)"]) (auto simp: may_write_def intro: that)
    have "safe_step cf (may_write k (current k1)) k v k' v1"
      using safe_step_trans [OF a k'(2)] k'(3) safe_stepD(6) [OF b] by (simp add: may_write_def i)
    then show thesis using that [of r k' v1] c k1(1) k'(1,3) False by simp
  qed
qed

lemma scancode_step_ok:
  assumes ok: "kernel_ok k v cf" and ev: "event_ok k (Scancode s)"
  obtains k' v' where "kernel_step clk (Scancode s) k = Some (None, k')" and "safe_step cf {} k v k' v'"
    and "current k' = current k"
proof (cases "s AND 0x80 = 0 \<and> char_map ! unat (s AND 0x7F) \<noteq> 0")
  case True
  obtain k' v' where k': "kbd_buf_write (char_map ! unat (s AND 0x7F)) k = Some k'" "safe_step cf {} k v k' v'"
      "current k' = current k"
    by (rule kbd_buf_write_ok [OF ok], rule that)
  have "keyboard_routine s k = Some k'"
    using True ev k'(1) by (simp add: keyboard_routine_def Let_def)
  then show thesis using that [OF _ k'(2,3)] by simp
next
  case False
  then have "keyboard_routine s k = Some k" using ev by (auto simp: keyboard_routine_def Let_def)
  then show thesis using that [OF _ safe_step_refl [OF ok]] by simp
qed

lemma kernel_step_ok:
  assumes ok: "kernel_ok k v cf" and ev: "event_ok k e" and clk: "\<And>t s. screen_ok s \<Longrightarrow> screen_ok (clk t s)"
  obtains r k' v' where "kernel_step clk e k = Some (r, k')" and "safe_step cf (may_write k (current k')) k v k' v'"
proof (cases e)
  case (Syscall n a b c)
  obtain r k' v' where k': "kernel_step clk (Syscall n a b c) k = Some (r, k')"
      "safe_step cf (may_write k (current k')) k v k' v'"
    by (rule syscall_step_ok [OF ok ev [unfolded Syscall]], rule that)
  then show thesis using that unfolding Syscall by blast
next
  case Tick
  obtain r k' v' where k': "kernel_step clk Tick k = Some (r, k')" "safe_step cf (may_write k (current k')) k v k' v'"
    by (rule tick_step_ok [OF ok], erule clk, rule that)
  then show thesis using that unfolding Tick by blast
next
  case (Scancode s)
  obtain k' v' where k': "kernel_step clk (Scancode s) k = Some (None, k')" "safe_step cf {} k v k' v'"
    by (rule scancode_step_ok [OF ok ev [unfolded Scancode]], rule that)
  show thesis by (rule that) (use k'(1) Scancode safe_step_mono [OF k'(2)] in simp_all)
qed

section \<open>Reachable states\<close>

text \<open>The states after any sequence of entries that satisfy the assumptions.\<close>

inductive reaches :: "(int \<Rightarrow> screen \<Rightarrow> screen) \<Rightarrow> kernel \<Rightarrow> kernel \<Rightarrow> bool" for clk where
  start: "reaches clk k k"
| enter: "reaches clk k k' \<Longrightarrow> event_ok k' e \<Longrightarrow> kernel_step clk e k' = Some (r, k'') \<Longrightarrow> reaches clk k k''"

inductive_cases reaches_enter: "reaches clk k k'"


lemma safe_step_image:
  assumes ok: "kernel_ok k v cf" and s: "safe_step cf (may_write k (current k')) k v k' v'"
    and p: "p \<in> all_tasks k v" "idle_task k \<noteq> Some p" "p \<noteq> current k'"
    and a: "0x800000 \<le> a" "a < 0x814000"
  shows "image_byte k' p a = image_byte k p a"
proof -
  note d = kernel_okD [OF ok] and sd = safe_stepD [OF s]
  note md = mem_okD [OF d(3)]
  have pi: "p \<noteq> the (idle_task k)" using p(2) sched_ok_idle [OF d(1)] by auto
  let ?j = "a div 4096 - 2048"
  have j: "?j < 20" "?j < 28" using a by simp_all
  let ?u = "Use_data p ?j"
  have u: "in_use (all_tasks k v) (the (idle_task k)) ?u" using p(1) pi j by simp
  have "frame_of k' cf ?u = frame_of k cf ?u" using sd(4) u unfolding frames_kept_def by blast
  then have place: "user_place k' p a = user_place k p a" by (simp add: user_place_def)
  have f: "user_place k p a div 4096 = frame_of k cf ?u" by (simp add: user_place_def)
  have "frame_of k cf ?u \<notin> image_frames k (current k')"
  proof
    assume "frame_of k cf ?u \<in> image_frames k (current k')"
    then have "idle_task k \<noteq> Some (current k') \<and>
        frame_of k cf ?u \<in> get_frame (table k (user_table k (current k'))) ` {..<28}"
      unfolding image_frames_def by (simp split: if_splits)
    then obtain l where l: "l < 28" "frame_of k cf ?u = get_frame (table k (user_table k (current k'))) l"
        and ni: "idle_task k \<noteq> Some (current k')"
      by blast
    have "current k' \<noteq> the (idle_task k)" using ni sched_ok_idle [OF d(1)] by metis
    note q = image_frame [OF d(3) sd(6) this l(1)]
    have "?u = (if l < 20 then Use_data (current k') l else Use_code (l - 20))"
      by (rule frames_apartD(1) [OF md(8) u q(1)]) (use q(2) l(2) in simp)
    then show False using p(3) by (auto split: if_splits)
  qed
  moreover have "frame_of k cf ?u \<notin> pool k" by (rule pool_apart(1) [OF md(8) u])
  moreover have "frame_of k cf ?u \<notin> kernel_image k"
    using frames_apartD(5) [OF md(8) u] by (simp add: kernel_image_def)
  ultimately have "user_place k p a div 4096 \<notin> may_write k (current k')" unfolding f by (simp add: may_write_def)
  then have "ram (mach k') (user_place k p a) = ram (mach k) (user_place k p a)"
    using sd(5) unfolding wrote_def by blast
  then show ?thesis by (simp add: image_byte_def place)
qed

section \<open>Properties\<close>


lemma demo_block_reached: "\<exists>r k'. kernel_step (\<lambda>t s. s) (Syscall 21 0 0 0) demo_kernel = Some (r, k') \<and> current k' = 302"
proof -
  obtain k' where k': "sys_block demo_kernel = Some (Switched, k')" "current k' = 302"
      "tasks k' = (tasks demo_kernel)(301 := (tasks demo_kernel 301)\<lparr>resume := Sys_block\<rparr>)"
    using sys_block_blocks [OF demo_sched_ok demo_family_ok] by (auto simp: demo_task_def next_process_def demo_queues_def)
  have "system_call_handler 21 0 0 0 demo_kernel = sys_block demo_kernel"
    by (simp add: system_call_handler_def sys_call_table_def)
  then show ?thesis using k' by (simp add: resume_current_def demo_task_def)
qed




text \<open>
  C6. Isolation: an entry changes no byte of the data and stack of a process other than the one it returns to, whatever
  the event and whoever caused it. The data of a process changes only by its own code, and by its own \<open>read\<close>.
\<close>

theorem processes_are_isolated:
  assumes "kernel_ok k v cf" and "event_ok k e" and "\<And>t s. screen_ok s \<Longrightarrow> screen_ok (clk t s)"
    and "kernel_step clk e k = Some (r, k')"
    and "p \<in> all_tasks k v" and "idle_task k \<noteq> Some p" and "p \<noteq> current k'"
    and "0x800000 \<le> a" and "a < 0x814000"
  shows "image_byte k' p a = image_byte k p a"
proof -
  obtain r' l v' where l: "kernel_step clk e k = Some (r', l)" "safe_step cf (may_write k (current l)) k v l v'"
    by (rule kernel_step_ok [OF assms(1-3)])
  then have "l = k'" using assms(4) by simp
  then show ?thesis using safe_step_image [OF assms(1)] l(2) assms(5-9) by blast
qed

theorem processes_are_isolated_witness:
  "\<exists>r k'. kernel_step (\<lambda>t s. s) (Syscall 21 0 0 0) demo_kernel = Some (r, k') \<and>
     image_byte k' 304 0x801000 = image_byte demo_kernel 304 0x801000"
proof -
  obtain r k' where k': "kernel_step (\<lambda>t s. s) (Syscall 21 0 0 0) demo_kernel = Some (r, k')" "current k' = 302"
    using demo_block_reached by blast
  have "image_byte k' 304 0x801000 = image_byte demo_kernel 304 0x801000"
    by (rule processes_are_isolated [OF demo_kernel_ok _ _ k'(1)]) (use k'(2) in \<open>simp_all add: demo_all_tasks\<close>)
  then show ?thesis using k'(1) by blast
qed

end
