(* ===== verification/User_Calls.thy ===== *)
theory User_Calls
  imports Text Machine
begin

text \<open>
  The user library: the system call stubs of \<open>Wrappers.S\<close>, \<open>perror\<close> of \<open>libc.c\<close>, and the way the user programs reach
  memory. A program runs in an environment \<open>'w user_env\<close>: one system call (\<open>sysenter\<close>: the number and the three argument
  registers, the answer and the state after it), one byte of memory read or written, and the addresses the linker and the
  compiler have given to string constants (\<open>lit\<close>) and to variables (\<open>addr\<close>). The state \<open>'w\<close> stands for everything outside
  the code: the memory of the process and the rest of the system. An operation whose result is \<open>None\<close> does not come back:
  the process has faulted or waits for ever.
\<close>

section \<open>The environment of a program\<close>

text \<open>The variables that are reached through their address, and the function whose address is printed.\<close>

datatype symbol =
    V_buf | V_num | V_errno | F_test_m3_addresses | V_local_var | V_stress_buf | V_c | V_vbuf | V_hbuf | V_hbuf2
  | V_vbuf2 | V_fvbuf | V_f2buf | V_h1buf | V_h2buf | V_f3buf | V_perror_buffer

record 'w user_env =
  sysenter :: "dword \<Rightarrow> dword \<Rightarrow> dword \<Rightarrow> dword \<Rightarrow> 'w \<Rightarrow> (int \<times> 'w) option"
  load8 :: "dword \<Rightarrow> 'w \<Rightarrow> byte option"
  store8 :: "dword \<Rightarrow> byte \<Rightarrow> 'w \<Rightarrow> 'w option"
  lit :: "string \<Rightarrow> dword"
  addr :: "symbol \<Rightarrow> dword"

definition load32 :: "'w user_env \<Rightarrow> dword \<Rightarrow> 'w \<Rightarrow> dword option" where
  "load32 U a w = do {
     b0 \<leftarrow> load8 U a w;
     b1 \<leftarrow> load8 U (a + 1) w;
     b2 \<leftarrow> load8 U (a + 2) w;
     b3 \<leftarrow> load8 U (a + 3) w;
     Some (dword_of_bytes b0 b1 b2 b3) }"

fun store_bytes :: "'w user_env \<Rightarrow> dword \<Rightarrow> byte list \<Rightarrow> 'w \<Rightarrow> 'w option" where
  "store_bytes U a [] w = Some w"
| "store_bytes U a (b # bs) w = do {
     w \<leftarrow> store8 U a b w;
     store_bytes U (a + 1) bs w }"

definition store32 :: "'w user_env \<Rightarrow> dword \<Rightarrow> dword \<Rightarrow> 'w \<Rightarrow> 'w option" where
  "store32 U a v w = store_bytes U a (map (\<lambda>i. byte_of_dword i v) [0, 1, 2, 3]) w"

section \<open>The stubs\<close>

text \<open>
  All stubs end alike: a negative answer is an error, whose number is stored in \<open>errno\<close>. The arguments are passed in
  \<open>edx\<close>, \<open>ecx\<close> and \<open>ebx\<close>, in this order; a register that a stub does not load is 0 here, and the call does not look at it.
\<close>

definition stub :: "'w user_env \<Rightarrow> dword \<Rightarrow> dword \<Rightarrow> dword \<Rightarrow> dword \<Rightarrow> 'w \<Rightarrow> (int \<times> 'w) option" where
  "stub U eax edx ecx ebx w = do {
     (r, w) \<leftarrow> sysenter U eax edx ecx ebx w;
     if r \<ge> 0 then Some (r, w)
     else do {
       w \<leftarrow> store32 U (addr U V_errno) (of_int (- r)) w;
       Some (- 1, w) } }"

definition u_write :: "'w user_env \<Rightarrow> int \<Rightarrow> dword \<Rightarrow> int \<Rightarrow> 'w \<Rightarrow> (int \<times> 'w) option" where
  "u_write U fd buffer n w = stub U 4 (of_int fd) buffer (of_int n) w"

definition u_gettime :: "'w user_env \<Rightarrow> 'w \<Rightarrow> (int \<times> 'w) option" where
  "u_gettime U w = stub U 10 0 0 0 w"

definition u_getpid :: "'w user_env \<Rightarrow> 'w \<Rightarrow> (int \<times> 'w) option" where
  "u_getpid U w = stub U 20 0 0 0 w"

definition u_fork :: "'w user_env \<Rightarrow> 'w \<Rightarrow> (int \<times> 'w) option" where
  "u_fork U w = stub U 2 0 0 0 w"

text \<open>\<open>exit\<close> looks at no answer; its state is that of the system without the process.\<close>

definition u_exit :: "'w user_env \<Rightarrow> 'w \<Rightarrow> 'w option" where
  "u_exit U w = do {
     (_, w) \<leftarrow> sysenter U 1 0 0 0 w;
     Some w }"

definition u_block :: "'w user_env \<Rightarrow> 'w \<Rightarrow> (int \<times> 'w) option" where
  "u_block U w = stub U 21 0 0 0 w"

definition u_unblock :: "'w user_env \<Rightarrow> int \<Rightarrow> 'w \<Rightarrow> (int \<times> 'w) option" where
  "u_unblock U pid w = stub U 22 (of_int pid) 0 0 w"

definition u_read :: "'w user_env \<Rightarrow> dword \<Rightarrow> int \<Rightarrow> 'w \<Rightarrow> (int \<times> 'w) option" where
  "u_read U b maxchars w = stub U 3 b (of_int maxchars) 0 w"

definition u_get_stats :: "'w user_env \<Rightarrow> int \<Rightarrow> 'w \<Rightarrow> (int \<times> 'w) option" where
  "u_get_stats U type w = stub U 35 (of_int type) 0 0 w"

definition u_gotoxy :: "'w user_env \<Rightarrow> int \<Rightarrow> int \<Rightarrow> 'w \<Rightarrow> (int \<times> 'w) option" where
  "u_gotoxy U x y w = stub U 23 (of_int x) (of_int y) 0 w"

definition u_set_color :: "'w user_env \<Rightarrow> int \<Rightarrow> int \<Rightarrow> 'w \<Rightarrow> (int \<times> 'w) option" where
  "u_set_color U fg bg w = stub U 24 (of_int fg) (of_int bg) 0 w"

text \<open>The answer of \<open>shmat\<close> is an address.\<close>

definition u_shmat :: "'w user_env \<Rightarrow> int \<Rightarrow> dword \<Rightarrow> 'w \<Rightarrow> (dword \<times> 'w) option" where
  "u_shmat U i a w = do {
     (r, w) \<leftarrow> stub U 25 (of_int i) a 0 w;
     Some (of_int r, w) }"

definition u_shmdt :: "'w user_env \<Rightarrow> dword \<Rightarrow> 'w \<Rightarrow> (int \<times> 'w) option" where
  "u_shmdt U a w = stub U 26 a 0 0 w"

definition u_shmrm :: "'w user_env \<Rightarrow> int \<Rightarrow> 'w \<Rightarrow> (int \<times> 'w) option" where
  "u_shmrm U i w = stub U 27 (of_int i) 0 0 w"

section \<open>The library on the memory of the process\<close>

text \<open>\<open>write(1, s, n)\<close> of a string constant; its result is not used.\<close>

definition say :: "'w user_env \<Rightarrow> string \<Rightarrow> int \<Rightarrow> 'w \<Rightarrow> 'w option" where
  "say U s n w = do {
     (_, w) \<leftarrow> u_write U 1 (lit U s) n w;
     Some w }"

text \<open>
  \<open>itoa\<close> and \<open>itoa_hex\<close> into the memory at \<open>p\<close>: the string that \<open>itoa\<close> leaves in its buffer, up to its terminator.
\<close>

definition put_string :: "'w user_env \<Rightarrow> dword \<Rightarrow> buffer \<Rightarrow> 'w \<Rightarrow> 'w option" where
  "put_string U p b w = do {
     n \<leftarrow> strlen b;
     store_bytes U p (map b [0..<Suc n]) w }"

partial_function (option) strlen_from :: "'w user_env \<Rightarrow> dword \<Rightarrow> int \<Rightarrow> 'w \<Rightarrow> int option" where
  "strlen_from U a i w = do {
     c \<leftarrow> load8 U (a + of_int i) w;
     if c \<noteq> 0 then strlen_from U a (i + 1) w else Some i }"

definition strlen_at :: "'w user_env \<Rightarrow> dword \<Rightarrow> 'w \<Rightarrow> int option" where
  "strlen_at U a w = strlen_from U a 0 w"

text \<open>\<open>write(1, b, strlen(b))\<close>, and the number printed before it.\<close>

definition say_string :: "'w user_env \<Rightarrow> dword \<Rightarrow> 'w \<Rightarrow> 'w option" where
  "say_string U p w = do {
     n \<leftarrow> strlen_at U p w;
     (_, w) \<leftarrow> u_write U 1 p n w;
     Some w }"

definition say_int :: "'w user_env \<Rightarrow> int \<Rightarrow> dword \<Rightarrow> 'w \<Rightarrow> 'w option" where
  "say_int U a p w = do {
     w \<leftarrow> put_string U p (itoa a (\<lambda>_. 0)) w;
     say_string U p w }"

definition say_hex :: "'w user_env \<Rightarrow> dword \<Rightarrow> dword \<Rightarrow> 'w \<Rightarrow> 'w option" where
  "say_hex U a p w = do {
     w \<leftarrow> put_string U p (itoa_hex a (\<lambda>_. 0)) w;
     say_string U p w }"

text \<open>The two bytes of the accented letter of the last message are those of its source text.\<close>

definition perror :: "'w user_env \<Rightarrow> 'w \<Rightarrow> 'w option" where
  "perror U w = do {
     e \<leftarrow> load32 U (addr U V_errno) w;
     if e = 14 then say U ''Bad address\<newline>'' 13 w
     else if e = 22 then say U ''Invalid argument\<newline>'' 15 w
     else if e = 12 then say U ''Out of memory\<newline>'' 15 w
     else if e = 11 then say U ''Try again\<newline>'' 15 w
     else do {
       w \<leftarrow> put_string U (addr U V_perror_buffer) (itoa (sint e) (\<lambda>_. 0)) w;
       w \<leftarrow> say U (''C'' @ [CHR 0xC3, CHR 0xB3] @ ''digo de error: '') 19 w;
       w \<leftarrow> say_string U (addr U V_perror_buffer) w;
       say U ''\<newline>'' 1 w } }"

end
