(* ===== verification/User_Programs.thy ===== *)
theory User_Programs
  imports User_Calls
begin

text \<open>
  The programs of \<open>user.c\<close>: the seven tests and the menu. A test ends by returning to the menu or, in a process that it has
  forked, by \<open>exit\<close>. Variables whose address the code takes live in memory; the others are bound by the program text.
\<close>

datatype 'w flow = Next 'w | Back 'w | Exit 'w

text \<open>What follows a part of a test is run if the part neither returns nor exits.\<close>

fun and_then :: "'w flow \<Rightarrow> ('w \<Rightarrow> 'w flow option) \<Rightarrow> 'w flow option" where
  "and_then (Next w) f = f w"
| "and_then (Back w) f = Some (Back w)"
| "and_then (Exit w) f = Some (Exit w)"

definition exit_here :: "'w user_env \<Rightarrow> 'w \<Rightarrow> 'w flow option" where
  "exit_here U w = do {
     w \<leftarrow> u_exit U w;
     Some (Exit w) }"

text \<open>\<open>while ((gettime() - t) < n);\<close>\<close>

partial_function (option) wait_ticks :: "'w user_env \<Rightarrow> int \<Rightarrow> int \<Rightarrow> 'w \<Rightarrow> 'w option" where
  "wait_ticks U t n w = do {
     (now, w) \<leftarrow> u_gettime U w;
     if now - t < n then wait_ticks U t n w else Some w }"

text \<open>\<open>int t = gettime(); while ((gettime() - t) < n);\<close>\<close>

definition pause :: "'w user_env \<Rightarrow> int \<Rightarrow> 'w \<Rightarrow> 'w option" where
  "pause U n w = do {
     (t, w) \<leftarrow> u_gettime U w;
     wait_ticks U t n w }"

section \<open>Addresses, memory and reading\<close>

definition test_m3_addresses :: "'w user_env \<Rightarrow> 'w \<Rightarrow> 'w flow option" where
  "test_m3_addresses U w = do {
     w \<leftarrow> say U ''\<newline>--- M3 Address Verification ---\<newline>'' 33 w;
     w \<leftarrow> say U ''L_USER_START expected at 0x800000 (8MB)\<newline>'' 40 w;
     w \<leftarrow> say U ''Local var (Stack) addr: 0x'' 26 w;
     w \<leftarrow> say_hex U (addr U V_local_var) (addr U V_num) w;
     w \<leftarrow> say U ''\<newline>Global var (Data) addr: 0x'' 27 w;
     w \<leftarrow> say_hex U (addr U V_buf) (addr U V_num) w;
     w \<leftarrow> say U ''\<newline>Code addr (test_m3):    0x'' 27 w;
     w \<leftarrow> say_hex U (addr U F_test_m3_addresses) (addr U V_num) w;
     w \<leftarrow> say U ''\<newline>'' 1 w;
     Some (Next w) }"

text \<open>
  The loop of the stress test. It ends in a child, when \<open>fork\<close> fails, or when the array is full; \<open>count\<close> is the length of
  the list of the process numbers stored so far.
\<close>

datatype 'w forks = Stored "int list" 'w | In_child "'w flow"

function fork_all :: "'w user_env \<Rightarrow> int list \<Rightarrow> 'w \<Rightarrow> 'w forks option" where
  "fork_all U pids w =
     (if length pids < 128 then do {
        (pid, w) \<leftarrow> u_fork U w;
        if pid = 0 then do {
          (_, w) \<leftarrow> u_block U w;
          r \<leftarrow> exit_here U w;
          Some (In_child r) }
        else if pid < 0 then do {
          w \<leftarrow> say U ''\<newline>Memory FULL! Alive children: '' 30 w;
          w \<leftarrow> say_int U (int (length pids)) (addr U V_stress_buf) w;
          w \<leftarrow> say U ''\<newline>'' 1 w;
          Some (Stored pids w) }
        else do {
          let pids = pids @ [pid];
          w \<leftarrow> (if length pids mod 10 = 0 then do {
                 w \<leftarrow> say_int U (int (length pids)) (addr U V_stress_buf) w;
                 say U '' '' 1 w }
               else Some w);
          fork_all U pids w } }
      else Some (Stored pids w))"
  by pat_completeness auto
termination
  by (relation "measure (\<lambda>(U, pids, w). 128 - length pids)") auto

declare fork_all.simps [simp del]

fun unblock_all :: "'w user_env \<Rightarrow> int list \<Rightarrow> 'w \<Rightarrow> 'w option" where
  "unblock_all U [] w = Some w"
| "unblock_all U (pid # pids) w = do {
     (_, w) \<leftarrow> u_unblock U pid w;
     unblock_all U pids w }"

definition test_m3_stress :: "'w user_env \<Rightarrow> 'w \<Rightarrow> 'w flow option" where
  "test_m3_stress U w = do {
     w \<leftarrow> say U ''\<newline>--- M3 Stress Test (Block/Unblock) ---\<newline>'' 40 w;
     w \<leftarrow> say U ''Allocating all 8MB of RAM...\<newline>'' 29 w;
     r \<leftarrow> fork_all U [] w;
     (case r of
        In_child f \<Rightarrow> Some f
      | Stored pids w \<Rightarrow> do {
          w \<leftarrow> say U ''Cleaning up memory (unblocking all)...\<newline>'' 39 w;
          w \<leftarrow> unblock_all U pids w;
          w \<leftarrow> say U ''Done. Memory is free again.\<newline>'' 28 w;
          Some (Next w) }) }"

text \<open>\<open>write(1, s, ..); write(1, buf, n); write(1, "]\n", 2); exit();\<close>\<close>

definition child_got :: "'w user_env \<Rightarrow> string \<Rightarrow> int \<Rightarrow> int \<Rightarrow> 'w \<Rightarrow> 'w flow option" where
  "child_got U s l n w = do {
     w \<leftarrow> say U s l w;
     (_, w) \<leftarrow> u_write U 1 (addr U V_buf) n w;
     w \<leftarrow> say U '']\<newline>'' 2 w;
     exit_here U w }"

definition test_read_simple :: "'w user_env \<Rightarrow> 'w \<Rightarrow> 'w flow option" where
  "test_read_simple U w = do {
     w \<leftarrow> say U ''\<newline>--- Simple Read Test ---\<newline>'' 26 w;
     (pid, w) \<leftarrow> u_fork U w;
     if pid = 0 then do {
       w \<leftarrow> say U ''Child waiting for 5 chars...\<newline>'' 29 w;
       (n, w) \<leftarrow> u_read U (addr U V_buf) 5 w;
       child_got U ''Child got: ['' 12 n w }
     else do {
       (_, w) \<leftarrow> u_read U (addr U V_buf) 1 w;
       Some (Next w) } }"

definition test_read_multiprocess :: "'w user_env \<Rightarrow> 'w \<Rightarrow> 'w flow option" where
  "test_read_multiprocess U w = do {
     w \<leftarrow> say U ''\<newline>--- Multiprocess Read Test ---\<newline>'' 32 w;
     (pid1, w) \<leftarrow> u_fork U w;
     if pid1 = 0 then do {
       w \<leftarrow> say U ''C1 waiting for 3 chars: '' 24 w;
       w \<leftarrow> say U ''\<newline>'' 1 w;
       (n, w) \<leftarrow> u_read U (addr U V_buf) 3 w;
       child_got U ''C1 got: ['' 9 n w }
     else do {
       (pid2, w) \<leftarrow> u_fork U w;
       if pid2 = 0 then do {
         w \<leftarrow> say U ''C2 waiting for 5 chars: '' 24 w;
         w \<leftarrow> say U ''\<newline>'' 1 w;
         (n, w) \<leftarrow> u_read U (addr U V_buf) 5 w;
         child_got U ''C2 got: ['' 9 n w }
       else do {
         w \<leftarrow> pause U 200 w;
         w \<leftarrow> say U ''Parent blocking first input(1 char)\<newline>'' 36 w;
         (_, w) \<leftarrow> u_read U (addr U V_buf) 1 w;
         w \<leftarrow> say U ''Parent unblocked. Ending test\<newline>'' 30 w;
         Some (Next w) } } }"

section \<open>The screen\<close>

text \<open>
  One key of \<open>read_int\<close> after the other, until a period; \<open>int\<close> arithmetic wraps at 32 bits. The key stays in \<open>c\<close> if \<open>read\<close>
  fails.
\<close>

partial_function (option) read_digits :: "'w user_env \<Rightarrow> int \<Rightarrow> 'w \<Rightarrow> (int \<times> 'w) option" where
  "read_digits U val w = do {
     (_, w) \<leftarrow> u_read U (addr U V_c) 1 w;
     c \<leftarrow> load8 U (addr U V_c) w;
     if c = 46 then Some (val, w)
     else if 48 \<le> c \<and> c \<le> 57 then do {
       (_, w) \<leftarrow> u_write U 1 (addr U V_c) 1 w;
       read_digits U (sint (of_int (val * 10 + (uint c - 48)) :: dword)) w }
     else read_digits U val w }"

definition read_int :: "'w user_env \<Rightarrow> 'w \<Rightarrow> (int \<times> 'w) option" where
  "read_int U w = do {
     (val, w) \<leftarrow> read_digits U 0 w;
     w \<leftarrow> say U '' '' 1 w;
     Some (val, w) }"

definition test_screen_syscalls :: "'w user_env \<Rightarrow> 'w \<Rightarrow> 'w flow option" where
  "test_screen_syscalls U w = do {
     (_, w) \<leftarrow> u_set_color U 2 0 w;
     w \<leftarrow> say U ''\<newline>--- Screen Test (q to quit) ---\<newline>'' 33 w;
     w \<leftarrow> say U ''(type digits then '.' to confirm)\<newline>'' 34 w;
     w \<leftarrow> say U ''X col (0-79): '' 14 w;
     (px, w) \<leftarrow> read_int U w;
     w \<leftarrow> say U ''\<newline>Y row (0-24): '' 15 w;
     (py, w) \<leftarrow> read_int U w;
     w \<leftarrow> say U ''\<newline>FG color (0-15): '' 18 w;
     (fg, w) \<leftarrow> read_int U w;
     w \<leftarrow> say U ''\<newline>BG color (0-15): '' 18 w;
     (bg, w) \<leftarrow> read_int U w;
     w \<leftarrow> say U ''\<newline>Size of text to write: '' 25 w;
     (nsize, w) \<leftarrow> read_int U w;
     w \<leftarrow> say U ''\<newline>Text to write: '' 16 w;
     (n, w) \<leftarrow> u_read U (addr U V_buf) nsize w;
     (r, w) \<leftarrow> u_gotoxy U px py w;
     if r < 0 then do {
       w \<leftarrow> say U ''Error: invalid position\<newline>'' 24 w;
       (_, w) \<leftarrow> u_set_color U 2 0 w;
       Some (Next w) }
     else do {
       (r, w) \<leftarrow> u_set_color U fg bg w;
       if r < 0 then do {
         w \<leftarrow> say U ''Error: invalid color\<newline>'' 21 w;
         (_, w) \<leftarrow> u_set_color U 2 0 w;
         Some (Next w) }
       else do {
         (_, w) \<leftarrow> u_write U 1 (addr U V_buf) n w;
         (_, w) \<leftarrow> u_set_color U 2 0 w;
         Some (Next w) } } }"

section \<open>Shared memory\<close>

text \<open>\<open>if (c) write(1, s, l); else write(1, s', l');\<close>\<close>

definition say_if :: "'w user_env \<Rightarrow> bool \<Rightarrow> string \<Rightarrow> int \<Rightarrow> string \<Rightarrow> int \<Rightarrow> 'w \<Rightarrow> 'w option" where
  "say_if U c s l s' l' w = (if c then say U s l w else say U s' l' w)"

text \<open>\<open>itoa_hex((unsigned int)p, num); write(1, num, strlen(num)); write(1, "\n", 1);\<close>\<close>

definition say_address :: "'w user_env \<Rightarrow> dword \<Rightarrow> 'w \<Rightarrow> 'w option" where
  "say_address U p w = do {
     w \<leftarrow> say_hex U p (addr U V_num) w;
     say U ''\<newline>'' 1 w }"

text \<open>\<open>itoa(*p, b); write(1, s, l); write(1, b, strlen(b));\<close> and the value read a second time for the test.\<close>

definition show_value :: "'w user_env \<Rightarrow> dword \<Rightarrow> symbol \<Rightarrow> string \<Rightarrow> int \<Rightarrow> 'w \<Rightarrow> (dword \<times> 'w) option" where
  "show_value U p b s l w = do {
     v \<leftarrow> load32 U p w;
     w \<leftarrow> put_string U (addr U b) (itoa (sint v) (\<lambda>_. 0)) w;
     w \<leftarrow> say U s l w;
     w \<leftarrow> say_string U (addr U b) w;
     v \<leftarrow> load32 U p w;
     Some (v, w) }"

text \<open>The child of a part of \<open>test_shmat\<close>: it attaches the page, shows where it is and what it holds, and exits.\<close>

definition shmat_child ::
  "'w user_env \<Rightarrow> int \<Rightarrow> dword \<Rightarrow> string \<Rightarrow> int \<Rightarrow> string \<Rightarrow> int \<Rightarrow> dword \<Rightarrow> 'w \<Rightarrow> 'w flow option"
where
  "shmat_child U i a fail lf got lg v w = do {
     (cp, w) \<leftarrow> u_shmat U i a w;
     if cp = - 1 then do {
       w \<leftarrow> say U fail lf w;
       exit_here U w }
     else do {
       w \<leftarrow> say U got lg w;
       w \<leftarrow> say_address U cp w;
       (x, w) \<leftarrow> show_value U cp V_vbuf ''Child read: '' 12 w;
       w \<leftarrow> say_if U (x = v) '' OK!\<newline>'' 5 '' MISMATCH!\<newline>'' 11 w;
       exit_here U w } }"

definition test_shmat_part_1 :: "'w user_env \<Rightarrow> 'w \<Rightarrow> 'w flow option" where
  "test_shmat_part_1 U w = do {
     w \<leftarrow> say U ''\<newline>--- Shared Memory Test ---\<newline>'' 28 w;
     w \<leftarrow> say U ''--- PART 1: Auto-find address (NULL) ---\<newline>'' 41 w;
     (p, w) \<leftarrow> u_shmat U 0 0 w;
     if p = - 1 then do {
       w \<leftarrow> say U ''ERROR: shmat(0, NULL) failed\<newline>'' 29 w;
       Some (Back w) }
     else do {
       w \<leftarrow> say U ''Parent shmat(0,NULL) -> 0x'' 26 w;
       w \<leftarrow> say_address U p w;
       w \<leftarrow> store32 U p 12345 w;
       w \<leftarrow> say U ''Parent wrote 12345\<newline>'' 19 w;
       (pid, w) \<leftarrow> u_fork U w;
       if pid = 0 then
         shmat_child U 0 0 ''Child: shmat failed\<newline>'' 20 ''Child shmat(0,NULL) -> 0x'' 25 12345 w
       else do {
         w \<leftarrow> pause U 150 w;
         Some (Next w) } } }"

definition test_shmat_part_2 :: "'w user_env \<Rightarrow> 'w \<Rightarrow> 'w flow option" where
  "test_shmat_part_2 U w = do {
     w \<leftarrow> say U ''\<newline>--- PART 2: Forced address (0x830000) ---\<newline>'' 43 w;
     (p_forced, w) \<leftarrow> u_shmat U 1 0x830000 w;
     if p_forced = - 1 then do {
       w \<leftarrow> say U ''ERROR: shmat(1, 0x830000) failed\<newline>'' 33 w;
       Some (Back w) }
     else do {
       w \<leftarrow> say U ''Parent shmat(1, 0x830000) -> 0x'' 31 w;
       w \<leftarrow> say_address U p_forced w;
       w \<leftarrow> store32 U p_forced 67890 w;
       w \<leftarrow> say U ''Parent wrote 67890 at forced address\<newline>'' 37 w;
       (pid, w) \<leftarrow> u_fork U w;
       if pid = 0 then
         shmat_child U 1 0x830000 ''Child: shmat forced failed\<newline>'' 27 ''Child shmat(1, 0x830000) -> 0x'' 30 67890 w
       else do {
         w \<leftarrow> pause U 150 w;
         Some (Next w) } } }"

definition test_shmat_part_3 :: "'w user_env \<Rightarrow> 'w \<Rightarrow> 'w flow option" where
  "test_shmat_part_3 U w = do {
     w \<leftarrow> say U ''\<newline>--- PART 3: Error validation ---\<newline>'' 34 w;
     (bad, w) \<leftarrow> u_shmat U 99 0 w;
     w \<leftarrow> say_if U (bad = - 1) ''shmat(99,NULL) -> error OK\<newline>'' 27 ''shmat(99,NULL) -> should have failed!\<newline>'' 38 w;
     (bad2, w) \<leftarrow> u_shmat U 1 0x801001 w;
     w \<leftarrow> say_if U (bad2 = - 1) ''shmat(1,0x801001) -> error OK\<newline>'' 30 ''shmat(1,0x801001) -> should have failed!\<newline>'' 41 w;
     w \<leftarrow> say U ''--- Shared Memory Test Done ---\<newline>'' 31 w;
     Some (Next w) }"

definition test_shmat :: "'w user_env \<Rightarrow> 'w \<Rightarrow> 'w flow option" where
  "test_shmat U w = do {
     r \<leftarrow> test_shmat_part_1 U w;
     and_then r (\<lambda>w. do {
       r \<leftarrow> test_shmat_part_2 U w;
       and_then r (test_shmat_part_3 U) }) }"

subsection \<open>Detaching and removing\<close>

definition test_shmdt_part_A :: "'w user_env \<Rightarrow> 'w \<Rightarrow> 'w flow option" where
  "test_shmdt_part_A U w = do {
     w \<leftarrow> say U ''\<newline>--- shmdt/shmrm Test ---\<newline>'' 26 w;
     w \<leftarrow> say U ''A) shmat(2,NULL) + shmdt\<newline>'' 25 w;
     (p, w) \<leftarrow> u_shmat U 2 0 w;
     if p = - 1 then do { w \<leftarrow> say U ''ERROR: shmat(2,NULL) fallo\<newline>'' 27 w; Some (Back w) }
     else do {
       w \<leftarrow> store32 U p 999 w;
       w \<leftarrow> say U ''Escrito 999 en shm[2]\<newline>'' 22 w;
       (r, w) \<leftarrow> u_shmdt U p w;
       w \<leftarrow> say_if U (r = 0) ''shmdt OK\<newline>'' 9 ''ERROR: shmdt fallo\<newline>'' 19 w;
       (p2, w) \<leftarrow> u_shmat U 2 0 w;
       if p2 = - 1 then do { w \<leftarrow> say U ''ERROR: re-shmat fallo\<newline>'' 22 w; Some (Back w) }
       else do {
         (v, w) \<leftarrow> show_value U p2 V_vbuf ''Re-leido: '' 10 w;
         w \<leftarrow> say_if U (v = 999) '' OK (frame persistio)\<newline>'' 22 '' FALLO (valor distinto)\<newline>'' 24 w;
         (_, w) \<leftarrow> u_shmdt U p2 w;
         Some (Next w) } } }"

definition test_shmdt_part_B :: "'w user_env \<Rightarrow> 'w \<Rightarrow> 'w flow option" where
  "test_shmdt_part_B U w = do {
     w \<leftarrow> say U ''B) shmrm con refs=0: limpieza inmediata\<newline>'' 40 w;
     (p3, w) \<leftarrow> u_shmat U 3 0 w;
     if p3 = - 1 then do { w \<leftarrow> say U ''ERROR: shmat(3) fallo\<newline>'' 22 w; Some (Back w) }
     else do {
       w \<leftarrow> store32 U p3 42 w;
       (_, w) \<leftarrow> u_shmdt U p3 w;
       (r2, w) \<leftarrow> u_shmrm U 3 w;
       w \<leftarrow> say_if U (r2 = 0) ''shmrm(3) OK (limpieza inmediata)\<newline>'' 33 ''ERROR: shmrm(3) fallo\<newline>'' 22 w;
       Some (Next w) } }"

text \<open>The child of parts C and E waits for the parent, shows the value, and detaches the page in part C only.\<close>

definition shm_child :: "'w user_env \<Rightarrow> int \<Rightarrow> symbol \<Rightarrow> dword \<Rightarrow> dword \<Rightarrow> bool \<Rightarrow> 'w \<Rightarrow> 'w flow option" where
  "shm_child U ticks b p v detach w = do {
     w \<leftarrow> pause U ticks w;
     (x, w) \<leftarrow> show_value U p b ''Hijo lee: '' 10 w;
     w \<leftarrow> say_if U (x = v) '' OK\<newline>'' 4 '' FALLO\<newline>'' 7 w;
     w \<leftarrow> (if detach then do { (_, w) \<leftarrow> u_shmdt U p w; Some w } else Some w);
     exit_here U w }"

definition test_shmdt_part_C :: "'w user_env \<Rightarrow> 'w \<Rightarrow> 'w flow option" where
  "test_shmdt_part_C U w = do {
     w \<leftarrow> say U ''C) shmrm diferido (hijo activo)\<newline>'' 32 w;
     (p4, w) \<leftarrow> u_shmat U 4 0 w;
     if p4 = - 1 then do { w \<leftarrow> say U ''ERROR: shmat(4) fallo\<newline>'' 22 w; Some (Back w) }
     else do {
       w \<leftarrow> store32 U p4 77777 w;
       w \<leftarrow> say U ''Padre escribio 77777\<newline>'' 21 w;
       (pid, w) \<leftarrow> u_fork U w;
       if pid = 0 then shm_child U 100 V_hbuf p4 77777 True w
       else do {
         (r3, w) \<leftarrow> u_shmrm U 4 w;
         w \<leftarrow> say_if U (r3 = 0) ''Padre: shmrm(4) OK (diferido)\<newline>'' 30 ''ERROR: shmrm(4) fallo\<newline>'' 22 w;
         (bad, w) \<leftarrow> u_shmat U 4 0 w;
         w \<leftarrow> say_if U (bad = - 1) ''shmat(4) tras shmrm -> error OK\<newline>'' 32 ''shmat(4) tras shmrm -> deberia fallar!\<newline>'' 38 w;
         (_, w) \<leftarrow> u_shmdt U p4 w;
         w \<leftarrow> pause U 200 w;
         Some (Next w) } } }"

definition test_shmdt_part_D :: "'w user_env \<Rightarrow> 'w \<Rightarrow> 'w flow option" where
  "test_shmdt_part_D U w = do {
     w \<leftarrow> say U ''D) Casos de error\<newline>'' 18 w;
     (e1, w) \<leftarrow> u_shmdt U 0x801000 w;
     w \<leftarrow> say_if U (e1 = - 1) ''shmdt(no-mapeada) -> error OK\<newline>'' 30 ''shmdt sin mapeo -> deberia fallar!\<newline>'' 35 w;
     (e2, w) \<leftarrow> u_shmrm U 99 w;
     w \<leftarrow> say_if U (e2 = - 1) ''shmrm(99) -> error OK\<newline>'' 22 ''shmrm(99) -> deberia fallar!\<newline>'' 29 w;
     (e3, w) \<leftarrow> u_shmdt U 0x800123 w;
     w \<leftarrow> say_if U (e3 = - 1) ''shmdt(no-alineada) -> error OK\<newline>'' 31 ''shmdt(no-alineada) -> deberia fallar!\<newline>'' 37 w;
     w \<leftarrow> say U ''--- shmdt/shmrm Test Done ---\<newline>'' 30 w;
     Some (Next w) }"

text \<open>What the parent finds in the page after the child is gone.\<close>

definition shm_after_exit :: "'w user_env \<Rightarrow> 'w \<Rightarrow> 'w flow option" where
  "shm_after_exit U w = do {
     (p6, w) \<leftarrow> u_shmat U 5 0 w;
     if p6 = - 1 then do {
       w \<leftarrow> say U ''RESULT: shmat(5) fallo => frame fue liberado OK\<newline>'' 48 w;
       Some (Next w) }
     else do {
       (v, w) \<leftarrow> show_value U p6 V_vbuf2 ''RESULT: shmat(5) -> valor='' 26 w;
       w \<leftarrow> say_if U (v = 0) '' => frame zeroed OK (sys_exit limpio)\<newline>'' 38 '' => FALLO: valor antiguo sobrevivio!\<newline>'' 36 w;
       (_, w) \<leftarrow> u_shmdt U p6 w;
       Some (Next w) } }"

definition test_shmdt_part_E :: "'w user_env \<Rightarrow> 'w \<Rightarrow> 'w flow option" where
  "test_shmdt_part_E U w = do {
     w \<leftarrow> say U ''E) sys_exit + shmrm: sin shmdt explicito\<newline>'' 41 w;
     (p5, w) \<leftarrow> u_shmat U 5 0 w;
     if p5 = - 1 then do { w \<leftarrow> say U ''ERROR: shmat(5) fallo\<newline>'' 22 w; Some (Back w) }
     else do {
       w \<leftarrow> store32 U p5 55555 w;
       w \<leftarrow> say U ''Padre escribio 55555 en shm[5]\<newline>'' 31 w;
       (pid2, w) \<leftarrow> u_fork U w;
       if pid2 = 0 then shm_child U 80 V_hbuf2 p5 55555 False w
       else do {
         (r4, w) \<leftarrow> u_shmrm U 5 w;
         w \<leftarrow> say_if U (r4 = 0) ''Padre: shmrm(5) OK (diferido, refs>0)\<newline>'' 38 ''ERROR: shmrm(5) fallo\<newline>'' 22 w;
         (_, w) \<leftarrow> u_shmdt U p5 w;
         w \<leftarrow> say U ''Padre: shmdt(5) hecho (refs=1)\<newline>'' 31 w;
         w \<leftarrow> pause U 200 w;
         shm_after_exit U w } } }"

definition test_shmdt_part_F1 :: "'w user_env \<Rightarrow> 'w \<Rightarrow> 'w flow option" where
  "test_shmdt_part_F1 U w = do {
     w \<leftarrow> say U ''F1) Hijo escribe, padre lee\<newline>'' 28 w;
     (pF, w) \<leftarrow> u_shmat U 6 0 w;
     if pF = - 1 then do { w \<leftarrow> say U ''ERROR: shmat(6)\<newline>'' 16 w; Some (Back w) }
     else do {
       w \<leftarrow> store32 U pF 0 w;
       (pidF, w) \<leftarrow> u_fork U w;
       if pidF = 0 then do {
         w \<leftarrow> store32 U pF 99999 w;
         w \<leftarrow> say U ''Hijo escribio 99999\<newline>'' 20 w;
         (_, w) \<leftarrow> u_shmdt U pF w;
         exit_here U w }
       else do {
         w \<leftarrow> pause U 150 w;
         (v, w) \<leftarrow> show_value U pF V_fvbuf ''Padre lee: '' 11 w;
         w \<leftarrow> say_if U (v = 99999) '' OK\<newline>'' 4 '' FALLO\<newline>'' 7 w;
         (_, w) \<leftarrow> u_shmdt U pF w;
         Some (Next w) } } }"

definition test_shmdt_part_F2 :: "'w user_env \<Rightarrow> 'w \<Rightarrow> 'w flow option" where
  "test_shmdt_part_F2 U w = do {
     w \<leftarrow> say U ''F2) Hijo shmdt sin shmrm, padre sigue leyendo\<newline>'' 47 w;
     (pF2, w) \<leftarrow> u_shmat U 7 0 w;
     if pF2 = - 1 then do { w \<leftarrow> say U ''ERROR: shmat(7)\<newline>'' 16 w; Some (Back w) }
     else do {
       w \<leftarrow> store32 U pF2 11111 w;
       (pidF2, w) \<leftarrow> u_fork U w;
       if pidF2 = 0 then do {
         (_, w) \<leftarrow> u_shmdt U pF2 w;
         w \<leftarrow> say U ''Hijo: shmdt(7) hecho\<newline>'' 21 w;
         exit_here U w }
       else do {
         w \<leftarrow> pause U 150 w;
         (v, w) \<leftarrow> show_value U pF2 V_f2buf ''Padre lee tras shmdt hijo: '' 27 w;
         w \<leftarrow> say_if U (v = 11111) '' OK (frame vivo)\<newline>'' 17 '' FALLO\<newline>'' 7 w;
         (_, w) \<leftarrow> u_shmdt U pF2 w;
         Some (Next w) } } }"

text \<open>A child of part F3.\<close>

definition heir :: "'w user_env \<Rightarrow> int \<Rightarrow> symbol \<Rightarrow> string \<Rightarrow> dword \<Rightarrow> 'w \<Rightarrow> 'w flow option" where
  "heir U ticks b s p w = do {
     w \<leftarrow> pause U ticks w;
     (v, w) \<leftarrow> show_value U p b s 8 w;
     w \<leftarrow> say_if U (v = 33333) '' OK\<newline>'' 4 '' FALLO\<newline>'' 7 w;
     (_, w) \<leftarrow> u_shmdt U p w;
     exit_here U w }"

definition test_shmdt_part_F3 :: "'w user_env \<Rightarrow> 'w \<Rightarrow> 'w flow option" where
  "test_shmdt_part_F3 U w = do {
     w \<leftarrow> say U ''F3) Dos hijos heredan shm[8], refs correctos\<newline>'' 46 w;
     (pF3, w) \<leftarrow> u_shmat U 8 0 w;
     if pF3 = - 1 then do { w \<leftarrow> say U ''ERROR: shmat(8)\<newline>'' 16 w; Some (Back w) }
     else do {
       w \<leftarrow> store32 U pF3 33333 w;
       (pidH1, w) \<leftarrow> u_fork U w;
       if pidH1 = 0 then heir U 50 V_h1buf ''H1 lee: '' pF3 w
       else do {
         (pidH2, w) \<leftarrow> u_fork U w;
         if pidH2 = 0 then heir U 80 V_h2buf ''H2 lee: '' pF3 w
         else do {
           w \<leftarrow> pause U 200 w;
           (v, w) \<leftarrow> show_value U pF3 V_f3buf ''Padre tras hijos: '' 18 w;
           w \<leftarrow> say_if U (v = 33333) '' OK (refs correctos)\<newline>'' 21 '' FALLO\<newline>'' 7 w;
           (_, w) \<leftarrow> u_shmdt U pF3 w;
           w \<leftarrow> say U ''--- shmdt/shmrm Test Done ---\<newline>'' 30 w;
           Some (Next w) } } } }"

definition test_shmdt_shmrm :: "'w user_env \<Rightarrow> 'w \<Rightarrow> 'w flow option" where
  "test_shmdt_shmrm U w = do {
     r \<leftarrow> test_shmdt_part_A U w;
     and_then r (\<lambda>w. do {
       r \<leftarrow> test_shmdt_part_B U w;
       and_then r (\<lambda>w. do {
         r \<leftarrow> test_shmdt_part_C U w;
         and_then r (\<lambda>w. do {
           r \<leftarrow> test_shmdt_part_D U w;
           and_then r (\<lambda>w. do {
             r \<leftarrow> test_shmdt_part_E U w;
             and_then r (\<lambda>w. do {
               r \<leftarrow> test_shmdt_part_F1 U w;
               and_then r (\<lambda>w. do {
                 r \<leftarrow> test_shmdt_part_F2 U w;
                 and_then r (test_shmdt_part_F3 U) }) }) }) }) }) }) }"

section \<open>The menu\<close>

definition show_menu :: "'w user_env \<Rightarrow> 'w \<Rightarrow> 'w option" where
  "show_menu U w = do {
     w \<leftarrow> say U ''\<newline>======= ZeOS MENU =======\<newline>'' 27 w;
     w \<leftarrow> say U ''1. M3 Addresses\<newline>'' 16 w;
     w \<leftarrow> say U ''2. M3 Stress\<newline>'' 13 w;
     w \<leftarrow> say U ''3. Read Simple\<newline>'' 15 w;
     w \<leftarrow> say U ''4. Read Multi\<newline>'' 14 w;
     w \<leftarrow> say U ''5. Screen (gotoxy/color)\<newline>'' 25 w;
     w \<leftarrow> say U ''6. Shared Memory (shmat)\<newline>'' 25 w;
     w \<leftarrow> say U ''7. shmdt + shmrm\<newline>'' 17 w;
     say U ''Selection: '' 11 w }"

definition menu_turn :: "'w user_env \<Rightarrow> 'w \<Rightarrow> 'w flow option" where
  "menu_turn U w = do {
     w \<leftarrow> show_menu U w;
     (_, w) \<leftarrow> u_read U (addr U V_buf) 1 w;
     c \<leftarrow> load8 U (addr U V_buf) w;
     if c = 49 then test_m3_addresses U w
     else if c = 50 then test_m3_stress U w
     else if c = 51 then test_read_simple U w
     else if c = 52 then test_read_multiprocess U w
     else if c = 53 then test_screen_syscalls U w
     else if c = 54 then test_shmat U w
     else if c = 55 then test_shmdt_shmrm U w
     else Some (Next w) }"

text \<open>The endless loop of \<open>main\<close>: its only way out is the \<open>exit\<close> of a forked process.\<close>

partial_function (option) user_main :: "'w user_env \<Rightarrow> 'w \<Rightarrow> 'w option" where
  "user_main U w = do {
     r \<leftarrow> menu_turn U w;
     (case r of
        Next w \<Rightarrow> user_main U w
      | Back w \<Rightarrow> user_main U w
      | Exit w \<Rightarrow> Some w) }"

end
