(* ===== verification/Program_Simulation.thy ===== *)
theory Program_Simulation
  imports User_Programs
begin

text \<open>
  Programs in two environments: where the specification \<open>A\<close> answers every call that a program makes, and the environment \<open>U\<close>
  gives the same answers in related states, the program does in \<open>U\<close> what it does in \<open>A\<close>. The locale \<open>simulation\<close> asks for
  that of single calls and memory accesses, and shows it once for each program of \<open>user.c\<close>.
\<close>

section \<open>Results that follow a specification\<close>

text \<open>Where the specification \<open>a\<close> has a result, \<open>c\<close> has a related one.\<close>

definition follows :: "('b \<Rightarrow> 'a \<Rightarrow> bool) \<Rightarrow> 'b option \<Rightarrow> 'a option \<Rightarrow> bool" where
  "follows R c a \<longleftrightarrow> (\<forall>y. a = Some y \<longrightarrow> (\<exists>z. c = Some z \<and> R z y))"

named_theorems sim_intros "rules that follow a program step by step"

lemma followsD: "follows R c a \<Longrightarrow> a = Some y \<Longrightarrow> \<exists>z. c = Some z \<and> R z y"
  by (simp add: follows_def)

lemma follows_None [sim_intros]: "follows R c None"
  by (simp add: follows_def)

lemma follows_Some [sim_intros]: "R z y \<Longrightarrow> follows R (Some z) (Some y)"
  by (simp add: follows_def)

lemma follows_bind: "follows Q c a \<Longrightarrow> (\<And>z y. Q z y \<Longrightarrow> follows R (f z) (g y)) \<Longrightarrow> follows R (c \<bind> f) (a \<bind> g)"
  by (cases a) (auto simp: follows_def)

lemma follows_if [sim_intros]:
  "(p \<Longrightarrow> follows R c a) \<Longrightarrow> (\<not> p \<Longrightarrow> follows R d b) \<Longrightarrow> follows R (if p then c else d) (if p then a else b)"
  by simp

text \<open>An answer with the state after it.\<close>

definition with_answer :: "('b \<Rightarrow> 'a \<Rightarrow> bool) \<Rightarrow> 'r \<times> 'b \<Rightarrow> 'r \<times> 'a \<Rightarrow> bool" where
  "with_answer R p q \<longleftrightarrow> fst p = fst q \<and> R (snd p) (snd q)"

lemma with_answer_pair [simp]: "with_answer R (r, w) (s, x) \<longleftrightarrow> r = s \<and> R w x"
  by (simp add: with_answer_def)

lemma with_answer_intro [sim_intros]: "R w x \<Longrightarrow> with_answer R (r, w) (r, x)"
  by simp

text \<open>Steps that give a state, an answer and a state, a value, a way of ending.\<close>

lemma follows_state:
  "follows rep c a \<Longrightarrow> (\<And>w x. rep w x \<Longrightarrow> follows R (f w) (g x)) \<Longrightarrow> follows R (c \<bind> f) (a \<bind> g)"
  by (rule follows_bind)

lemma follows_call:
  "follows (with_answer rep) c a \<Longrightarrow> (\<And>r w x. rep w x \<Longrightarrow> follows R (f r w) (g r x)) \<Longrightarrow>
     follows R (c \<bind> (\<lambda>(r, w). f r w)) (a \<bind> (\<lambda>(r, x). g r x))"
  by (erule follows_bind) auto

lemma follows_value:
  "follows (=) c a \<Longrightarrow> (\<And>v. follows R (f v) (g v)) \<Longrightarrow> follows R (c \<bind> f) (a \<bind> g)"
  by (erule follows_bind) simp

lemma follows_and_then:
  assumes "rel_flow rep r s" and "\<And>w x. rep w x \<Longrightarrow> follows (rel_flow rep) (f w) (g x)"
  shows "follows (rel_flow rep) (and_then r f) (and_then s g)"
  using assms by (cases r; cases s) (auto intro: follows_Some)

lemma rel_flow_intros [sim_intros]:
  "rep w x \<Longrightarrow> rel_flow rep (Next w) (Next x)" "rep w x \<Longrightarrow> rel_flow rep (Back w) (Back x)"
  "rep w x \<Longrightarrow> rel_flow rep (Exit w) (Exit x)"
  by simp_all

lemma rel_forks_intros [sim_intros]:
  "rep w x \<Longrightarrow> rel_forks rep (Stored ps w) (Stored ps x)"
  "rel_flow rep r s \<Longrightarrow> rel_forks rep (In_child r) (In_child s)"
  by simp_all

lemma follows_forks:
  assumes "rel_forks rep r s" and "\<And>f g. rel_flow rep f g \<Longrightarrow> follows R (c f) (a g)"
    and "\<And>ps w x. rep w x \<Longrightarrow> follows R (d ps w) (b ps x)"
  shows "follows R (case r of In_child f \<Rightarrow> c f | Stored ps w \<Rightarrow> d ps w) (case s of In_child f \<Rightarrow> a f | Stored ps w \<Rightarrow> b ps w)"
  using assms by (cases r; cases s) auto

section \<open>Programs in related environments\<close>

locale simulation =
  fixes U :: "'w user_env" and A :: "'a user_env" and rep :: "'w \<Rightarrow> 'a \<Rightarrow> bool"
  assumes call_sim: "rep w x \<Longrightarrow> follows (with_answer rep) (sysenter U n a b c w) (sysenter A n a b c x)"
    and load_sim: "rep w x \<Longrightarrow> follows (=) (load8 U p w) (load8 A p x)"
    and store_sim: "rep w x \<Longrightarrow> follows rep (store8 U p v w) (store8 A p v x)"
    and same_lit: "lit U = lit A" and same_addr: "addr U = addr A"
begin

lemma load32_sim: "rep w x \<Longrightarrow> follows (=) (load32 U p w) (load32 A p x)"
  unfolding load32_def by (intro sim_intros follows_value load_sim refl)

lemma store_bytes_sim: "rep w x \<Longrightarrow> follows rep (store_bytes U p bs w) (store_bytes A p bs x)"
proof (induction bs arbitrary: p w x)
  case Nil
  then show ?case by (auto intro: sim_intros)
next
  case (Cons b bs)
  show ?case
    unfolding store_bytes.simps by (intro follows_state [of rep] store_sim Cons)
qed

lemma store32_sim: "rep w x \<Longrightarrow> follows rep (store32 U p v w) (store32 A p v x)"
  unfolding store32_def by (rule store_bytes_sim)

lemma stub_sim: "rep w x \<Longrightarrow> follows (with_answer rep) (stub U n a b c w) (stub A n a b c x)"
  unfolding stub_def same_addr
  by (intro sim_intros follows_call [of rep] follows_state [of rep] call_sim store32_sim)

lemma calls_sim:
  assumes "rep w x"
  shows "follows (with_answer rep) (u_write U fd p n w) (u_write A fd p n x)"
    "follows (with_answer rep) (u_gettime U w) (u_gettime A x)"
    "follows (with_answer rep) (u_getpid U w) (u_getpid A x)"
    "follows (with_answer rep) (u_fork U w) (u_fork A x)"
    "follows (with_answer rep) (u_block U w) (u_block A x)"
    "follows (with_answer rep) (u_unblock U i w) (u_unblock A i x)"
    "follows (with_answer rep) (u_read U p n w) (u_read A p n x)"
    "follows (with_answer rep) (u_get_stats U i w) (u_get_stats A i x)"
    "follows (with_answer rep) (u_gotoxy U i j w) (u_gotoxy A i j x)"
    "follows (with_answer rep) (u_set_color U i j w) (u_set_color A i j x)"
    "follows (with_answer rep) (u_shmdt U p w) (u_shmdt A p x)"
    "follows (with_answer rep) (u_shmrm U i w) (u_shmrm A i x)"
    "follows (with_answer rep) (u_shmat U i p w) (u_shmat A i p x)"
    "follows rep (u_exit U w) (u_exit A x)"
  unfolding u_write_def u_gettime_def u_getpid_def u_fork_def u_block_def u_unblock_def u_read_def u_get_stats_def
    u_gotoxy_def u_set_color_def u_shmdt_def u_shmrm_def u_shmat_def u_exit_def
  by ((intro sim_intros follows_call [of rep] stub_sim call_sim assms; assumption)+)

lemma strlen_from_sim: "rep w x \<Longrightarrow> follows (=) (strlen_from U p i w) (strlen_from A p i x)"
proof -
  have "A' = A \<longrightarrow> (\<forall>w. rep w x \<longrightarrow> strlen_from U p i w = Some n)" if "strlen_from A' p i x = Some n" for A' p i x n
  proof (rule strlen_from.raw_induct [where P = "\<lambda>A' p i x n. A' = A \<longrightarrow> (\<forall>w. rep w x \<longrightarrow>
        strlen_from U p i w = Some n)", OF _ that])
    fix f A' p i x n
    assume IH: "\<And>A' p i x n. f A' p i x = Some n \<Longrightarrow> A' = A \<longrightarrow> (\<forall>w. rep w x \<longrightarrow> strlen_from U p i w = Some n)"
      and e: "load8 A' (p + word_of_int i) x \<bind> (\<lambda>c. if c \<noteq> 0 then f A' p (i + 1) x else Some i) = Some n"
    have step: "follows (=) (strlen_from U p i w) (f A p i x)" if "rep w x" for p i w
      using IH [of A] that by (auto simp: follows_def)
    have "\<exists>m. strlen_from U p i w = Some m \<and> m = n" if a: "A' = A" and w: "rep w x" for w
      by (rule followsD [OF _ e [unfolded a]], unfold strlen_from.simps [of U p i w])
        (intro sim_intros follows_value load_sim step w refl)
    then show "A' = A \<longrightarrow> (\<forall>w. rep w x \<longrightarrow> strlen_from U p i w = Some n)" by blast
  qed
  then show "rep w x \<Longrightarrow> follows (=) (strlen_from U p i w) (strlen_from A p i x)" by (auto simp: follows_def)
qed

lemma say_sim: "rep w x \<Longrightarrow> follows rep (say U s n w) (say A s n x)"
  unfolding say_def same_lit by (intro sim_intros follows_call [of rep] calls_sim)

lemma put_string_sim: "rep w x \<Longrightarrow> follows rep (put_string U p b w) (put_string A p b x)"
  unfolding put_string_def by (cases "strlen b") (auto intro: sim_intros store_bytes_sim)

lemma say_string_sim: "rep w x \<Longrightarrow> follows rep (say_string U p w) (say_string A p x)"
  unfolding say_string_def strlen_at_def
  by (intro sim_intros follows_call [of rep] follows_value calls_sim strlen_from_sim)

lemma say_number_sim:
  assumes "rep w x"
  shows "follows rep (say_int U a p w) (say_int A a p x)" "follows rep (say_hex U h p w) (say_hex A h p x)"
  unfolding say_int_def say_hex_def
  by ((intro follows_state [of rep] put_string_sim say_string_sim assms; assumption)+)

lemma exit_here_sim: "rep w x \<Longrightarrow> follows (rel_flow rep) (exit_here U w) (exit_here A x)"
  unfolding exit_here_def by (intro sim_intros follows_state [of rep] calls_sim)

lemma wait_ticks_sim: "rep w x \<Longrightarrow> follows rep (wait_ticks U t n w) (wait_ticks A t n x)"
proof -
  assume r: "rep w x"
  have "A' = A \<longrightarrow> (\<forall>w. rep w x \<longrightarrow> (\<exists>w'. wait_ticks U t n w = Some w' \<and> rep w' y))"
    if "wait_ticks A' t n x = Some y" for A' t n x y
  proof (rule wait_ticks.raw_induct [where P = "\<lambda>A' t n x y. A' = A \<longrightarrow> (\<forall>w. rep w x \<longrightarrow>
        (\<exists>w'. wait_ticks U t n w = Some w' \<and> rep w' y))", OF _ that])
    fix f A' t n x y
    assume IH: "\<And>A' t n x y. f A' t n x = Some y \<Longrightarrow> A' = A \<longrightarrow> (\<forall>w. rep w x \<longrightarrow>
        (\<exists>w'. wait_ticks U t n w = Some w' \<and> rep w' y))"
      and e: "u_gettime A' x \<bind> (\<lambda>(now, w). if now - t < n then f A' t n w else Some w) = Some y"
    have step: "follows rep (wait_ticks U t n w) (f A t n x)" if "rep w x" for t n w x
      using IH [of A t n x] that by (auto simp: follows_def)
    have "\<exists>w'. wait_ticks U t n w = Some w' \<and> rep w' y" if a: "A' = A" and w: "rep w x" for w
      by (rule followsD [OF _ e [unfolded a]], unfold wait_ticks.simps [of U t n w])
        (intro sim_intros follows_call [of rep] calls_sim step w)
    then show "A' = A \<longrightarrow> (\<forall>w. rep w x \<longrightarrow> (\<exists>w'. wait_ticks U t n w = Some w' \<and> rep w' y))" by blast
  qed
  then show ?thesis using r by (auto simp: follows_def)
qed

lemma pause_sim: "rep w x \<Longrightarrow> follows rep (pause U n w) (pause A n x)"
  unfolding pause_def by (intro follows_call [of rep] calls_sim wait_ticks_sim)

lemmas says = say_sim say_string_sim say_number_sim put_string_sim exit_here_sim pause_sim calls_sim load32_sim store32_sim
lemmas parts = sim_intros follows_call [of rep] follows_state [of rep]

lemma test_m3_addresses_sim: "rep w x \<Longrightarrow> follows (rel_flow rep) (test_m3_addresses U w) (test_m3_addresses A x)"
  unfolding test_m3_addresses_def same_addr by (intro parts says)

lemma fork_all_sim: "rep w x \<Longrightarrow> follows (rel_forks rep) (fork_all U ps w) (fork_all A ps x)"
proof (induction "128 - length ps" arbitrary: ps w x rule: less_induct)
  case less
  show ?case
  proof (cases "length ps < 128")
    case True
    have IH: "rep w x \<Longrightarrow> follows (rel_forks rep) (fork_all U (ps @ [p]) w) (fork_all A (ps @ [p]) x)" for p w x
      by (rule less(1)) (use True in simp)
    show ?thesis
      unfolding fork_all.simps [of U ps] fork_all.simps [of A ps] Let_def same_addr
      by (intro parts follows_bind [of "rel_flow rep"] says IH less(2))
  next
    case False
    then show ?thesis
      using less(2) by (simp add: fork_all.simps [of U ps] fork_all.simps [of A ps] sim_intros)
  qed
qed

lemma unblock_all_sim: "rep w x \<Longrightarrow> follows rep (unblock_all U ps w) (unblock_all A ps x)"
proof (induction ps arbitrary: w x)
  case Nil
  then show ?case by (auto intro: sim_intros)
next
  case (Cons p ps)
  show ?case
    unfolding unblock_all.simps by (intro parts says Cons)
qed

lemma child_got_sim: "rep w x \<Longrightarrow> follows (rel_flow rep) (child_got U s l n w) (child_got A s l n x)"
  unfolding child_got_def same_addr by (intro parts says)

lemma test_read_simple_sim: "rep w x \<Longrightarrow> follows (rel_flow rep) (test_read_simple U w) (test_read_simple A x)"
  unfolding test_read_simple_def same_addr by (intro parts says child_got_sim)

lemma test_read_multiprocess_sim:
  "rep w x \<Longrightarrow> follows (rel_flow rep) (test_read_multiprocess U w) (test_read_multiprocess A x)"
  unfolding test_read_multiprocess_def same_addr by (intro parts says child_got_sim)

lemma test_m3_stress_sim: "rep w x \<Longrightarrow> follows (rel_flow rep) (test_m3_stress U w) (test_m3_stress A x)"
  unfolding test_m3_stress_def
  by (intro parts follows_forks follows_bind [of "rel_forks rep"] says fork_all_sim unblock_all_sim)

lemma read_digits_sim: "rep w x \<Longrightarrow> follows (with_answer rep) (read_digits U val w) (read_digits A val x)"
proof -
  assume r: "rep w x"
  have "A' = A \<longrightarrow> (\<forall>w. rep w x \<longrightarrow> (\<exists>w'. read_digits U val w = Some w' \<and> with_answer rep w' y))"
    if "read_digits A' val x = Some y" for A' val x y
  proof (rule read_digits.raw_induct [where P = "\<lambda>A' val x y. A' = A \<longrightarrow> (\<forall>w. rep w x \<longrightarrow>
        (\<exists>w'. read_digits U val w = Some w' \<and> with_answer rep w' y))", OF _ that])
    fix f A' val x y
    assume IH: "\<And>A' val x y. f A' val x = Some y \<Longrightarrow> A' = A \<longrightarrow> (\<forall>w. rep w x \<longrightarrow>
        (\<exists>w'. read_digits U val w = Some w' \<and> with_answer rep w' y))"
      and e: "u_read A' (addr A' V_c) 1 x \<bind>
       (\<lambda>(_, w). load8 A' (addr A' V_c) w \<bind>
          (\<lambda>c. if c = 46 then Some (val, w)
               else if 48 \<le> c \<and> c \<le> 57
                    then u_write A' 1 (addr A' V_c) 1 w \<bind>
                         (\<lambda>(_, w). f A' (sint (word_of_int (val * 10 + (uint c - 48)) :: dword)) w)
                    else f A' val w)) = Some y"
    have step: "follows (with_answer rep) (read_digits U v w) (f A v x)" if "rep w x" for v w x
      using IH [of A v x] that by (auto simp: follows_def)
    have "\<exists>w'. read_digits U val w = Some w' \<and> with_answer rep w' y" if a: "A' = A" and w: "rep w x" for w
      by (rule followsD [OF _ e [unfolded a]], unfold read_digits.simps [of U val w] same_addr)
        (intro parts follows_value says load_sim step w)
    then show "A' = A \<longrightarrow> (\<forall>w. rep w x \<longrightarrow> (\<exists>w'. read_digits U val w = Some w' \<and> with_answer rep w' y))" by blast
  qed
  then show ?thesis using r by (auto simp: follows_def)
qed

lemma read_int_sim: "rep w x \<Longrightarrow> follows (with_answer rep) (read_int U w) (read_int A x)"
  unfolding read_int_def by (intro parts says read_digits_sim)

lemma test_screen_syscalls_sim: "rep w x \<Longrightarrow> follows (rel_flow rep) (test_screen_syscalls U w) (test_screen_syscalls A x)"
  unfolding test_screen_syscalls_def same_addr by (intro parts says read_int_sim)

lemma say_if_sim: "rep w x \<Longrightarrow> follows rep (say_if U c s l s' l' w) (say_if A c s l s' l' x)"
  unfolding say_if_def by (intro parts says)

lemma say_address_sim: "rep w x \<Longrightarrow> follows rep (say_address U p w) (say_address A p x)"
  unfolding say_address_def same_addr by (intro parts says)

lemma show_value_sim: "rep w x \<Longrightarrow> follows (with_answer rep) (show_value U p b s l w) (show_value A p b s l x)"
  unfolding show_value_def same_addr by (intro parts follows_value says)

lemmas shm_says = parts says say_if_sim say_address_sim show_value_sim

lemma shmat_child_sim:
  "rep w x \<Longrightarrow> follows (rel_flow rep) (shmat_child U i p f lf g lg v w) (shmat_child A i p f lf g lg v x)"
  unfolding shmat_child_def by (intro shm_says)

lemma test_shmat_sim: "rep w x \<Longrightarrow> follows (rel_flow rep) (test_shmat U w) (test_shmat A x)"
  unfolding test_shmat_def test_shmat_part_1_def test_shmat_part_2_def test_shmat_part_3_def
  by (intro follows_bind [of "rel_flow rep"] follows_and_then shm_says shmat_child_sim)

lemma shm_child_sim: "rep w x \<Longrightarrow> follows (rel_flow rep) (shm_child U n b p v d w) (shm_child A n b p v d x)"
  unfolding shm_child_def by (intro shm_says)

lemma shm_after_exit_sim: "rep w x \<Longrightarrow> follows (rel_flow rep) (shm_after_exit U w) (shm_after_exit A x)"
  unfolding shm_after_exit_def by (intro shm_says)

lemma heir_sim: "rep w x \<Longrightarrow> follows (rel_flow rep) (heir U n b s p w) (heir A n b s p x)"
  unfolding heir_def by (intro shm_says)

lemma test_shmdt_parts_sim:
  assumes "rep w x"
  shows "follows (rel_flow rep) (test_shmdt_part_A U w) (test_shmdt_part_A A x)"
    "follows (rel_flow rep) (test_shmdt_part_B U w) (test_shmdt_part_B A x)"
    "follows (rel_flow rep) (test_shmdt_part_C U w) (test_shmdt_part_C A x)"
    "follows (rel_flow rep) (test_shmdt_part_D U w) (test_shmdt_part_D A x)"
    "follows (rel_flow rep) (test_shmdt_part_E U w) (test_shmdt_part_E A x)"
    "follows (rel_flow rep) (test_shmdt_part_F1 U w) (test_shmdt_part_F1 A x)"
    "follows (rel_flow rep) (test_shmdt_part_F2 U w) (test_shmdt_part_F2 A x)"
    "follows (rel_flow rep) (test_shmdt_part_F3 U w) (test_shmdt_part_F3 A x)"
  unfolding test_shmdt_part_A_def test_shmdt_part_B_def test_shmdt_part_C_def test_shmdt_part_D_def
    test_shmdt_part_E_def test_shmdt_part_F1_def test_shmdt_part_F2_def test_shmdt_part_F3_def
  by ((intro shm_says shm_child_sim shm_after_exit_sim heir_sim assms; assumption)+)

lemma test_shmdt_shmrm_sim: "rep w x \<Longrightarrow> follows (rel_flow rep) (test_shmdt_shmrm U w) (test_shmdt_shmrm A x)"
  unfolding test_shmdt_shmrm_def by (intro follows_bind [of "rel_flow rep"] follows_and_then test_shmdt_parts_sim)

lemma menu_turn_sim: "rep w x \<Longrightarrow> follows (rel_flow rep) (menu_turn U w) (menu_turn A x)"
  unfolding menu_turn_def show_menu_def same_addr
  by (intro parts follows_value says load_sim test_m3_addresses_sim test_m3_stress_sim test_read_simple_sim
      test_read_multiprocess_sim test_screen_syscalls_sim test_shmat_sim test_shmdt_shmrm_sim)

end

end
