(* ===== verification/Process_View.thy ===== *)
theory Process_View
  imports Program_Simulation Invariant
begin

text \<open>
  What a process sees of the system while it runs without interrupts: \<open>process_view\<close> is its memory, the screen, the keys that
  have been typed, and the few numbers of the kernel that its calls depend on; \<open>view_env\<close> says what the system calls do to it.
  It is an environment for the programs of \<open>User_Programs\<close>, as the kernel is. A call that would wait has no result here, nor
  have \<open>exit\<close>, \<open>block\<close> and an access outside the image of the process.
\<close>

record process_view =
  display :: screen
  typed :: "byte list"
  memory :: "nat \<Rightarrow> byte"
  free_count :: nat
  last_pid :: int
  own_pid :: int
  kids :: "(int \<times> int) list"
  time :: int

text \<open>The bytes of a buffer.\<close>

definition bytes_at :: "(nat \<Rightarrow> byte) \<Rightarrow> dword \<Rightarrow> nat \<Rightarrow> byte list" where
  "bytes_at m p n = map (\<lambda>i. m (unat p + i)) [0..<n]"

text \<open>The memory after \<open>bs\<close> has been stored at \<open>p\<close>.\<close>

definition put_bytes :: "dword \<Rightarrow> byte list \<Rightarrow> (nat \<Rightarrow> byte) \<Rightarrow> nat \<Rightarrow> byte" where
  "put_bytes p bs m a = (if unat p \<le> a \<and> a < unat p + length bs then bs ! (a - unat p) else m a)"

section \<open>The calls\<close>

definition view_write :: "int \<Rightarrow> dword \<Rightarrow> int \<Rightarrow> process_view \<Rightarrow> (int \<times> process_view) option" where
  "view_write fd p n x =
     (if fd \<noteq> 1 then Some (- EBADF, x)
      else if p = 0 then Some (- EFAULT, x)
      else if n < 0 \<or> access_ok VERIFY_READ p (of_int n) = 0 then Some (- EINVAL, x)
      else if user_range p n
      then Some (n, x\<lparr>display := fold printc (bytes_at (memory x) p (nat n)) (display x)\<rparr>)
      else None)"

definition view_read :: "dword \<Rightarrow> int \<Rightarrow> process_view \<Rightarrow> (int \<times> process_view) option" where
  "view_read p n x =
     (if p = 0 then Some (- EFAULT, x)
      else if n < 0 then Some (- EINVAL, x)
      else if n = 0 then Some (0, x\<lparr>typed := []\<rparr>)
      else if access_ok VERIFY_WRITE p (of_int n) = 0 then Some (- EFAULT, x)
      else if user_range p n \<and> typed x \<noteq> []
      then
        let bs = take (min (nat n) 256) (typed x)
        in Some (int (length bs), x\<lparr>typed := drop (length bs) (typed x), memory := put_bytes p bs (memory x)\<rparr>)
      else None)"

text \<open>A refused fork may cost a frame.\<close>

definition view_fork :: "process_view \<Rightarrow> (int \<times> process_view) option" where
  "view_fork x =
     (if 23 \<le> free_count x
      then Some (last_pid x + 1, x\<lparr>free_count := free_count x - 23, last_pid := last_pid x + 1,
                                  kids := kids x @ [(last_pid x + 1, 0)]\<rparr>)
      else if free_count x = 0 then Some (- ENOMEM, x)
      else Some (- EAGAIN, x\<lparr>free_count := (if free_count x \<le> 1 then free_count x else free_count x - 1)\<rparr>))"

definition view_unblock :: "int \<Rightarrow> process_view \<Rightarrow> (int \<times> process_view) option" where
  "view_unblock pid x =
     (if pid \<in> fst ` set (kids x)
      then Some (0, x\<lparr>kids := map (\<lambda>(p, n). if p = pid then (p, n + 1) else (p, n)) (kids x)\<rparr>)
      else None)"

definition on_display :: "int \<times> screen \<Rightarrow> process_view \<Rightarrow> (int \<times> process_view) option" where
  "on_display r x = Some (fst r, x\<lparr>display := snd r\<rparr>)"

definition view_call :: "dword \<Rightarrow> dword \<Rightarrow> dword \<Rightarrow> dword \<Rightarrow> process_view \<Rightarrow> (int \<times> process_view) option" where
  "view_call n a b c x =
     (if n = 2 then view_fork x
      else if n = 3 then view_read a (sint b) x
      else if n = 4 then view_write (sint a) b (sint c) x
      else if n = 10 then Some (time x, x)
      else if n = 20 then Some (own_pid x, x)
      else if n = 22 then view_unblock (sint a) x
      else if n = 23 then on_display (sys_gotoxy (sint a) (sint b) (display x)) x
      else if n = 24 then on_display (sys_set_color (sint a) (sint b) (display x)) x
      else None)"

definition view_env :: "(string \<Rightarrow> dword) \<Rightarrow> (symbol \<Rightarrow> dword) \<Rightarrow> process_view user_env" where
  "view_env l s =
     \<lparr>sysenter = view_call,
      load8 = (\<lambda>p x. if user_range p 1 then Some (memory x (unat p)) else None),
      store8 = (\<lambda>p v x. if user_range p 1 then Some (x\<lparr>memory := put_bytes p [v] (memory x)\<rparr>) else None),
      lit = l, addr = s\<rparr>"

end
