(* ===== verification/User_Kernel.thy ===== *)
theory User_Kernel
  imports Whole Process_View
begin

text \<open>
  A user program on the kernel. A \<open>world\<close> is the kernel with the process whose program is followed, the entries by others and
  by the devices that are still to come, and the sides that the program takes when it forks. The locale \<open>simulation\<close> is
  interpreted on the kernel: while nobody interrupts, the process sees what \<open>view_env\<close> says.
\<close>

section \<open>The kernel as an environment\<close>

text \<open>
  \<open>batches\<close> holds the entries before the next call, and after a call that gives up the processor those until the process
  has it again. \<open>branches\<close> says for each fork whether the program goes on as the child, and in which PCB.
\<close>

record world =
  kern :: kernel
  me :: nat
  batches :: "event list list"
  branches :: "nat option list"

definition next_batch :: "world \<Rightarrow> event list \<times> world" where
  "next_batch w = (case batches w of [] \<Rightarrow> ([], w) | es # bs \<Rightarrow> (es, w\<lparr>batches := bs\<rparr>))"

fun interrupts :: "(int \<Rightarrow> screen \<Rightarrow> screen) \<Rightarrow> event list \<Rightarrow> kernel \<Rightarrow> kernel option" where
  "interrupts clk [] k = Some k"
| "interrupts clk (e # es) k = do {
     (_, k) \<leftarrow> kernel_step clk e k;
     interrupts clk es k }"

text \<open>The entries until process \<open>p\<close> runs, with the answer it takes to user mode; the last entry is the one that resumes it.\<close>

fun wait_turn :: "(int \<Rightarrow> screen \<Rightarrow> screen) \<Rightarrow> nat \<Rightarrow> event list \<Rightarrow> kernel \<Rightarrow> (int \<times> kernel) option" where
  "wait_turn clk p [] k = None"
| "wait_turn clk p (e # es) k = do {
     (r, k) \<leftarrow> kernel_step clk e k;
     if current k = p then (if es = [] then do { v \<leftarrow> r; Some (v, k) } else None)
     else wait_turn clk p es k }"

text \<open>After a fork that gave \<open>r\<close>: the program goes on in the parent, or in the child once that has the processor.\<close>

definition take_branch :: "(int \<Rightarrow> screen \<Rightarrow> screen) \<Rightarrow> int \<Rightarrow> kernel \<Rightarrow> world \<Rightarrow> (int \<times> world) option" where
  "take_branch clk r k w =
     (case branches w of
        [] \<Rightarrow> Some (r, w\<lparr>kern := k\<rparr>)
      | None # bs \<Rightarrow> Some (r, w\<lparr>kern := k, branches := bs\<rparr>)
      | Some c # bs \<Rightarrow>
          if PID (tasks k c) = r \<and> parent (tasks k c) = Some (me w) then do {
            let (es, w) = next_batch w;
            (v, k) \<leftarrow> wait_turn clk c es k;
            Some (v, w\<lparr>kern := k, me := c, branches := bs\<rparr>) }
          else None)"

definition kernel_call ::
  "(int \<Rightarrow> screen \<Rightarrow> screen) \<Rightarrow> dword \<Rightarrow> dword \<Rightarrow> dword \<Rightarrow> dword \<Rightarrow> world \<Rightarrow> (int \<times> world) option"
where
  "kernel_call clk n a b c w = do {
     let (es, w) = next_batch w;
     k \<leftarrow> interrupts clk es (kern w);
     if current k \<noteq> me w then None
     else do {
       (r, k) \<leftarrow> kernel_step clk (Syscall n a b c) k;
       if n = 1 then Some (0, w\<lparr>kern := k\<rparr>)
       else if current k = me w then do {
         v \<leftarrow> r;
         if n = 2 \<and> v > 0 then take_branch clk v k w else Some (v, w\<lparr>kern := k\<rparr>) }
       else do {
         let (es, w) = next_batch w;
         (v, k) \<leftarrow> wait_turn clk (me w) es k;
         Some (v, w\<lparr>kern := k\<rparr>) } } }"

definition kernel_env ::
  "(int \<Rightarrow> screen \<Rightarrow> screen) \<Rightarrow> (string \<Rightarrow> dword) \<Rightarrow> (symbol \<Rightarrow> dword) \<Rightarrow> world user_env"
where
  "kernel_env clk l s =
     \<lparr>sysenter = kernel_call clk,
      load8 = (\<lambda>p w. load_byte (mach (kern w)) p),
      store8 = (\<lambda>p v w. map_option (\<lambda>m. w\<lparr>kern := (kern w)\<lparr>mach := m\<rparr>\<rparr>) (store_byte p v (mach (kern w)))),
      lit = l, addr = s\<rparr>"

section \<open>What the process sees\<close>

definition kid_list :: "kernel \<Rightarrow> nat list \<Rightarrow> (int \<times> int) list" where
  "kid_list k cs = map (\<lambda>c. (PID (tasks k c), pending_unblocks (tasks k c))) cs"

definition sees :: "world \<Rightarrow> process_view \<Rightarrow> bool" where
  "sees w x \<longleftrightarrow>
     batches w = [] \<and> branches w = [] \<and> current (kern w) = me w \<and> idle_task (kern w) \<noteq> Some (me w) \<and>
     (\<exists>v cf cu. kernel_ok (kern w) v cf \<and> children_unblocked v (me w) = Some cu \<and> kids x = kid_list (kern w) cu) \<and>
     scr (kern w) = display x \<and> kbd_contents (kbd_st (kern w)) = typed x \<and>
     (\<forall>a. 0x800000 \<le> a \<and> a < 0x81C000 \<longrightarrow> image_byte (kern w) (me w) a = memory x a) \<and>
     card (allocatable (frames (kern w))) = free_count x \<and> pidGlobal (kern w) = last_pid x \<and>
     PID (tasks (kern w) (me w)) = own_pid x \<and> zeos_ticks (kern w) = time x"

lemma seesD:
  assumes "sees w x"
  shows "batches w = []" "branches w = []" "current (kern w) = me w" "idle_task (kern w) \<noteq> Some (me w)"
    "scr (kern w) = display x" "kbd_contents (kbd_st (kern w)) = typed x"
    "0x800000 \<le> a \<Longrightarrow> a < 0x81C000 \<Longrightarrow> image_byte (kern w) (me w) a = memory x a"
    "card (allocatable (frames (kern w))) = free_count x" "pidGlobal (kern w) = last_pid x"
    "PID (tasks (kern w) (me w)) = own_pid x" "zeos_ticks (kern w) = time x"
  using assms by (simp_all add: sees_def)

lemma seesE:
  assumes "sees w x"
  obtains v cf cu where "kernel_ok (kern w) v cf" and "children_unblocked v (me w) = Some cu" and "kids x = kid_list (kern w) cu"
  using assms unfolding sees_def by blast

lemma user_place_ram: "user_place (k\<lparr>kbd_st := kb, mach := (mach k)\<lparr>ram := r\<rparr>, scr := s\<rparr>) p a = user_place k p a"
proof -
  have "table (k\<lparr>kbd_st := kb, mach := (mach k)\<lparr>ram := r\<rparr>, scr := s\<rparr>) = table k" by (simp add: table_def fun_eq_iff)
  then show ?thesis by (simp add: user_place_def user_table_def get_DIR_def)
qed

text \<open>Changes of the screen, the keyboard buffer and of bytes.\<close>

lemma sees_data:
  assumes sees: "sees w x" and kb: "kbd_ok kb" and s: "screen_ok s"
    and r: "\<And>a. 0x800000 \<le> a \<Longrightarrow> a < 0x81C000 \<Longrightarrow> r (user_place (kern w) (me w) a) = m a"
  shows "sees (w\<lparr>kern := (kern w)\<lparr>kbd_st := kb, mach := (mach (kern w))\<lparr>ram := r\<rparr>, scr := s\<rparr>\<rparr>)
              (x\<lparr>display := s, typed := kbd_contents kb, memory := m\<rparr>)"
proof -
  let ?k = "(kern w)\<lparr>kbd_st := kb, mach := (mach (kern w))\<lparr>ram := r\<rparr>, scr := s\<rparr>"
  obtain v cf cu where v: "kernel_ok (kern w) v cf" "children_unblocked v (me w) = Some cu" "kids x = kid_list (kern w) cu"
    using sees by (rule seesE)
  have "safe_step cf UNIV (kern w) v ?k v"
    using safe_step_data [OF v(1) kb s, where r = r and F = UNIV and z = "zeos_ticks (kern w)"] by simp
  then have "kernel_ok ?k v cf" by (rule safe_stepD)
  moreover have "image_byte ?k (me w) a = m a" if "0x800000 \<le> a" "a < 0x81C000" for a
    using r that by (simp add: image_byte_def user_place_ram)
  ultimately show ?thesis using seesD [OF sees] v(2,3) by (auto simp: sees_def kid_list_def)
qed

lemma sees_keys:
  assumes sees: "sees w x" and kb: "kbd_ok kb"
    and r: "\<And>a. 0x800000 \<le> a \<Longrightarrow> a < 0x81C000 \<Longrightarrow> r (user_place (kern w) (me w) a) = m a"
  shows "sees (w\<lparr>kern := (kern w)\<lparr>kbd_st := kb, mach := (mach (kern w))\<lparr>ram := r\<rparr>\<rparr>\<rparr>) (x\<lparr>typed := kbd_contents kb, memory := m\<rparr>)"
proof -
  obtain v cf where "kernel_ok (kern w) v cf" using sees by (rule seesE)
  then have ok: "screen_ok (scr (kern w))" by (rule kernel_okD)
  have "x\<lparr>display := scr (kern w), typed := kbd_contents kb, memory := m\<rparr> = x\<lparr>typed := kbd_contents kb, memory := m\<rparr>"
    by (simp add: seesD(5) [OF sees])
  moreover have "(kern w)\<lparr>kbd_st := kb, mach := (mach (kern w))\<lparr>ram := r\<rparr>, scr := scr (kern w)\<rparr> =
      (kern w)\<lparr>kbd_st := kb, mach := (mach (kern w))\<lparr>ram := r\<rparr>\<rparr>" by simp
  ultimately show ?thesis using sees_data [where r = r and m = m, OF sees kb ok r] by metis
qed

text \<open>A call that does not give up the processor.\<close>

lemma kernel_call_answers:
  assumes sees: "sees w x" and h: "system_call_handler n a b c (kern w) = Some (Return r, k)"
    and c: "current k = me w" and n: "n \<noteq> 1"
  shows "kernel_call clk n a b c w = Some (r, w\<lparr>kern := k\<rparr>)"
  using seesD(1-3) [OF sees] h c n by (simp add: kernel_call_def next_batch_def take_branch_def)

section \<open>Writing and reading\<close>

text \<open>The bytes of the process that are not written, and those of the kernel's own buffer.\<close>

lemma sees_own_buffer:
  assumes sees: "sees w x" and a: "0x800000 \<le> a" "a < 0x81C000"
  shows "user_place (kern w) (me w) a \<notin> (\<lambda>i. unat (buffer_sys (kern w)) + i) ` {..<256}"
proof -
  obtain v cf where ok: "kernel_ok (kern w) v cf" using sees by (rule seesE)
  note d = kernel_okD [OF ok]
  have me: "me w \<noteq> the (idle_task (kern w))" using seesD(4) [OF sees] sched_ok_idle [OF d(1)] by auto
  have "me w \<in> all_tasks (kern w) v" using current_in_all [of "kern w"] seesD(3) [OF sees] by simp
  from user_place_frame(2) [OF d(3) this me a]
  have "last_kernel (frames (kern w)) * 4096 \<le> user_place (kern w) (me w) a" .
  moreover have "unat (buffer_sys (kern w)) + 256 \<le> last_kernel (frames (kern w)) * 4096"
    using mem_okD(7) [OF d(3)] by (simp add: kernel_mapped_def)
  ultimately show ?thesis by auto
qed

lemma sees_image:
  assumes sees: "sees w x" and a: "0x800000 \<le> a" "a < 0x81C000"
    and r: "\<And>b. b \<notin> (\<lambda>i. unat (buffer_sys (kern w)) + i) ` {..<256} \<Longrightarrow> r b = ram (mach (kern w)) b"
  shows "r (user_place (kern w) (me w) a) = memory x a"
  using r [OF sees_own_buffer [OF sees a]] seesD(7) [OF sees a] by (simp add: image_byte_def)

lemma sees_place_inj:
  assumes sees: "sees w x" and a: "0x800000 \<le> a" "a < 0x81C000" "0x800000 \<le> b" "b < 0x81C000"
    and e: "user_place (kern w) (me w) a = user_place (kern w) (me w) b"
  shows "a = b"
proof -
  obtain v cf where ok: "kernel_ok (kern w) v cf" using sees by (rule seesE)
  note d = kernel_okD [OF ok]
  have me: "me w \<noteq> the (idle_task (kern w))" using seesD(4) [OF sees] sched_ok_idle [OF d(1)] by auto
  have "me w \<in> all_tasks (kern w) v" using current_in_all [of "kern w"] seesD(3) [OF sees] by simp
  from user_place_inj [OF d(3) this me a e] show ?thesis .
qed

lemma sees_user_buffer:
  assumes sees: "sees w x" and r: "user_range p (int n)"
  shows "mapped (mach (kern w)) p n (\<lambda>i. user_place (kern w) (me w) (unat p + i))"
    and "inj_on (\<lambda>i. user_place (kern w) (me w) (unat p + i)) {..<n}"
    and "m \<le> 256 \<Longrightarrow> mapped (mach (kern w)) (buffer_sys (kern w)) m (\<lambda>i. unat (buffer_sys (kern w)) + i)"
    and "m \<le> 256 \<Longrightarrow> (\<lambda>i. unat (buffer_sys (kern w)) + i) ` {..<m} \<inter>
           (\<lambda>i. user_place (kern w) (me w) (unat p + i)) ` {..<n} = {}"
    and "i < n \<Longrightarrow> ram (mach (kern w)) (user_place (kern w) (me w) (unat p + i)) = memory x (unat p + i)"
proof -
  obtain v cf where ok: "kernel_ok (kern w) v cf" using sees by (rule seesE)
  note d = kernel_okD [OF ok] and c = seesD(3) [OF sees]
  have "current (kern w) \<noteq> the (idle_task (kern w))" using seesD(3,4) [OF sees] sched_ok_idle [OF d(1)] by auto
  note ub = user_buffer [OF d(3) this r, unfolded c]
  show "mapped (mach (kern w)) p n (\<lambda>i. user_place (kern w) (me w) (unat p + i))"
    "inj_on (\<lambda>i. user_place (kern w) (me w) (unat p + i)) {..<n}"
    "m \<le> 256 \<Longrightarrow> mapped (mach (kern w)) (buffer_sys (kern w)) m (\<lambda>i. unat (buffer_sys (kern w)) + i)"
    "m \<le> 256 \<Longrightarrow> (\<lambda>i. unat (buffer_sys (kern w)) + i) ` {..<m} \<inter>
           (\<lambda>i. user_place (kern w) (me w) (unat p + i)) ` {..<n} = {}"
    by (fact ub)+
  assume "i < n"
  then have "0x800000 \<le> unat p + i" "unat p + i < 0x81C000" using r unfolding user_range_def by linarith+
  from seesD(7) [OF sees this]
  show "ram (mach (kern w)) (user_place (kern w) (me w) (unat p + i)) = memory x (unat p + i)" by (simp add: image_byte_def)
qed

lemma sees_write:
  assumes sees: "sees w x" and v: "view_write fd p n x = Some (r, x')"
  shows "\<exists>k. sys_write fd p n (kern w) = Some (r, k) \<and> current k = me w \<and> sees (w\<lparr>kern := k\<rparr>) x'"
proof (cases "fd = 1 \<and> p \<noteq> 0 \<and> 0 \<le> n \<and> access_ok VERIFY_READ p (of_int n) \<noteq> 0")
  case True
  define m where "m = nat n"
  have m: "n = int m" using True by (simp add: m_def)
  have ur: "user_range p (int m)" and x': "r = int m" "x' = x\<lparr>display := fold printc (bytes_at (memory x) p m) (display x)\<rparr>"
    using v True by (simp_all add: view_write_def m split: if_splits)
  let ?P = "\<lambda>i. user_place (kern w) (me w) (unat p + i)" and ?Q = "\<lambda>i. unat (buffer_sys (kern w)) + i"
  note buf = sees_user_buffer [OF sees ur]
  have "write_ready (kern w) p m ?P ?Q" using buf(1) buf(3,4) [of 256] by (auto simp: write_ready_def inj_on_def)
  moreover have same: "map (\<lambda>i. ram (mach (kern w)) (?P i)) [0..<m] = bytes_at (memory x) p m"
    using buf(5) by (simp add: bytes_at_def)
  moreover have "access_ok VERIFY_READ p (of_nat m) \<noteq> 0" using True by (simp add: m)
  ultimately obtain k where k: "sys_write 1 p (int m) (kern w) = Some (int m, k)"
      "shown ?Q (bytes_at (memory x) p m) (kern w) k"
    using sys_write_shows [of "kern w" p m ?P ?Q] True unfolding same by blast
  then obtain r' where r': "k = (kern w)\<lparr>mach := (mach (kern w))\<lparr>ram := r'\<rparr>,
        scr := fold printc (bytes_at (memory x) p m) (scr (kern w))\<rparr>"
      "\<And>a. a \<notin> ?Q ` {..<256} \<Longrightarrow> r' a = ram (mach (kern w)) a"
    unfolding shown_def by blast
  obtain u cf where "kernel_ok (kern w) u cf" using sees by (rule seesE)
  then have ok: "kbd_ok (kbd_st (kern w))" "screen_ok (scr (kern w))" by (simp_all add: kernel_okD)
  have img: "r' (user_place (kern w) (me w) a) = memory x a" if "0x800000 \<le> a" "a < 0x81C000" for a
    by (rule sees_image [OF sees that]) (rule r'(2))
  have "sees (w\<lparr>kern := k\<rparr>) x'"
    using sees_data [where r = r' and m = "memory x", OF sees ok(1) fold_printc_ok [OF ok(2), of "bytes_at (memory x) p m"] img]
      seesD(5,6) [OF sees] by (simp add: r'(1) x')
  then show ?thesis using k(1) True seesD(3) [OF sees] by (simp add: m x'(1) r'(1))
next
  case False
  then have "sys_write fd p n (kern w) = Some (r, kern w)" "x' = x"
    using v by (auto simp: view_write_def sys_write_def check_fd_def split: if_splits)
  then show ?thesis using sees seesD(3) [OF sees] by simp
qed

lemma sees_read:
  assumes sees: "sees w x" and v: "view_read p n x = Some (r, x')"
  shows "\<exists>k. sys_read p n (kern w) = Some (Return r, k) \<and> current k = me w \<and> sees (w\<lparr>kern := k\<rparr>) x'"
proof (cases "p \<noteq> 0 \<and> 0 < n \<and> access_ok VERIFY_WRITE p (of_int n) \<noteq> 0")
  case True
  obtain u cf where "kernel_ok (kern w) u cf" using sees by (rule seesE)
  then have ok: "kbd_ok (kbd_st (kern w))" "screen_ok (scr (kern w))" by (simp_all add: kernel_okD)
  define m where "m = nat (min n 256)"
  have m: "0 < m" "m \<le> 256" "(if n > 256 then 256 else n) = int m" "min (nat n) 256 = m"
    using True by (auto simp: m_def)
  let ?bs = "take m (typed x)"
  define t where "t = length ?bs"
  have ur: "user_range p n" "typed x \<noteq> []" and x': "r = int t"
      "x' = x\<lparr>typed := drop t (typed x), memory := put_bytes p ?bs (memory x)\<rparr>"
    using v True by (simp_all add: view_read_def t_def Let_def m(4) split: if_splits)
  have t: "t = min m (length (kbd_contents (kbd_st (kern w))))" "0 < t" "t \<le> 256"
    using m(1,2) ur(2) seesD(6) [OF sees] by (simp_all add: t_def min.commute)
  have ut: "user_range p (int t)" using ur(1) True m t unfolding user_range_def t_def m_def by linarith
  note buf = sees_user_buffer [OF sees ut]
  let ?P = "\<lambda>i. user_place (kern w) (me w) (unat p + i)" and ?Q = "\<lambda>i. unat (buffer_sys (kern w)) + i"
  have inj: "inj_on ?Q {..<t}" by (simp add: inj_on_def)
  obtain kb r' where s: "serve_read p (int m) (kern w) = Some (int t, (kern w)\<lparr>kbd_st := kb, mach := (mach (kern w))\<lparr>ram := r'\<rparr>\<rparr>)"
      "kbd_ok kb" "kbd_contents kb = drop t (kbd_contents (kbd_st (kern w)))"
      "\<And>i. i < t \<Longrightarrow> r' (?P i) = kbd_contents (kbd_st (kern w)) ! i"
      "\<And>a. a \<notin> ?Q ` {..<t} \<union> ?P ` {..<t} \<Longrightarrow> r' a = ram (mach (kern w)) a"
    by (rule serve_read_gets [where P = ?Q and Q = ?P, OF ok(1) t(1,2) buf(3) [OF t(3)] inj buf(1,2) buf(4) [OF t(3)]]) (rule that)
  have "r' (user_place (kern w) (me w) a) = put_bytes p ?bs (memory x) a" if a: "0x800000 \<le> a" "a < 0x81C000" for a
  proof (cases "unat p \<le> a \<and> a < unat p + t")
    case True
    then have i: "a - unat p < t" "unat p + (a - unat p) = a" by linarith+
    have "a - unat p < m" using i(1) by (simp add: t_def)
    then show ?thesis using s(4) [OF i(1)] True seesD(6) [OF sees] unfolding i(2) by (simp add: put_bytes_def t_def)
  next
    case False
    have "user_place (kern w) (me w) a \<noteq> ?P i" if i: "i < t" for i
    proof
      have b: "0x800000 \<le> unat p + i" "unat p + i < 0x81C000" using i ut unfolding user_range_def by linarith+
      assume "user_place (kern w) (me w) a = ?P i"
      then have "a = unat p + i" by (rule sees_place_inj [OF sees a b])
      then show False using False i by simp
    qed
    moreover have "user_place (kern w) (me w) a \<notin> ?Q ` {..<256}" by (rule sees_own_buffer [OF sees a])
    ultimately have "r' (user_place (kern w) (me w) a) = ram (mach (kern w)) (user_place (kern w) (me w) a)"
      using t(3) by (intro s(5)) auto
    then show ?thesis using False seesD(7) [OF sees a] by (auto simp: put_bytes_def t_def image_byte_def)
  qed
  then have "sees (w\<lparr>kern := (kern w)\<lparr>kbd_st := kb, mach := (mach (kern w))\<lparr>ram := r'\<rparr>\<rparr>\<rparr>) x'"
    using sees_keys [where r = r' and m = "put_bytes p ?bs (memory x)", OF sees s(2)] s(3) seesD(6) [OF sees] by (simp add: x')
  moreover have "sys_read p n (kern w) = Some (Return (int t), (kern w)\<lparr>kbd_st := kb, mach := (mach (kern w))\<lparr>ram := r'\<rparr>\<rparr>)"
    using True s(1) t(2) m(3) by (simp add: sys_read_def Let_def)
  ultimately show ?thesis using seesD(3) [OF sees] x'(1) by simp
next
  case False
  then consider "sys_read p n (kern w) = Some (Return r, kern w)" "x' = x"
    | "n = 0" "p \<noteq> 0" "r = 0" "x' = x\<lparr>typed := []\<rparr>"
    using v by (auto simp: view_read_def sys_read_def split: if_splits)
  then show ?thesis
  proof cases
    case 1
    then show ?thesis using sees seesD(3) [OF sees] by simp
  next
    case 2
    let ?kb = "kbd_buf_flush (kbd_st (kern w))"
    obtain u cf where "kernel_ok (kern w) u cf" using sees by (rule seesE)
    then have ok: "kbd_ok ?kb" "kbd_contents ?kb = []" by (simp_all add: kernel_okD kbd_ok_def kbd_buf_flush_def kbd_contents_def)
    have "sees (w\<lparr>kern := (kern w)\<lparr>kbd_st := ?kb\<rparr>\<rparr>) x'"
      using sees_keys [where r = "ram (mach (kern w))" and m = "memory x", OF sees ok(1)] seesD(7) [OF sees]
      by (simp add: 2(4) ok(2) image_byte_def)
    then show ?thesis using 2 seesD(3) [OF sees] by (simp add: sys_read_def)
  qed
qed

section \<open>Forking and waking\<close>

text \<open>What is neither the kernel's nor free or shared stays as it is.\<close>

lemma image_kept:
  assumes ok: "kernel_ok k v cf" "kernel_ok k' v' cf" and p: "p \<in> all_tasks k v" "p \<in> all_tasks k' v'" "idle_task k \<noteq> Some p"
    and s: "frames_kept k k' v cf" and r: "\<And>b. b div 4096 \<notin> pool k \<union> kernel_image k \<Longrightarrow> ram (mach k') b = ram (mach k) b"
    and a: "0x800000 \<le> a" "a < 0x81C000"
  shows "image_byte k' p a = image_byte k p a"
proof -
  note d = kernel_okD [OF ok(1)] and d' = kernel_okD [OF ok(2)]
  have i: "idle_task k' = idle_task k" using s by (simp add: frames_kept_def)
  have pi: "p \<noteq> the (idle_task k)" using p(3) sched_ok_idle [OF d(1)] by auto
  let ?j = "a div 4096 - 2048"
  let ?u = "if ?j < 20 then Use_data p ?j else Use_code (?j - 20)"
  have j: "?j < 28" using a by simp
  note f = image_frame [OF d(3) p(1) pi j] and f' = image_frame [OF d'(3) p(2) _ j, unfolded i, OF pi]
  have "frame_of k' cf ?u = frame_of k cf ?u" using s f(1) unfolding frames_kept_def by blast
  then have place: "user_place k' p a = user_place k p a" using f(2) f'(2) by (simp add: user_place_def)
  have "user_place k p a div 4096 = frame_of k cf ?u" using f(2) by (simp add: user_place_def)
  moreover have "frame_of k cf ?u \<notin> pool k" by (rule pool_apart(1) [OF mem_okD(8) [OF d(3)] f(1)])
  moreover have "frame_of k cf ?u \<notin> kernel_image k"
    using frames_apartD(5) [OF mem_okD(8) [OF d(3)] f(1)] by (simp add: kernel_image_def)
  ultimately show ?thesis using r [of "user_place k p a"] by (simp add: image_byte_def place)
qed

lemma sees_step:
  assumes sees: "sees w x" and ok: "kernel_ok (kern w) v cf" "kernel_ok k v' cf" and s: "frames_kept (kern w) k v cf"
    and r: "\<And>b. b div 4096 \<notin> pool (kern w) \<union> kernel_image (kern w) \<Longrightarrow> ram (mach k) b = ram (mach (kern w)) b"
    and c: "current k = me w" and cu: "children_unblocked v' (me w) = Some cu"
  shows "sees (w\<lparr>kern := k\<rparr>) (x\<lparr>display := scr k, typed := kbd_contents (kbd_st k), free_count := card (allocatable (frames k)),
      last_pid := pidGlobal k, own_pid := PID (tasks k (me w)), kids := kid_list k cu, time := zeos_ticks k\<rparr>)"
proof -
  have "idle_task k = idle_task (kern w)" using s by (simp add: frames_kept_def)
  moreover have "image_byte k (me w) a = memory x a" if a: "0x800000 \<le> a" "a < 0x81C000" for a
  proof -
    have "me w \<in> all_tasks (kern w) v" "me w \<in> all_tasks k v'"
      using current_in_all [of "kern w"] current_in_all [of k] seesD(3) [OF sees] c by simp_all
    from image_kept [OF ok this seesD(4) [OF sees] s r a] show ?thesis using seesD(7) [OF sees a] by simp
  qed
  ultimately show ?thesis using seesD(1-4) [OF sees] c ok(2) cu by (auto simp: sees_def)
qed

lemma sees_fork:
  assumes sees: "sees w x" and v: "view_fork x = Some (r, x')"
  shows "\<exists>k. sys_fork (kern w) = Some (r, k) \<and> current k = me w \<and> sees (w\<lparr>kern := k\<rparr>) x'"
proof -
  obtain u cf cu where ok: "kernel_ok (kern w) u cf" and cu: "children_unblocked u (me w) = Some cu"
      and kids: "kids x = kid_list (kern w) cu" using sees by (rule seesE)
  note d = kernel_okD [OF ok] and s = seesD [OF sees]
  have me: "idle_task (kern w) \<noteq> Some (current (kern w))" using s(3,4) by simp
  have mine: "me w \<in> all_tasks (kern w) u" using current_in_all [of "kern w"] s(3) by simp
  have cl: "set cu \<subseteq> all_tasks (kern w) u" using d(4) cu unfolding lists_closed_def by blast
  consider "23 \<le> free_count x" | "0 < free_count x" "free_count x < 23" | "free_count x = 0" by linarith
  then show ?thesis
  proof cases
    case 1
    obtain c dd fs k where k: "sys_fork (kern w) = Some (pidGlobal (kern w) + 1, k)" "c \<notin> all_tasks (kern w) u"
        "kernel_ok k (fork_queues (kern w) c u) cf" "current k = current (kern w)" "child_memory (kern w) cf c fs k"
        "tasks k = (tasks (kern w))(c := (tasks (kern w) (current (kern w)))\<lparr>dir_pages_baseAddr := dd, PID := pidGlobal (kern w) + 1,
           quantum := 10, parent := Some (current (kern w)), pending_unblocks := 0, resume := Ret_from_fork\<rparr>)"
        "card (allocatable (frames k)) + 23 = card (allocatable (frames (kern w)))"
        "table k (the (kernel_page_table k)) 512 = 0" "frames_kept (kern w) k u cf"
        "rest_same ((kern w)\<lparr>pidGlobal := pidGlobal (kern w) + 1\<rparr>) k"
      by (rule fork_succeeds [OF ok me]) (use 1 s(8) in simp, rule that)
    note rs = rest_sameD [OF k(10)]
    have cq: "children_unblocked (fork_queues (kern w) c u) (me w) = Some (cu @ [c])" using cu s(3) by (simp add: fork_queues_def)
    have cm: "c \<noteq> me w" "c \<notin> set cu" using k(2) mine cl by auto
    have fc: "card (allocatable (frames k)) = free_count x - 23" using k(7) s(8) by linarith
    have kl: "kid_list k (cu @ [c]) = kids x @ [(last_pid x + 1, 0)]"
      using cm s(9) by (auto simp: kid_list_def kids k(6))
    have "sees (w\<lparr>kern := k\<rparr>) (x\<lparr>display := scr k, typed := kbd_contents (kbd_st k), free_count := card (allocatable (frames k)),
      last_pid := pidGlobal k, own_pid := PID (tasks k (me w)), kids := kid_list k (cu @ [c]), time := zeos_ticks k\<rparr>)"
    proof (rule sees_step [OF sees ok k(3,9) _ _ cq])
      show "ram (mach k) b = ram (mach (kern w)) b" if "b div 4096 \<notin> pool (kern w) \<union> kernel_image (kern w)" for b
        using k(5) that by (auto simp: child_memory_def Let_def pool_def)
      show "current k = me w" using k(4) s(3) by simp
    qed
    moreover have "x' = x\<lparr>display := scr k, typed := kbd_contents (kbd_st k), free_count := card (allocatable (frames k)),
      last_pid := pidGlobal k, own_pid := PID (tasks k (me w)), kids := kid_list k (cu @ [c]), time := zeos_ticks k\<rparr>"
      using v 1 s(5,6,9,10,11) rs cm(1) by (auto simp: view_fork_def kl k(6) fc)
    moreover have "r = pidGlobal (kern w) + 1" using v 1 s(9) by (simp add: view_fork_def)
    ultimately show ?thesis using k(1,4) s(3) by auto
  next
    case 2
    have few: "card (allocatable (frames (kern w))) < 23" "allocatable (frames (kern w)) \<noteq> {}" using 2 s(8) by auto
    obtain k D where k: "sys_fork (kern w) = Some (- EAGAIN, k)" "kernel_ok k u cf" "current k = current (kern w)"
        "ram (mach k) = ram (mach (kern w))" "D \<subseteq> allocatable (frames (kern w))"
        "card D = (if card (allocatable (frames (kern w))) = 1 then 0 else 1)"
        "allocatable (frames k) = allocatable (frames (kern w)) - D" "frames_kept (kern w) k u cf" "rest_same (kern w) k"
        "\<And>p. p \<in> all_tasks (kern w) u \<Longrightarrow> tasks k p = tasks (kern w) p"
      by (rule fork_fails [OF ok me few], rule that)
    note rs = rest_sameD [OF k(9)]
    have kl: "kid_list k cu = kids x" using k(10) cl by (auto simp: kid_list_def kids)
    have "finite (allocatable (frames (kern w)))" using few 2 s(8) by (metis card.infinite less_irrefl)
    then have "card (allocatable (frames k)) = card (allocatable (frames (kern w))) - card D"
      using k(5,7) by (simp add: card_Diff_subset finite_subset)
    then have fc: "card (allocatable (frames k)) = (if free_count x \<le> 1 then free_count x else free_count x - 1)"
      using k(6) s(8) 2 by auto
    have "sees (w\<lparr>kern := k\<rparr>) (x\<lparr>display := scr k, typed := kbd_contents (kbd_st k), free_count := card (allocatable (frames k)),
      last_pid := pidGlobal k, own_pid := PID (tasks k (me w)), kids := kid_list k cu, time := zeos_ticks k\<rparr>)"
      by (rule sees_step [OF sees ok k(2,8) _ _ cu]) (use k(3,4) s(3) in simp_all)
    moreover have "x' = x\<lparr>display := scr k, typed := kbd_contents (kbd_st k), free_count := card (allocatable (frames k)),
      last_pid := pidGlobal k, own_pid := PID (tasks k (me w)), kids := kid_list k cu, time := zeos_ticks k\<rparr>"
      using v 2 s(5,6,9,10,11) rs by (auto simp: view_fork_def kl k(10) [OF mine] fc)
    moreover have "r = - EAGAIN" using v 2 by (simp add: view_fork_def)
    ultimately show ?thesis using k(1,3) s(3) by auto
  next
    case 3
    then have "allocatable (frames (kern w)) = {} \<or> infinite (allocatable (frames (kern w)))" using s(8) by auto
    then have e: "allocatable (frames (kern w)) = {}" using finite_allocatable by blast
    then have "sys_fork (kern w) = Some (- ENOMEM, kern w)"
      by (cases rule: fork_begin [OF ok]) (simp_all add: sys_fork_def)
    then show ?thesis using v 3 sees s(3) by (simp add: view_fork_def)
  qed
qed

lemma find_unblocked:
  assumes ok: "kernel_ok k v cf" and cb: "children_blocked v (current k) = Some cb" and cu: "children_unblocked v (current k) = Some cu"
    and pid: "pid \<in> fst ` set (kid_list k cu)"
  obtains c where "find_child k pid cb = None" and "find_child k pid cu = Some c" and "c \<in> set cu" and "PID (tasks k c) = pid"
    and "\<And>b. b \<in> set cu \<Longrightarrow> PID (tasks k b) = pid \<Longrightarrow> b = c"
proof -
  note d = kernel_okD [OF ok]
  obtain c where c: "c \<in> set cu" "PID (tasks k c) = pid" using pid by (auto simp: kid_list_def)
  have in_all: "set cb \<subseteq> all_tasks k v" "set cu \<subseteq> all_tasks k v"
    using d(4) cb cu unfolding lists_closed_def by blast+
  have inj: "a = b" if "a \<in> all_tasks k v" "b \<in> all_tasks k v" "PID (tasks k a) = PID (tasks k b)" for a b
    using d(1) that unfolding sched_ok_def pids_ok_def inj_on_def by blast
  have only: "b = c" if "b \<in> set cu \<or> b \<in> set cb" "PID (tasks k b) = pid" for b
    by (rule inj) (use that c in_all in auto)
  have "c \<notin> set cb" using family_okD(1) [OF d(2) cb] family_okD(2) [OF d(2) cu c(1)] by blast
  then have n: "find_child k pid cb = None" using only c by (auto simp: find_child_def find_None_iff)
  have "find_child k pid cu \<noteq> None" using c by (auto simp: find_child_def find_None_iff)
  then obtain b where "find_child k pid cu = Some b" by blast
  moreover from find_child_Some [OF this] have "b = c" using only by simp
  ultimately show thesis using that n c only by blast
qed

lemma sees_unblock:
  assumes sees: "sees w x" and v: "view_unblock pid x = Some (r, x')"
  shows "\<exists>k. sys_unblock pid (kern w) = Some (r, k) \<and> current k = me w \<and> sees (w\<lparr>kern := k\<rparr>) x'"
proof -
  obtain u cf cu where ok: "kernel_ok (kern w) u cf" and cu: "children_unblocked u (me w) = Some cu"
      and kids: "kids x = kid_list (kern w) cu" using sees by (rule seesE)
  note d = kernel_okD [OF ok] and s = seesD [OF sees]
  have rep: "queues_rep (links (kern w)) u" using d(1) by (simp add: sched_ok_def)
  obtain cb where cb: "children_blocked u (current (kern w)) = Some cb"
    using family_okD(3) [OF d(2) current_in_all] by blast
  have cu': "children_unblocked u (current (kern w)) = Some cu" using cu s(3) by simp
  have pid: "pid \<in> fst ` set (kid_list (kern w) cu)" and r: "r = 0"
    and x': "x' = x\<lparr>kids := map (\<lambda>(p, n). if p = pid then (p, n + 1) else (p, n)) (kids x)\<rparr>"
    using v by (simp_all add: view_unblock_def kids split: if_splits)
  obtain c where c: "find_child (kern w) pid cb = None" "find_child (kern w) pid cu = Some c" "c \<in> set cu"
      "PID (tasks (kern w) c) = pid" "\<And>b. b \<in> set cu \<Longrightarrow> PID (tasks (kern w) b) = pid \<Longrightarrow> b = c"
    by (rule find_unblocked [OF ok cb cu' pid], rule that)
  let ?k = "upd_task c (\<lambda>p. p\<lparr>pending_unblocks := pending_unblocks p + 1\<rparr>) (kern w)"
  have e: "sys_unblock pid (kern w) = Some (0, ?k)"
    using search_children [OF rep, of "At_children_blocked (current (kern w))" cb pid] cb cu' c(1,2)
      search_children [OF rep, of "At_children_unblocked (current (kern w))" cu pid]
    by (simp add: sys_unblock_def Let_def)
  obtain r' k' v' where k': "sys_unblock pid (kern w) = Some (r', k')" "safe_step cf {} (kern w) u k' v'"
    by (rule sys_unblock_ok [OF ok, of pid]) (rule that)
  have kl: "kid_list ?k cu = kids x'"
  proof -
    have "kids x' = map ((\<lambda>(p, n). if p = pid then (p, n + 1) else (p, n)) \<circ>
          (\<lambda>c. (PID (tasks (kern w) c), pending_unblocks (tasks (kern w) c)))) cu"
      by (simp add: x' kids kid_list_def)
    moreover have "kid_list ?k cu = \<dots>"
      unfolding kid_list_def
    proof (rule map_cong [OF refl])
      fix b assume b: "b \<in> set cu"
      then have "PID (tasks (kern w) b) = pid \<longleftrightarrow> b = c" using c(4,5) by blast
      then show "(PID (tasks ?k b), pending_unblocks (tasks ?k b)) =
          ((\<lambda>(p, n). if p = pid then (p, n + 1) else (p, n)) \<circ>
            (\<lambda>c. (PID (tasks (kern w) c), pending_unblocks (tasks (kern w) c)))) b"
        by simp
    qed
    ultimately show ?thesis by simp
  qed
  have all: "all_tasks ?k u = all_tasks (kern w) u" by (simp add: all_tasks_def)
  have m: "moved (kern w) ?k" by (rule moved_upd_task) simp_all
  have okk: "kernel_ok ?k u cf"
  proof (rule kernel_ok_moved [OF ok m _ _ d(4) _ _ all])
    show "sched_ok ?k u" using d(1) sched_ok_same [of ?k "kern w" u] by simp
    show "family_ok ?k u" by (rule family_ok_same [OF d(2) _ all]) simp_all
    show "resumes_ok ?k u" by (rule resumes_ok_same [OF d(7) all]) simp_all
  qed (use d(8) in simp)
  have "sees (w\<lparr>kern := ?k\<rparr>) (x\<lparr>display := scr ?k, typed := kbd_contents (kbd_st ?k), free_count := card (allocatable (frames ?k)),
      last_pid := pidGlobal ?k, own_pid := PID (tasks ?k (me w)), kids := kid_list ?k cu, time := zeos_ticks ?k\<rparr>)"
    by (rule sees_step [OF sees ok okk safe_stepD(4) [OF safe_step_moved [OF okk m all]] _ _ cu]) (use s(3) in simp_all)
  moreover have "x' = x\<lparr>display := scr ?k, typed := kbd_contents (kbd_st ?k), free_count := card (allocatable (frames ?k)),
      last_pid := pidGlobal ?k, own_pid := PID (tasks ?k (me w)), kids := kid_list ?k cu, time := zeos_ticks ?k\<rparr>"
    using s(5,6,8-11) by (cases "me w = c") (simp_all add: kl, auto simp: x')
  ultimately show ?thesis using e r s(3) by auto
qed

section \<open>The interpretation\<close>

lemma sees_display:
  assumes sees: "sees w x" and s: "screen_ok s"
  shows "sees (w\<lparr>kern := (kern w)\<lparr>scr := s\<rparr>\<rparr>) (x\<lparr>display := s\<rparr>)"
proof -
  obtain v cf where "kernel_ok (kern w) v cf" using sees by (rule seesE)
  then have ok: "kbd_ok (kbd_st (kern w))" by (rule kernel_okD)
  have "x\<lparr>display := s, typed := kbd_contents (kbd_st (kern w)), memory := memory x\<rparr> = x\<lparr>display := s\<rparr>"
    by (simp add: seesD(6) [OF sees])
  moreover have "(kern w)\<lparr>kbd_st := kbd_st (kern w), mach := (mach (kern w))\<lparr>ram := ram (mach (kern w))\<rparr>, scr := s\<rparr> =
      (kern w)\<lparr>scr := s\<rparr>" by simp
  moreover have "ram (mach (kern w)) (user_place (kern w) (me w) a) = memory x a" if "0x800000 \<le> a" "a < 0x81C000" for a
    using seesD(7) [OF sees that] by (simp add: image_byte_def)
  ultimately show ?thesis
    using sees_data [where r = "ram (mach (kern w))" and m = "memory x", OF sees ok s] by metis
qed

lemma sees_screen_call:
  assumes sees: "sees w x"
  shows "\<exists>r s. sys_gotoxy i j (scr (kern w)) = (r, s) \<and> sys_gotoxy i j (display x) = (r, s) \<and>
      sees (w\<lparr>kern := (kern w)\<lparr>scr := s\<rparr>\<rparr>) (x\<lparr>display := s\<rparr>)"
    and "\<exists>r s. sys_set_color i j (scr (kern w)) = (r, s) \<and> sys_set_color i j (display x) = (r, s) \<and>
      sees (w\<lparr>kern := (kern w)\<lparr>scr := s\<rparr>\<rparr>) (x\<lparr>display := s\<rparr>)"
proof -
  obtain v cf where "kernel_ok (kern w) v cf" using sees by (rule seesE)
  then have ok: "screen_ok (scr (kern w))" by (rule kernel_okD)
  show "\<exists>r s. sys_gotoxy i j (scr (kern w)) = (r, s) \<and> sys_gotoxy i j (display x) = (r, s) \<and>
      sees (w\<lparr>kern := (kern w)\<lparr>scr := s\<rparr>\<rparr>) (x\<lparr>display := s\<rparr>)"
    using sees_display [OF sees] console_exec_ok(1) [OF ok, of "GotoXY i j"] seesD(5) [OF sees]
    by (cases "sys_gotoxy i j (scr (kern w))") simp
  show "\<exists>r s. sys_set_color i j (scr (kern w)) = (r, s) \<and> sys_set_color i j (display x) = (r, s) \<and>
      sees (w\<lparr>kern := (kern w)\<lparr>scr := s\<rparr>\<rparr>) (x\<lparr>display := s\<rparr>)"
    using sees_display [OF sees] console_exec_ok(1) [OF ok, of "SetColor i j"] seesD(5) [OF sees]
    by (cases "sys_set_color i j (scr (kern w))") simp
qed

lemma table_routines:
  "sys_call_table ! 2 = Call_fork" "sys_call_table ! 3 = Call_read" "sys_call_table ! 4 = Call_write"
  "sys_call_table ! 10 = Call_gettime" "sys_call_table ! 20 = Call_getpid" "sys_call_table ! 22 = Call_unblock"
  "sys_call_table ! 23 = Call_gotoxy" "sys_call_table ! 24 = Call_set_color" "length sys_call_table = 36"
  by (simp_all add: sys_call_table_def)

lemma kernel_call_follows:
  assumes sees: "sees w x" and v: "view_call n a b c x = Some (r, x')"
  shows "\<exists>w'. kernel_call clk n a b c w = Some (r, w') \<and> sees w' x'"
proof -
  have done1: ?thesis
    if "system_call_handler n a b c (kern w) = Some (Return r, k)" "current k = me w" "sees (w\<lparr>kern := k\<rparr>) x'" "n \<noteq> 1" for k
    using kernel_call_answers [OF sees that(1,2,4)] that(3) by blast
  note s = seesD [OF sees] and h = system_call_handler_def table_routines
  have n: "n \<in> {2, 3, 4, 10, 20, 22, 23, 24}" using v by (auto simp: view_call_def split: if_splits)
  consider "n = 2" | "n = 3" | "n = 4" | "n = 10" | "n = 20" | "n = 22" | "n = 23" | "n = 24" using n by blast
  then show ?thesis
  proof cases
    case 1
    then have "view_fork x = Some (r, x')" using v by (simp add: view_call_def)
    from sees_fork [OF sees this] show ?thesis using done1 by (auto simp: h 1)
  next
    case 2
    then have "view_read a (sint b) x = Some (r, x')" using v by (simp add: view_call_def)
    from sees_read [OF sees this] show ?thesis using done1 by (auto simp: h 2)
  next
    case 3
    then have "view_write (sint a) b (sint c) x = Some (r, x')" using v by (simp add: view_call_def)
    from sees_write [OF sees this] show ?thesis using done1 by (auto simp: h 3)
  next
    case 4
    then have "r = time x" "x' = x" using v by (auto simp: view_call_def)
    then show ?thesis by (intro done1 [of "kern w"]) (use 4 s(3,11) sees in \<open>simp_all add: h sys_gettime_def\<close>)
  next
    case 5
    then have "r = own_pid x" "x' = x" using v by (auto simp: view_call_def)
    then show ?thesis by (intro done1 [of "kern w"]) (use 5 s(3,10) sees in \<open>simp_all add: h sys_getpid_def\<close>)
  next
    case 6
    then have "view_unblock (sint a) x = Some (r, x')" using v by (simp add: view_call_def)
    from sees_unblock [OF sees this] show ?thesis using done1 by (auto simp: h 6)
  next
    case 7
    then have "on_display (sys_gotoxy (sint a) (sint b) (display x)) x = Some (r, x')" using v by (simp add: view_call_def)
    with sees_screen_call(1) [OF sees, of "sint a" "sint b"] show ?thesis
      using done1 s(3) by (auto simp: h on_display_def 7)
  next
    case 8
    then have "on_display (sys_set_color (sint a) (sint b) (display x)) x = Some (r, x')" using v by (simp add: view_call_def)
    with sees_screen_call(2) [OF sees, of "sint a" "sint b"] show ?thesis
      using done1 s(3) by (auto simp: h on_display_def 8)
  qed
qed

lemma sees_translate:
  assumes "sees w x" and "user_range p 1"
  shows "translate (mach (kern w)) p = Some (user_place (kern w) (me w) (unat p))"
  using mappedD [OF sees_user_buffer(1) [OF assms(1), of p 1], of 0] assms(2) by simp

lemma sees_store:
  assumes sees: "sees w x" and p: "user_range p 1"
  shows "\<exists>m. store_byte p v (mach (kern w)) = Some m \<and>
     sees (w\<lparr>kern := (kern w)\<lparr>mach := m\<rparr>\<rparr>) (x\<lparr>memory := put_bytes p [v] (memory x)\<rparr>)"
proof -
  let ?r = "(ram (mach (kern w)))(user_place (kern w) (me w) (unat p) := v)"
  obtain u cf where "kernel_ok (kern w) u cf" using sees by (rule seesE)
  then have ok: "kbd_ok (kbd_st (kern w))" by (rule kernel_okD)
  have b: "0x800000 \<le> unat p" "unat p < 0x81C000" using p unfolding user_range_def by linarith+
  have "?r (user_place (kern w) (me w) a) = put_bytes p [v] (memory x) a" if a: "0x800000 \<le> a" "a < 0x81C000" for a
  proof (cases "a = unat p")
    case False
    then have "user_place (kern w) (me w) a \<noteq> user_place (kern w) (me w) (unat p)"
      using sees_place_inj [OF sees a b] by blast
    then show ?thesis using False seesD(7) [OF sees a] by (auto simp: put_bytes_def image_byte_def)
  qed (simp add: put_bytes_def)
  note s = sees_keys [where r = ?r and m = "put_bytes p [v] (memory x)", OF sees ok this]
  have "x\<lparr>typed := kbd_contents (kbd_st (kern w)), memory := put_bytes p [v] (memory x)\<rparr> =
      x\<lparr>memory := put_bytes p [v] (memory x)\<rparr>" by (simp add: seesD(6) [OF sees])
  moreover have "(kern w)\<lparr>kbd_st := kbd_st (kern w), mach := m\<rparr> = (kern w)\<lparr>mach := m\<rparr>" for m by simp
  ultimately have "sees (w\<lparr>kern := (kern w)\<lparr>mach := (mach (kern w))\<lparr>ram := ?r\<rparr>\<rparr>\<rparr>) (x\<lparr>memory := put_bytes p [v] (memory x)\<rparr>)"
    using s by metis
  then show ?thesis by (simp add: sees_translate [OF sees p])
qed

text \<open>The kernel gives the answers of \<open>view_env\<close>; so each program that comes to an end on the view does the same on the kernel.\<close>

interpretation alone: simulation "kernel_env clk l s" "view_env l s" sees for clk l s
proof
  show "follows (with_answer sees) (sysenter (kernel_env clk l s) n a b c w) (sysenter (view_env l s) n a b c x)"
    if "sees w x" for w x n a b c
    using kernel_call_follows [OF that] by (fastforce simp: follows_def kernel_env_def view_env_def)
  show "follows (=) (load8 (kernel_env clk l s) p w) (load8 (view_env l s) p x)" if sees: "sees w x" for w x p
  proof (cases "user_range p 1")
    case True
    then have "0x800000 \<le> unat p" "unat p < 0x81C000" unfolding user_range_def by linarith+
    then show ?thesis using sees_translate [OF sees True] seesD(7) [OF sees, of "unat p"] True
      by (simp add: follows_def kernel_env_def view_env_def image_byte_def)
  qed (simp add: follows_def view_env_def)
  show "follows sees (store8 (kernel_env clk l s) p v w) (store8 (view_env l s) p v x)" if sees: "sees w x" for w x p v
    using sees_store [OF sees, of p v] by (auto simp: follows_def kernel_env_def view_env_def)
qed (simp_all add: kernel_env_def view_env_def)

end
