(* ===== verification/View_Programs.thy ===== *)
theory View_Programs
  imports User_Kernel
begin

text \<open>
  The programs on the view: what the library calls, \<open>read_int\<close>, the screen test and the stress test do to a process that
  runs alone, on a memory that holds the string constants where the linker has put them.
\<close>

section \<open>Layout\<close>

text \<open>The constant \<open>t\<close> is in memory, with its terminator.\<close>

definition text_in :: "(nat \<Rightarrow> byte) \<Rightarrow> (string \<Rightarrow> dword) \<Rightarrow> string \<Rightarrow> bool" where
  "text_in m l t \<longleftrightarrow>
     user_range (l t) (int (length t) + 1) \<and> bytes_at m (l t) (length t + 1) = text_bytes t @ [0]"

text \<open>Two pieces of memory do not meet.\<close>

definition apart :: "dword \<Rightarrow> nat \<Rightarrow> dword \<Rightarrow> nat \<Rightarrow> bool" where
  "apart p m q n \<longleftrightarrow> unat p + m \<le> unat q \<or> unat q + n \<le> unat p"

text \<open>The variables \<open>vs\<close>, with their sizes, are in the image and apart from the constants \<open>ts\<close>.\<close>

definition laid_out :: "(string \<Rightarrow> dword) \<Rightarrow> (symbol \<Rightarrow> dword) \<Rightarrow> string list \<Rightarrow> (symbol \<times> nat) list \<Rightarrow> bool" where
  "laid_out l s ts vs \<longleftrightarrow>
     (\<forall>(v, n)\<in>set vs. user_range (s v) (int n) \<and> (\<forall>t\<in>set ts. apart (l t) (length t + 1) (s v) n))"

lemma bytes_at_length [simp]: "length (bytes_at m p n) = n"
  by (simp add: bytes_at_def)

lemma bytes_at_take: "k \<le> n \<Longrightarrow> bytes_at m p k = take k (bytes_at m p n)"
  by (simp add: bytes_at_def take_map)

lemma bytes_at_put [simp]: "bytes_at (put_bytes p bs m) p (length bs) = bs"
  by (rule nth_equalityI) (simp_all add: bytes_at_def put_bytes_def)

lemma bytes_at_apart:
  assumes "apart p n q (length bs)"
  shows "bytes_at (put_bytes q bs m) p n = bytes_at m p n"
proof -
  have "put_bytes q bs m (unat p + i) = m (unat p + i)" if "i < n" for i
  proof -
    have "\<not> (unat q \<le> unat p + i \<and> unat p + i < unat q + length bs)"
      using assms that unfolding apart_def by linarith
    then show ?thesis unfolding put_bytes_def by (rule if_not_P)
  qed
  then show ?thesis by (simp add: bytes_at_def)
qed

lemma text_in_put:
  assumes "laid_out l s ts vs" and "(v, n) \<in> set vs" and "length bs \<le> n" and "t \<in> set ts" and "text_in m l t"
  shows "text_in (put_bytes (s v) bs m) l t"
proof -
  have "apart (l t) (length t + 1) (s v) n" using assms by (auto simp: laid_out_def)
  then have "apart (l t) (length t + 1) (s v) (length bs)" using assms(3) by (auto simp: apart_def)
  then show ?thesis using assms(5) bytes_at_apart by (simp add: text_in_def)
qed

lemma laid_outD: "laid_out l s ts vs \<Longrightarrow> (v, n) \<in> set vs \<Longrightarrow> user_range (s v) (int n)"
  by (auto simp: laid_out_def)

section \<open>Single calls\<close>

lemma user_range_access:
  assumes "user_range p n"
  shows "p \<noteq> 0" "0 \<le> n" "access_ok type p (of_int n) \<noteq> 0" "sint (of_int n :: dword) = n"
proof -
  have r: "0 \<le> n" "0x800000 \<le> unat p" "int (unat p) + n \<le> 0x81C000" using assms by (simp_all add: user_range_def)
  then show "p \<noteq> 0" "0 \<le> n" by auto
  have n: "n \<le> 0x1C000" using r by linarith
  then show "sint (of_int n :: dword) = n" using r(1) by (simp add: sint_sbintrunc' signed_take_bit_int_eq_self)
  have "unat (of_int n :: dword) = nat n" using r(1) n by (simp add: uint_word_of_int flip: nat_uint_eq)
  moreover have "unat p + nat n < 2 ^ 32"
  proof -
    have "int (unat p) + int (nat n) < 0x100000000" using r by linarith
    then have "unat p + nat n < 0x100000000" by linarith
    then show ?thesis by simp
  qed
  ultimately have "unat (p + of_int n) = unat p + nat n" by (simp add: unat_word_ariths)
  moreover have "(unat p + nat n) div 4096 \<le> 2076" "0x800 \<le> unat p div 4096" "unat p div 4096 \<le> (unat p + nat n) div 4096"
    using r by linarith+
  ultimately show "access_ok type p (of_int n) \<noteq> 0" unfolding access_ok_pages by simp
qed

lemma view_env_simps [simp]:
  "sysenter (view_env l s) = view_call" "lit (view_env l s) = l" "addr (view_env l s) = s"
  "load8 (view_env l s) p x = (if user_range p 1 then Some (memory x (unat p)) else None)"
  "store8 (view_env l s) p v x = (if user_range p 1 then Some (x\<lparr>memory := put_bytes p [v] (memory x)\<rparr>) else None)"
  by (simp_all add: view_env_def)

lemma view_stub:
  assumes "view_call n a b c x = Some (r, x')" and "0 \<le> r"
  shows "stub (view_env l s) n a b c x = Some (r, x')"
  using assms by (simp add: stub_def)

text \<open>Bytes shown on the screen.\<close>

definition showing :: "byte list \<Rightarrow> process_view \<Rightarrow> process_view" where
  "showing cs x = x\<lparr>display := fold printc cs (display x)\<rparr>"

lemma showing_simps [simp]:
  "display (showing cs x) = fold printc cs (display x)" "typed (showing cs x) = typed x"
  "memory (showing cs x) = memory x" "free_count (showing cs x) = free_count x" "last_pid (showing cs x) = last_pid x"
  "own_pid (showing cs x) = own_pid x" "kids (showing cs x) = kids x" "time (showing cs x) = time x"
  by (simp_all add: showing_def)

lemma u_write_view:
  assumes "user_range p (int n)"
  shows "u_write (view_env l s) 1 p (int n) x = Some (int n, showing (bytes_at (memory x) p n) x)"
proof -
  note r = user_range_access [OF assms]
  have "view_call 4 (of_int 1) p (of_int (int n)) x = Some (int n, showing (bytes_at (memory x) p n) x)"
    using r(1,2,4) r(3) [of VERIFY_READ] assms by (simp add: view_call_def view_write_def showing_def)
  from view_stub [OF this] show ?thesis by (simp add: u_write_def)
qed

lemma say_view:
  assumes "text_in (memory x) l t" and "n \<le> length t + 1"
  shows "say (view_env l s) t (int n) x = Some (showing (take n (text_bytes t @ [0])) x)"
proof -
  have "user_range (l t) (int n)" using assms by (auto simp: text_in_def user_range_def)
  moreover have "bytes_at (memory x) (l t) n = take n (text_bytes t @ [0])"
    using assms bytes_at_take [OF assms(2)] by (simp add: text_in_def)
  ultimately show ?thesis by (simp add: say_def u_write_view)
qed

lemma u_read_view:
  assumes "user_range p (int n)" and "0 < n" and "typed x \<noteq> []"
  shows "u_read (view_env l s) p (int n) x =
    (let bs = take (min n 256) (typed x)
     in Some (int (length bs), x\<lparr>typed := drop (length bs) (typed x), memory := put_bytes p bs (memory x)\<rparr>))"
proof -
  note r = user_range_access [OF assms(1)]
  define bs where "bs = take (min n 256) (typed x)"
  let ?y = "x\<lparr>typed := drop (length bs) (typed x), memory := put_bytes p bs (memory x)\<rparr>"
  have "view_read p (int n) x = Some (int (length bs), ?y)"
    using r(1) r(3) [of VERIFY_WRITE] assms unfolding view_read_def Let_def nat_int bs_def [symmetric] by simp
  then have "view_call 3 p (of_int (int n)) 0 x = Some (int (length bs), ?y)"
    unfolding view_call_def r(4) by simp
  from view_stub [OF this] show ?thesis unfolding u_read_def Let_def bs_def by simp
qed

lemma sint_small: "-(2 ^ 31) \<le> n \<Longrightarrow> n < 2 ^ 31 \<Longrightarrow> sint (of_int n :: dword) = n"
  by (simp add: sint_sbintrunc' signed_take_bit_int_eq_self)

lemma u_set_color_view:
  assumes "0 \<le> fg" "fg \<le> 15" "0 \<le> bg" "bg \<le> 15"
  shows "u_set_color (view_env l s) fg bg x =
    Some (0, x\<lparr>display := (display x)\<lparr>current_color := of_int (push_bit 4 bg OR (fg AND 0x0F))\<rparr>\<rparr>)"
proof -
  have i: "sint (of_int fg :: dword) = fg" "sint (of_int bg :: dword) = bg" using assms by (simp_all add: sint_small)
  have "view_call 24 (of_int fg) (of_int bg) 0 x =
      Some (0, x\<lparr>display := (display x)\<lparr>current_color := of_int (push_bit 4 bg OR (fg AND 0x0F))\<rparr>\<rparr>)"
    using assms by (simp add: view_call_def on_display_def sys_set_color_def i)
  from view_stub [OF this] show ?thesis by (simp add: u_set_color_def)
qed

lemma u_gotoxy_view:
  assumes "0 \<le> i" "i < 80" "0 \<le> j" "j < 25"
  shows "u_gotoxy (view_env l s) i j x = Some (0, x\<lparr>display := (display x)\<lparr>scr_x := of_int i, scr_y := of_int j\<rparr>\<rparr>)"
proof -
  have i: "sint (of_int i :: dword) = i" "sint (of_int j :: dword) = j" using assms by (simp_all add: sint_small)
  have "view_call 23 (of_int i) (of_int j) 0 x = Some (0, x\<lparr>display := (display x)\<lparr>scr_x := of_int i, scr_y := of_int j\<rparr>\<rparr>)"
    using assms by (simp add: view_call_def on_display_def sys_gotoxy_def i)
  from view_stub [OF this] show ?thesis by (simp add: u_gotoxy_def)
qed

section \<open>Reading a number\<close>

text \<open>What \<open>read_int\<close> makes of the digits among the keys, in 32-bit arithmetic.\<close>

definition typed_number :: "byte list \<Rightarrow> int" where
  "typed_number ks = foldl (\<lambda>v c. sint (of_int (v * 10 + (uint c - 48)) :: dword)) 0 (filter is_digit ks)"

lemma read_digits_view:
  assumes "typed x = ks @ 46 # rest" and "46 \<notin> set ks" and "user_range (s V_c) 1"
  shows "read_digits (view_env l s) val x =
    Some (foldl (\<lambda>v c. sint (of_int (v * 10 + (uint c - 48)) :: dword)) val (filter is_digit ks),
      (showing (filter is_digit ks) x)\<lparr>typed := rest, memory := put_bytes (s V_c) [46] (memory x)\<rparr>)"
  using assms(1,2)
proof (induction ks arbitrary: x val)
  case Nil
  have r: "u_read (view_env l s) (s V_c) 1 x = Some (1, x\<lparr>typed := rest, memory := put_bytes (s V_c) [46] (memory x)\<rparr>)"
    using u_read_view [of "s V_c" 1 x l s] assms(3) Nil(1) by simp
  show ?case
    by (subst read_digits.simps)
      (use assms(3) in \<open>simp add: r put_bytes_def showing_def\<close>)
next
  case (Cons k ks)
  let ?x = "x\<lparr>typed := ks @ 46 # rest, memory := put_bytes (s V_c) [k] (memory x)\<rparr>"
  have r: "u_read (view_env l s) (s V_c) 1 x = Some (1, ?x)"
    using u_read_view [of "s V_c" 1 x l s] assms(3) Cons(2) by simp
  have c: "load8 (view_env l s) (s V_c) ?x = Some k" using assms(3) by (simp add: put_bytes_def)
  have k: "k \<noteq> 46" using Cons(3) by auto
  have again: "put_bytes (s V_c) [46] (put_bytes (s V_c) [k] m) = put_bytes (s V_c) [46] m" for m
    by (auto simp: put_bytes_def)
  have IH: "read_digits (view_env l s) v y =
      Some (foldl (\<lambda>v c. sint (of_int (v * 10 + (uint c - 48)) :: dword)) v (filter is_digit ks),
        (showing (filter is_digit ks) y)\<lparr>typed := rest, memory := put_bytes (s V_c) [46] (memory y)\<rparr>)"
    if "typed y = ks @ 46 # rest" for y v
    by (rule Cons(1) [OF that]) (use Cons(3) in simp)
  show ?case
  proof (cases "is_digit k")
    case True
    have w: "u_write (view_env l s) 1 (s V_c) 1 ?x = Some (1, showing [k] ?x)"
      using u_write_view [of "s V_c" 1 l s ?x] assms(3) bytes_at_put [of "s V_c" "[k]" "memory x"] by simp
    have "read_digits (view_env l s) val x =
        read_digits (view_env l s) (sint (of_int (val * 10 + (uint k - 48)) :: dword)) (showing [k] ?x)"
      by (subst read_digits.simps)
        (simp add: r c k w True del: view_env_simps(4) flip: is_digit_def)
    also have "\<dots> = Some (foldl (\<lambda>v c. sint (of_int (v * 10 + (uint c - 48)) :: dword)) val (filter is_digit (k # ks)),
      (showing (filter is_digit (k # ks)) x)\<lparr>typed := rest, memory := put_bytes (s V_c) [46] (memory x)\<rparr>)"
      using True by (subst IH) (simp_all add: showing_def again)
    finally show ?thesis .
  next
    case False
    have "read_digits (view_env l s) val x = read_digits (view_env l s) val ?x"
      by (subst read_digits.simps) (simp add: r c k False del: view_env_simps(4) flip: is_digit_def)
    also have "\<dots> = Some (foldl (\<lambda>v c. sint (of_int (v * 10 + (uint c - 48)) :: dword)) val (filter is_digit (k # ks)),
      (showing (filter is_digit (k # ks)) x)\<lparr>typed := rest, memory := put_bytes (s V_c) [46] (memory x)\<rparr>)"
      using False by (subst IH) (simp_all add: showing_def again)
    finally show ?thesis .
  qed
qed

text \<open>Below \<open>2 ^ 31\<close> this is the number the digits are the decimal notation of.\<close>

lemma is_digit_value: "is_digit c \<Longrightarrow> int (digit_value c) = uint c - 48"
  by (auto simp: is_digit_def digit_value_def word_le_nat_alt of_nat_diff)

lemma typed_number_small:
  assumes "\<forall>c\<in>set ks. is_digit c" and "number_of 10 digit_value ks < 2 ^ 31"
  shows "typed_number ks = int (number_of 10 digit_value ks)"
  using assms
proof (induction ks rule: rev_induct)
  case Nil
  then show ?case by (simp add: typed_number_def number_of_def)
next
  case (snoc c ks)
  let ?n = "number_of 10 digit_value ks"
  have n: "number_of 10 digit_value (ks @ [c]) = 10 * ?n + digit_value c" by (simp add: number_of_def)
  have IH: "typed_number ks = int ?n" using snoc n by simp
  have "typed_number (ks @ [c]) = sint (of_int (typed_number ks * 10 + (uint c - 48)) :: dword)"
    using snoc(2) by (simp add: typed_number_def)
  also have "\<dots> = int (10 * ?n + digit_value c)"
    unfolding IH using snoc(2,3) by (subst sint_small) (simp_all add: n flip: is_digit_value)
  finally show ?case using n by simp
qed

section \<open>The screen test\<close>

text \<open>The state at a prompt: the keys still to be read, a well-formed screen, and the constants in place.\<close>

definition at_prompt :: "(string \<Rightarrow> dword) \<Rightarrow> string list \<Rightarrow> byte list \<Rightarrow> process_view \<Rightarrow> bool" where
  "at_prompt l ts ks x \<longleftrightarrow> typed x = ks \<and> screen_ok (display x) \<and> (\<forall>t\<in>set ts. text_in (memory x) l t)"

lemma at_promptD:
  assumes "at_prompt l ts ks x"
  shows "typed x = ks" "screen_ok (display x)" "t \<in> set ts \<Longrightarrow> text_in (memory x) l t"
  using assms by (simp_all add: at_prompt_def)

lemma at_prompt_showing: "at_prompt l ts ks x \<Longrightarrow> at_prompt l ts ks (showing cs x)"
  by (simp add: at_prompt_def fold_printc_ok)

lemma say_at_prompt:
  assumes "at_prompt l ts ks x" and "t \<in> set ts" and "n \<le> length t + 1"
  shows "\<exists>y. say (view_env l s) t (int n) x = Some y \<and> at_prompt l ts ks y"
  using say_view [OF at_promptD(3) [OF assms(1,2)] assms(3)] at_prompt_showing [OF assms(1)] by blast

lemma read_int_at_prompt:
  assumes x: "at_prompt l ts (ks @ 46 # rest) x" and ks: "46 \<notin> set ks"
    and lay: "laid_out l s ts vs" and c: "(V_c, 1) \<in> set vs" and t: "'' '' \<in> set ts"
  shows "\<exists>y. read_int (view_env l s) x = Some (typed_number ks, y) \<and> at_prompt l ts rest y"
proof -
  let ?y = "(showing (filter is_digit ks) x)\<lparr>typed := rest, memory := put_bytes (s V_c) [46] (memory x)\<rparr>"
  have "user_range (s V_c) 1" using laid_outD [OF lay c] by simp
  then have r: "read_digits (view_env l s) 0 x = Some (typed_number ks, ?y)"
    using read_digits_view [OF at_promptD(1) [OF x] ks, of s l 0] by (simp add: typed_number_def)
  have "text_in (put_bytes (s V_c) [46] (memory x)) l t" if "t \<in> set ts" for t
    by (rule text_in_put [OF lay c _ that at_promptD(3) [OF x that]]) simp
  then have "at_prompt l ts rest ?y" using at_promptD(2) [OF x] by (simp add: at_prompt_def fold_printc_ok)
  from say_at_prompt [OF this t, of 1 s] show ?thesis by (auto simp: read_int_def r)
qed

lemma text_at:
  assumes "screen_ok S" and "0 \<le> px" "px < 80" "0 \<le> py" "py < 25"
    and "10 \<notin> set cs" and "length cs \<le> 2000" and "i < length cs"
  shows "cells (fold printc cs (S\<lparr>scr_x := of_int px, scr_y := of_int py, current_color := color\<rparr>))
     ((nat py * 80 + nat px + i) mod 2000) = cell_of color (cs ! i)"
proof -
  let ?t = "S\<lparr>scr_x := of_int px, scr_y := of_int py, current_color := color\<rparr>"
  have t: "screen_ok ?t" and cur: "cursor ?t = nat py * 80 + nat px"
    using assms(2-5) by (simp_all add: screen_ok_def cursor_def uint_small_byte nat_less_iff)
  show ?thesis using fold_printc_printable [OF t assms(6,7)] assms(8) unfolding cur by simp
qed

definition screen_texts :: "string list" where
  "screen_texts =
    [''\<newline>--- Screen Test (q to quit) ---\<newline>'', ''(type digits then '.' to confirm)\<newline>'', ''X col (0-79): '',
     ''\<newline>Y row (0-24): '', ''\<newline>FG color (0-15): '', ''\<newline>BG color (0-15): '',
     ''\<newline>Size of text to write: '', ''\<newline>Text to write: '', '' '']"

abbreviation (input) screen_vars :: "(symbol \<times> nat) list" where
  "screen_vars \<equiv> [(V_c, 1), (V_buf, 128)]"

lemma screen_test_view:
  fixes l s defines "A \<equiv> view_env l s"
  assumes x: "at_prompt l screen_texts (k1 @ 46 # k2 @ 46 # k3 @ 46 # k4 @ 46 # k5 @ 46 # keys) x"
    and k: "46 \<notin> set k1 \<union> set k2 \<union> set k3 \<union> set k4 \<union> set k5"
    and lay: "laid_out l s screen_texts screen_vars"
    and n: "typed_number k1 = px" "typed_number k2 = py" "typed_number k3 = fg" "typed_number k4 = bg" "typed_number k5 = int sz"
    and px: "0 \<le> px" "px < 80" and py: "0 \<le> py" "py < 25" and fg: "0 \<le> fg" "fg \<le> 15" and bg: "0 \<le> bg" "bg \<le> 15"
    and sz: "0 < sz" "sz \<le> 128" and keys: "keys \<noteq> []" "10 \<notin> set (take sz keys)"
  shows "\<exists>y. test_screen_syscalls A x = Some (Next y) \<and> typed y = drop sz keys \<and>
     (\<forall>i<length (take sz keys). cells (display y) ((nat py * 80 + nat px + i) mod 2000) =
        cell_of (of_int (push_bit 4 bg OR (fg AND 0x0F))) (keys ! i))"
proof -
  note A = A_def
  let ?T = "screen_texts" and ?k5 = "k5 @ 46 # keys"
  let ?k4 = "k4 @ 46 # ?k5" let ?k3 = "k3 @ 46 # ?k4" let ?k2 = "k2 @ 46 # ?k3" let ?k1 = "k1 @ 46 # ?k2"
  have say: "\<exists>y. say A t m x = Some y \<and> at_prompt l ?T ks y"
    if "at_prompt l ?T ks x" "t \<in> set ?T" "0 \<le> m" "m \<le> int (length t) + 1" for t m ks x
    using say_at_prompt [OF that(1,2), of "nat m" s] that(3,4) by (simp add: A)
  have num: "\<exists>y. read_int A x = Some (typed_number ks, y) \<and> at_prompt l ?T rest y"
    if "at_prompt l ?T (ks @ 46 # rest) x" "46 \<notin> set ks" for ks rest x
    using read_int_at_prompt [OF that lay] by (simp add: A screen_texts_def)
  have ask: "\<exists>x1 y. say A t m x = Some x1 \<and> read_int A x1 = Some (typed_number ks, y) \<and> at_prompt l ?T rest y"
    if x: "at_prompt l ?T (ks @ 46 # rest) x" and ks: "46 \<notin> set ks" and t: "t \<in> set ?T" "0 \<le> m" "m \<le> int (length t) + 1"
    for t m ks rest x
    using say [OF x t] num [OF _ ks] by blast
  have T: "set ?T = {''\<newline>--- Screen Test (q to quit) ---\<newline>'', ''(type digits then '.' to confirm)\<newline>'', ''X col (0-79): '',
     ''\<newline>Y row (0-24): '', ''\<newline>FG color (0-15): '', ''\<newline>BG color (0-15): '',
     ''\<newline>Size of text to write: '', ''\<newline>Text to write: '', '' ''}" unfolding screen_texts_def by simp
  obtain x0 where x0: "u_set_color A 2 0 x = Some (0, x0)" "at_prompt l ?T ?k1 x0"
    using u_set_color_view [of 2 0 l s x] x by (auto simp: A at_prompt_def screen_ok_def)
  obtain x1 where x1: "say A ''\<newline>--- Screen Test (q to quit) ---\<newline>'' 33 x0 = Some x1" "at_prompt l ?T ?k1 x1"
    using say [OF x0(2), of "''\<newline>--- Screen Test (q to quit) ---\<newline>''" 33] unfolding T by auto
  obtain x2 where x2: "say A ''(type digits then '.' to confirm)\<newline>'' 34 x1 = Some x2" "at_prompt l ?T ?k1 x2"
    using say [OF x1(2), of "''(type digits then '.' to confirm)\<newline>''" 34] unfolding T by auto
  obtain a1 y1 where y1: "say A ''X col (0-79): '' 14 x2 = Some a1" "read_int A a1 = Some (px, y1)" "at_prompt l ?T ?k2 y1"
    using ask [OF x2(2), of "''X col (0-79): ''" 14] k n(1) unfolding T by auto
  obtain a2 y2 where y2: "say A ''\<newline>Y row (0-24): '' 15 y1 = Some a2" "read_int A a2 = Some (py, y2)" "at_prompt l ?T ?k3 y2"
    using ask [OF y1(3), of "''\<newline>Y row (0-24): ''" 15] k n(2) unfolding T by auto
  obtain a3 y3 where y3: "say A ''\<newline>FG color (0-15): '' 18 y2 = Some a3" "read_int A a3 = Some (fg, y3)" "at_prompt l ?T ?k4 y3"
    using ask [OF y2(3), of "''\<newline>FG color (0-15): ''" 18] k n(3) unfolding T by auto
  obtain a4 y4 where y4: "say A ''\<newline>BG color (0-15): '' 18 y3 = Some a4" "read_int A a4 = Some (bg, y4)" "at_prompt l ?T ?k5 y4"
    using ask [OF y3(3), of "''\<newline>BG color (0-15): ''" 18] k n(4) unfolding T by auto
  obtain a5 y5 where y5: "say A ''\<newline>Size of text to write: '' 25 y4 = Some a5" "read_int A a5 = Some (int sz, y5)" "at_prompt l ?T keys y5"
    using ask [OF y4(3), of "''\<newline>Size of text to write: ''" 25] k n(5) unfolding T by auto
  obtain y6 where y6: "say A ''\<newline>Text to write: '' 16 y5 = Some y6" "at_prompt l ?T keys y6"
    using say [OF y5(3), of "''\<newline>Text to write: ''" 16] unfolding T by auto
  let ?bs = "take sz keys"
  have buf: "user_range (s V_buf) 128" using laid_outD [OF lay, of V_buf 128] by simp
  then have p: "user_range (s V_buf) (int sz)" using sz by (auto simp: user_range_def)
  have ty: "typed y6 = keys" and ok6: "screen_ok (display y6)" using at_promptD [OF y6(2)] by simp_all
  have m: "min sz 256 = sz" using sz by simp
  let ?y7 = "y6\<lparr>typed := drop (length ?bs) keys, memory := put_bytes (s V_buf) ?bs (memory y6)\<rparr>"
  have y7: "u_read A (s V_buf) (int sz) y6 = Some (int (length ?bs), ?y7)"
    using u_read_view [OF p sz(1), of y6 l] keys by (simp add: A ty m Let_def)
  let ?col = "of_int (push_bit 4 bg OR (fg AND 0x0F)) :: byte"
  let ?S = "(display y6)\<lparr>scr_x := of_int px, scr_y := of_int py\<rparr>"
  let ?y8 = "?y7\<lparr>display := ?S\<rparr>"
  have y8: "u_gotoxy A px py ?y7 = Some (0, ?y8)" using u_gotoxy_view [OF px py, of l s ?y7] by (simp add: A)
  let ?y9 = "?y7\<lparr>display := ?S\<lparr>current_color := ?col\<rparr>\<rparr>"
  have y9: "u_set_color A fg bg ?y8 = Some (0, ?y9)" using u_set_color_view [OF fg bg, of l s ?y8] by (simp add: A)
  have q: "user_range (s V_buf) (int (length ?bs))" using p by (auto simp: user_range_def)
  have b: "bytes_at (memory ?y9) (s V_buf) (length ?bs) = ?bs"
    using bytes_at_put [of "s V_buf" ?bs "memory y6"] by (simp del: length_take)
  have y10: "u_write A 1 (s V_buf) (int (length ?bs)) ?y9 = Some (int (length ?bs), showing ?bs ?y9)"
    using u_write_view [OF q, of l s ?y9] unfolding b A .
  let ?y = "(showing ?bs ?y9)\<lparr>display := (fold printc ?bs (?S\<lparr>current_color := ?col\<rparr>))\<lparr>current_color := 2\<rparr>\<rparr>"
  have y11: "u_set_color A 2 0 (showing ?bs ?y9) = Some (0, ?y)"
    using u_set_color_view [of 2 0 l s "showing ?bs ?y9"] by (simp add: A)
  have V: "addr A V_buf = s V_buf" by (simp add: A)
  have "test_screen_syscalls A x = Some (Next ?y)"
    unfolding test_screen_syscalls_def V x0(1) x1(1) x2(1) bind.bind_lunit prod.case
      y1(1,2) y2(1,2) y3(1,2) y4(1,2) y5(1,2) y6(1) y7 y8 y9 y10 y11
    by (simp add: y9 y10 y11)
  moreover have "typed ?y = drop sz keys" by (simp add: min_def)
  moreover have "cells (display ?y) ((nat py * 80 + nat px + i) mod 2000) = cell_of ?col (keys ! i)" if "i < length ?bs" for i
    using text_at [OF ok6 px py keys(2) _ that, of ?col] that sz by simp
  ultimately show ?thesis by blast
qed

end
