(* ===== verification/View_Stress.thy ===== *)
theory View_Stress
  imports View_Programs
begin

text \<open>
  The stress test on the view: the numbers it prints, the children it makes, and what is left of the memory.
\<close>

section \<open>Printing a number\<close>

lemma put_bytes_Nil [simp]: "put_bytes p [] m = m"
  by (rule ext) (auto simp: put_bytes_def)

lemma put_bytes_Cons:
  assumes "unat p + length bs < 2 ^ 32"
  shows "put_bytes (p + 1) bs (put_bytes p [b] m) = put_bytes p (b # bs) m"
proof
  fix a
  show "put_bytes (p + 1) bs (put_bytes p [b] m) a = put_bytes p (b # bs) m a"
  proof (cases "bs = []")
    case False
    then have "unat (p + 1) = unat p + 1" using assms by (cases bs) (simp_all add: unat_word_ariths)
    then show ?thesis
      unfolding put_bytes_def by (cases "a = unat p") (auto simp: nth_Cons' Suc_diff_Suc)
  qed simp
qed

lemma user_range_next:
  assumes "user_range p (int (Suc n))"
  shows "user_range p 1" and "0 < n \<Longrightarrow> user_range (p + 1) (int n)" and "unat p + n < 2 ^ 32"
proof -
  have r: "0x800000 \<le> unat p" "int (unat p) + int n + 1 \<le> 0x81C000" using assms unfolding user_range_def by simp_all
  then show "user_range p 1" unfolding user_range_def by linarith
  have "unat p + n < 0x100000000" using r by linarith
  then show "unat p + n < 2 ^ 32" by simp
  assume "0 < n"
  have "unat p + 1 < 0x100000000" using r by linarith
  then have "unat (p + 1) = unat p + 1" by (simp add: unat_word_ariths)
  then show "user_range (p + 1) (int n)" using r unfolding user_range_def by linarith
qed

lemma store_bytes_view:
  assumes "user_range p (int (length bs))"
  shows "store_bytes (view_env l s) p bs x = Some (x\<lparr>memory := put_bytes p bs (memory x)\<rparr>)"
  using assms
proof (induction bs arbitrary: p x)
  case Nil
  then show ?case by simp
next
  case (Cons b bs)
  note n = user_range_next [OF Cons(2) [simplified length_Cons]]
  let ?x = "x\<lparr>memory := put_bytes p [b] (memory x)\<rparr>"
  show ?case
  proof (cases bs)
    case Nil
    then show ?thesis using n(1) by simp
  next
    case Cons': (Cons c cs)
    have "user_range (p + 1) (int (length bs))" using n(2) Cons' by simp
    from Cons(1) [OF this, of ?x] show ?thesis
      using n(1) put_bytes_Cons [OF n(3), of b "memory x"] by simp
  qed
qed

lemma strlen_from_view:
  assumes "user_range p (int n + 1)" and "\<forall>j<n. memory x (unat p + j) \<noteq> 0" and "memory x (unat p + n) = 0"
  shows "strlen_at (view_env l s) p x = Some (int n)"
proof -
  have at: "user_range (p + of_int (int i)) 1" "unat (p + of_int (int i)) = unat p + i" if "i \<le> n" for i
  proof -
    have r: "0x800000 \<le> unat p" "int (unat p) + int n + 1 \<le> 0x81C000" using assms(1) unfolding user_range_def by simp_all
    then have "i < 0x100000000" "unat p + i < 0x100000000" using that by linarith+
    then show u: "unat (p + of_int (int i)) = unat p + i" by (simp add: unat_word_ariths unat_of_nat)
    show "user_range (p + of_int (int i)) 1" using r that unfolding user_range_def u by linarith
  qed
  have "strlen_from (view_env l s) p (int (n - k)) x = Some (int n)" if "k \<le> n" for k
    using that
  proof (induction k)
    case 0
    then show ?case using at [of n] assms(3) by (subst strlen_from.simps) simp
  next
    case (Suc k)
    have e: "int (n - Suc k) + 1 = int (n - k)" using Suc(2) by simp
    have "n - Suc k < n" using Suc(2) by simp
    then have "memory x (unat p + (n - Suc k)) \<noteq> 0" using assms(2) by blast
    then show ?case using at [of "n - Suc k"] Suc
      by (subst strlen_from.simps) (simp add: e del: of_int_of_nat_eq diff_add_assoc add_diff_assoc)
  qed
  from this [of n] show ?thesis by (simp add: strlen_at_def)
qed

text \<open>A word that is stored is read back.\<close>

lemma store32_view:
  assumes "user_range p 4"
  obtains y where "store32 (view_env l s) p v x = Some y" and "load32 (view_env l s) p y = Some v"
proof -
  let ?bs = "map (\<lambda>i. byte_of_dword i v) [0, 1, 2, 3]" let ?y = "x\<lparr>memory := put_bytes p ?bs (memory x)\<rparr>"
  have "user_range p (int (length ?bs))" using assms by simp
  then have st: "store32 (view_env l s) p v x = Some ?y" unfolding store32_def by (rule store_bytes_view)
  have r: "0x800000 \<le> unat p" "unat p + 4 \<le> 0x81C000" using assms unfolding user_range_def by linarith+
  have u: "unat (p + 1) = unat p + 1" "unat (p + 2) = unat p + 2" "unat (p + 3) = unat p + 3"
    using r by (simp_all add: unat_word_ariths)
  have g: "user_range p 1" "user_range (p + 1) 1" "user_range (p + 2) 1" "user_range (p + 3) 1"
    using r unfolding user_range_def u by linarith+
  have "load32 (view_env l s) p ?y = Some (dword_of_bytes (byte_of_dword 0 v) (byte_of_dword 1 v) (byte_of_dword 2 v) (byte_of_dword 3 v))"
    unfolding load32_def using g by (simp add: u put_bytes_def)
  then show thesis using that st unfolding dword_of_its_bytes by blast
qed

text \<open>\<open>say_int\<close> leaves the number with its terminator in the buffer, and shows it.\<close>

lemma say_int_view:
  assumes "0 \<le> a" "a < 2 ^ 31" and p: "user_range p 16"
  obtains n where "n \<le> 10" "say_int (view_env l s) a p x = Some (showing (map (itoa a (\<lambda>_. 0)) [0..<n])
     (x\<lparr>memory := put_bytes p (map (itoa a (\<lambda>_. 0)) [0..<Suc n]) (memory x)\<rparr>))"
proof -
  let ?b = "itoa a (\<lambda>_. 0)"
  obtain n where n: "strlen ?b = Some n" "n \<le> 10" "\<forall>j<n. is_digit (?b j)" "?b n = 0" by (rule itoa_string [OF assms(1,2)])
  let ?bs = "map ?b [0..<Suc n]" let ?x = "x\<lparr>memory := put_bytes p ?bs (memory x)\<rparr>"
  have l: "length ?bs = Suc n" by simp
  have r: "user_range p (int (length ?bs))" "user_range p (int n + 1)" "user_range p (int n)"
    using p n(2) unfolding l user_range_def by linarith+
  have m: "memory ?x (unat p + j) = ?b j" if "j \<le> n" for j using that by (simp add: put_bytes_def del: upt_Suc)
  have "?b j \<noteq> 0" if "j < n" for j using n(3) that by (auto simp: is_digit_def)
  then have len: "strlen_at (view_env l s) p ?x = Some (int n)"
    by (intro strlen_from_view [OF r(2)]) (use m n(4) in auto)
  have put: "put_string (view_env l s) p ?b x = Some ?x"
    by (simp add: put_string_def n(1) store_bytes_view [OF r(1)] del: upt_Suc)
  have "bytes_at (memory ?x) p n = map ?b [0..<n]"
    unfolding bytes_at_def by (rule map_cong [OF refl]) (use m in auto)
  then have "u_write (view_env l s) 1 p (int n) ?x = Some (int n, showing (map ?b [0..<n]) ?x)"
    using u_write_view [OF r(3), of l s ?x] by simp
  then show ?thesis using n(2) by (intro that [of n]) (simp_all add: say_int_def put say_string_def len del: upt_Suc)
qed

section \<open>Filling the memory\<close>

definition stress_texts :: "string list" where
  "stress_texts =
    [''\<newline>--- M3 Stress Test (Block/Unblock) ---\<newline>'', ''Allocating all 8MB of RAM...\<newline>'',
     ''\<newline>Memory FULL! Alive children: '', ''\<newline>'', '' '', ''Cleaning up memory (unblocking all)...\<newline>'',
     ''Done. Memory is free again.\<newline>'']"

abbreviation (input) stress_vars :: "(symbol \<times> nat) list" where
  "stress_vars \<equiv> [(V_stress_buf, 16), (V_errno, 4)]"

text \<open>Between its forks the test changes the screen and its memory only.\<close>

definition same_system :: "process_view \<Rightarrow> process_view \<Rightarrow> bool" where
  "same_system x y \<longleftrightarrow> free_count y = free_count x \<and> last_pid y = last_pid x \<and> kids y = kids x \<and>
     own_pid y = own_pid x"

lemma same_system_showing [simp]: "same_system x (showing cs x)"
  by (simp add: same_system_def)

lemma same_system_trans: "same_system x y \<Longrightarrow> same_system y z \<Longrightarrow> same_system x z"
  by (simp add: same_system_def)

lemma at_prompt_put:
  assumes "at_prompt l ts ks x" and "laid_out l s ts vs" and "(v, n) \<in> set vs" and "length bs \<le> n"
  shows "at_prompt l ts ks (x\<lparr>memory := put_bytes (s v) bs (memory x)\<rparr>)"
  using assms text_in_put [OF assms(2-4)] by (simp add: at_prompt_def)

lemma say_stress:
  assumes x: "at_prompt l ts ks x" and t: "t \<in> set ts" and n: "0 \<le> n" "n \<le> int (length t) + 1"
  shows "\<exists>y. say (view_env l s) t n x = Some y \<and> at_prompt l ts ks y \<and> same_system x y"
  using say_view [OF at_promptD(3) [OF x t], of "nat n" s] at_prompt_showing [OF x] n by auto

lemma say_int_stress:
  assumes x: "at_prompt l ts ks x" and lay: "laid_out l s ts vs" and v: "(v, 16) \<in> set vs" and a: "0 \<le> a" "a < 2 ^ 31"
  shows "\<exists>y. say_int (view_env l s) a (s v) x = Some y \<and> at_prompt l ts ks y \<and> same_system x y"
proof -
  have "user_range (s v) 16" using laid_outD [OF lay v] by simp
  from say_int_view [OF a this, of l s x] obtain n where n: "n \<le> 10" and
    y: "say_int (view_env l s) a (s v) x = Some (showing (map (itoa a (\<lambda>_. 0)) [0..<n])
     (x\<lparr>memory := put_bytes (s v) (map (itoa a (\<lambda>_. 0)) [0..<Suc n]) (memory x)\<rparr>))" by blast
  have "at_prompt l ts ks (x\<lparr>memory := put_bytes (s v) (map (itoa a (\<lambda>_. 0)) [0..<Suc n]) (memory x)\<rparr>)"
    by (rule at_prompt_put [OF x lay v]) (use n in simp)
  from at_prompt_showing [OF this] show ?thesis unfolding y by (auto simp: same_system_def)
qed

lemma u_fork_view:
  assumes "23 \<le> free_count x" and "0 \<le> last_pid x"
  shows "u_fork (view_env l s) x = Some (last_pid x + 1,
    x\<lparr>free_count := free_count x - 23, last_pid := last_pid x + 1, kids := kids x @ [(last_pid x + 1, 0)]\<rparr>)"
  unfolding u_fork_def using assms by (intro view_stub) (simp_all add: view_call_def view_fork_def)

text \<open>The number of the error is stored, and at most a frame is lost.\<close>

lemma u_fork_refused_view:
  assumes free: "free_count x < 23" and x: "at_prompt l ts ks x" and lay: "laid_out l s ts vs" and v: "(V_errno, 4) \<in> set vs"
  shows "\<exists>y. u_fork (view_env l s) x = Some (- 1, y) \<and> at_prompt l ts ks y \<and> kids y = kids x \<and> last_pid y = last_pid x \<and>
    own_pid y = own_pid x \<and> free_count y \<le> free_count x \<and> free_count x \<le> free_count y + 1"
proof -
  obtain e y where e: "view_call 2 0 0 0 x = Some (e, y)" "e < 0"
      and y: "display y = display x" "typed y = typed x" "memory y = memory x" "kids y = kids x" "last_pid y = last_pid x"
        "own_pid y = own_pid x" "free_count y \<le> free_count x" "free_count x \<le> free_count y + 1"
    using free by (cases "free_count x = 0") (auto simp: view_call_def view_fork_def)
  let ?bs = "map (\<lambda>i. byte_of_dword i (of_int (- e))) [0, 1, 2, 3]"
  have "user_range (s V_errno) (int (length ?bs))" using laid_outD [OF lay v] by simp
  then have "store32 (view_env l s) (s V_errno) (of_int (- e)) y = Some (y\<lparr>memory := put_bytes (s V_errno) ?bs (memory y)\<rparr>)"
    unfolding store32_def by (rule store_bytes_view)
  then have "u_fork (view_env l s) x = Some (- 1, y\<lparr>memory := put_bytes (s V_errno) ?bs (memory y)\<rparr>)"
    unfolding u_fork_def stub_def view_env_simps e(1) using e(2) by simp
  moreover have "at_prompt l ts ks y" using x y by (simp add: at_prompt_def)
  then have "at_prompt l ts ks (y\<lparr>memory := put_bytes (s V_errno) ?bs (memory y)\<rparr>)"
    by (rule at_prompt_put [OF _ lay v]) simp
  ultimately show ?thesis using y by simp
qed

lemma fork_all_view:
  assumes lay: "laid_out l s stress_texts stress_vars"
  shows "at_prompt l stress_texts ks x \<Longrightarrow> length ps \<le> 128 \<Longrightarrow> 0 \<le> last_pid x \<Longrightarrow>
    \<exists>y. let n = min (128 - length ps) (free_count x div 23) in
      fork_all (view_env l s) ps x = Some (Stored (ps @ map (\<lambda>i. last_pid x + 1 + int i) [0..<n]) y) \<and>
      at_prompt l stress_texts ks y \<and> kids y = kids x @ map (\<lambda>i. (last_pid x + 1 + int i, 0)) [0..<n] \<and>
      last_pid y = last_pid x + int n \<and> own_pid y = own_pid x \<and> free_count y + 23 * n \<le> free_count x \<and> free_count x \<le> free_count y + 23 * n + 1"
proof (induction "128 - length ps" arbitrary: ps x rule: less_induct)
  case less
  note x = less(2) and len = less(3) and pid = less(4)
  let ?A = "view_env l s"
  consider "length ps = 128" | "length ps < 128" "23 \<le> free_count x" | "length ps < 128" "free_count x < 23"
    using len by linarith
  then show ?case
  proof cases
    case 1
    then show ?thesis using x by (simp add: fork_all.simps [of ?A ps] Let_def)
  next
    case 2
    let ?p = "last_pid x + 1" let ?ps = "ps @ [?p]"
    let ?x = "x\<lparr>free_count := free_count x - 23, last_pid := ?p, kids := kids x @ [(?p, 0)]\<rparr>"
    have x1: "at_prompt l stress_texts ks ?x" using x by (simp add: at_prompt_def)
    obtain y where y: "(if length ?ps mod 10 = 0 then do {
                 w \<leftarrow> say_int ?A (int (length ?ps)) (addr ?A V_stress_buf) ?x;
                 say ?A '' '' 1 w }
               else Some ?x) = Some y" "at_prompt l stress_texts ks y" "same_system ?x y"
    proof (cases "length ?ps mod 10 = 0")
      case True
      obtain z where z: "say_int ?A (int (length ?ps)) (s V_stress_buf) ?x = Some z" "at_prompt l stress_texts ks z" "same_system ?x z"
        using say_int_stress [OF x1 lay, of V_stress_buf "int (length ?ps)"] 2 by auto
      obtain y where "say ?A '' '' 1 z = Some y" "at_prompt l stress_texts ks y" "same_system z y"
        using say_stress [OF z(2), of "'' ''" 1 s] by (auto simp: stress_texts_def)
      then show thesis using z True same_system_trans by (intro that [of y]) auto
    qed (use x1 in \<open>auto simp: same_system_def\<close>)
    have e: "fork_all ?A ps x = fork_all ?A ?ps y"
      using 2 pid y(1) unfolding fork_all.simps [of ?A ps x] u_fork_view [OF 2(2) pid] by simp
    let ?m = "min (128 - length ?ps) (free_count y div 23)" and ?n = "min (128 - length ps) (free_count x div 23)"
    have yy: "free_count y = free_count x - 23" "last_pid y = ?p" "kids y = kids x @ [(?p, 0)]"
      "own_pid y = own_pid x"
      using y(3) by (simp_all add: same_system_def)
    have n: "?n = Suc ?m" using 2 by (simp add: yy le_div_geq)
    have "\<exists>z. fork_all ?A ?ps y = Some (Stored (?ps @ map (\<lambda>i. last_pid y + 1 + int i) [0..<?m]) z) \<and>
      at_prompt l stress_texts ks z \<and> kids z = kids y @ map (\<lambda>i. (last_pid y + 1 + int i, 0)) [0..<?m] \<and>
      last_pid z = last_pid y + int ?m \<and> own_pid z = own_pid y \<and> free_count z + 23 * ?m \<le> free_count y \<and> free_count y \<le> free_count z + 23 * ?m + 1"
      using less(1) [of ?ps y] 2 y(2) pid by (simp add: yy Let_def)
    then obtain z where z: "fork_all ?A ?ps y = Some (Stored (?ps @ map (\<lambda>i. last_pid y + 1 + int i) [0..<?m]) z)"
      "at_prompt l stress_texts ks z" "kids z = kids y @ map (\<lambda>i. (last_pid y + 1 + int i, 0)) [0..<?m]"
      "last_pid z = last_pid y + int ?m" "own_pid z = own_pid y" "free_count z + 23 * ?m \<le> free_count y" "free_count y \<le> free_count z + 23 * ?m + 1"
      by blast
    have "free_count z + 23 * Suc ?m \<le> free_count x" "free_count x \<le> free_count z + 23 * Suc ?m + 1"
      unfolding mult_Suc_right using z(6,7) yy(1) 2 by linarith+
    then show ?thesis unfolding Let_def n map_upt_Suc e z(1)
      by (intro exI [of _ z]) (use z(2-5) yy in \<open>simp add: algebra_simps\<close>)
  next
    case 3
    obtain a where a: "u_fork ?A x = Some (- 1, a)" "at_prompt l stress_texts ks a" "kids a = kids x" "last_pid a = last_pid x"
        "own_pid a = own_pid x" "free_count a \<le> free_count x" "free_count x \<le> free_count a + 1"
      using u_fork_refused_view [OF 3(2) x lay] by auto
    obtain b where b: "say ?A ''\<newline>Memory FULL! Alive children: '' 30 a = Some b" "at_prompt l stress_texts ks b" "same_system a b"
      using say_stress [OF a(2), of "''\<newline>Memory FULL! Alive children: ''" 30 s] by (auto simp: stress_texts_def)
    obtain c where c: "say_int ?A (int (length ps)) (s V_stress_buf) b = Some c" "at_prompt l stress_texts ks c" "same_system b c"
      using say_int_stress [OF b(2) lay, of V_stress_buf "int (length ps)"] 3 by auto
    obtain d where d: "say ?A ''\<newline>'' 1 c = Some d" "at_prompt l stress_texts ks d" "same_system c d"
      using say_stress [OF c(2), of "''\<newline>''" 1 s] by (auto simp: stress_texts_def)
    have "fork_all ?A ps x = Some (Stored ps d)"
      using 3 by (simp add: fork_all.simps [of ?A ps x] a(1) b(1) c(1) d(1))
    then show ?thesis using 3 a d b(3) c(3) by (auto simp: same_system_def)
  qed
qed

lemma u_unblock_view:
  assumes "p \<in> fst ` set (kids x)" and "0 \<le> p" "p < 2 ^ 31"
  shows "u_unblock (view_env l s) p x =
    Some (0, x\<lparr>kids := map (\<lambda>(q, n). if q = p then (q, n + 1) else (q, n)) (kids x)\<rparr>)"
proof -
  have "sint (of_int p :: dword) = p" using assms(2,3) by (simp add: sint_small)
  then show ?thesis
    unfolding u_unblock_def using assms(1) by (intro view_stub) (simp_all add: view_call_def view_unblock_def)
qed

lemma unblock_all_view:
  assumes "set ps \<subseteq> fst ` set (kids x)" and "distinct ps" and "\<forall>p\<in>set ps. 0 \<le> p \<and> p < 2 ^ 31"
  shows "unblock_all (view_env l s) ps x =
    Some (x\<lparr>kids := map (\<lambda>(q, n). if q \<in> set ps then (q, n + 1) else (q, n)) (kids x)\<rparr>)"
  using assms
proof (induction ps arbitrary: x)
  case Nil
  have "map (\<lambda>(q, n). (q, n)) (kids x) = kids x" by (simp add: case_prod_eta)
  then show ?case by simp
next
  case (Cons p ps)
  let ?k = "map (\<lambda>(q, n). if q = p then (q, n + 1) else (q, n)) (kids x)" let ?x = "x\<lparr>kids := ?k\<rparr>"
  have "fst ` set ?k = fst ` set (kids x)" by (force simp: image_iff)
  then have sub: "set ps \<subseteq> fst ` set (kids ?x)" using Cons(2) by simp
  have "map (\<lambda>(q, n). if q \<in> set ps then (q, n + 1) else (q, n)) ?k =
      map (\<lambda>(q, n). if q \<in> set (p # ps) then (q, n + 1) else (q, n)) (kids x)"
    using Cons(3) by auto
  then show ?case
    using u_unblock_view [of p x l s] Cons(2,4) Cons(1) [OF sub] Cons(3) by simp
qed

text \<open>
  The whole test: a child for every 23 free frames, 128 at most, each with one wake-up that it has not used yet. The memory
  is as full at the end as it was before the children were woken.
\<close>

lemma test_m3_stress_view:
  assumes lay: "laid_out l s stress_texts stress_vars" and x: "at_prompt l stress_texts ks x"
    and pid: "0 \<le> last_pid x" "last_pid x + 128 < 2 ^ 31" "\<forall>(p, n)\<in>set (kids x). p \<le> last_pid x"
  shows "\<exists>y. let n = min 128 (free_count x div 23) in
    test_m3_stress (view_env l s) x = Some (Next y) \<and>
    kids y = kids x @ map (\<lambda>i. (last_pid x + 1 + int i, 1)) [0..<n] \<and>
    last_pid y = last_pid x + int n \<and> own_pid y = own_pid x \<and> free_count y + 23 * n \<le> free_count x \<and> free_count x \<le> free_count y + 23 * n + 1"
proof -
  let ?A = "view_env l s" and ?T = stress_texts and ?n = "min 128 (free_count x div 23)"
  let ?ps = "map (\<lambda>i. last_pid x + 1 + int i) [0..<?n]"
  obtain a where a: "say ?A ''\<newline>--- M3 Stress Test (Block/Unblock) ---\<newline>'' 40 x = Some a" "at_prompt l ?T ks a" "same_system x a"
    using say_stress [OF x, of "''\<newline>--- M3 Stress Test (Block/Unblock) ---\<newline>''" 40 s] by (auto simp: stress_texts_def)
  obtain b where b: "say ?A ''Allocating all 8MB of RAM...\<newline>'' 29 a = Some b" "at_prompt l ?T ks b" "same_system a b"
    using say_stress [OF a(2), of "''Allocating all 8MB of RAM...\<newline>''" 29 s] by (auto simp: stress_texts_def)
  have xb: "free_count b = free_count x" "last_pid b = last_pid x" "kids b = kids x" "own_pid b = own_pid x"
    using a(3) b(3) by (simp_all add: same_system_def)
  obtain c where c: "fork_all ?A [] b = Some (Stored ?ps c)" "at_prompt l ?T ks c"
      "kids c = kids x @ map (\<lambda>i. (last_pid x + 1 + int i, 0)) [0..<?n]" "last_pid c = last_pid x + int ?n"
      "own_pid c = own_pid x" "free_count c + 23 * ?n \<le> free_count x" "free_count x \<le> free_count c + 23 * ?n + 1"
    using fork_all_view [OF lay b(2), of "[]"] pid(1) by (auto simp: xb Let_def)
  obtain d where d: "say ?A ''Cleaning up memory (unblocking all)...\<newline>'' 39 c = Some d" "at_prompt l ?T ks d" "same_system c d"
    using say_stress [OF c(2), of "''Cleaning up memory (unblocking all)...\<newline>''" 39 s] by (auto simp: stress_texts_def)
  let ?k = "map (\<lambda>(q, n). if q \<in> set ?ps then (q, n + 1) else (q, n)) (kids d)" let ?e = "d\<lparr>kids := ?k\<rparr>"
  have kd: "kids d = kids c" "last_pid d = last_pid c" "free_count d = free_count c" "own_pid d = own_pid c" using d(3) by (simp_all add: same_system_def)
  have e: "unblock_all ?A ?ps d = Some ?e"
    by (rule unblock_all_view) (use pid in \<open>force simp: kd c(3) distinct_map inj_on_def\<close>)+
  have "at_prompt l ?T ks ?e" using d(2) by (simp add: at_prompt_def)
  then obtain y where y: "say ?A ''Done. Memory is free again.\<newline>'' 28 ?e = Some y" "same_system ?e y"
    using say_stress [of l ?T ks ?e "''Done. Memory is free again.\<newline>''" 28 s] by (auto simp: stress_texts_def)
  have "q \<notin> set ?ps" if "(q, n) \<in> set (kids x)" for q n using pid(3) that by fastforce
  then have "map (\<lambda>(q, n). if q \<in> set ?ps then (q, n + 1) else (q, n)) (kids x) = kids x"
    by (intro map_idI) auto
  then have "?k = kids x @ map (\<lambda>i. (last_pid x + 1 + int i, 1)) [0..<?n]" by (simp add: kd c(3) comp_def)
  moreover have "test_m3_stress ?A x = Some (Next y)"
    by (simp only: test_m3_stress_def a(1) b(1) c(1) d(1) e y(1) bind.bind_lunit forks.case)
  ultimately show ?thesis using y(2) kd c(4-7) by (intro exI [of _ y]) (simp add: Let_def same_system_def)
qed

end
