(* ===== verification/Boot_Memory.thy ===== *)
theory Boot_Memory
  imports Boot
begin

text \<open>
  The memory at boot. \<open>taken m fs\<close> is the invariant of the run of allocations: the frames \<open>fs\<close> are distinct, in use,
  above the kernel image and below 4 MB, and all other frames there are still free, but for the one of the GDT and the hole of
  the video memory and the BIOS; so the 35 allocations of the initialisation find a frame each. The lemmas follow \<open>set_user_pages\<close>, \<open>set_kernel_pages\<close>
  and the page tables of \<open>init_task1\<close>.
\<close>

section \<open>The run of allocations\<close>

definition boot_frames :: "nat \<Rightarrow> nat set" where
  "boot_frames lk = {lk..<TOTAL_PAGES} - {0x90} - {0xA0..<0x100}"

definition taken :: "mm \<Rightarrow> nat list \<Rightarrow> bool" where
  "taken m fs \<longleftrightarrow> frames_ok m \<and> last_kernel m \<le> 512 \<and> distinct fs \<and> set fs \<subseteq> boot_frames (last_kernel m) \<inter> {..<1024} \<and>
     allocatable m = boot_frames (last_kernel m) - set fs"

lemma takenD:
  assumes "taken m fs"
  shows "frames_ok m" "last_kernel m \<le> 512" "distinct fs" "{512..<1024} - set fs \<subseteq> free_frames m"
    "f \<in> set fs \<Longrightarrow> last_kernel m \<le> f" "f \<in> set fs \<Longrightarrow> f < 1024" "f \<in> set fs \<Longrightarrow> f \<notin> free_frames m"
    "set fs \<subseteq> boot_frames (last_kernel m)" "allocatable m = boot_frames (last_kernel m) - set fs"
proof -
  have t: "frames_ok m" "last_kernel m \<le> 512" "distinct fs" "set fs \<subseteq> boot_frames (last_kernel m)"
      "allocatable m = boot_frames (last_kernel m) - set fs"
    and low: "set fs \<subseteq> {..<1024}"
    using assms by (simp_all add: taken_def)
  have "{512..<1024} \<subseteq> boot_frames (last_kernel m)" using t(2) by (auto simp: boot_frames_def)
  then show "{512..<1024} - set fs \<subseteq> free_frames m" using t(5) unfolding allocatable_def by blast
  show f: "f \<in> set fs \<Longrightarrow> last_kernel m \<le> f" "f \<in> set fs \<Longrightarrow> f < 1024" using t(4) low by (auto simp: boot_frames_def)
  show "f \<in> set fs \<Longrightarrow> f \<notin> free_frames m" using t(5) f(1) unfolding allocatable_def by blast
qed (use assms in \<open>simp_all add: taken_def\<close>)

text \<open>How many frames are left.\<close>

lemma taken_card:
  assumes "taken m fs" and "last_kernel m \<le> 144"
  shows "card (allocatable m) = 1951 - last_kernel m - length fs"
proof -
  note d = takenD [OF assms(1)]
  have "boot_frames (last_kernel m) = {last_kernel m..<TOTAL_PAGES} - insert 0x90 {0xA0..<0x100}" by (auto simp: boot_frames_def)
  moreover have "card ({last_kernel m..<TOTAL_PAGES} - insert 0x90 {0xA0..<0x100}) =
      card {last_kernel m..<TOTAL_PAGES} - card (insert 0x90 {0xA0..<(0x100 :: nat)})"
    by (rule card_Diff_subset) (use assms(2) in auto)
  ultimately have "card (boot_frames (last_kernel m)) = 1951 - last_kernel m" by simp
  moreover have "card (allocatable m) = card (boot_frames (last_kernel m)) - card (set fs)"
    unfolding d(9) by (rule card_Diff_subset [OF _ d(8)]) simp
  ultimately show ?thesis using distinct_card [OF d(3)] by simp
qed

lemma taken_alloc:
  assumes t: "taken (frames k) fs" and n: "length fs < 512"
  obtains f m where "kernel_alloc_frame k = (int f, k\<lparr>frames := m\<rparr>)" and "taken m (f # fs)"
    and "first_kernel m = first_kernel (frames k)" and "last_kernel m = last_kernel (frames k)"
proof -
  note d = takenD [OF t]
  have "card (set fs) < card {512..<1024::nat}" using card_length [of fs] n by simp
  then obtain g where g: "g \<in> {512..<1024}" "g \<notin> set fs"
    by (metis card_mono finite_set leD subsetI)
  then have ga: "g \<in> allocatable (frames k)" using d(2,4) by (auto simp: allocatable_def)
  show thesis
  proof (cases "frames k" rule: alloc_frame_cases)
    case 1
    then show thesis using ga by simp
  next
    case (2 f)
    let ?m = "(frames k)\<lparr>phys_mem := (phys_mem (frames k))(f := USED_FRAME)\<rparr>"
    have f: "f \<in> free_frames (frames k)" "last_kernel (frames k) \<le> f" using 2(1) by (auto simp: allocatable_def)
    have "f \<le> g" using 2(2) ga by simp
    have "allocatable ?m = allocatable (frames k) - {f}" by (auto simp: allocatable_def free_frames_def)
    then have "taken ?m (f # fs)"
      using frames_ok_alloc [OF d(1)] 2(1,3) d \<open>f \<le> g\<close> g(1) by (auto simp: taken_def)
    then show thesis by (intro that [of f ?m]) (use 2(3) in \<open>simp_all add: kernel_alloc_frame_split\<close>)
  qed
qed

section \<open>The user pages\<close>

lemma upd_table_eq:
  "upd_table p f k = k\<lparr>mach := (mach k)\<lparr>tables := (tables (mach k))(p := f (table k p))\<rparr>\<rparr>"
  by (simp add: upd_table_def table_def)

text \<open>One round of the loops of \<open>set_user_pages\<close>.\<close>

definition alloc_page :: "nat \<Rightarrow> nat \<Rightarrow> (dword \<Rightarrow> pte) \<Rightarrow> nat \<Rightarrow> kernel \<Rightarrow> kernel" where
  "alloc_page u c E pag k =
     (let (new, k) = kernel_alloc_frame k in upd_table u (\<lambda>t. t(c + pag := E (of_int new))) k)"

lemma set_user_pages_loops:
  "set_user_pages u k =
     fold (alloc_page u 0 (\<lambda>w. set_present 1 (set_rw 1 (set_user 1 (set_pbase_addr w 0))))) [0..<20]
      (fold (alloc_page u 20 (\<lambda>w. set_present 1 (set_user 1 (set_pbase_addr w 0)))) [0..<8] k)"
proof -
  have "(\<lambda>pag k.
            let (new_ph_pag, k) = kernel_alloc_frame k;
                k = upd_table u (\<lambda>t. t(20 + pag := 0)) k;
                k = upd_table u (\<lambda>t. t(20 + pag := set_pbase_addr (of_int new_ph_pag) (t (20 + pag)))) k;
                k = upd_table u (\<lambda>t. t(20 + pag := set_user 1 (t (20 + pag)))) k
            in upd_table u (\<lambda>t. t(20 + pag := set_present 1 (t (20 + pag)))) k)
        = alloc_page u 20 (\<lambda>w. set_present 1 (set_user 1 (set_pbase_addr w 0)))"
    by (simp add: fun_eq_iff alloc_page_def upd_table_twice Let_def split: prod.split)
  moreover have "(\<lambda>pag k.
            let (new_ph_pag, k) = kernel_alloc_frame k;
                k = upd_table u (\<lambda>t. t(pag := 0)) k;
                k = upd_table u (\<lambda>t. t(pag := set_pbase_addr (of_int new_ph_pag) (t pag))) k;
                k = upd_table u (\<lambda>t. t(pag := set_user 1 (t pag))) k;
                k = upd_table u (\<lambda>t. t(pag := set_rw 1 (t pag))) k
            in upd_table u (\<lambda>t. t(pag := set_present 1 (t pag))) k)
        = alloc_page u 0 (\<lambda>w. set_present 1 (set_rw 1 (set_user 1 (set_pbase_addr w 0))))"
    by (simp add: fun_eq_iff alloc_page_def upd_table_twice Let_def split: prod.split)
  ultimately show ?thesis unfolding set_user_pages_def Let_def by simp
qed

text \<open>\<open>k\<close> with other frames and another table in frame \<open>u\<close>.\<close>

definition with_table :: "nat \<Rightarrow> mm \<Rightarrow> page_table \<Rightarrow> kernel \<Rightarrow> kernel" where
  "with_table u m T k = k\<lparr>frames := m, mach := (mach k)\<lparr>tables := (tables (mach k))(u := T)\<rparr>\<rparr>"

lemma with_table_simps [simp]:
  "frames (with_table u m T k) = m" "table (with_table u m T k) u = T"
  "with_table u m T (with_table u m' T' k) = with_table u m T k"
  by (simp_all add: with_table_def table_def)

lemma alloc_pages:
  assumes t: "taken (frames k) fs" and n: "length fs + n \<le> 512"
    and E: "\<And>w. pte_present (E w) = 1" "\<And>w. pte_pbase_addr (E w) = take_bit 20 w"
  shows "\<exists>m T. fold (alloc_page u c E) [0..<n] k = with_table u m T k
      \<and> taken m (rev (map (\<lambda>j. get_frame T (c + j)) [0..<n]) @ fs)
      \<and> (\<forall>j<n. present T (c + j)) \<and> (\<forall>j. j < c \<or> c + n \<le> j \<longrightarrow> T j = table k u j)
      \<and> first_kernel m = first_kernel (frames k) \<and> last_kernel m = last_kernel (frames k)"
  using n
proof (induction n)
  case 0
  have "k = with_table u (frames k) (table k u) k" by (simp add: with_table_def table_def)
  then show ?case using t by (intro exI [of _ "frames k"] exI [of _ "table k u"]) simp
next
  case (Suc n)
  then obtain m T where IH: "fold (alloc_page u c E) [0..<n] k = with_table u m T k"
      "taken m (rev (map (\<lambda>j. get_frame T (c + j)) [0..<n]) @ fs)" "\<forall>j<n. present T (c + j)"
      "\<forall>j. j < c \<or> c + n \<le> j \<longrightarrow> T j = table k u j"
      "first_kernel m = first_kernel (frames k)" "last_kernel m = last_kernel (frames k)" by auto
  obtain f m' where f: "kernel_alloc_frame (with_table u m T k) = (int f, (with_table u m T k)\<lparr>frames := m'\<rparr>)"
      "taken m' (f # rev (map (\<lambda>j. get_frame T (c + j)) [0..<n]) @ fs)"
      "first_kernel m' = first_kernel m" "last_kernel m' = last_kernel m"
    using taken_alloc [of "with_table u m T k" "rev (map (\<lambda>j. get_frame T (c + j)) [0..<n]) @ fs"] IH(2) Suc.prems by auto
  let ?T = "T(c + n := E (of_int (int f)))"
  have e: "alloc_page u c E n (with_table u m T k) = with_table u m' ?T k"
    using f(1) by (simp add: alloc_page_def upd_table_eq) (simp add: with_table_def table_def)
  have "f < 1048576" using takenD(6) [OF f(2), of f] by simp
  then have g: "get_frame ?T (c + n) = f" "present ?T (c + n)"
    by (simp_all add: get_frame_def present_def E take_bit_20_of_nat)
  have g': "get_frame ?T (c + j) = get_frame T (c + j)" "present ?T (c + j) = present T (c + j)" if "j < n" for j
    using that by (simp_all add: get_frame_def present_def)
  have fr: "rev (map (\<lambda>j. get_frame ?T (c + j)) [0..<Suc n]) = f # rev (map (\<lambda>j. get_frame T (c + j)) [0..<n])"
    using g(1) g'(1) by (simp del: fun_upd_apply)
  have 1: "taken m' (rev (map (\<lambda>j. get_frame ?T (c + j)) [0..<Suc n]) @ fs)"
    using f(2) unfolding fr append_Cons .
  have 2: "\<forall>j<Suc n. present ?T (c + j)" using g(2) g'(2) IH(3) by (auto simp: less_Suc_eq simp del: fun_upd_apply)
  have 3: "\<forall>j. j < c \<or> c + Suc n \<le> j \<longrightarrow> ?T j = table k u j" using IH(4) by auto
  have 4: "first_kernel m' = first_kernel (frames k)" "last_kernel m' = last_kernel (frames k)"
    using IH(5,6) f(3,4) by simp_all
  have "fold (alloc_page u c E) [0..<Suc n] k = with_table u m' ?T k" using IH(1) e by simp
  then show ?case by (intro exI [of _ m'] exI [of _ ?T] conjI) (use 1 2 3 4 in blast)+
qed

lemma taken_rev: "taken m (rev xs @ fs) = taken m (xs @ fs)"
  by (auto simp: taken_def)

lemma set_user_pages_ok:
  assumes t: "taken (frames k) fs" and n: "length fs + 28 \<le> 512"
  obtains m T where "set_user_pages u k = with_table u m T k"
    and "taken m (map (get_frame T) [0..<28] @ fs)" and "\<And>j. j < 28 \<Longrightarrow> present T j"
    and "\<And>j. 28 \<le> j \<Longrightarrow> T j = table k u j"
    and "first_kernel m = first_kernel (frames k)" and "last_kernel m = last_kernel (frames k)"
proof -
  obtain m1 T1 where 1: "fold (alloc_page u 20 (\<lambda>w. set_present 1 (set_user 1 (set_pbase_addr w 0)))) [0..<8] k
        = with_table u m1 T1 k"
      "taken m1 (rev (map (\<lambda>j. get_frame T1 (20 + j)) [0..<8]) @ fs)" "\<forall>j<8. present T1 (20 + j)"
      "\<forall>j. j < 20 \<or> 28 \<le> j \<longrightarrow> T1 j = table k u j"
      "first_kernel m1 = first_kernel (frames k)" "last_kernel m1 = last_kernel (frames k)"
    using alloc_pages [OF t, of 8 "\<lambda>w. set_present 1 (set_user 1 (set_pbase_addr w 0))" u 20] n
    by (auto simp: pte_simps)
  obtain m T where 2: "fold (alloc_page u 0 (\<lambda>w. set_present 1 (set_rw 1 (set_user 1 (set_pbase_addr w 0))))) [0..<20]
        (with_table u m1 T1 k) = with_table u m T (with_table u m1 T1 k)"
      "taken m (rev (map (get_frame T) [0..<20]) @ rev (map (\<lambda>j. get_frame T1 (20 + j)) [0..<8]) @ fs)"
      "\<forall>j<20. present T j" "\<forall>j. 20 \<le> j \<longrightarrow> T j = T1 j" "first_kernel m = first_kernel m1" "last_kernel m = last_kernel m1"
    using alloc_pages [of "with_table u m1 T1 k" "rev (map (\<lambda>j. get_frame T1 (20 + j)) [0..<8]) @ fs" 20
        "\<lambda>w. set_present 1 (set_rw 1 (set_user 1 (set_pbase_addr w 0)))" u 0] n 1(2)
    by (auto simp: pte_simps)
  have same: "get_frame T j = get_frame T1 j" "present T j = present T1 j" if "20 \<le> j" for j
    using 2(4) that by (simp_all add: get_frame_def present_def)
  have split: "[0..<28] = [0..<20] @ map ((+) 20) [0..<8]"
    by (simp add: upt_conv_Cons)
  have "map (get_frame T) [0..<28] = map (get_frame T) [0..<20] @ map (\<lambda>j. get_frame T1 (20 + j)) [0..<8]"
    unfolding split map_append map_map using same(1) by (simp del: upt_rec_numeral)
  moreover have "taken m (map (get_frame T) [0..<20] @ map (\<lambda>j. get_frame T1 (20 + j)) [0..<8] @ fs)"
    using 2(2) unfolding taken_rev by (auto simp: taken_def)
  ultimately have "taken m (map (get_frame T) [0..<28] @ fs)" by simp
  moreover have "present T j" if "j < 28" for j
  proof (cases "j < 20")
    case False
    then have "j = 20 + (j - 20)" "j - 20 < 8" using that by simp_all
    then show ?thesis using same(2) [of j] 1(3) False by (metis not_less)
  qed (use 2(3) in simp)
  moreover have "set_user_pages u k = with_table u m T k"
    unfolding set_user_pages_loops 1(1) 2(1) by simp
  ultimately show thesis using that 1(4-6) 2(4-6) by simp
qed

section \<open>The kernel's table\<close>

text \<open>\<open>ident P t\<close>: the table maps the pages of \<open>P\<close> to themselves.\<close>

definition ident :: "nat set \<Rightarrow> page_table \<Rightarrow> bool" where
  "ident P t \<longleftrightarrow> (\<forall>f\<in>P. present t f \<and> get_frame t f = f)"

lemma ident_add: "ident P t \<Longrightarrow> f < 1048576 \<Longrightarrow> ident (insert f P) (set_ss_pag t f f u)"
  unfolding ident_def by (metis insertE present_set_ss_pag get_frame_set_ss_pag get_frame_set_ss_pag_other)

lemma ident_mono: "ident P t \<Longrightarrow> Q \<subseteq> P \<Longrightarrow> ident Q t"
  by (auto simp: ident_def)

lemma upd_table_fold:
  "fold (\<lambda>i k. upd_table p (f i) k) is k = upd_table p (fold f is) k"
proof (induction "is" arbitrary: k)
  case Nil
  then show ?case by (simp add: upd_table_def)
next
  case (Cons i "is")
  then show ?case by (simp add: upd_table_twice comp_def)
qed

lemma ident_fold: "b \<le> 1048576 \<Longrightarrow> ident {a..<b} (fold (\<lambda>i t. set_ss_pag t i i 0) [a..<b] t)"
proof (induction b)
  case 0
  then show ?case by (simp add: ident_def)
next
  case (Suc b)
  have "ident (insert b {a..<b}) (set_ss_pag (fold (\<lambda>i t. set_ss_pag t i i 0) [a..<b] t) b b 0)"
    using Suc by (intro ident_add) simp_all
  moreover have "insert b {a..<b} = {a..<Suc b}" if "a \<le> b" using that by auto
  ultimately show ?case by (cases "a \<le> b") (auto simp: ident_def)
qed

lemma set_kernel_pages_ok:
  assumes "last_kernel (frames k) \<le> 512"
  obtains T where "set_kernel_pages u k = with_table u (frames k) T (k\<lparr>scr := printk [10] (scr k)\<rparr>)"
    and "ident ({first_kernel (frames k)..<last_kernel (frames k)} \<union> {0x90, 0xb8}) T"
proof -
  let ?T0 = "fold (\<lambda>i t. set_ss_pag t i i 0) [first_kernel (frames k)..<last_kernel (frames k)] (table k u)"
  let ?T = "set_ss_pag (set_ss_pag ?T0 0x90 0x90 0) 0xb8 0xb8 0"
  have "ident (insert 0xb8 (insert 0x90 {first_kernel (frames k)..<last_kernel (frames k)})) ?T"
    using assms by (intro ident_add ident_fold) simp_all
  then have "ident ({first_kernel (frames k)..<last_kernel (frames k)} \<union> {0x90, 0xb8}) ?T"
    by (rule ident_mono) auto
  moreover have "set_kernel_pages u k = with_table u (frames k) ?T (k\<lparr>scr := printk [10] (scr k)\<rparr>)"
    by (simp add: set_kernel_pages_def upd_table_fold upd_table_twice Let_def)
      (simp add: upd_table_eq with_table_def)
  ultimately show thesis by (rule that [rotated])
qed

section \<open>The tables of init\_task1\<close>

text \<open>\<open>k\<close> with other frames, tables and screen.\<close>

definition with_mem :: "mm \<Rightarrow> (nat \<Rightarrow> page_table) \<Rightarrow> screen \<Rightarrow> kernel \<Rightarrow> kernel" where
  "with_mem m T s k = k\<lparr>frames := m, mach := (mach k)\<lparr>tables := T\<rparr>, scr := s\<rparr>"

lemma with_mem_simps [simp]:
  "frames (with_mem m T s k) = m" "table (with_mem m T s k) = T" "scr (with_mem m T s k) = s"
  "with_mem m' T' s' (with_mem m T s k) = with_mem m' T' s' k"
  by (simp_all add: with_mem_def table_def fun_eq_iff)

lemma with_table_mem: "with_table u m t k = with_mem m ((table k)(u := t)) (scr k) k"
  by (simp add: with_table_def with_mem_def table_def [abs_def])

lemma printk_ok: "screen_ok s \<Longrightarrow> screen_ok (printk cs s)"
  using console_exec_ok(1) [of s "PutString cs"] by simp

lemma new_table_ok:
  assumes t: "taken (frames k) fs" and n: "length fs < 512"
  obtains f m where "new_table k = Some (f, with_mem m ((table k)(f := clear_page_table (table k f))) (scr k) k)"
    and "taken m (f # fs)" and "f \<notin> set fs" and "first_kernel m = first_kernel (frames k)"
    and "last_kernel m = last_kernel (frames k)"
proof -
  obtain f m where f: "kernel_alloc_frame k = (int f, k\<lparr>frames := m\<rparr>)" "taken m (f # fs)"
      "first_kernel m = first_kernel (frames k)" "last_kernel m = last_kernel (frames k)"
    using taken_alloc [OF t n] by blast
  have "new_table k = Some (f, with_mem m ((table k)(f := clear_page_table (table k f))) (scr k) k)"
    using f(1) by (simp add: new_table_def upd_table_eq with_mem_def table_def [abs_def])
  moreover have "f \<notin> set fs" using takenD(3) [OF f(2)] by simp
  ultimately show thesis using that f(2-4) by blast
qed

text \<open>The state \<open>init_tables\<close> builds: the frames it took, and what its tables hold.\<close>

lemma init_tables_ok:
  assumes t: "taken (frames k) fs" and n: "length fs + 32 \<le> 512" and s: "screen_ok (scr k)"
  obtains Dir so so2 u m T s' where "init_tables k = Some ((Dir, so, so2, u), with_mem m T s' k)"
    and "taken m (map (get_frame (T u)) [0..<28] @ [u, so2, so, Dir] @ fs)" and "screen_ok s'"
    and "\<And>j. j < 28 \<Longrightarrow> present (T u) j" and "\<And>j. 28 \<le> j \<Longrightarrow> j < 1024 \<Longrightarrow> \<not> present (T u) j"
    and "ident ({first_kernel (frames k)..<last_kernel (frames k)} \<union> {0x90, 0xb8}) (T so)"
    and "\<And>f. f \<notin> {Dir, so, so2, u} \<Longrightarrow> T f = table k f"
    and "first_kernel m = first_kernel (frames k)" and "last_kernel m = last_kernel (frames k)"
proof -
  obtain Dir m1 where 1: "new_table k = Some (Dir, with_mem m1 ((table k)(Dir := clear_page_table (table k Dir))) (scr k) k)"
      "taken m1 (Dir # fs)" "Dir \<notin> set fs" "first_kernel m1 = first_kernel (frames k)" "last_kernel m1 = last_kernel (frames k)"
    by (rule new_table_ok [OF t]) (use n in auto)
  define T1 where "T1 = (table k)(Dir := clear_page_table (table k Dir))"
  obtain so m2 where 2: "new_table (with_mem m1 T1 (scr k) k)
        = Some (so, with_mem m2 (T1(so := clear_page_table (T1 so))) (scr k) k)"
      "taken m2 (so # Dir # fs)" "so \<notin> set (Dir # fs)" "first_kernel m2 = first_kernel m1" "last_kernel m2 = last_kernel m1"
    by (rule new_table_ok [of "with_mem m1 T1 (scr k) k" "Dir # fs"]) (use n 1(2) in auto)
  define T2 where "T2 = T1(so := clear_page_table (T1 so))"
  define k2 where "k2 = with_mem m2 T2 (scr k) k"
  obtain K where K: "set_kernel_pages so k2 = with_table so (frames k2) K (k2\<lparr>scr := printk [10] (scr k2)\<rparr>)"
      "ident ({first_kernel (frames k2)..<last_kernel (frames k2)} \<union> {0x90, 0xb8}) K"
    by (rule set_kernel_pages_ok [of k2 so]) (use takenD(2) [OF 2(2)] in \<open>simp_all add: k2_def\<close>)
  define s' where "s' = printk [10] (scr k)"
  define T3 where "T3 = T2(so := K)"
  have K3: "set_kernel_pages so k2 = with_mem m2 T3 s' k"
    unfolding K(1) with_table_mem by (simp add: k2_def T3_def s'_def) (simp add: with_mem_def table_def [abs_def])
  obtain so2 m4 where 4: "new_table (with_mem m2 T3 s' k)
        = Some (so2, with_mem m4 (T3(so2 := clear_page_table (T3 so2))) s' k)"
      "taken m4 (so2 # so # Dir # fs)" "so2 \<notin> set (so # Dir # fs)" "first_kernel m4 = first_kernel m2"
      "last_kernel m4 = last_kernel m2"
    by (rule new_table_ok [of "with_mem m2 T3 s' k" "so # Dir # fs"]) (use n 2(2) in auto)
  define T4 where "T4 = T3(so2 := clear_page_table (T3 so2))"
  obtain u m5 where 5: "new_table (with_mem m4 T4 s' k)
        = Some (u, with_mem m5 (T4(u := clear_page_table (T4 u))) s' k)"
      "taken m5 (u # so2 # so # Dir # fs)" "u \<notin> set (so2 # so # Dir # fs)" "first_kernel m5 = first_kernel m4"
      "last_kernel m5 = last_kernel m4"
    by (rule new_table_ok [of "with_mem m4 T4 s' k" "so2 # so # Dir # fs"]) (use n 4(2) in auto)
  define T5 where "T5 = T4(u := clear_page_table (T4 u))"
  obtain m U where 6: "set_user_pages u (with_mem m5 T5 s' k) = with_table u m U (with_mem m5 T5 s' k)"
      "taken m (map (get_frame U) [0..<28] @ u # so2 # so # Dir # fs)" "\<And>j. j < 28 \<Longrightarrow> present U j"
      "\<And>j. 28 \<le> j \<Longrightarrow> U j = T5 u j" "first_kernel m = first_kernel m5" "last_kernel m = last_kernel m5"
    by (rule set_user_pages_ok [of "with_mem m5 T5 s' k" "u # so2 # so # Dir # fs" u]) (use n 5(2) in auto)
  define T where "T = T5(u := U)"
  have "init_tables k = Some ((Dir, so, so2, u), with_mem m T s' k)"
    unfolding init_tables_def
    by (simp add: 1(1) [folded T1_def] 2(1) [folded T2_def] K3 [unfolded k2_def] 4(1) [folded T4_def]
        5(1) [folded T5_def] 6(1) with_table_mem T_def Let_def)
  moreover have "screen_ok s'" unfolding s'_def by (rule printk_ok [OF s])
  moreover have "\<not> present (T u) j" if "28 \<le> j" "j < 1024" for j
    using 6(4) [OF that(1)] present_clear [OF that(2), of "T4 u"] by (simp add: T_def T5_def present_def)
  moreover have "ident ({first_kernel (frames k)..<last_kernel (frames k)} \<union> {0x90, 0xb8}) (T so)"
    using K(2) 1(4,5) 2(4,5) 4(3) 5(3) by (simp add: k2_def T_def T5_def T4_def T3_def)
  moreover have "T f = table k f" if "f \<notin> {Dir, so, so2, u}" for f
    using that by (simp add: T_def T5_def T4_def T3_def T2_def T1_def)
  ultimately show thesis
    using that 6(2,3,5,6) 5(4,5) 4(4,5) 2(4,5) 1(4,5) by (simp add: T_def)
qed

end
