(* ===== verification/Boot_Processes.thy ===== *)
theory Boot_Processes
  imports Boot_Memory
begin

text \<open>
  The state after \<open>main\<close>: the two first processes, their lists and tables, the invariant of the kernel, and the user
  program in its pages.
\<close>

section \<open>The lists\<close>

text \<open>The lists while the processes \<open>L\<close> have been made: all empty, and each process in no queue.\<close>

definition boot_links :: "knode list_heap \<Rightarrow> nat set \<Rightarrow> bool" where
  "boot_links h L \<longleftrightarrow> tasks_linked h L \<and> (\<forall>p\<in>L. loose h p) \<and>
     (\<forall>n \<in> {Readyqueue, Blocked, Kbd_blocked} \<union> At_children_blocked ` L \<union> At_children_unblocked ` L.
        nxt h n = Some n \<and> prv h n = Some n)"

definition boot_queues :: "nat set \<Rightarrow> queues" where
  "boot_queues L = \<lparr>ready = [], blocked = [], kbd_blocked = [],
     children_blocked = (\<lambda>p. if p \<in> L then Some [] else None),
     children_unblocked = (\<lambda>p. if p \<in> L then Some [] else None)\<rparr>"

text \<open>No node but those of the list of tasks points into that list.\<close>

definition blank_links :: "knode list_heap \<Rightarrow> bool" where
  "blank_links h \<longleftrightarrow> (\<forall>n. n \<notin> task_nodes \<longrightarrow> nxt h n \<notin> Some ` task_nodes \<and> prv h n \<notin> Some ` task_nodes)"

lemma boot_links_start: "blank_links (links k) \<Longrightarrow> boot_links (links (init_sched k)) {}"
  unfolding boot_links_def tasks_linked_def blank_links_def
  by (auto simp: init_sched_def INIT_LIST_HEAD_def task_nodes_iff)

lemma boot_queues_rep:
  assumes "boot_links h L"
  shows "queues_rep h (boot_queues L)"
  unfolding queues_rep_def
proof (rule famI)
  fix q xs assume "ring_map (boot_queues L) q = Some xs"
  then show "ring h q xs"
    using assms by (cases q) (auto simp: boot_queues_def boot_links_def ring_def split: if_splits)
next
  fix q xs q' ys
  assume "ring_map (boot_queues L) q = Some xs" "ring_map (boot_queues L) q' = Some ys" "q \<noteq> q'"
  then show "set (q # xs) \<inter> set (q' # ys) = {}"
    by (cases q; cases q') (auto simp: boot_queues_def split: if_splits)
qed

lemma boot_pcb:
  assumes b: "boot_links (links k) L" and t: "taken (frames k) fs" and n: "length fs < 512" and L: "L \<subseteq> set fs"
    and kt: "kernel_page_table k = None"
  obtains p m h where "alloc_pcb k = Some (Some p, k\<lparr>frames := m, links := h\<rparr>)" and "taken m (p # fs)" and "p \<notin> set fs"
    and "boot_links (INIT_LIST_HEAD (At_children_unblocked p) (INIT_LIST_HEAD (At_children_blocked p) h)) (insert p L)"
    and "first_kernel m = first_kernel (frames k)" and "last_kernel m = last_kernel (frames k)"
proof -
  obtain p m where f: "kernel_alloc_frame k = (int p, k\<lparr>frames := m\<rparr>)" "taken m (p # fs)"
      "first_kernel m = first_kernel (frames k)" "last_kernel m = last_kernel (frames k)"
    using taken_alloc [OF t n] by blast
  have p: "p \<notin> set fs" using takenD(3) [OF f(2)] by simp
  let ?h0 = "INIT_LIST_HEAD (At_task_list p) (links k)"
  let ?h1 = "?h0\<lparr>nxt := (nxt ?h0)(At_list p := None), prv := (prv ?h0)(At_list p := None)\<rparr>"
  have tl: "tasks_linked (links k) L" using b by (simp add: boot_links_def)
  then have "tasks_linked ?h1 L"
    unfolding tasks_linked_def by (auto simp: INIT_LIST_HEAD_def task_nodes_iff)
  then obtain h where h: "list_add_tail (At_task_list p) List_tasks ?h1 = Some h" "tasks_linked h (insert p L)"
      "\<And>n. n \<notin> task_nodes \<Longrightarrow> nxt h n = nxt ?h1 n \<and> prv h n = prv ?h1 n"
    using tasks_add by blast
  have "alloc_pcb k = Some (Some p, k\<lparr>frames := m, links := h\<rparr>)"
    using f(1) h(1) kt by (simp add: alloc_pcb_def map_new_frame_def Let_def on_links_def)
  moreover have "boot_links (INIT_LIST_HEAD (At_children_unblocked p) (INIT_LIST_HEAD (At_children_blocked p) h)) (insert p L)"
    unfolding boot_links_def
  proof (intro conjI)
    show "tasks_linked (INIT_LIST_HEAD (At_children_unblocked p) (INIT_LIST_HEAD (At_children_blocked p) h)) (insert p L)"
      using tasks_other(3) [OF tasks_other(3) [OF h(2) no_task_node(3,3)] no_task_node(4,4)] .
    have out: "nxt h n = nxt ?h1 n" "prv h n = prv ?h1 n" if "n \<notin> task_nodes" for n using h(3) [OF that] by simp_all
    show "\<forall>q\<in>insert p L. loose (INIT_LIST_HEAD (At_children_unblocked p) (INIT_LIST_HEAD (At_children_blocked p) h)) q"
      using b out by (auto simp: boot_links_def detached_def INIT_LIST_HEAD_def)
    show "\<forall>n\<in>{Readyqueue, Blocked, Kbd_blocked} \<union> At_children_blocked ` insert p L \<union> At_children_unblocked ` insert p L.
        nxt (INIT_LIST_HEAD (At_children_unblocked p) (INIT_LIST_HEAD (At_children_blocked p) h)) n = Some n \<and>
        prv (INIT_LIST_HEAD (At_children_unblocked p) (INIT_LIST_HEAD (At_children_blocked p) h)) n = Some n"
      using b out by (auto simp: boot_links_def INIT_LIST_HEAD_def)
  qed
  ultimately show thesis using that f(2-4) p by blast
qed

lemma boot_links_sibiling: "boot_links h L \<Longrightarrow> boot_links (INIT_LIST_HEAD (At_sibiling p) h) L"
  using tasks_other(3) [of h L "At_sibiling p" "At_sibiling p"]
  by (auto simp: boot_links_def detached_def INIT_LIST_HEAD_def)

section \<open>The idle process\<close>

lemma init_idle_ok:
  assumes b: "boot_links (links k) {}" and t: "taken (frames k) []" and kt: "kernel_page_table k = None"
  obtains i d m h D ti where "init_idle k = Some (k\<lparr>frames := m, mach := (mach k)\<lparr>tables := (table k)(d := D)\<rparr>,
      links := h, tasks := (tasks k)(i := ti), idle_task := Some i\<rparr>)"
    and "taken m [d, i]" and "boot_links h {i}" and "dir_pages_baseAddr ti = d" and "PID ti = 0"
    and "parent ti = None" and "resume ti = Cpu_idle"
    and "first_kernel m = first_kernel (frames k)" and "last_kernel m = last_kernel (frames k)"
proof -
  obtain i m h where 1: "alloc_pcb k = Some (Some i, k\<lparr>frames := m, links := h\<rparr>)" "taken m [i]"
      "boot_links (INIT_LIST_HEAD (At_children_unblocked i) (INIT_LIST_HEAD (At_children_blocked i) h)) {i}"
      "first_kernel m = first_kernel (frames k)" "last_kernel m = last_kernel (frames k)"
    by (rule boot_pcb [OF b t _ _ kt]) auto
  define h' where "h' = INIT_LIST_HEAD (At_children_unblocked i) (INIT_LIST_HEAD (At_children_blocked i) h)"
  define k1 where "k1 = upd_task i (\<lambda>t. t\<lparr>pending_unblocks := 0\<rparr>)
      ((upd_task i (\<lambda>t. t\<lparr>parent := None\<rparr>) (k\<lparr>frames := m, links := h\<rparr>))\<lparr>links := h'\<rparr>)"
  obtain d m' where 2: "kernel_alloc_frame k1 = (int d, k1\<lparr>frames := m'\<rparr>)" "taken m' [d, i]"
      "first_kernel m' = first_kernel m" "last_kernel m' = last_kernel m"
    by (rule taken_alloc [of k1 "[i]"]) (use 1(2) in \<open>auto simp: k1_def\<close>)
  have kt1: "kernel_page_table (k1\<lparr>frames := m'\<rparr>) = None" using kt by (simp add: k1_def)
  obtain D where D: "allocate_DIR i k1 = (1, (upd_task i (\<lambda>p. p\<lparr>dir_pages_baseAddr := d\<rparr>) (k1\<lparr>frames := m'\<rparr>))
      \<lparr>mach := (mach k)\<lparr>tables := (table k)(d := D)\<rparr>\<rparr>)"
    using 2(1) kt1 by (simp add: allocate_DIR_def map_new_frame_def Let_def upd_table_eq)
      (simp add: k1_def upd_task_def table_def [abs_def])
  define ti where "ti = (tasks k i)\<lparr>parent := None, pending_unblocks := 0, dir_pages_baseAddr := d, resume := Cpu_idle, PID := 0, quantum := 10\<rparr>"
  have "init_idle k = Some (k\<lparr>frames := m', mach := (mach k)\<lparr>tables := (table k)(d := D)\<rparr>,
      links := h', tasks := (tasks k)(i := ti), idle_task := Some i\<rparr>)"
    unfolding init_idle_def
    by (simp add: 1(1) Let_def h'_def [symmetric] k1_def [symmetric] D)
      (simp add: k1_def upd_task_def set_quantum_def ti_def)
  then show thesis using that 2 1(3-5) by (simp add: h'_def ti_def)
qed

section \<open>The first user process\<close>

text \<open>The directory and the kernel's table after \<open>link_tables\<close> and \<open>map_boot_frames\<close>.\<close>

definition boot_dir :: "nat \<Rightarrow> nat \<Rightarrow> nat \<Rightarrow> nat \<Rightarrow> page_table \<Rightarrow> page_table" where
  "boot_dir Dir so so2 u t = set_ss_pag (set_ss_pag (set_ss_pag (set_ss_pag t 0 so 0) 1 so2 0) 2 u 1) Dir Dir 0"

definition boot_table :: "nat list \<Rightarrow> nat \<Rightarrow> nat \<Rightarrow> nat \<Rightarrow> page_table \<Rightarrow> page_table" where
  "boot_table fs so so2 u t =
     fold (\<lambda>f t. set_ss_pag t f f 0) fs (set_ss_pag (set_ss_pag (set_ss_pag t so so 0) so2 so2 0) u u 1)"

lemma boot_dir_entries:
  assumes "2 < Dir" and "so < 1024" and "so2 < 1024" and "u < 1024"
  shows "present (boot_dir Dir so so2 u t) 0" "present (boot_dir Dir so so2 u t) 1" "present (boot_dir Dir so so2 u t) 2"
    and "get_frame (boot_dir Dir so so2 u t) 0 = so" "get_frame (boot_dir Dir so so2 u t) 1 = so2"
      "get_frame (boot_dir Dir so so2 u t) 2 = u"
  using assms by (simp_all add: boot_dir_def)

lemma boot_table_ident:
  assumes "ident P t" and "\<forall>f\<in>set (so # so2 # u # fs). f < 1024"
  shows "ident (P \<union> set (so # so2 # u # fs)) (boot_table fs so so2 u t)"
proof -
  have fo: "ident (Q \<union> set fs) (fold (\<lambda>f t. set_ss_pag t f f 0) fs t)" if "ident Q t" "\<forall>f\<in>set fs. f < 1024" for Q t
    using that
  proof (induction fs arbitrary: Q t)
    case (Cons f fs)
    then have "ident (insert f Q) (set_ss_pag t f f 0)" by (intro ident_add) auto
    from Cons.IH [OF this] Cons.prems(2) show ?case by simp
  qed simp
  have "ident (insert u (insert so2 (insert so P))) (set_ss_pag (set_ss_pag (set_ss_pag t so so 0) so2 so2 0) u u 1)"
    using assms by (intro ident_add) auto
  then have "ident (insert u (insert so2 (insert so P)) \<union> set fs) (boot_table fs so so2 u t)"
    unfolding boot_table_def by (rule fo) (use assms(2) in simp)
  moreover have "insert u (insert so2 (insert so P)) \<union> set fs = P \<union> set (so # so2 # u # fs)" by auto
  ultimately show ?thesis by simp
qed

lemma link_tables_eq:
  assumes "Dir \<noteq> so"
  shows "link_tables Dir so so2 u k = with_mem (frames k)
     ((table k)(Dir := boot_dir Dir so so2 u (table k Dir), so := boot_table [] so so2 u (table k so))) (scr k) k"
  using assms unfolding link_tables_def Let_def upd_table_twice
  by (simp add: upd_table_eq boot_dir_def boot_table_def) (simp add: with_mem_def table_def [abs_def])

lemma map_boot_frames_eq:
  assumes "i < 1024" and "p < 1024" and "Dir < 1024" and "get_DIR k i < 1024"
    and "table k so = boot_table [] so so2 u t"
  shows "map_boot_frames i p Dir so so2 k = with_mem (frames k)
     ((table k)(so := boot_table [i, p, Dir, get_DIR k i] so so2 u t)) (scr k) k"
  using assms unfolding map_boot_frames_def auto_map_kernel_frame_def Let_def
  by (simp add: upd_table_twice upd_table_eq boot_table_def) (simp add: with_mem_def table_def [abs_def])

lemma init_task1_ok:
  assumes b: "boot_links (links k) {i}" and t: "taken (frames k) [d, i]" and kt: "kernel_page_table k = None"
    and i: "idle_task k = Some i" "get_DIR k i = d" and s: "screen_ok (scr k)"
    and lk: "2 < last_kernel (frames k)"
  obtains p Dir so so2 u m T s' h tp where
    "init_task1 k = Some (k\<lparr>frames := m, mach := (mach k)\<lparr>tables := T, cr3 := Dir\<rparr>, scr := s', links := h,
       tasks := (tasks k)(p := tp), init_task := Some p, kernel_page_table := Some so, kernel_page_table2 := Some so2,
       tss := (tss k)\<lparr>esp0 := KERNEL_ESP p\<rparr>, msr := (msr k)(0x175 := KERNEL_ESP p)\<rparr>)"
    and "taken m (map (get_frame (T u)) [0..<28] @ [u, so2, so, Dir, p, d, i])"
    and "screen_ok s'" and "boot_links h {i, p}"
    and "PID tp = 1" and "parent tp = None" and "dir_pages_baseAddr tp = Dir"
    and "\<And>j. j < 28 \<Longrightarrow> present (T u) j" and "\<And>j. 28 \<le> j \<Longrightarrow> j < 1024 \<Longrightarrow> \<not> present (T u) j"
    and "ident ({first_kernel (frames k)..<last_kernel (frames k)} \<union> {0x90, 0xb8} \<union> {so, so2, u, i, p, Dir, d}) (T so)"
    and "\<And>f. f \<in> {Dir, d} \<Longrightarrow> present (T f) 0 \<and> present (T f) 1 \<and> get_frame (T f) 0 = so \<and> get_frame (T f) 1 = so2"
    and "present (T Dir) 2" and "get_frame (T Dir) 2 = u"
    and "first_kernel m = first_kernel (frames k)" and "last_kernel m = last_kernel (frames k)"
proof -
  obtain p m1 h1 where 1: "alloc_pcb k = Some (Some p, k\<lparr>frames := m1, links := h1\<rparr>)" "taken m1 [p, d, i]" "p \<notin> {d, i}"
      "boot_links (INIT_LIST_HEAD (At_children_unblocked p) (INIT_LIST_HEAD (At_children_blocked p) h1)) {p, i}"
      "first_kernel m1 = first_kernel (frames k)" "last_kernel m1 = last_kernel (frames k)"
    by (rule boot_pcb [OF b t _ _ kt]) auto
  define h where "h = INIT_LIST_HEAD (At_sibiling p) (INIT_LIST_HEAD (At_children_unblocked p) (INIT_LIST_HEAD (At_children_blocked p) h1))"
  define tp where "tp = (tasks k p)\<lparr>PID := 1, quantum := 10, parent := None, pending_unblocks := 0\<rparr>"
  define k1 where "k1 = k\<lparr>frames := m1, links := h, tasks := (tasks k)(p := tp)\<rparr>"
  have k1: "init_pcb1 p (k\<lparr>frames := m1, links := h1\<rparr>) = k1"
    by (simp add: init_pcb1_def set_quantum_def upd_task_def k1_def h_def tp_def Let_def)
  obtain Dir so so2 u m T s' where 2: "init_tables k1 = Some ((Dir, so, so2, u), with_mem m T s' k1)"
      "taken m (map (get_frame (T u)) [0..<28] @ [u, so2, so, Dir] @ [p, d, i])" "screen_ok s'"
      "\<And>j. j < 28 \<Longrightarrow> present (T u) j" "\<And>j. 28 \<le> j \<Longrightarrow> j < 1024 \<Longrightarrow> \<not> present (T u) j"
      "ident ({first_kernel (frames k1)..<last_kernel (frames k1)} \<union> {0x90, 0xb8}) (T so)"
      "\<And>f. f \<notin> {Dir, so, so2, u} \<Longrightarrow> T f = table k1 f"
      "first_kernel m = first_kernel (frames k1)" "last_kernel m = last_kernel (frames k1)"
    by (rule init_tables_ok [of k1 "[p, d, i]"]) (use 1(2) s in \<open>auto simp: k1_def\<close>)
  note tk = takenD [OF 2(2)]
  have dis: "distinct [u, so2, so, Dir, p, d, i]" using tk(3) by simp
  have lt: "f < 1024" if "f \<in> {u, so2, so, Dir, p, d, i}" for f using tk(6) [of f] that by auto
  have "last_kernel m \<le> Dir" using tk(5) [of Dir] by simp
  then have D2: "2 < Dir" using lk 2(9) 1(6) by (simp add: k1_def)
  define S where "S = boot_table [i, p, Dir, d] so so2 u (T so)"
  define R where "R = boot_dir Dir so so2 u (T Dir)"
  define k2 where "k2 = with_mem m (T(Dir := R, so := S)) s' k1"
  have "get_DIR k1 i = d" using i(2) 1(3) by (simp add: k1_def get_DIR_def)
  then have gd: "get_DIR (with_mem m X s' k1) i = d" for X by (simp add: get_DIR_def with_mem_def)
  define L where "L = T(Dir := R, so := boot_table [] so so2 u (T so))"
  have "Dir \<noteq> so" using dis by auto
  then have lt_eq: "link_tables Dir so so2 u (with_mem m T s' k1) = with_mem m L s' k1"
    unfolding link_tables_eq [OF \<open>Dir \<noteq> so\<close>] by (simp add: L_def R_def)
  have "map_boot_frames i p Dir so so2 (with_mem m L s' k1) = with_mem m (L(so := S)) s' k1"
    by (subst map_boot_frames_eq [where t = "T so" and u = u]) (simp_all add: gd lt, simp_all add: L_def S_def)
  then have k2: "map_boot_frames i p Dir so so2 (with_mem m L s' k1) = k2"
    by (simp add: k2_def L_def)
  define T' where "T' = (T(Dir := R, so := S))(d := (T d)(0 := R 0, 1 := R 1))"
  define tp' where "tp' = tp\<lparr>dir_pages_baseAddr := Dir\<rparr>"
  have run: "init_task1 k = Some (k\<lparr>frames := m, mach := (mach k)\<lparr>tables := T', cr3 := Dir\<rparr>, scr := s', links := h,
       tasks := (tasks k)(p := tp'), init_task := Some p, kernel_page_table := Some so, kernel_page_table2 := Some so2,
       tss := (tss k)\<lparr>esp0 := KERNEL_ESP p\<rparr>, msr := (msr k)(0x175 := KERNEL_ESP p)\<rparr>)"
  proof -
    have "idle_task (with_mem m L s' k1) = Some i" using i by (simp add: with_mem_def k1_def)
    then have "init_task1 k = Some (
      (let k = k2\<lparr>kernel_page_table := Some so\<rparr>; k = k\<lparr>kernel_page_table2 := Some so2\<rparr>;
           k = upd_task p (\<lambda>t. t\<lparr>dir_pages_baseAddr := Dir\<rparr>) k;
           k = upd_table (get_DIR k i) (\<lambda>t. t(0 := table k Dir 0)) k;
           k = upd_table (get_DIR k i) (\<lambda>t. t(1 := table k Dir 1)) k;
           k = set_cr3 (dir_pages_baseAddr (tasks k p)) k;
           k = k\<lparr>tss := (tss k)\<lparr>esp0 := KERNEL_ESP p\<rparr>\<rparr>;
           k = writeMSR 0x175 (esp0 (tss k)) k in k\<lparr>init_task := Some p\<rparr>))"
      by (simp add: init_task1_def 1(1) k1 2(1) lt_eq k2 Let_def)
    moreover have "get_DIR (upd_task p (\<lambda>t. t\<lparr>dir_pages_baseAddr := Dir\<rparr>) (k2\<lparr>kernel_page_table := X, kernel_page_table2 := Y\<rparr>)) i = d" for X Y
      using i(2) 1(3) by (simp add: k2_def k1_def with_mem_def get_DIR_def)
    moreover have "Dir \<noteq> so" "Dir \<noteq> d" "d \<noteq> so" using dis by auto
    ultimately show ?thesis
      by (simp add: Let_def upd_table_eq upd_task_def set_cr3_def writeMSR_def table_def)
        (simp add: k2_def k1_def with_mem_def T'_def tp'_def)
  qed
  have b': "boot_links h {i, p}" using boot_links_sibiling [OF 1(4)] by (simp add: h_def insert_commute)
  have u: "T' u = T u" using dis by (auto simp: T'_def)
  have so: "T' so = S" using dis by (auto simp: T'_def)
  have id: "ident ({first_kernel (frames k)..<last_kernel (frames k)} \<union> {0x90, 0xb8} \<union> {so, so2, u, i, p, Dir, d}) (T' so)"
    using boot_table_ident [OF 2(6), of so so2 u "[i, p, Dir, d]"] lt 1(5,6) unfolding so S_def by (simp add: k1_def)
  have Dr: "T' Dir = R" "T' d 0 = R 0" "T' d 1 = R 1" using dis by (auto simp: T'_def)
  have R: "present R 0" "present R 1" "present R 2" "get_frame R 0 = so" "get_frame R 1 = so2" "get_frame R 2 = u"
    unfolding R_def using boot_dir_entries [OF D2, of so so2 u "T Dir"] lt by simp_all
  have dirs: "present (T' f) 0 \<and> present (T' f) 1 \<and> get_frame (T' f) 0 = so \<and> get_frame (T' f) 1 = so2" if "f \<in> {Dir, d}" for f
    using that R Dr by (auto simp: present_def get_frame_def)
  show thesis
    by (rule that [OF run _ 2(3) b' _ _ _ _ _ id dirs])
      (use 2(2,4,5,8,9) 1(5,6) u R Dr(1) in \<open>simp_all add: tp'_def tp_def k1_def\<close>)
qed

section \<open>The invariant\<close>

text \<open>The frames of the first processes, in the order of their allocation from the last to the first.\<close>

definition boot_uses :: "nat \<Rightarrow> nat \<Rightarrow> frame_use list" where
  "boot_uses i p = map (Use_data p) [0..<20] @ map Use_code [0..<8] @
     [Use_user_table p, Use_kernel_table2, Use_kernel_table, Use_dir p, Use_pcb p, Use_dir i, Use_pcb i]"

lemma in_use_boot: "in_use {i, p} i w \<Longrightarrow> w \<in> set (boot_uses i p)"
  by (cases w) (auto simp: boot_uses_def simp del: upt_rec_numeral)

lemma boot_frames_apart:
  assumes t: "taken (frames K) (map (frame_of K cf) (boot_uses i p))" and s: "\<And>j. j < 10 \<Longrightarrow> shared_frames K j = -1"
  shows "frames_apart K {i, p} i cf"
proof -
  note d = takenD [OF t]
  have inj: "inj_on (frame_of K cf) (set (boot_uses i p))" using d(3) by (simp add: distinct_map del: upt_rec_numeral)
  have u: "frame_of K cf w \<in> set (map (frame_of K cf) (boot_uses i p))" if "in_use {i, p} i w" for w
    using in_use_boot [OF that] by simp
  show ?thesis
    unfolding frames_apart_def
  proof (intro conjI allI impI)
    show "inj_on (frame_of K cf) {w. in_use {i, p} i w}"
      by (rule inj_on_subset [OF inj]) (use in_use_boot in blast)
    fix w assume w: "in_use {i, p} i w"
    show "last_kernel (frames K) \<le> frame_of K cf w" "frame_of K cf w \<notin> free_frames (frames K)"
      using d(5,7) [OF u [OF w]] by simp_all
    show "frame_of K cf w < 2048" using d(6) [OF u [OF w]] by simp
  qed (use s in simp_all)
qed

lemma boot_mem_ok:
  assumes t: "taken (frames K) (map (get_frame (table K u)) [0..<28] @ [u, so2, so, Dir, p, d, i])"
    and dirs: "get_DIR K p = Dir" "get_DIR K i = d" and cur: "current K = p"
    and kt: "kernel_page_table K = Some so" "kernel_page_table2 K = Some so2"
    and user: "\<And>j. j < 28 \<Longrightarrow> present (table K u) j" "\<And>j. 28 \<le> j \<Longrightarrow> j < 1024 \<Longrightarrow> \<not> present (table K u) j"
    and id: "ident {first_kernel (frames K)..<last_kernel (frames K)} (table K so)"
    and dir: "\<And>f. f \<in> {Dir, d} \<Longrightarrow> present (table K f) 0 \<and> present (table K f) 1 \<and>
               get_frame (table K f) 0 = so \<and> get_frame (table K f) 1 = so2"
      "present (table K Dir) 2" "get_frame (table K Dir) 2 = u"
    and sh: "\<And>j. j < 10 \<Longrightarrow> shared_frames K j = -1" "\<And>j. j < 10 \<Longrightarrow> shared_refs K j = 0 \<and> shared_marked_rm K j = 0"
    and mach: "paging (mach K)" "cr3 (mach K) = Dir"
    and buf: "first_kernel (frames K) * 4096 \<le> unat (buffer_sys K)"
      "unat (buffer_sys K) + 256 \<le> last_kernel (frames K) * 4096"
  shows "mem_ok K {i, p} i (\<lambda>j. get_frame (table K u) (20 + j))"
proof -
  let ?cf = "\<lambda>j. get_frame (table K u) (20 + j)"
  note td = takenD [OF t]
  have ip: "i \<noteq> p" using td(3) by auto
  have ut: "user_table K p = u" using dirs(1) dir(3) by (simp add: user_table_def)
  have split: "[0..<28] = [0..<20] @ map ((+) 20) [0..<8]" by (simp add: upt_conv_Cons)
  have "map (get_frame (table K u)) [0..<28] @ [u, so2, so, Dir, p, d, i] = map (frame_of K ?cf) (boot_uses i p)"
    unfolding split boot_uses_def map_append map_map using ut dirs kt
    by (simp add: comp_def del: upt_rec_numeral)
  then have "taken (frames K) (map (frame_of K ?cf) (boot_uses i p))" using t by simp
  then have "frames_apart K {i, p} i ?cf" by (rule boot_frames_apart) (rule sh(1), assumption)
  moreover have "kernel_mapped K" using kt id td(2) buf by (simp add: kernel_mapped_def ident_def)
  moreover have "sees_kernel K q" if "q \<in> {i, p}" for q using that dir(1) dirs kt by (auto simp: sees_kernel_def)
  moreover have "sees_user K ?cf p" using user(1) dir(2) dirs(1) ut by (simp add: sees_user_def)
  ultimately have "mem_base K {i, p} i ?cf" using td(1) mach cur dirs(1) by (auto simp: mem_base_def)
  moreover have "shm_ok K (user_tables K {i, p} i)"
  proof (rule shm_okI)
    have "user_tables K {i, p} i = {u}" using ip ut by (auto simp: user_tables_def)
    then show "\<exists>j<10. shared_frames K j = int (get_frame (table K w) q)"
      if "w \<in> user_tables K {i, p} i" "28 \<le> q" "q < 1024" "present (table K w) q" for w q
      using that user(2) by auto
  qed (use sh in \<open>auto simp: user_tables_def\<close>)
  ultimately show ?thesis by (simp add: mem_ok_def)
qed

lemma boot_procs_ok:
  assumes l: "boot_links (links K) {i, p}" and cur: "current K = p" and i: "idle_task K = Some i" and ip: "i \<noteq> p"
    and pid: "PID (tasks K i) = 0" "PID (tasks K p) = 1" "1 \<le> pidGlobal K"
    and par: "parent (tasks K i) = None" "parent (tasks K p) = None" and r: "resume (tasks K i) = Cpu_idle"
    and dev: "kbd_ok (kbd_st K)" "screen_ok (scr K)" and st: "stack_ok K"
  shows "procs_ok K (boot_queues {i, p})" and "all_tasks K (boot_queues {i, p}) = {i, p}"
proof -
  show all: "all_tasks K (boot_queues {i, p}) = {i, p}"
    by (auto simp: all_tasks_def boot_queues_def cur i)
  have "sched_ok K (boot_queues {i, p})"
    using boot_queues_rep [OF l] l ip pid
    by (simp add: sched_ok_def idle_ok_def i all cur boot_links_def pids_ok_def inj_on_def)
  moreover have "family_ok K (boot_queues {i, p})"
    unfolding family_ok_def all using par by (auto simp: boot_queues_def split: if_splits)
  moreover have "lists_closed (boot_queues {i, p}) {i, p}"
    by (auto simp: lists_closed_def boot_queues_def split: if_splits)
  moreover have "resumes_ok K (boot_queues {i, p})"
    unfolding resumes_ok_def all using r cur by (auto simp: boot_queues_def)
  ultimately show "procs_ok K (boot_queues {i, p})"
    using l pid dev st unfolding procs_ok_def all by (simp add: boot_links_def)
qed

section \<open>The initialisation as a whole\<close>

text \<open>
  What \<open>main\<close> is started with: the image fits below 2 MB, the user program fits its 28 pages, the kernel's buffer is
  part of the kernel, the globals have their initial values, the devices are in order, and no list node
  points at the list of tasks by accident.
\<close>

definition bootable :: "boot_image \<Rightarrow> kernel \<Rightarrow> bool" where
  "bootable img k \<longleftrightarrow>
     0x10000 + unat (sys_size img) + unat (usr_size img) < 0x1FF000 \<and> unat (usr_size img) \<le> 28 * PAGE_SIZE \<and>
     0x10000 \<le> unat (buffer_sys k) \<and> unat (buffer_sys k) + 256 \<le> 0x10000 + unat (sys_size img) \<and>
     kernel_page_table k = None \<and> 1 \<le> pidGlobal k \<and> blank_links (links k) \<and>
     kbd_ok (kbd_st k) \<and> screen_ok (scr k)"

lemma bootableD:
  assumes "bootable img k"
  shows "0x10000 + unat (sys_size img) + unat (usr_size img) < 0x1FF000" "unat (usr_size img) \<le> 28 * 4096"
    "0x10000 \<le> unat (buffer_sys k)" "unat (buffer_sys k) + 256 \<le> 0x10000 + unat (sys_size img)"
    "kernel_page_table k = None" "1 \<le> pidGlobal k" "blank_links (links k)" "kbd_ok (kbd_st k)" "screen_ok (scr k)"
  using assms by (simp_all add: bootable_def)

lemma init_mm_ok:
  assumes "0x10000 + unat s + unat u < 0x1FF000"
  obtains m where "init_mm s u k = init_shared_pages (k\<lparr>frames := m\<rparr>)" and "taken m []" and "first_kernel m = 16"
    and "last_kernel m = (0x10000 + unat s + unat u) div 4096 + 1"
proof -
  have "unat (KERNEL_START + s + u) = 0x10000 + unat s + unat u"
    using assms by (simp add: unat_word_ariths)
  then have d: "unat (drop_bit 12 (KERNEL_START + s + u)) = (0x10000 + unat s + unat u) div 4096"
    by (simp add: drop_bit_eq_div unat_div)
  have lt: "(0x10000 + unat s + unat u) div 4096 < 511" using assms by simp
  let ?m = "(frames k)\<lparr>first_kernel := unat (drop_bit 12 KERNEL_START),
      last_kernel := unat (drop_bit 12 (KERNEL_START + s + u) + 1)\<rparr>"
  have lk: "last_kernel ?m = (0x10000 + unat s + unat u) div 4096 + 1"
    using lt d by (simp add: unat_word_ariths)
  have fk: "first_kernel ?m = 16" by (simp add: drop_bit_eq_div)
  have "16 \<le> last_kernel ?m" unfolding lk by simp
  then have "frames_ok (snd (init_frames ?m))"
    using lt fk lk by (intro frames_ok_init) simp_all
  moreover have "allocatable (snd (init_frames ?m)) = boot_frames (last_kernel ?m)"
    unfolding allocatable_def free_frames_init boot_frames_def
    using \<open>16 \<le> last_kernel ?m\<close> by (auto simp: init_frames_def Let_def simp del: mm.select_convs(3))
  ultimately have "taken (snd (init_frames ?m)) []"
    using lk lt by (simp add: taken_def)
  then show thesis
    by (intro that [of "snd (init_frames ?m)"]) (use fk lk in \<open>simp_all add: init_mm_def Let_def\<close>)
qed

lemma init_shared_pages_eq:
  "\<exists>f r q. init_shared_pages k = k\<lparr>shared_frames := f, shared_refs := r, shared_marked_rm := q\<rparr>
     \<and> (\<forall>j<10. f j = -1 \<and> r j = 0 \<and> q j = 0)"
proof -
  have "\<exists>f r q. fold (\<lambda>i k. k\<lparr>shared_frames := (shared_frames k)(i := -1),
                   shared_refs := (shared_refs k)(i := 0),
                   shared_marked_rm := (shared_marked_rm k)(i := 0)\<rparr>) [0..<n] k
      = k\<lparr>shared_frames := f, shared_refs := r, shared_marked_rm := q\<rparr>
    \<and> (\<forall>j<n. f j = -1 \<and> r j = 0 \<and> q j = 0)" for n
  proof (induction n)
    case 0
    show ?case
      by (intro exI [of _ "shared_frames k"] exI [of _ "shared_refs k"] exI [of _ "shared_marked_rm k"]) simp
  next
    case (Suc n)
    then obtain f r q where "fold (\<lambda>i k. k\<lparr>shared_frames := (shared_frames k)(i := -1),
                   shared_refs := (shared_refs k)(i := 0),
                   shared_marked_rm := (shared_marked_rm k)(i := 0)\<rparr>) [0..<n] k
      = k\<lparr>shared_frames := f, shared_refs := r, shared_marked_rm := q\<rparr>"
      "\<forall>j<n. f j = -1 \<and> r j = 0 \<and> q j = 0" by blast
    then show ?case
      by (intro exI [of _ "f(n := -1)"] exI [of _ "r(n := 0)"] exI [of _ "q(n := 0)"] conjI)
        (simp del: fun_upd_apply, simp add: less_Suc_eq)
  qed
  from this [of 10] show ?thesis unfolding init_shared_pages_def .
qed

text \<open>The state before the user program is copied, and the copy.\<close>

lemma main_ok:
  assumes b: "bootable img k"
  obtains gdt' idt' K i cf where "main set_handlers img gdt idt k = Some (gdt', idt', K)"
    and "kernel_ok K (boot_queues {i, current K}) cf" and "idle_task K = Some i" and "i \<noteq> current K"
    and "PID (tasks K (current K)) = 1" and "PID (tasks K i) = 0" and "init_task K = Some (current K)"
    and "all_tasks K (boot_queues {i, current K}) = {i, current K}"
    and "\<And>x. x < unat (usr_size img) \<Longrightarrow>
      image_byte K (current K) (0x800000 + x) = ram (mach k) (0x10000 + unat (sys_size img) + x)"
    and "last_kernel (frames K) = (0x10000 + unat (sys_size img) + unat (usr_size img)) div 4096 + 1"
    and "last_kernel (frames K) \<le> 144 \<Longrightarrow> card (allocatable (frames K)) = 1916 - last_kernel (frames K)"
    and "pidGlobal K = pidGlobal k" and "kbd_st K = kbd_st k"
proof -
  note bd = bootableD [OF b]
  define k1 where "k1 = k\<lparr>scr := printk (text_bytes ''Kernel Loaded!    '') (scr k)\<rparr>"
  obtain gdt' gdtR where 1: "setGdt (tss_addr img) gdt = (gdt', gdtR)" by fastforce
  obtain idt' ms idtR where 2: "setIdt set_handlers (handler_addrs img) (initial_esp img) (idt_addr img) idt (msr k1)
      = (idt', ms, idtR)" by (metis prod_cases3)
  obtain ts sel where 3: "setTSS (initial_esp img) (tss k1) = (ts, sel)" by fastforce
  define k2 where "k2 = k1\<lparr>msr := ms, tss := ts\<rparr>"
  obtain m0 where 4: "init_mm (sys_size img) (usr_size img) k2 = init_shared_pages (k2\<lparr>frames := m0\<rparr>)" "taken m0 []"
      "first_kernel m0 = 16" "last_kernel m0 = (0x10000 + unat (sys_size img) + unat (usr_size img)) div 4096 + 1"
    by (rule init_mm_ok [OF bd(1)])
  obtain f r q where 5: "init_shared_pages (k2\<lparr>frames := m0\<rparr>) =
        (k2\<lparr>frames := m0\<rparr>)\<lparr>shared_frames := f, shared_refs := r, shared_marked_rm := q\<rparr>"
      "\<forall>j<10. f j = -1 \<and> r j = 0 \<and> q j = 0"
    using init_shared_pages_eq by blast
  define k3 where "k3 = init_sched ((k2\<lparr>frames := m0\<rparr>)\<lparr>shared_frames := f, shared_refs := r, shared_marked_rm := q\<rparr>)"
  have l3: "boot_links (links k3) {}"
    unfolding k3_def by (rule boot_links_start) (use bd(7) in \<open>simp add: k2_def k1_def\<close>)
  have sel3: "frames k3 = m0" "mach k3 = mach k" "kernel_page_table k3 = None" "scr k3 = scr k1" "kbd_st k3 = kbd_st k"
      "pidGlobal k3 = pidGlobal k" "buffer_sys k3 = buffer_sys k" "shared_frames k3 = f" "shared_refs k3 = r"
      "shared_marked_rm k3 = q"
    using bd(5) by (simp_all add: k3_def init_sched_def k2_def k1_def Let_def)
  obtain i d m h D ti where 6: "init_idle k3 = Some (k3\<lparr>frames := m, mach := (mach k3)\<lparr>tables := (table k3)(d := D)\<rparr>,
        links := h, tasks := (tasks k3)(i := ti), idle_task := Some i\<rparr>)"
      "taken m [d, i]" "boot_links h {i}" "dir_pages_baseAddr ti = d" "PID ti = 0" "parent ti = None" "resume ti = Cpu_idle"
      "first_kernel m = first_kernel (frames k3)" "last_kernel m = last_kernel (frames k3)"
    by (rule init_idle_ok [OF l3]) (use 4(2) sel3 in auto)
  define k4 where "k4 = k3\<lparr>frames := m, mach := (mach k3)\<lparr>tables := (table k3)(d := D)\<rparr>,
        links := h, tasks := (tasks k3)(i := ti), idle_task := Some i\<rparr>"
  have s1: "screen_ok (scr k1)" using printk_ok [OF bd(9)] by (simp add: k1_def)
  have lk: "2 < last_kernel (frames k4)" using 6(9) 4(4) sel3(1) by (simp add: k4_def)
  obtain p Dir so so2 u m5 T s' h5 tp where 7: "init_task1 k4 = Some (k4\<lparr>frames := m5, mach := (mach k4)\<lparr>tables := T, cr3 := Dir\<rparr>,
        scr := s', links := h5, tasks := (tasks k4)(p := tp), init_task := Some p, kernel_page_table := Some so,
        kernel_page_table2 := Some so2, tss := (tss k4)\<lparr>esp0 := KERNEL_ESP p\<rparr>, msr := (msr k4)(0x175 := KERNEL_ESP p)\<rparr>)"
      "taken m5 (map (get_frame (T u)) [0..<28] @ [u, so2, so, Dir, p, d, i])" "screen_ok s'" "boot_links h5 {i, p}"
      "PID tp = 1" "parent tp = None" "dir_pages_baseAddr tp = Dir"
      "\<And>j. j < 28 \<Longrightarrow> present (T u) j" "\<And>j. 28 \<le> j \<Longrightarrow> j < 1024 \<Longrightarrow> \<not> present (T u) j"
      "ident ({first_kernel (frames k4)..<last_kernel (frames k4)} \<union> {0x90, 0xb8} \<union> {so, so2, u, i, p, Dir, d}) (T so)"
      "\<And>f. f \<in> {Dir, d} \<Longrightarrow> present (T f) 0 \<and> present (T f) 1 \<and> get_frame (T f) 0 = so \<and> get_frame (T f) 1 = so2"
      "present (T Dir) 2" "get_frame (T Dir) 2 = u"
      "first_kernel m5 = first_kernel (frames k4)" "last_kernel m5 = last_kernel (frames k4)"
    by (rule init_task1_ok [of k4 i d]) (use 6(2,3,4) sel3 s1 lk in \<open>simp_all add: k4_def get_DIR_def\<close>)
  define k5 where "k5 = k4\<lparr>frames := m5, mach := (mach k4)\<lparr>tables := T, cr3 := Dir\<rparr>,
        scr := s', links := h5, tasks := (tasks k4)(p := tp), init_task := Some p, kernel_page_table := Some so,
        kernel_page_table2 := Some so2, tss := (tss k4)\<lparr>esp0 := KERNEL_ESP p\<rparr>, msr := (msr k4)(0x175 := KERNEL_ESP p)\<rparr>"
  define K0 where "K0 = k5\<lparr>mach := set_pe_flag (mach k5), current := p\<rparr>"
  have ms: "mach K0 = set_pe_flag (mach k5)" "table K0 = T" "cr3 (mach K0) = Dir" "paging (mach K0)"
      "ram (mach K0) = ram (mach k)"
    by (simp_all add: K0_def) (simp_all add: table_def [abs_def] set_pe_flag_def k5_def k4_def sel3 Let_def)
  have sel0: "frames K0 = m5" "current K0 = p" "idle_task K0 = Some i" "links K0 = h5" "scr K0 = s'" "kbd_st K0 = kbd_st k"
      "pidGlobal K0 = pidGlobal k" "buffer_sys K0 = buffer_sys k" "shared_frames K0 = f" "shared_refs K0 = r"
      "shared_marked_rm K0 = q" "kernel_page_table K0 = Some so" "kernel_page_table2 K0 = Some so2" "init_task K0 = Some p"
      "esp0 (tss K0) = KERNEL_ESP p" "msr K0 0x175 = KERNEL_ESP p"
    by (simp_all add: K0_def k5_def k4_def sel3)
  have ip: "i \<noteq> p" using takenD(3) [OF 7(2)] by auto
  have tasks0: "tasks K0 p = tp" "tasks K0 i = ti" using ip by (simp_all add: K0_def k5_def k4_def)
  have lk5: "first_kernel m5 = 16" "last_kernel m5 = (0x10000 + unat (sys_size img) + unat (usr_size img)) div 4096 + 1"
    using 4(3,4) 6(8,9) 7(14,15) by (simp_all add: k4_def sel3)
  have top: "0x10000 + unat (sys_size img) + unat (usr_size img) < last_kernel m5 * 4096" unfolding lk5(2) by simp
  let ?cf = "\<lambda>j. get_frame (table K0 u) (20 + j)"
  have mem: "mem_ok K0 {i, p} i ?cf"
  proof (rule boot_mem_ok)
    show "taken (frames K0) (map (get_frame (table K0 u)) [0..<28] @ [u, so2, so, Dir, p, d, i])"
      using 7(2) unfolding sel0(1) ms(2) .
    show "get_DIR K0 p = Dir" "get_DIR K0 i = d" using tasks0 7(7) 6(4) by (simp_all add: get_DIR_def)
    show "ident {first_kernel (frames K0)..<last_kernel (frames K0)} (table K0 so)"
      using 7(10) unfolding sel0(1) ms(2) 7(14,15) by (rule ident_mono) auto
    show "first_kernel (frames K0) * 4096 \<le> unat (buffer_sys K0)" using bd(3) by (simp add: sel0 lk5)
    show "unat (buffer_sys K0) + 256 \<le> last_kernel (frames K0) * 4096" using bd(4) top by (simp add: sel0)
  qed (use 7(8,9,11,12,13) 5(2) ms sel0 in simp_all)
  have pr: "procs_ok K0 (boot_queues {i, p})" and all: "all_tasks K0 (boot_queues {i, p}) = {i, p}"
    by (rule boot_procs_ok [of K0 i p]; use 7(3,4,5,6) 6(5,6,7) bd(6,8) ip sel0 tasks0 in \<open>simp_all add: stack_ok_def\<close>)+
  have ok: "kernel_ok K0 (boot_queues {i, p}) ?cf" unfolding kernel_ok_def all sel0(3) option.sel using pr mem by blast
  define n where "n = unat (usr_size img)"
  have n: "n \<le> 28 * 4096" using bd(2) by (simp add: n_def)
  have src: "unat (KERNEL_START + sys_size img) = 0x10000 + unat (sys_size img)"
    using bd(1) by (simp add: unat_word_ariths)
  have me: "current K0 \<noteq> i" using ip sel0(2) by simp
  have ur: "user_range L_USER_START (int n)" using n by (simp add: user_range_def)
  note ub = user_buffer(1,2) [OF mem me ur]
  have m1: "mapped (mach K0) (KERNEL_START + sys_size img) n (\<lambda>x. unat (KERNEL_START + sys_size img) + x)"
    by (rule kernel_range_mapped [OF mem]) (use top src in \<open>simp_all add: sel0 lk5(1) n_def\<close>)
  let ?P = "\<lambda>x. unat (KERNEL_START + sys_size img) + x" and ?Q = "\<lambda>x. user_place K0 (current K0) (unat L_USER_START + x)"
  have dj: "?P x \<noteq> ?Q y" if "x < n" "y < n" for x y
  proof -
    have "last_kernel m5 * 4096 \<le> ?Q y"
      using user_place_frame(2) [OF mem _ me, of "unat L_USER_START + y"] that(2) n sel0 by simp
    then show ?thesis using top that(1) src by (simp add: n_def)
  qed
  define rm where "rm = blit ?P ?Q [0..<n] (ram (mach K0))"
  have cd: "copy_data (KERNEL_START + sys_size img) L_USER_START (int n) (mach K0) = Some ((mach K0)\<lparr>ram := rm\<rparr>)"
    unfolding rm_def by (rule copy_data_blit(1) [OF m1 ub(1) dj])
  have rm: "rm (?Q x) = ram (mach k) (?P x)" if "x < n" for x
    using blit_disjoint [where P = ?P and Q = ?Q, OF dj ub(2)] that ms(5) unfolding rm_def by auto
  have "uint (usr_size img) = int n" by (simp add: n_def)
  then have si: "sint (usr_size img) = int n"
    using n by (simp add: sint_uint signed_take_bit_int_eq_self)
  define K where "K = K0\<lparr>mach := (mach K0)\<lparr>ram := rm\<rparr>, scr := printk (text_bytes ''Entering user mode...'') (scr K0)\<rparr>"
  have dev: "kbd_ok (kbd_st K0)" "screen_ok (printk (text_bytes ''Entering user mode...'') (scr K0))"
    using bd(8) printk_ok [OF 7(3)] by (simp_all add: sel0)
  have "kernel_ok K (boot_queues {i, p}) ?cf"
    using kernel_ok_data [OF ok dev, where r = rm and z = "zeos_ticks K0"] by (simp add: K_def)
  moreover have "main set_handlers img gdt idt k = Some (gdt', idt', K)"
  proof -
    have "on_mach (copy_data (KERNEL_START + sys_size img) L_USER_START (sint (usr_size img)))
        (k5\<lparr>mach := set_pe_flag (mach k5)\<rparr>) = Some (k5\<lparr>mach := (mach K0)\<lparr>ram := rm\<rparr>\<rparr>)"
      using cd by (simp add: on_mach_def si ms(1))
    moreover have "on_mach (Some \<circ> set_pe_flag) k5 = Some (k5\<lparr>mach := set_pe_flag (mach k5)\<rparr>)"
      by (simp add: on_mach_def)
    moreover have "init_task (k5\<lparr>mach := (mach K0)\<lparr>ram := rm\<rparr>, scr := X\<rparr>) = Some p" for X by (simp add: k5_def)
    moreover have "K = k5\<lparr>mach := (mach K0)\<lparr>ram := rm\<rparr>, scr := printk (text_bytes ''Entering user mode...'') (scr k5), current := p\<rparr>"
      by (simp add: K_def K0_def)
    ultimately show ?thesis
      unfolding main_def Let_def k1_def [symmetric] 1 2 3 prod.case k2_def [symmetric] 4(1) 5(1) k3_def [symmetric] 6(1)
        k4_def [symmetric] bind.bind_lunit 7(1) k5_def [symmetric]
      by simp
  qed
  moreover have "image_byte K (current K) (0x800000 + x) = ram (mach k) (0x10000 + unat (sys_size img) + x)" if "x < n" for x
    using rm [OF that] src by (simp add: image_byte_def user_place_def user_table_def get_DIR_def table_def K_def)
  moreover have "last_kernel m5 \<le> 144 \<Longrightarrow> card (allocatable m5) = 1916 - last_kernel m5"
    using taken_card [OF 7(2)] by simp
  ultimately show thesis
    by (intro that [of gdt' idt' K i ?cf]) (use ip sel0 tasks0 7(5) 6(5) all lk5 in \<open>simp_all add: K_def n_def all_tasks_def\<close>)
qed

section \<open>Properties\<close>

text \<open>A machine before \<open>main\<close>: a kernel of 128 KB and a user program of 12 KB, no list node linked yet.\<close>

definition boot_kernel :: kernel where
  "boot_kernel = demo_kernel\<lparr>links := \<lparr>nxt = (\<lambda>n. None), prv = (\<lambda>n. None)\<rparr>, kernel_page_table := None,
     kernel_page_table2 := None, idle_task := None, init_task := None, mach := (mach demo_kernel)\<lparr>cr0 := 1\<rparr>,
     buffer_sys := 0x18000\<rparr>"

definition small_image :: boot_image where
  "small_image = \<lparr>sys_size = 0x20000, usr_size = 0x3000, tss_addr = 0x19000, idt_addr = 0x1A000,
     initial_esp = 0x1C000, handler_addrs = \<lparr>h_pagefault = 0x11000, h_clock = 0x11100, h_keyboard = 0x11200,
     h_sysenter = 0x11300\<rparr>\<rparr>"

lemma boot_kernel_bootable: "bootable small_image boot_kernel"
proof -
  have "kbd_ok (kbd_st demo_kernel)" "screen_ok (scr demo_kernel)"
    using kernel_okD(8,9) [OF demo_kernel_ok] by simp_all
  then show ?thesis
    by (simp add: bootable_def boot_kernel_def small_image_def blank_links_def)
qed

text \<open>
  C4. The initialisation never faults, and ends in a state that satisfies the invariant of the kernel: the idle process with PID 0
  and the first process with PID 1, which runs and is the only other one; each has its directory, all page tables and user pages
  are in frames of their own, all queues are empty, and the next entry into the kernel will use the stack of the first process.
\<close>

theorem boot_establishes_invariant:
  assumes "bootable img k"
  shows "\<exists>gdt' idt' K i cf. main set_handlers img gdt idt k = Some (gdt', idt', K) \<and>
     kernel_ok K (boot_queues {i, current K}) cf \<and> idle_task K = Some i \<and> i \<noteq> current K \<and>
     PID (tasks K i) = 0 \<and> PID (tasks K (current K)) = 1 \<and> all_tasks K (boot_queues {i, current K}) = {i, current K}"
proof -
  obtain gdt' idt' K i cf where "main set_handlers img gdt idt k = Some (gdt', idt', K)"
      "kernel_ok K (boot_queues {i, current K}) cf" "idle_task K = Some i" "i \<noteq> current K"
      "PID (tasks K (current K)) = 1" "PID (tasks K i) = 0" "all_tasks K (boot_queues {i, current K}) = {i, current K}"
    by (rule main_ok [OF assms, of set_handlers gdt idt]) blast
  then show ?thesis by blast
qed

theorem boot_establishes_invariant_witness:
  "\<forall>gdt idt. \<exists>gdt' idt' K v cf. main (\<lambda>t. t) small_image gdt idt boot_kernel = Some (gdt', idt', K) \<and> kernel_ok K v cf
     \<and> PID (tasks K (current K)) = 1"
proof (intro allI)
  fix gdt idt
  show "\<exists>gdt' idt' K v cf. main (\<lambda>t. t) small_image gdt idt boot_kernel = Some (gdt', idt', K) \<and> kernel_ok K v cf
     \<and> PID (tasks K (current K)) = 1"
    using boot_establishes_invariant [OF boot_kernel_bootable, of "\<lambda>t. t" gdt idt] by blast
qed

end
