(* ===== verification/User_Tests.thy ===== *)
theory User_Tests
  imports View_Stress Boot_Processes
begin

text \<open>
  The tests on the kernel: what \<open>View_Programs\<close> and \<open>View_Stress\<close> show on the view holds on the kernel by the interpretation
  of \<open>simulation\<close>; the last section starts from the machine before \<open>main\<close>.
\<close>

section \<open>The running process\<close>

definition world_of :: "kernel \<Rightarrow> world" where
  "world_of k = \<lparr>kern = k, me = current k, batches = [], branches = []\<rparr>"

definition view_of :: "kernel \<Rightarrow> nat list \<Rightarrow> process_view" where
  "view_of k cs =
     \<lparr>display = scr k, typed = kbd_contents (kbd_st k), memory = image_byte k (current k),
      free_count = card (allocatable (frames k)), last_pid = pidGlobal k, own_pid = PID (tasks k (current k)),
      kids = kid_list k cs, time = zeos_ticks k\<rparr>"

lemma sees_world:
  assumes "kernel_ok k v cf" and "idle_task k \<noteq> Some (current k)" and "children_unblocked v (current k) = Some cs"
  shows "sees (world_of k) (view_of k cs)"
  using assms by (auto simp: sees_def world_of_def view_of_def)

lemma follows_Next:
  assumes "follows (rel_flow R) c a" and "a = Some (Next y)"
  obtains w where "c = Some (Next w)" and "R w y"
proof -
  obtain r where "c = Some r" "rel_flow R r (Next y)" using followsD [OF assms] by blast
  then show ?thesis using that by (cases r) simp_all
qed

lemma sees_screen_ok: "sees w x \<Longrightarrow> screen_ok (display x)"
  using seesD(5) kernel_okD(9) by (metis seesE)


text \<open>A process of the example state, with the keys \<open>ks\<close> typed and the memory \<open>m\<close>.\<close>

definition demo_world :: "(nat \<Rightarrow> byte) \<Rightarrow> byte list \<Rightarrow> world" where
  "demo_world m ks = world_of (demo_kernel\<lparr>kbd_st := fold kbd_put ks empty_kbd,
     mach := (mach demo_kernel)\<lparr>ram := (\<lambda>a. m (a + 0x800000 - 530 * 4096))\<rparr>\<rparr>)"

definition demo_view :: "(nat \<Rightarrow> byte) \<Rightarrow> byte list \<Rightarrow> process_view" where
  "demo_view m ks = (view_of demo_kernel [302, 304])\<lparr>typed := ks, memory := m\<rparr>"

lemma kbd_typed:
  assumes "length ks \<le> 256"
  shows "kbd_ok (fold kbd_put ks empty_kbd) \<and> kbd_contents (fold kbd_put ks empty_kbd) = ks"
  using assms
  by (induction ks rule: rev_induct) (simp_all add: empty_kbd_ok kbd_ok_put kbd_contents_put)

lemma demo_sees:
  assumes "length ks \<le> 256"
  shows "sees (demo_world m ks) (demo_view m ks)"
proof -
  have s: "sees (world_of demo_kernel) (view_of demo_kernel [302, 304])"
    by (rule sees_world [OF demo_kernel_ok demo_not_idle]) (simp add: demo_queues_def demo_kernel_def)
  have w: "kern (world_of demo_kernel) = demo_kernel" "me (world_of demo_kernel) = current demo_kernel" by (simp_all add: world_of_def)
  have place: "user_place demo_kernel (current demo_kernel) a = a - 0x800000 + 530 * 4096"
    if a: "0x800000 \<le> a" "a < 0x81C000" for a
  proof -
    have u: "unat (of_nat a :: dword) = a" using a by (simp add: unat_of_nat)
    then have "user_range (of_nat a) 1" using a by (simp add: user_range_def)
    from sees_translate [OF s this] show ?thesis using demo_translate(2) [of "of_nat a"] a unfolding u w by simp
  qed
  note k = kbd_typed [OF assms]
  have m: "(\<lambda>a. m (a + 0x800000 - 530 * 4096)) (user_place demo_kernel (current demo_kernel) a) = m a"
    if "0x800000 \<le> a" "a < 0x81C000" for a
    by (subst place) (use that in simp_all)
  from sees_keys [where r = "\<lambda>a. m (a + 0x800000 - 530 * 4096)" and m = m, OF s conjunct1 [OF k], unfolded w, OF m]
  show ?thesis unfolding demo_world_def demo_view_def using k by (simp add: world_of_def)
qed

text \<open>A memory with the texts \<open>ts\<close> in slots of 64 bytes, and an address for the variables.\<close>

definition slot :: "string list \<Rightarrow> string \<Rightarrow> nat" where
  "slot ts t = length (takeWhile (\<lambda>u. u \<noteq> t) ts)"

definition demo_lit :: "string list \<Rightarrow> string \<Rightarrow> dword" where
  "demo_lit ts t = of_nat (0x801000 + 64 * slot ts t)"

definition demo_addr :: "symbol \<Rightarrow> dword" where
  "demo_addr v = 0x810000"

definition demo_memory :: "string list \<Rightarrow> nat \<Rightarrow> byte" where
  "demo_memory ts a =
     (let i = (a - 0x801000) div 64; j = (a - 0x801000) mod 64
      in if i < length ts \<and> j < length (ts ! i) then text_bytes (ts ! i) ! j else 0)"

lemma demo_texts:
  assumes "\<forall>t\<in>set ts. length t < 64" and "length ts \<le> 256" and "t \<in> set ts"
  shows "text_in (demo_memory ts) (demo_lit ts) t"
    and "unat (demo_lit ts t) + length t + 1 \<le> 0x801000 + 64 * length ts"
proof -
  have i: "slot ts t < length ts" "ts ! slot ts t = t"
    using assms(3) by (induction ts) (auto simp: slot_def)
  have t: "length t < 64" using assms(1,3) by blast
  have u: "unat (demo_lit ts t) = 0x801000 + 64 * slot ts t"
    using i(1) assms(2) unfolding demo_lit_def unat_of_nat by (intro mod_less) simp
  show "unat (demo_lit ts t) + length t + 1 \<le> 0x801000 + 64 * length ts" using i(1) t unfolding u by linarith
  then have "user_range (demo_lit ts t) (int (length t) + 1)"
    using u i(1) t assms(2) unfolding user_range_def by linarith
  moreover have "demo_memory ts (unat (demo_lit ts t) + j) = (text_bytes t @ [0]) ! j" if "j < length t + 1" for j
  proof -
    have "(64 * slot ts t + j) div 64 = slot ts t" "(64 * slot ts t + j) mod 64 = j" using that t by simp_all
    then show ?thesis using that i by (auto simp: u demo_memory_def Let_def nth_append less_Suc_eq text_bytes_def add.assoc)
  qed
  ultimately show "text_in (demo_memory ts) (demo_lit ts) t"
    unfolding text_in_def bytes_at_def by (auto intro!: nth_equalityI simp: text_bytes_def simp del: upt_Suc)
qed

lemma demo_laid_out:
  assumes "\<forall>t\<in>set ts. length t < 64" and "length ts \<le> 256" and "\<forall>(v, n)\<in>set vs. n \<le> 4096"
  shows "laid_out (demo_lit ts) demo_addr ts vs"
proof -
  have "unat (demo_addr v) = 0x810000" for v by (simp add: demo_addr_def)
  moreover have "unat (demo_lit ts t) + (length t + 1) \<le> 0x810000" if "t \<in> set ts" for t
    using demo_texts(2) [OF assms(1,2) that] assms(2) by linarith
  ultimately show ?thesis
    unfolding laid_out_def using assms(3) by (auto simp: apart_def user_range_def)
qed

section \<open>The stress test\<close>


section \<open>Properties\<close>




text \<open>
  C31. A call that the kernel refuses: the stub answers \<open>-1\<close>, and \<open>errno\<close> holds the number of the error afterwards.
\<close>

theorem stub_reports_errors:
  assumes "sees w x" and "view_call n a b c x = Some (r, x')" and "r < 0" and "user_range (s V_errno) 4"
  shows "\<exists>w'. stub (kernel_env clk l s) n a b c w = Some (- 1, w') \<and>
     load32 (kernel_env clk l s) (s V_errno) w' = Some (of_int (- r))"
proof -
  obtain y where y: "store32 (view_env l s) (s V_errno) (of_int (- r)) x' = Some y"
      "load32 (view_env l s) (s V_errno) y = Some (of_int (- r))"
    by (rule store32_view [OF assms(4)])
  have "stub (view_env l s) n a b c x = Some (- 1, y)"
    unfolding stub_def view_env_simps assms(2) using assms(3) y(1) by simp
  from followsD [OF alone.stub_sim [OF assms(1)] this] obtain w' where
    w': "stub (kernel_env clk l s) n a b c w = Some (- 1, w')" "sees w' y" by fastforce
  have "load32 (kernel_env clk l s) (s V_errno) w' = Some (of_int (- r))"
    using followsD [OF alone.load32_sim [OF w'(2)] y(2)] by simp
  then show ?thesis using w'(1) by blast
qed

theorem stub_reports_errors_witness:
  "\<forall>clk. \<exists>w'. u_gotoxy (kernel_env clk (\<lambda>_. 0) demo_addr) 80 0 (demo_world (\<lambda>_. 0) []) = Some (- 1, w') \<and>
     load32 (kernel_env clk (\<lambda>_. 0) demo_addr) (demo_addr V_errno) w' = Some (of_int EINVAL)"
proof
  fix clk
  have s: "sees (demo_world (\<lambda>_. 0) []) (demo_view (\<lambda>_. 0) [])" by (rule demo_sees) simp
  have v: "view_call 23 (of_int 80) (of_int 0) 0 (demo_view (\<lambda>_. 0) []) = Some (- EINVAL, demo_view (\<lambda>_. 0) [])"
    by (simp add: view_call_def on_display_def sys_gotoxy_def)
  from stub_reports_errors [OF s v, of demo_addr clk "\<lambda>_. 0"]
  show "\<exists>w'. u_gotoxy (kernel_env clk (\<lambda>_. 0) demo_addr) 80 0 (demo_world (\<lambda>_. 0) []) = Some (- 1, w') \<and>
     load32 (kernel_env clk (\<lambda>_. 0) demo_addr) (demo_addr V_errno) w' = Some (of_int EINVAL)"
    by (simp add: u_gotoxy_def demo_addr_def user_range_def)
qed

text \<open>
  C30. What \<open>itoa\<close> prints for a number that is not negative, \<open>read_int\<close> reads back when it is typed with a period behind it:
  other keys in between are ignored, the keys behind the period stay in the buffer, and the process goes on.
\<close>

theorem read_int_reads_back:
  assumes "sees w x" and "typed x = ks @ 46 # rest" and "46 \<notin> set ks"
    and "0 \<le> a" and "a < 2 ^ 31" and "strlen (itoa a b) = Some n" and "filter is_digit ks = map (itoa a b) [0..<n]"
    and "text_in (memory x) l '' ''" and "laid_out l s ['' ''] [(V_c, 1)]"
  shows "\<exists>w' x'. read_int (kernel_env clk l s) w = Some (a, w') \<and> sees w' x' \<and> typed x' = rest"
proof -
  have "screen_ok (display x)" using sees_screen_ok [OF assms(1)] .
  then have x: "at_prompt l ['' ''] (ks @ 46 # rest) x" using assms(2,8) by (simp add: at_prompt_def)
  obtain y where y: "read_int (view_env l s) x = Some (typed_number ks, y)" "at_prompt l ['' ''] rest y"
    using read_int_at_prompt [OF x assms(3,9)] by auto
  obtain m where m: "strlen (itoa a b) = Some m" "int (number_of 10 digit_value (map (itoa a b) [0..<m])) = a"
      "\<forall>j<m. is_digit (itoa a b j)"
    by (rule itoa_string [OF assms(4,5)])
  have "typed_number ks = typed_number (filter is_digit ks)" by (simp add: typed_number_def)
  also have "\<dots> = a" using typed_number_small [of "filter is_digit ks"] m assms(5-7) by simp
  finally have "typed_number ks = a" .
  moreover obtain w' where "read_int (kernel_env clk l s) w = Some (typed_number ks, w')" "sees w' y"
    using followsD [OF alone.read_int_sim [OF assms(1)] y(1), of clk] by auto
  ultimately show ?thesis using at_promptD(1) [OF y(2)] by blast
qed

theorem read_int_reads_back_witness:
  "\<forall>clk. \<exists>w'. read_int (kernel_env clk (demo_lit ['' '']) demo_addr) (demo_world (demo_memory ['' '']) [52, 113, 50, 46, 49])
     = Some (42, w')"
proof
  fix clk
  let ?m = "demo_memory ['' '']"
  have s: "sees (demo_world ?m [52, 113, 50, 46, 49]) (demo_view ?m [52, 113, 50, 46, 49])" by (rule demo_sees) simp
  have "strlen (itoa 42 (\<lambda>_. 0)) = Some 2 \<and> map (itoa 42 (\<lambda>_. 0)) [0..<2] = [52, 50]"
    by (simp add: strlen_def strlen_loop.simps itoa_def digit_loop.simps reverse_loop_def dec_digit_def upt_rec Let_def)
  then show "\<exists>w'. read_int (kernel_env clk (demo_lit ['' '']) demo_addr) (demo_world ?m [52, 113, 50, 46, 49]) = Some (42, w')"
    using read_int_reads_back [OF s, of "[52, 113, 50]" "[49]" 42 "\<lambda>_. 0" 2 "demo_lit ['' '']" demo_addr clk]
      demo_texts(1) [of "['' '']" "'' ''"] demo_laid_out [of "['' '']" "[(V_c, 1)]"]
    by (auto simp: demo_view_def is_digit_def)
qed

text \<open>
  C29. The screen test on the kernel: when a position, two colours, a length and a text are typed, each number with a period
  behind it, the text stands on the screen at that position in those colours, and the keys behind it are still to be read.
\<close>

theorem screen_test_shows_text:
  assumes "sees w x" and "typed x = k1 @ 46 # k2 @ 46 # k3 @ 46 # k4 @ 46 # k5 @ 46 # keys"
    and "46 \<notin> set k1 \<union> set k2 \<union> set k3 \<union> set k4 \<union> set k5"
    and "typed_number k1 = px" "typed_number k2 = py" "typed_number k3 = fg" "typed_number k4 = bg" "typed_number k5 = int sz"
    and "0 \<le> px" "px < 80" "0 \<le> py" "py < 25" "0 \<le> fg" "fg \<le> 15" "0 \<le> bg" "bg \<le> 15" "0 < sz" "sz \<le> 128"
    and "keys \<noteq> []" and "10 \<notin> set (take sz keys)"
    and "\<forall>t\<in>set screen_texts. text_in (memory x) l t" and "laid_out l s screen_texts [(V_c, 1), (V_buf, 128)]"
  shows "\<exists>w'. test_screen_syscalls (kernel_env clk l s) w = Some (Next w') \<and>
     kbd_contents (kbd_st (kern w')) = drop sz keys \<and>
     (\<forall>i<length (take sz keys). cells (scr (kern w')) ((nat py * 80 + nat px + i) mod 2000) =
        cell_of (of_int (push_bit 4 bg OR (fg AND 0x0F))) (keys ! i))"
proof -
  have "screen_ok (display x)" using sees_screen_ok [OF assms(1)] .
  then have x: "at_prompt l screen_texts (k1 @ 46 # k2 @ 46 # k3 @ 46 # k4 @ 46 # k5 @ 46 # keys) x"
    using assms(2,21) by (simp add: at_prompt_def)
  obtain y where y: "test_screen_syscalls (view_env l s) x = Some (Next y)" "typed y = drop sz keys"
      "\<forall>i<length (take sz keys). cells (display y) ((nat py * 80 + nat px + i) mod 2000) =
        cell_of (of_int (push_bit 4 bg OR (fg AND 0x0F))) (keys ! i)"
    using screen_test_view [OF x assms(3,22,4-20)] by blast
  obtain w' where "test_screen_syscalls (kernel_env clk l s) w = Some (Next w')" "sees w' y"
    by (rule follows_Next [OF alone.test_screen_syscalls_sim [OF assms(1)] y(1)])
  moreover from seesD(5,6) [OF this(2)] have "display y = scr (kern w')" "typed y = kbd_contents (kbd_st (kern w'))" by simp_all
  ultimately show ?thesis using y(2,3) by simp
qed

lemma test_texts_fit: "\<forall>t\<in>set screen_texts. length t < 64" "\<forall>t\<in>set stress_texts. length t < 64"
  "length screen_texts \<le> 256" "length stress_texts \<le> 256"
  by (simp_all add: screen_texts_def stress_texts_def)

theorem screen_test_shows_text_witness:
  "\<forall>clk. \<exists>w'. test_screen_syscalls (kernel_env clk (demo_lit screen_texts) demo_addr)
     (demo_world (demo_memory screen_texts) [49, 48, 46, 50, 48, 46, 55, 46, 49, 46, 50, 46, 104, 105, 120]) = Some (Next w') \<and>
     kbd_contents (kbd_st (kern w')) = [120] \<and> cells (scr (kern w')) 1611 = 0x1769"
proof
  fix clk
  let ?m = "demo_memory screen_texts"
  let ?k = "[49, 48, 46, 50, 48, 46, 55, 46, 49, 46, 50, 46, 104, 105, 120] :: byte list"
  have s: "sees (demo_world ?m ?k) (demo_view ?m ?k)" by (rule demo_sees) simp
  note t = test_texts_fit
  have "\<exists>w'. test_screen_syscalls (kernel_env clk (demo_lit screen_texts) demo_addr) (demo_world ?m ?k) = Some (Next w') \<and>
     kbd_contents (kbd_st (kern w')) = drop 2 [104, 105, 120] \<and>
     (\<forall>i<length (take 2 [104, 105, 120 :: byte]). cells (scr (kern w')) ((nat 20 * 80 + nat 10 + i) mod 2000) =
        cell_of (of_int (push_bit 4 1 OR (7 AND 0x0F))) ([104, 105, 120] ! i))"
    by (rule screen_test_shows_text [OF s, of "[49, 48]" "[50, 48]" "[55]" "[49]" "[50]" "[104, 105, 120]"])
      (use demo_texts(1) [OF t(1,3)] demo_laid_out [OF t(1,3)] in \<open>simp_all add: demo_view_def typed_number_def is_digit_def\<close>)
  then obtain w' where w': "test_screen_syscalls (kernel_env clk (demo_lit screen_texts) demo_addr) (demo_world ?m ?k) = Some (Next w')"
      "kbd_contents (kbd_st (kern w')) = [120]"
      "\<forall>i<2. cells (scr (kern w')) ((1610 + i) mod 2000) = cell_of (of_int (push_bit 4 1 OR (7 AND 0x0F))) ([104, 105, 120] ! i)"
    by auto
  have "cells (scr (kern w')) 1611 = 0x1769" using w'(3) [rule_format, of 1] by (simp add: cell_of_def)
  then show "\<exists>w'. test_screen_syscalls (kernel_env clk (demo_lit screen_texts) demo_addr) (demo_world ?m ?k) = Some (Next w') \<and>
     kbd_contents (kbd_st (kern w')) = [120] \<and> cells (scr (kern w')) 1611 = 0x1769"
    using w'(1,2) by blast
qed




end
