(* ===== verification/User_Fork.thy ===== *)
theory User_Fork
  imports User_Tests
begin

text \<open>
  \<open>fork\<close> comes back twice: in the parent at once, and in the child when the clock has given it the processor. The child then
  sees the memory of the parent at the call, and \<open>fork\<close> has answered 0.
\<close>

section \<open>The memory of the child\<close>


section \<open>The clock until the child runs\<close>






section \<open>Properties\<close>



end
