(* ===== verification/Boot_Sector.thy ===== *)
theory Boot_Sector
  imports Prelude
begin

text \<open>
  \<open>bootsect.S\<close>: the routine \<open>read_it\<close> that loads the kernel and the user program from the floppy disk to \<open>0x10000\<close>. The
  registers and variables are 16 bits wide and addressed in real mode: segment \<open>es\<close> and offset \<open>bx\<close> name the byte at
  \<open>16 * es + bx\<close>. The BIOS is a parameter: \<open>int13\<close> reads \<open>al\<close> sectors of the track, head and first sector in \<open>cx\<close> and
  \<open>dx\<close> to \<open>es:bx\<close>. Its error flag is not tested, as in the source.
\<close>

type_synonym memory = "nat \<Rightarrow> byte"

type_synonym bios = "hword \<Rightarrow> hword \<Rightarrow> hword \<Rightarrow> hword \<Rightarrow> hword \<Rightarrow> memory \<Rightarrow> memory"

text \<open>\<open>int13 ax cx dx es bx\<close>.\<close>

record loader =
  sread :: hword
  head :: hword
  track :: hword
  seg :: hword
  off :: hword
  mem :: memory

abbreviation (input) SYSSEG :: hword where "SYSSEG \<equiv> 0x1000"
abbreviation (input) sectors :: hword where "sectors \<equiv> 18"
abbreviation (input) SETUPSECS :: byte where "SETUPSECS \<equiv> 0"

definition read_track :: "bios \<Rightarrow> hword \<Rightarrow> loader \<Rightarrow> loader" where
  "read_track int13 ax s =
     (let dx = track s;
          cx = sread s + 1;
          cx = (cx AND 0x00FF) OR push_bit 8 (dx AND 0x00FF);
          dx = head s;
          dx = (dx AND 0x00FF) OR push_bit 8 (dx AND 0x00FF);
          dx = dx AND 0x0100;
          ax = (ax AND 0x00FF) OR 0x0200
      in s\<lparr>mem := int13 ax cx dx (seg s) (off s) (mem s)\<rparr>)"

text \<open>The number of sectors of the next read: the rest of the track, or what fits below the end of the segment.\<close>

definition next_count :: "loader \<Rightarrow> hword" where
  "next_count s =
     (let ax = sectors - sread s;
          cx = push_bit 9 ax;
          sum = unat cx + unat (off s)
      in if sum < 2 ^ 16 \<or> sum = 2 ^ 16 then ax
         else drop_bit 9 (0 - off s))"

definition advance :: "hword \<Rightarrow> loader \<Rightarrow> loader" where
  "advance n s =
     (let ax = n + sread s;
          s = (if ax \<noteq> sectors then s\<lparr>sread := ax\<rparr>
               else let s = (if 1 - head s = 0 then s\<lparr>track := track s + 1\<rparr> else s)
                    in s\<lparr>head := 1 - head s, sread := 0\<rparr>);
          cx = push_bit 9 n;
          sum = unat (off s) + unat cx;
          s = s\<lparr>off := off s + cx\<rparr>
      in if sum < 2 ^ 16 then s else s\<lparr>seg := seg s + 0x1000, off := 0\<rparr>)"

definition rp_read_turn :: "bios \<Rightarrow> loader \<Rightarrow> loader" where
  "rp_read_turn int13 s = (let n = next_count s in advance n (read_track int13 n s))"

partial_function (option) rp_read :: "bios \<Rightarrow> hword \<Rightarrow> loader \<Rightarrow> loader option" where
  "rp_read int13 syssize s =
     (if seg s - SYSSEG \<le> syssize then rp_read int13 syssize (rp_read_turn int13 s) else Some s)"

text \<open>A segment that does not begin at a 64 kB boundary is an endless loop.\<close>

definition read_it :: "bios \<Rightarrow> hword \<Rightarrow> hword \<Rightarrow> memory \<Rightarrow> loader option" where
  "read_it int13 syssize es m =
     (if es AND 0x0FFF \<noteq> 0 then None
      else rp_read int13 syssize
        \<lparr>sread = ucast (SETUPSECS + 1), head = 0, track = 0, seg = es, off = 0, mem = m\<rparr>)"

section \<open>What the BIOS promises\<close>

text \<open>
  A read of sectors of one track that stays in one segment fills the memory with them and changes nothing else. Sectors
  count from 1, \<open>ch\<close> is the track, \<open>cl\<close> the sector, \<open>dh\<close> the head, and drive 0 the floppy disk.
\<close>

definition reads_disk :: "bios \<Rightarrow> (nat \<Rightarrow> byte) \<Rightarrow> bool" where
  "reads_disk int13 disk \<longleftrightarrow>
     (\<forall>n sect tr hd es bx m.
        1 \<le> n \<and> 1 \<le> sect \<and> sect + n \<le> 19 \<and> tr < 80 \<and> hd \<le> 1 \<and> es < 2 ^ 16 \<and> bx + 512 * n \<le> 2 ^ 16 \<longrightarrow>
        int13 (of_nat (0x200 + n)) (of_nat (256 * tr + sect)) (of_nat (256 * hd)) (of_nat es) (of_nat bx) m =
        (\<lambda>a. if 16 * es + bx \<le> a \<and> a < 16 * es + bx + 512 * n
              then disk (512 * ((tr * 2 + hd) * 18 + sect - 1) + (a - (16 * es + bx))) else m a))"

section \<open>The loader in numbers\<close>

text \<open>\<open>at_sector disk m0 n s\<close>: \<open>n\<close> sectors behind the boot sector have been read, to their places.\<close>

definition at_sector :: "(nat \<Rightarrow> byte) \<Rightarrow> memory \<Rightarrow> nat \<Rightarrow> loader \<Rightarrow> bool" where
  "at_sector disk m0 n s \<longleftrightarrow>
     unat (sread s) < 18 \<and> unat (head s) \<le> 1 \<and> 
     n + 1 = (unat (track s) * 2 + unat (head s)) * 18 + unat (sread s) \<and>
     unat (seg s) = 0x1000 * (n div 128 + 1) \<and> unat (off s) = 512 * (n mod 128) \<and>
     mem s = (\<lambda>a. if 0x10000 \<le> a \<and> a < 0x10000 + 512 * n then disk (512 + (a - 0x10000)) else m0 a)"

lemma unat_push9: "unat (v :: hword) < 128 \<Longrightarrow> unat (push_bit 9 v) = 512 * unat v"
  by (simp add: push_bit_eq_mult unat_word_ariths)

lemma next_count_nat:
  assumes "unat (sread s) < 18" "unat (off s) = 512 * q" "q < 128"
  shows "unat (next_count s) = min (18 - unat (sread s)) (128 - q)"
proof -
  have ax: "unat (sectors - sread s) = 18 - unat (sread s)"
    using assms(1) by (simp add: unat_sub word_le_nat_alt)
  then have cx: "unat (push_bit 9 (sectors - sread s)) = 512 * (18 - unat (sread s))"
    using unat_push9 [of "sectors - sread s"] by simp
  show ?thesis
  proof (cases "18 - unat (sread s) + q \<le> 128")
    case True
    then show ?thesis
      using assms by (auto simp: next_count_def Let_def cx ax)
  next
    case False
    then have q: "0 < q"
      using assms(1) by linarith
    then have neg: "unat (0 - off s) = 2 ^ 16 - 512 * q"
      using assms(2) unat_sub_if' [of 0 "off s"] by simp
    have "unat (drop_bit 9 (0 - off s)) = (2 ^ 16 - 512 * q) div 512"
      unfolding unat_drop_bit_eq neg by (simp add: drop_bit_eq_div)
    also have "\<dots> = 128 - q"
      by simp
    finally show ?thesis
      using False assms by (auto simp: next_count_def Let_def cx)
  qed
qed

lemma join_bytes:
  assumes "unat (x :: hword) < 256" "unat y < 256"
  shows "(x AND 0x00FF) OR push_bit 8 (y AND 0x00FF) = of_nat (256 * unat y + unat x)"
proof -
  have m: "(v AND 0x00FF :: hword) = take_bit 8 v" for v
    by (simp add: take_bit_eq_mask mask_eq_exp_minus_1)
  have low: "take_bit 8 v = v" if "unat v < 256" for v :: hword
    using that by (simp add: word_unat_eq_iff unsigned_take_bit_eq take_bit_nat_eq_self)
  have "take_bit 8 x OR push_bit 8 (take_bit 8 y) = take_bit 8 x + push_bit 8 (take_bit 8 y)"
    by (rule disjunctive_add [symmetric]) (auto simp: bit_simps)
  also have "\<dots> = of_nat (256 * unat y + unat x)"
    by (simp add: low assms push_bit_eq_mult mult.commute)
  finally show ?thesis
    unfolding m .
qed

lemma unat_lt: "unat (v :: hword) < 65536"
  using unsigned_less [of v] by simp

lemma next_segment: "(128 :: nat) * d + q = n \<Longrightarrow> q + k = 128 \<Longrightarrow> n + k = 128 * (d + 1)"
  by simp

lemma same_segment:
  assumes "(128 :: nat) * d + q = n" "q + k < 128"
  shows "(n + k) mod 128 = q + k" "(n + k) div 128 = d"
proof -
  have "n + k = (q + k) + d * 128"
    using assms(1) by simp
  then show "(n + k) mod 128 = q + k" "(n + k) div 128 = d"
    using assms(2) by (simp_all only: mod_mult_self1 div_mult_self1 mod_less div_less)
qed

lemma track_bound: "(n :: nat) + 1 = (t * 2 + h) * 18 + s \<Longrightarrow> n < 1024 \<Longrightarrow> t < 80"
  by simp

lemma load_address: "(128 :: nat) * d + q = n \<Longrightarrow> 16 * (0x1000 * (d + 1)) + 512 * q = 0x10000 + 512 * n"
  by simp

lemma read_track_reads:
  assumes bios: "reads_disk int13 disk" and n: "1 \<le> unat c" "unat (sread s) + unat c \<le> 18"
    and tr: "unat (track s) < 80" "unat (head s) \<le> 1" and off: "unat (off s) + 512 * unat c \<le> 2 ^ 16"
  shows "read_track int13 c s = s\<lparr>mem := (\<lambda>a. if 16 * unat (seg s) + unat (off s) \<le> a \<and>
        a < 16 * unat (seg s) + unat (off s) + 512 * unat c
      then disk (512 * ((unat (track s) * 2 + unat (head s)) * 18 + unat (sread s)) + (a - (16 * unat (seg s) + unat (off s))))
      else mem s a)\<rparr>"
proof -
  have sect: "unat (sread s + 1) = unat (sread s) + 1"
    using n by (simp add: unat_word_ariths)
  have cx: "(sread s + 1 AND 0x00FF) OR push_bit 8 (track s AND 0x00FF) = of_nat (256 * unat (track s) + (unat (sread s) + 1))"
    unfolding sect [symmetric] by (rule join_bytes) (use n tr in \<open>simp_all add: sect\<close>)
  have ax: "(c AND 0x00FF) OR 0x0200 = of_nat (0x200 + unat c)"
    using join_bytes [of c 2] n by simp
  have "unat (head s) = 0 \<or> unat (head s) = 1"
    using tr(2) by linarith
  then have "head s = 0 \<or> head s = 1"
    by (metis unat_0 unat_1 word_unat_eq_iff)
  then have dx: "((head s AND 0x00FF) OR push_bit 8 (head s AND 0x00FF)) AND 0x0100 = of_nat (256 * unat (head s))"
    by auto
  have "int13 (of_nat (0x200 + unat c)) (of_nat (256 * unat (track s) + (unat (sread s) + 1))) (of_nat (256 * unat (head s)))
        (of_nat (unat (seg s))) (of_nat (unat (off s))) (mem s) =
      (\<lambda>a. if 16 * unat (seg s) + unat (off s) \<le> a \<and> a < 16 * unat (seg s) + unat (off s) + 512 * unat c
        then disk (512 * ((unat (track s) * 2 + unat (head s)) * 18 + (unat (sread s) + 1) - 1) +
          (a - (16 * unat (seg s) + unat (off s)))) else mem s a)"
    by (rule bios [unfolded reads_disk_def, rule_format])
      (use n tr off unat_lt [of "seg s"] in \<open>simp add: less_imp_le\<close>)
  note r = this
  have e: "(unat (track s) * 2 + unat (head s)) * 18 + (unat (sread s) + 1) - 1 =
      (unat (track s) * 2 + unat (head s)) * 18 + unat (sread s)"
    by simp
  show ?thesis
    unfolding read_track_def Let_def ax cx dx using r [unfolded e] by simp
qed

lemma unat_18: "c = (18 :: hword) \<longleftrightarrow> unat c = 18"
  by (simp add: word_unat_eq_iff)

lemma head_cases: "unat (h :: hword) \<le> 1 \<Longrightarrow> h = 0 \<or> h = 1"
  by (metis le_neq_implies_less less_one unat_0 unat_1 word_unat_eq_iff)

lemma advance_offset:
  assumes "unat (seg s) = 0x1000 * (n div 128 + 1)" "unat (off s) = 512 * (n mod 128)" "n mod 128 + unat c \<le> 128"
    and "unat (seg s) \<le> 0x8000" "unat c < 128"
  shows "unat (seg (advance c s)) = 0x1000 * ((n + unat c) div 128 + 1)"
    "unat (off (advance c s)) = 512 * ((n + unat c) mod 128)"
proof -
  have cx: "unat (push_bit 9 c) = 512 * unat c"
    by (rule unat_push9) (rule assms(5))
  have "unat (seg (advance c s)) = 0x1000 * ((n + unat c) div 128 + 1) \<and> unat (off (advance c s)) = 512 * ((n + unat c) mod 128)"
  proof (cases "n mod 128 + unat c = 128")
    case True
    have "n + unat c = 128 * (n div 128 + 1)"
      by (rule next_segment [OF mult_div_mod_eq True])
    then have "(n + unat c) mod 128 = 0" "(n + unat c) div 128 = n div 128 + 1"
      by simp_all
    moreover have "unat (seg s + 0x1000) = unat (seg s) + 0x1000"
      using assms(4) by (simp add: unat_word_ariths)
    ultimately show ?thesis
      using True assms(1,2) by (simp add: advance_def Let_def cx)
  next
    case False
    then have l: "n mod 128 + unat c < 128"
      using assms(3) by simp
    moreover note same_segment [OF mult_div_mod_eq l]
    moreover have "unat (off s + push_bit 9 c) = unat (off s) + 512 * unat c"
      using l assms(2) by (simp add: unat_word_ariths cx)
    ultimately show ?thesis
      using l assms(1,2) by (simp add: advance_def Let_def cx)
  qed
  then show "unat (seg (advance c s)) = 0x1000 * ((n + unat c) div 128 + 1)"
    "unat (off (advance c s)) = 512 * ((n + unat c) mod 128)" by simp_all
qed

lemma advance_sector:
  assumes "unat (sread s) < 18" "unat (head s) \<le> 1" "n + 1 = (unat (track s) * 2 + unat (head s)) * 18 + unat (sread s)"
    and "unat (sread s) + unat c \<le> 18" "unat (track s) < 80"
  shows "unat (sread (advance c s)) < 18" "unat (head (advance c s)) \<le> 1"
    "n + unat c + 1 = (unat (track (advance c s)) * 2 + unat (head (advance c s))) * 18 + unat (sread (advance c s))"
proof -
  have ax: "unat (c + sread s) = unat c + unat (sread s)"
    using assms(4) by (simp add: unat_word_ariths)
  have t: "unat (track s + 1) = unat (track s) + 1"
    using assms(5) by (simp add: unat_word_ariths)
  consider "c + sread s \<noteq> 18" | "c + sread s = 18" "head s = 0" | "c + sread s = 18" "head s = 1"
    using head_cases [OF assms(2)] by blast
  then have "unat (sread (advance c s)) < 18 \<and> unat (head (advance c s)) \<le> 1 \<and>
    n + unat c + 1 = (unat (track (advance c s)) * 2 + unat (head (advance c s))) * 18 + unat (sread (advance c s))"
  proof cases
    case 1
    then have "unat c + unat (sread s) \<noteq> 18"
      by (simp add: unat_18 ax)
    then show ?thesis
      using 1 assms by (simp add: advance_def Let_def ax)
  next
    case 2
    then have "unat c + unat (sread s) = 18"
      by (simp add: unat_18 ax)
    then show ?thesis
      using 2 assms(3) by (simp add: advance_def Let_def)
  next
    case 3
    then have "unat c + unat (sread s) = 18"
      by (simp add: unat_18 ax)
    then show ?thesis
      using 3 assms(3) by (simp add: advance_def Let_def t)
  qed
  then show "unat (sread (advance c s)) < 18" "unat (head (advance c s)) \<le> 1"
    "n + unat c + 1 = (unat (track (advance c s)) * 2 + unat (head (advance c s))) * 18 + unat (sread (advance c s))"
    by simp_all
qed

lemma advance_mem [simp]: "mem (advance c s) = mem s"
  by (simp add: advance_def Let_def)

lemma at_sector_turn:
  assumes bios: "reads_disk int13 disk" and s: "at_sector disk m0 n s" and n: "n < 1024"
  shows "\<exists>k. 1 \<le> k \<and> n mod 128 + k \<le> 128 \<and> at_sector disk m0 (n + k) (rp_read_turn int13 s)"
proof -
  define c where "c = next_count s"
  define t where "t = read_track int13 c s"
  have pos: "unat (sread s) < 18" "unat (head s) \<le> 1" "n + 1 = (unat (track s) * 2 + unat (head s)) * 18 + unat (sread s)"
      "unat (seg s) = 0x1000 * (n div 128 + 1)" "unat (off s) = 512 * (n mod 128)"
      "mem s = (\<lambda>a. if 0x10000 \<le> a \<and> a < 0x10000 + 512 * n then disk (512 + (a - 0x10000)) else m0 a)"
    using s by (simp_all add: at_sector_def)
  have k: "unat c = min (18 - unat (sread s)) (128 - n mod 128)"
    unfolding c_def by (rule next_count_nat [OF pos(1,5)]) simp
  have k1: "1 \<le> unat c" "unat (sread s) + unat c \<le> 18" "n mod 128 + unat c \<le> 128"
    using pos(1) by (auto simp: k)
  have tr: "unat (track s) < 80"
    by (rule track_bound [OF pos(3) n])
  have "n div 128 \<le> 7"
    using n by linarith
  then have sg: "unat (seg s) \<le> 0x8000"
    using pos(4) by simp
  have base: "16 * unat (seg s) + unat (off s) = 0x10000 + 512 * n"
    unfolding pos(4,5) by (rule load_address [OF mult_div_mod_eq])
  have lba: "(unat (track s) * 2 + unat (head s)) * 18 + unat (sread s) = n + 1"
    using pos(3) by simp
  have o: "unat (off s) + 512 * unat c \<le> 2 ^ 16"
    using k1(3) pos(5) by simp
  have t_eq: "t = s\<lparr>mem := (\<lambda>a. if 0x10000 + 512 * n \<le> a \<and> a < 0x10000 + 512 * n + 512 * unat c
      then disk (512 * (n + 1) + (a - (0x10000 + 512 * n))) else mem s a)\<rparr>"
    unfolding t_def read_track_reads [OF bios k1(1,2) tr pos(2) o] base lba ..
  have same: "sread t = sread s" "head t = head s" "track t = track s" "seg t = seg s" "off t = off s"
    by (simp_all add: t_eq)
  have turn: "rp_read_turn int13 s = advance c t"
    by (simp add: rp_read_turn_def c_def t_def Let_def)
  have m: "mem t = (\<lambda>a. if 0x10000 \<le> a \<and> a < 0x10000 + 512 * (n + unat c) then disk (512 + (a - 0x10000)) else m0 a)"
    by (rule ext) (auto simp: t_eq pos(6))
  have "at_sector disk m0 (n + unat c) (rp_read_turn int13 s)"
    unfolding turn at_sector_def
  proof (intro conjI)
    show "mem (advance c t) = (\<lambda>a. if 0x10000 \<le> a \<and> a < 0x10000 + 512 * (n + unat c) then disk (512 + (a - 0x10000)) else m0 a)"
      by (simp only: advance_mem m)
    show "unat (seg (advance c t)) = 0x1000 * ((n + unat c) div 128 + 1)" "unat (off (advance c t)) = 512 * ((n + unat c) mod 128)"
      using pos k1 sg by (simp_all add: advance_offset same)
    show "unat (sread (advance c t)) < 18" "unat (head (advance c t)) \<le> 1"
      "n + unat c + 1 = (unat (track (advance c t)) * 2 + unat (head (advance c t))) * 18 + unat (sread (advance c t))"
      by (rule advance_sector; (simp only: same)?; use pos k1 tr in simp)+
  qed
  then show ?thesis
    using k1 by blast
qed

section \<open>The whole routine\<close>

text \<open>The sectors that are read: whole segments, until one begins behind the last paragraph.\<close>

definition sectors_read :: "hword \<Rightarrow> nat" where
  "sectors_read syssize = 128 * (unat syssize div 0x1000 + 1)"

lemma loop_test:
  assumes "at_sector disk m0 n s" "n \<le> 1024"
  shows "seg s - SYSSEG \<le> syssize \<longleftrightarrow> n < sectors_read syssize"
proof -
  have sg: "unat (seg s) = 0x1000 * (n div 128 + 1)"
    using assms(1) by (simp add: at_sector_def)
  have "unat (seg s - SYSSEG) = 0x1000 * (n div 128)"
    by (simp add: unat_sub word_le_nat_alt sg)
  then have "seg s - SYSSEG \<le> syssize \<longleftrightarrow> 0x1000 * (n div 128) \<le> unat syssize"
    by (simp add: word_le_nat_alt)
  also have "\<dots> \<longleftrightarrow> n div 128 \<le> unat syssize div 0x1000"
    by (simp add: less_eq_div_iff_mult_less_eq mult.commute)
  also have "\<dots> \<longleftrightarrow> n < sectors_read syssize"
    by (simp add: sectors_read_def div_less_iff_less_mult mult.commute flip: less_Suc_eq_le)
  finally show ?thesis .
qed

lemma segment_step:
  assumes "n < 128 * d" "n mod 128 + k \<le> (128 :: nat)"
  shows "n + k \<le> 128 * d"
proof -
  have "n div 128 < d"
    using assms(1) by (simp add: div_less_iff_less_mult mult.commute)
  then have "128 * (n div 128 + 1) \<le> 128 * d"
    by simp
  moreover have "n + k \<le> 128 * (n div 128) + 128"
    using assms(2) mult_div_mod_eq [of 128 n] by linarith
  ultimately show ?thesis
    by simp
qed

lemma rp_read_loads:
  assumes bios: "reads_disk int13 disk" and small: "unat syssize < 0x8000"
    and s: "at_sector disk m0 n s" "n \<le> sectors_read syssize"
  shows "\<exists>t. rp_read int13 syssize s = Some t \<and> at_sector disk m0 (sectors_read syssize) t"
  using s
proof (induction "sectors_read syssize - n" arbitrary: n s rule: less_induct)
  case less
  have "unat syssize div 0x1000 < 8"
    using small by (simp add: div_less_iff_less_mult)
  then have top: "sectors_read syssize \<le> 1024"
    by (simp add: sectors_read_def)
  show ?case
  proof (cases "n < sectors_read syssize")
    case False
    then have "n = sectors_read syssize"
      using less.prems(2) by simp
    then show ?thesis
      using False loop_test [OF less.prems(1)] top less.prems by (simp add: rp_read.simps)
  next
    case True
    obtain k where k: "1 \<le> k" "n mod 128 + k \<le> 128" "at_sector disk m0 (n + k) (rp_read_turn int13 s)"
      using at_sector_turn [OF bios less.prems(1)] True top by auto
    have le: "n + k \<le> sectors_read syssize"
      using segment_step [OF _ k(2)] True unfolding sectors_read_def by blast
    have "\<exists>t. rp_read int13 syssize (rp_read_turn int13 s) = Some t \<and> at_sector disk m0 (sectors_read syssize) t"
      by (rule less.hyps [OF _ k(3) le]) (use True k(1) in simp)
    moreover have "seg s - SYSSEG \<le> syssize"
      using loop_test [OF less.prems(1)] True top by simp
    ultimately show ?thesis
      by (simp add: rp_read.simps [of int13 syssize s])
  qed
qed

lemma read_it_loads:
  assumes "reads_disk int13 disk" and "unat syssize < 0x8000"
  obtains t where "read_it int13 syssize 0x1000 m = Some t" "at_sector disk m (sectors_read syssize) t"
proof -
  let ?s = "\<lparr>sread = ucast (SETUPSECS + 1), head = 0, track = 0, seg = 0x1000, off = 0, mem = m\<rparr>"
  have "at_sector disk m 0 ?s"
    by (simp add: at_sector_def) (rule ext, auto)
  from rp_read_loads [OF assms this] obtain t where "rp_read int13 syssize ?s = Some t"
      "at_sector disk m (sectors_read syssize) t"
    by auto
  then show thesis
    by (intro that [of t]) (simp_all add: read_it_def)
qed

text \<open>
  C34. The loader ends, and has the disk behind the boot sector in memory from \<open>0x10000\<close> on: whole segments of 64 kB up to
  the one with the last paragraph. As long as the image has fewer than \<open>0x8000\<close> paragraphs, nothing else is written; the
  boot sector itself, from \<open>0x90000\<close> on, stays.
\<close>

theorem image_is_loaded:
  assumes "reads_disk int13 disk" and "unat syssize < 0x8000"
  shows "\<exists>t. read_it int13 syssize 0x1000 m = Some t \<and>
     (\<forall>a. mem t a = (if 0x10000 \<le> a \<and> a < 0x10000 + 0x10000 * (unat syssize div 0x1000 + 1)
       then disk (512 + (a - 0x10000)) else m a))"
proof -
  obtain t where "read_it int13 syssize 0x1000 m = Some t" "at_sector disk m (sectors_read syssize) t"
    by (rule read_it_loads [OF assms])
  then show ?thesis
    by (simp add: at_sector_def sectors_read_def)
qed

text \<open>A BIOS that reads.\<close>

definition some_bios :: "(nat \<Rightarrow> byte) \<Rightarrow> bios" where
  "some_bios disk ax cx dx es bx m =
     (let n = unat ax - 0x200; b = 16 * unat es + unat bx in
      (\<lambda>a. if b \<le> a \<and> a < b + 512 * n
        then disk (512 * (((unat cx div 256) * 2 + unat dx div 256) * 18 + unat cx mod 256 - 1) + (a - b)) else m a))"

lemma reads_some_bios: "reads_disk (some_bios disk) disk"
proof -
  have nat16: "unat (of_nat x :: hword) = x" if "x < 65536" for x
    using that by (simp add: unat_of_nat take_bit_nat_eq_self)
  show ?thesis
    unfolding reads_disk_def
  proof (intro allI impI)
    fix n sect tr hd es bx :: nat and m
    assume a: "1 \<le> n \<and> 1 \<le> sect \<and> sect + n \<le> 19 \<and> tr < 80 \<and> hd \<le> 1 \<and> es < 2 ^ 16 \<and> bx + 512 * n \<le> 2 ^ 16"
    have u: "unat (of_nat (0x200 + n) :: hword) = 0x200 + n" "unat (of_nat (256 * tr + sect) :: hword) = 256 * tr + sect"
      "unat (of_nat (256 * hd) :: hword) = 256 * hd" "unat (of_nat es :: hword) = es" "unat (of_nat bx :: hword) = bx"
      by (rule nat16; use a in simp)+
    have d: "(256 * tr + sect) div 256 = tr" "(256 * tr + sect) mod 256 = sect" "256 * hd div 256 = hd"
      using a by simp_all
    show "some_bios disk (of_nat (0x200 + n)) (of_nat (256 * tr + sect)) (of_nat (256 * hd)) (of_nat es) (of_nat bx) m =
        (\<lambda>a. if 16 * es + bx \<le> a \<and> a < 16 * es + bx + 512 * n
              then disk (512 * ((tr * 2 + hd) * 18 + sect - 1) + (a - (16 * es + bx))) else m a)"
      unfolding some_bios_def u Let_def d by simp
  qed
qed

lemma image_is_loaded_witness:
  "\<exists>t. read_it (some_bios (\<lambda>i. of_nat (i mod 251))) 0x7F00 0x1000 (\<lambda>_. 0) = Some t \<and> mem t 0x10001 = 11 \<and> mem t 0x90000 = 0"
  using image_is_loaded [OF reads_some_bios, of "0x7F00" "\<lambda>i. of_nat (i mod 251)" "\<lambda>_. 0"] by auto

end
