(* ===== verification/Assembly.thy ===== *)
theory Assembly
  imports Prelude
begin

text \<open>
  The part of the processor that the 32-bit assembly files use: the general, segment and control registers, the ports, and
  a memory of 32-bit words. Listings are lists of instructions in the order and with the operands of the source (source
  before destination); the places where the code branches, calls, returns or changes the privilege level are functions
  between listings. Every address in the listings is that of an aligned word as long as the stack pointers are, so that two
  addresses name the same word or disjoint ones. A segment register holds its selector with zeros above it.
\<close>

section \<open>Registers, operands, instructions\<close>

datatype gpr = EAX | EBX | ECX | EDX | ESI | EDI | EBP | ESP | CS | SS | DS | ES | FS | GS

text \<open>A constant, a register, \<open>disp(%reg)\<close>, a variable at a fixed address.\<close>

datatype operand = Imm dword | Reg gpr | Ind dword gpr | Abs dword

datatype instr =
    Pushl operand | Popl operand | Pushfl | Popfl | Movl operand operand | Addl operand operand
  | Subl operand operand | Andl operand operand | Negl operand
  | Movw operand operand | Movb_al byte | Outb_al hword | Outb_dx | Inb_dx | Sti | Cld
  | Mov_to_cr0 operand | Mov_from_cr0 operand | Mov_to_cr3 operand | Wrmsr
  | Lidt operand | Lgdt operand | Lldt operand | Ltr operand

record cpu =
  reg :: "gpr \<Rightarrow> dword"
  eflags :: dword
  words :: "dword \<Rightarrow> dword"
  creg0 :: dword
  creg3 :: dword
  msrs :: "dword \<Rightarrow> 64 word"
  gdtr :: "hword \<times> dword"
  idtr :: "hword \<times> dword"
  ldtr :: dword
  tr :: dword
  port_in :: "hword \<Rightarrow> byte list"
  port_out :: "(hword \<times> byte) list"

text \<open>\<open>port_in\<close> holds the bytes that the device will answer, \<open>port_out\<close> the bytes sent, the latest first.\<close>

fun val :: "operand \<Rightarrow> cpu \<Rightarrow> dword" where
  "val (Imm v) c = v"
| "val (Reg r) c = reg c r"
| "val (Ind d r) c = words c (reg c r + d)"
| "val (Abs a) c = words c a"

fun put :: "operand \<Rightarrow> dword \<Rightarrow> cpu \<Rightarrow> cpu" where
  "put (Imm _) v c = c"
| "put (Reg r) v c = c\<lparr>reg := (reg c)(r := v)\<rparr>"
| "put (Ind d r) v c = c\<lparr>words := (words c)(reg c r + d := v)\<rparr>"
| "put (Abs a) v c = c\<lparr>words := (words c)(a := v)\<rparr>"

text \<open>The address that an operand in memory names.\<close>

fun ea :: "operand \<Rightarrow> cpu \<Rightarrow> dword" where
  "ea (Ind d r) c = reg c r + d"
| "ea (Abs a) c = a"
| "ea _ c = 0"

definition push :: "dword \<Rightarrow> cpu \<Rightarrow> cpu" where
  "push v c = (let s = reg c ESP - 4 in c\<lparr>reg := (reg c)(ESP := s), words := (words c)(s := v)\<rparr>)"

definition pop :: "cpu \<Rightarrow> dword \<times> cpu" where
  "pop c = (words c (reg c ESP), c\<lparr>reg := (reg c)(ESP := reg c ESP + 4)\<rparr>)"

text \<open>The operand of \<open>lidt\<close> and \<open>lgdt\<close> is a packed limit and base.\<close>

definition table_at :: "dword \<Rightarrow> cpu \<Rightarrow> hword \<times> dword" where
  "table_at a c =
     (ucast (words c a), ucast (drop_bit 16 (words c a)) OR push_bit 16 (words c (a + 4) AND 0xFFFF))"

definition set_low_byte :: "dword \<Rightarrow> byte \<Rightarrow> dword" where
  "set_low_byte v b = push_bit 8 (drop_bit 8 v) OR ucast b"

section \<open>One instruction\<close>

fun step1 :: "instr \<Rightarrow> cpu \<Rightarrow> cpu" where
  "step1 (Pushl x) c = push (val x c) c"
| "step1 (Popl x) c = (let (v, c) = pop c in put x v c)"
| "step1 Pushfl c = push (eflags c) c"
| "step1 Popfl c = (let (v, c) = pop c in c\<lparr>eflags := v\<rparr>)"
| "step1 (Movl x y) c = put y (val x c) c"
| "step1 (Addl x y) c = put y (val y c + val x c) c"
| "step1 (Subl x y) c = put y (val y c - val x c) c"
| "step1 (Andl x y) c = put y (val y c AND val x c) c"
| "step1 (Negl x) c = put x (- val x c) c"
| "step1 (Movw x y) c = put y (val x c AND 0xFFFF) c"
| "step1 (Movb_al b) c = put (Reg EAX) (set_low_byte (reg c EAX) b) c"
| "step1 (Outb_al p) c = c\<lparr>port_out := (p, ucast (reg c EAX)) # port_out c\<rparr>"
| "step1 Outb_dx c = c\<lparr>port_out := (ucast (reg c EDX), ucast (reg c EAX)) # port_out c\<rparr>"
| "step1 Inb_dx c =
     (let p = ucast (reg c EDX) in
      case port_in c p of
        [] \<Rightarrow> put (Reg EAX) (set_low_byte (reg c EAX) 0xFF) c
      | b # bs \<Rightarrow> put (Reg EAX) (set_low_byte (reg c EAX) b) (c\<lparr>port_in := (port_in c)(p := bs)\<rparr>))"
| "step1 Sti c = c\<lparr>eflags := eflags c OR 0x200\<rparr>"
| "step1 Cld c = c\<lparr>eflags := eflags c AND NOT 0x400\<rparr>"
| "step1 (Mov_to_cr0 x) c = c\<lparr>creg0 := val x c\<rparr>"
| "step1 (Mov_from_cr0 x) c = put x (creg0 c) c"
| "step1 (Mov_to_cr3 x) c = c\<lparr>creg3 := val x c\<rparr>"
| "step1 Wrmsr c = c\<lparr>msrs := (msrs c)(reg c ECX := (push_bit 32 (ucast (reg c EDX)) OR ucast (reg c EAX)))\<rparr>"
| "step1 (Lidt x) c = c\<lparr>idtr := table_at (ea x c) c\<rparr>"
| "step1 (Lgdt x) c = c\<lparr>gdtr := table_at (ea x c) c\<rparr>"
| "step1 (Lldt x) c = c\<lparr>ldtr := val x c AND 0xFFFF\<rparr>"
| "step1 (Ltr x) c = c\<lparr>tr := val x c AND 0xFFFF\<rparr>"

fun run :: "instr list \<Rightarrow> cpu \<Rightarrow> cpu" where
  "run [] c = c"
| "run (i # is) c = run is (step1 i c)"

lemma run_append [simp]: "run (is @ js) c = run js (run is c)"
  by (induction "is" arbitrary: c) simp_all

text \<open>\<open>ret\<close> goes to the address on top of the stack: the first result is the new instruction pointer.\<close>

definition ret :: "cpu \<Rightarrow> dword \<times> cpu" where
  "ret c = pop c"

text \<open>\<open>call\<close> of a function that comes back: \<open>l\<close> is the address of the instruction behind the call.\<close>

definition call :: "(cpu \<Rightarrow> cpu) \<Rightarrow> dword \<Rightarrow> cpu \<Rightarrow> cpu" where
  "call f l c = f (push l c)"

text \<open>At the first instruction of a function the return address is \<open>arg c 0\<close> and the parameters are \<open>arg c 1\<close> and so on.\<close>

definition arg :: "cpu \<Rightarrow> nat \<Rightarrow> dword" where
  "arg c i = words c (reg c ESP + 4 * of_nat i)"

lemma flip: "4 + (s :: dword) = s + 4" "8 + s = s + 8" "12 + s = s + 12" "16 + s = s + 16" "20 + s = s + 20"
  by simp_all

section \<open>Changes of the privilege level\<close>

text \<open>
  An interrupt in user mode, or \<open>int\<close>: the processor takes the kernel stack \<open>esp0\<close> of the task state segment, pushes the
  place of the program on it, and clears the interrupt flag. \<open>iret\<close> goes back.
\<close>

definition KERNEL_CS32 :: dword where "KERNEL_CS32 = 0x10"
definition KERNEL_DS32 :: dword where "KERNEL_DS32 = 0x18"
definition USER_CS32 :: dword where "USER_CS32 = 0x23"
definition USER_DS32 :: dword where "USER_DS32 = 0x2B"

definition interrupt :: "dword \<Rightarrow> dword \<Rightarrow> cpu \<Rightarrow> cpu" where
  "interrupt esp0 ip c =
     (let s = reg c SS; p = reg c ESP; f = eflags c; cs = reg c CS;
          c = c\<lparr>reg := (reg c)(ESP := esp0, SS := KERNEL_DS32), eflags := f AND NOT 0x200\<rparr>;
          c = push ip (push cs (push f (push p (push s c))))
      in c\<lparr>reg := (reg c)(CS := KERNEL_CS32)\<rparr>)"

definition iret :: "cpu \<Rightarrow> dword \<times> cpu" where
  "iret c =
     (let (ip, c) = pop c; (cs, c) = pop c; (f, c) = pop c; (p, c) = pop c; (s, c) = pop c
      in (ip, c\<lparr>reg := (reg c)(CS := cs, ESP := p, SS := s), eflags := f\<rparr>))"

text \<open>
  \<open>sysenter\<close> takes its stack from a model specific register and keeps nothing of the program; \<open>sysexit\<close> goes to the
  address in \<open>edx\<close> with the stack in \<open>ecx\<close>. The selectors are those next to the one in register 0x174.
\<close>

definition sysenter_cpu :: "cpu \<Rightarrow> cpu" where
  "sysenter_cpu c =
     c\<lparr>reg := (reg c)(ESP := ucast (msrs c 0x175), CS := ucast (msrs c 0x174), SS := ucast (msrs c 0x174) + 8),
       eflags := eflags c AND NOT 0x200\<rparr>"

definition sysexit :: "cpu \<Rightarrow> dword \<times> cpu" where
  "sysexit c =
     (reg c EDX,
      c\<lparr>reg := (reg c)(ESP := reg c ECX, CS := (ucast (msrs c 0x174) + 16) OR 3, SS := (ucast (msrs c 0x174) + 24) OR 3)\<rparr>)"

section \<open>The calling convention\<close>

text \<open>
  A function that the compiler has made, from its first instruction to the one after its \<open>ret\<close>, pops its return address and
  leaves the stack, the registers \<open>ebx\<close>, \<open>esi\<close>, \<open>edi\<close>, \<open>ebp\<close> and the segments as they were. \<open>K\<close> are the words that it
  does not write: those of its caller that are not its parameters.
\<close>

definition kept :: "gpr set" where
  "kept = {EBX, ESI, EDI, EBP, CS, SS, DS, ES, FS, GS}"

definition cdecl :: "(cpu \<Rightarrow> cpu) \<Rightarrow> dword set \<Rightarrow> cpu \<Rightarrow> bool" where
  "cdecl f K c \<longleftrightarrow>
     reg (f c) ESP = reg c ESP + 4 \<and> (\<forall>r\<in>kept. reg (f c) r = reg c r) \<and>
     (\<forall>a\<in>K. words (f c) a = words c a)"

lemma cdeclD:
  assumes "cdecl f K c"
  shows "reg (f c) ESP = reg c ESP + 4" "reg (f c) EBX = reg c EBX" "reg (f c) ESI = reg c ESI" "reg (f c) EDI = reg c EDI"
    "reg (f c) EBP = reg c EBP" "reg (f c) DS = reg c DS" "reg (f c) ES = reg c ES" "reg (f c) FS = reg c FS"
    "reg (f c) GS = reg c GS" "reg (f c) CS = reg c CS" "reg (f c) SS = reg c SS" "a \<in> K \<Longrightarrow> words (f c) a = words c a"
  using assms by (simp_all add: cdecl_def kept_def)

lemma reg_eqI:
  assumes "r EAX = r' EAX" "r EBX = r' EBX" "r ECX = r' ECX" "r EDX = r' EDX" "r ESI = r' ESI" "r EDI = r' EDI"
    "r EBP = r' EBP" "r ESP = r' ESP" "r CS = r' CS" "r SS = r' SS" "r DS = r' DS" "r ES = r' ES" "r FS = r' FS"
    "r GS = r' GS"
  shows "(r :: gpr \<Rightarrow> dword) = r'"
proof
  show "r x = r' x" for x by (cases x) (simp_all add: assms)
qed

lemma small_sint:
  assumes "unat (v :: dword) < 0x80000000"
  shows "sint v = int (unat v)"
proof -
  have u: "uint v = int (unat v)"
    by simp
  have "uint v < 0x80000000"
    using assms unfolding u by linarith
  moreover have "- 0x80000000 \<le> uint v"
    using uint_ge_0 [of v] by linarith
  ultimately have "signed_take_bit (LENGTH(32) - 1) (uint v) = uint v"
    by (intro signed_take_bit_int_eq_self) simp_all
  then show ?thesis
    unfolding sint_uint u by simp
qed

lemma sp_offsets [simp]:
  "(a :: dword) - 4 - 4 = a - 8" "a - 8 - 4 = a - 12" "a - 12 - 4 = a - 16" "a - 16 - 4 = a - 20" "a - 20 - 4 = a - 24"
  by simp_all

end
