(* ===== verification/Entry_Code.thy ===== *)
theory Entry_Code
  imports Assembly
begin

text \<open>
  \<open>entry.S\<close>: how the kernel saves the registers of a program, calls its routine and goes back. A routine is a compiled
  function that keeps to the calling convention (\<open>cdecl\<close>); when it gives the processor away in between, its call lasts until
  the process has it again. \<open>l\<close> is the address behind the call of the routine.
\<close>

section \<open>SAVE_ALL and RESTORE_ALL\<close>

definition SAVE_ALL :: "instr list" where
  "SAVE_ALL =
    [Pushl (Reg GS), Pushl (Reg FS), Pushl (Reg ES), Pushl (Reg DS), Pushl (Reg EAX), Pushl (Reg EBP), Pushl (Reg EDI),
     Pushl (Reg ESI), Pushl (Reg EBX), Pushl (Reg ECX), Pushl (Reg EDX),
     Movl (Imm KERNEL_DS32) (Reg EDX), Movl (Reg EDX) (Reg DS), Movl (Reg EDX) (Reg ES)]"

definition RESTORE_ALL :: "instr list" where
  "RESTORE_ALL =
    [Popl (Reg EDX), Popl (Reg ECX), Popl (Reg EBX), Popl (Reg ESI), Popl (Reg EDI), Popl (Reg EBP), Popl (Reg EAX),
     Popl (Reg DS), Popl (Reg ES), Popl (Reg FS), Popl (Reg GS)]"

definition EOI :: "instr list" where
  "EOI = [Movb_al 0x20, Outb_al 0x20]"

lemma run_SAVE_ALL:
  "run SAVE_ALL c =
     (let k = reg c ESP in
      c\<lparr>reg := (reg c)(ESP := k - 44, EDX := KERNEL_DS32, DS := KERNEL_DS32, ES := KERNEL_DS32),
        words := (words c)(k - 4 := reg c GS, k - 8 := reg c FS, k - 12 := reg c ES, k - 16 := reg c DS,
          k - 20 := reg c EAX, k - 24 := reg c EBP, k - 28 := reg c EDI, k - 32 := reg c ESI, k - 36 := reg c EBX,
          k - 40 := reg c ECX, k - 44 := reg c EDX)\<rparr>)"
  by (simp add: SAVE_ALL_def push_def Let_def fun_upd_twist)

lemma run_RESTORE_ALL:
  "run RESTORE_ALL c =
     (let s = reg c ESP; m = words c in
      c\<lparr>reg := (reg c)(EDX := m s, ECX := m (s + 4), EBX := m (s + 8), ESI := m (s + 12), EDI := m (s + 16),
         EBP := m (s + 20), EAX := m (s + 24), DS := m (s + 28), ES := m (s + 32), FS := m (s + 36), ESP := s + 44,
         GS := m (s + 40))\<rparr>)"
  by (simp add: RESTORE_ALL_def pop_def Let_def add.assoc)

section \<open>The system call through sysenter\<close>

definition sysenter_frame :: "instr list" where
  "sysenter_frame =
    [Pushl (Imm USER_DS32), Pushl (Reg EBP), Pushfl, Pushl (Imm USER_CS32), Pushl (Ind 4 EBP)]"

definition sysenter_err :: "instr list" where
  "sysenter_err = [Movl (Imm (- 38)) (Reg EAX)]"

definition sysenter_fin :: "cpu \<Rightarrow> dword \<times> cpu" where
  "sysenter_fin c =
     sysexit (run ([Movl (Reg EAX) (Ind 0x18 ESP)] @ RESTORE_ALL @
       [Movl (Ind 0 ESP) (Reg EDX), Movl (Ind 12 ESP) (Reg ECX), Sti]) c)"

text \<open>\<open>T\<close> is \<open>sys_call_table\<close>: the word behind its 36 entries, which the test lets through, is no routine (\<open>None\<close>).\<close>

definition syscall_handler_sysenter :: "(cpu \<Rightarrow> cpu) list \<Rightarrow> dword \<Rightarrow> cpu \<Rightarrow> (dword \<times> cpu) option" where
  "syscall_handler_sysenter T l c =
     (let c = run (sysenter_frame @ SAVE_ALL) c; n = reg c EAX in
      if sint n < 0 then Some (sysenter_fin (run sysenter_err c))
      else if sint n > 36 then Some (sysenter_fin (run sysenter_err c))
      else if unat n < length T then Some (sysenter_fin (call (T ! unat n) l c))
      else None)"

text \<open>The state before the number of the call is tested, and the one in which the routine starts.\<close>

definition entered :: "cpu \<Rightarrow> cpu" where
  "entered c = run (sysenter_frame @ SAVE_ALL) c"

definition at_call :: "dword \<Rightarrow> cpu \<Rightarrow> cpu" where
  "at_call l c = push l (entered c)"

text \<open>The words that the entry and the call write on the kernel stack that ends at \<open>k\<close>.\<close>

definition kernel_frame :: "dword \<Rightarrow> dword set" where
  "kernel_frame k = {k - 4, k - 8, k - 12, k - 16, k - 20, k - 24, k - 28, k - 32, k - 36, k - 40, k - 44, k - 48, k - 52,
     k - 56, k - 60, k - 64, k - 68}"

lemma entered_state:
  assumes k: "reg c ESP = k" and u: "reg c EBP + 4 \<notin> kernel_frame k"
  shows "entered c =
     c\<lparr>reg := (reg c)(ESP := k - 64, EDX := KERNEL_DS32, DS := KERNEL_DS32, ES := KERNEL_DS32),
       words := (words c)(k - 4 := USER_DS32, k - 8 := reg c EBP, k - 12 := eflags c, k - 16 := USER_CS32,
          k - 20 := words c (reg c EBP + 4),
          k - 24 := reg c GS, k - 28 := reg c FS, k - 32 := reg c ES, k - 36 := reg c DS,
          k - 40 := reg c EAX, k - 44 := reg c EBP, k - 48 := reg c EDI, k - 52 := reg c ESI, k - 56 := reg c EBX,
          k - 60 := reg c ECX, k - 64 := reg c EDX)\<rparr>"
  using u by (simp add: entered_def sysenter_frame_def run_SAVE_ALL push_def Let_def k kernel_frame_def fun_upd_twist)

lemma at_call_state:
  assumes "reg c ESP = k" and "reg c EBP + 4 \<notin> kernel_frame k"
  shows "at_call l c = (entered c)\<lparr>reg := (reg (entered c))(ESP := k - 68), words := (words (entered c))(k - 68 := l)\<rparr>"
  by (simp add: at_call_def entered_state [OF assms] push_def Let_def)

lemma entered_eax: "reg (entered c) EAX = reg c EAX"
  by (simp add: entered_def run_SAVE_ALL sysenter_frame_def push_def Let_def)

lemma sysenter_fin_state:
  "sysenter_fin c =
     (let s = reg c ESP; m = (words c)(s + 24 := reg c EAX) in
      (m (s + 44),
       c\<lparr>reg := (reg c)(EDX := m (s + 44), ECX := m (s + 56), EBX := m (s + 8), ESI := m (s + 12), EDI := m (s + 16),
           EBP := m (s + 20), EAX := m (s + 24), DS := m (s + 28), ES := m (s + 32), FS := m (s + 36), GS := m (s + 40),
           ESP := m (s + 56), CS := (ucast (msrs c 0x174) + 16) OR 3, SS := (ucast (msrs c 0x174) + 24) OR 3),
         words := m, eflags := eflags c OR 0x200\<rparr>))"
  unfolding sysenter_fin_def Let_def sysexit_def prod.inject
  by (intro conjI cpu.equality) (simp_all add: run_RESTORE_ALL Let_def fun_upd_twist add.commute [of 56])

text \<open>
  \<open>back_in_user c v c'\<close>: the program that entered with the state \<open>c\<close> goes on behind its \<open>sysenter\<close> with \<open>v\<close> in \<open>eax\<close> and
  its stack, base and index registers and segments as they were.
\<close>

definition back_in_user :: "cpu \<Rightarrow> dword \<Rightarrow> cpu \<Rightarrow> bool" where
  "back_in_user c v c' \<longleftrightarrow>
     reg c' EAX = v \<and> reg c' ESP = reg c EBP \<and> reg c' CS = USER_CS32 \<and> reg c' SS = USER_DS32 \<and>
     (\<forall>r\<in>{EBP, EDI, ESI, DS, ES, FS, GS}. reg c' r = reg c r)"

text \<open>The words that belong to the routine: up to three parameters and its return address.\<close>

definition params :: "dword \<Rightarrow> dword set" where
  "params k = {k - 56, k - 60, k - 64, k - 68}"

text \<open>The words of a frame one by one.\<close>

lemma saved_slots:
  assumes "\<forall>a\<in>kernel_frame k - params k. m a = m' a"
  shows "m (k - 4) = m' (k - 4)" "m (k - 8) = m' (k - 8)" "m (k - 12) = m' (k - 12)"
    "m (k - 16) = m' (k - 16)" "m (k - 20) = m' (k - 20)" "m (k - 24) = m' (k - 24)"
    "m (k - 28) = m' (k - 28)" "m (k - 32) = m' (k - 32)" "m (k - 36) = m' (k - 36)"
    "m (k - 40) = m' (k - 40)" "m (k - 44) = m' (k - 44)" "m (k - 48) = m' (k - 48)"
    "m (k - 52) = m' (k - 52)"
  using assms by (simp_all add: kernel_frame_def params_def)

lemma at_call_words:
  assumes "reg c ESP = k" and "reg c EBP + 4 \<notin> kernel_frame k"
  shows "words (at_call l c) (k - 4) = USER_DS32" "words (at_call l c) (k - 8) = reg c EBP"
    "words (at_call l c) (k - 12) = eflags c" "words (at_call l c) (k - 16) = USER_CS32"
    "words (at_call l c) (k - 20) = words c (reg c EBP + 4)" "words (at_call l c) (k - 24) = reg c GS"
    "words (at_call l c) (k - 28) = reg c FS" "words (at_call l c) (k - 32) = reg c ES"
    "words (at_call l c) (k - 36) = reg c DS" "words (at_call l c) (k - 40) = reg c EAX"
    "words (at_call l c) (k - 44) = reg c EBP" "words (at_call l c) (k - 48) = reg c EDI"
    "words (at_call l c) (k - 52) = reg c ESI"
  by (simp_all add: at_call_state [OF assms] entered_state [OF assms])

lemma sysenter_fin_returns:
  assumes k: "reg c ESP = k" and u: "reg c EBP + 4 \<notin> kernel_frame k"
    and sp: "reg d ESP = k - 64"
    and same: "\<forall>a\<in>kernel_frame k - params k. words d a = words (at_call l c) a"
    and cs: "msrs d 0x174 = 0x10"
  shows "\<exists>c'. sysenter_fin d = (words c (reg c EBP + 4), c') \<and> back_in_user c (reg d EAX) c' \<and>
     reg c' EBX = words d (k - 56) \<and> words c' = (words d)(k - 40 := reg d EAX) \<and> msrs c' = msrs d"
proof -
  show ?thesis
    using saved_slots [OF same, unfolded at_call_words [OF k u]]
    by (simp add: sysenter_fin_state sp cs back_in_user_def Let_def USER_CS32_def USER_DS32_def)
qed

lemma sysenter_handler_calls:
  assumes k: "reg c ESP = k" and u: "reg c EBP + 4 \<notin> kernel_frame k"
    and n: "0 \<le> sint (reg c EAX)" "unat (reg c EAX) < length T" and T: "length T = 36"
    and f: "cdecl (T ! unat (reg c EAX)) K (at_call l c)" "kernel_frame k - params k \<subseteq> K"
    and cs: "msrs ((T ! unat (reg c EAX)) (at_call l c)) 0x174 = 0x10"
    and d: "d = (T ! unat (reg c EAX)) (at_call l c)"
  shows "\<exists>c'. syscall_handler_sysenter T l c = Some (words c (reg c EBP + 4), c') \<and> back_in_user c (reg d EAX) c' \<and>
     reg c' EBX = words d (k - 56) \<and> words c' = (words d)(k - 40 := reg d EAX) \<and> msrs c' = msrs d"
proof -
  have small: "sint (reg c EAX) \<le> 36"
    using n(2) T small_sint [OF less_trans, of "reg c EAX" 36] by linarith
  have "syscall_handler_sysenter T l c = Some (sysenter_fin d)"
    using n small unfolding syscall_handler_sysenter_def Let_def entered_def [symmetric] entered_eax d
    by (simp add: call_def at_call_def)
  moreover have "reg d ESP = k - 64"
    using cdeclD(1) [OF f(1)] by (simp add: d at_call_state [OF k u])
  moreover have "\<forall>a\<in>kernel_frame k - params k. words d a = words (at_call l c) a"
    using cdeclD(12) [OF f(1)] f(2) by (auto simp: d)
  ultimately show ?thesis
    using sysenter_fin_returns [OF k u, of d l] cs by (auto simp: d)
qed

lemma sysenter_handler_refuses:
  assumes k: "reg c ESP = k" and u: "reg c EBP + 4 \<notin> kernel_frame k"
    and n: "sint (reg c EAX) < 0 \<or> 36 < sint (reg c EAX)" and cs: "msrs c 0x174 = 0x10"
  shows "\<exists>c'. syscall_handler_sysenter T l c = Some (words c (reg c EBP + 4), c') \<and> back_in_user c (- 38) c' \<and>
     reg c' EBX = reg c EBX \<and> (\<forall>a. a \<notin> kernel_frame k \<longrightarrow> words c' a = words c a) \<and> msrs c' = msrs c"
proof -
  define d where "d = run sysenter_err (entered c)"
  have d1: "words d = words (entered c)" "msrs d = msrs c" "reg d ESP = k - 64" "reg d EAX = - 38"
    by (simp_all add: d_def sysenter_err_def entered_state [OF k u])
  have h: "syscall_handler_sysenter T l c = Some (sysenter_fin d)"
    using n unfolding syscall_handler_sysenter_def Let_def entered_def [symmetric] entered_eax d_def by auto
  have "\<forall>a\<in>kernel_frame k - params k. words d a = words (at_call l c) a"
    by (simp add: d1 at_call_state [OF k u] params_def)
  then obtain c' where c': "sysenter_fin d = (words c (reg c EBP + 4), c')" "back_in_user c (reg d EAX) c'"
      "reg c' EBX = words d (k - 56)" "words c' = (words d)(k - 40 := reg d EAX)" "msrs c' = msrs d"
    using sysenter_fin_returns [OF k u d1(3), of l] cs d1 by auto
  have "reg c' EBX = reg c EBX"
    using c'(3) by (simp add: d1 entered_state [OF k u])
  moreover have "words c' a = words c a" if "a \<notin> kernel_frame k" for a
    using that c'(4) by (simp add: d1 entered_state [OF k u] kernel_frame_def)
  moreover have "msrs c' = msrs c"
    using c'(5) d1 by simp
  ultimately show ?thesis
    using h c' d1 by auto
qed

section \<open>Interrupts\<close>

definition clock_handler :: "(cpu \<Rightarrow> cpu) \<Rightarrow> dword \<Rightarrow> cpu \<Rightarrow> dword \<times> cpu" where
  "clock_handler routine l c = iret (run RESTORE_ALL (call routine l (run (SAVE_ALL @ EOI) c)))"

definition keyboard_handler :: "(cpu \<Rightarrow> cpu) \<Rightarrow> dword \<Rightarrow> cpu \<Rightarrow> dword \<times> cpu" where
  "keyboard_handler routine l c = iret (run (EOI @ RESTORE_ALL) (call routine l (run SAVE_ALL c)))"

text \<open>The words of the kernel stack that bring the program back; a routine without parameters leaves all of them alone.\<close>

definition interrupt_frame :: "dword \<Rightarrow> dword set" where
  "interrupt_frame k = kernel_frame k - {k - 68}"

lemma interrupt_state:
  "run SAVE_ALL (interrupt k ip c) =
     c\<lparr>reg := (reg c)(ESP := k - 64, EDX := KERNEL_DS32, DS := KERNEL_DS32, ES := KERNEL_DS32, CS := KERNEL_CS32,
         SS := KERNEL_DS32), eflags := eflags c AND NOT 0x200,
       words := (words c)(k - 4 := reg c SS, k - 8 := reg c ESP, k - 12 := eflags c, k - 16 := reg c CS, k - 20 := ip,
          k - 24 := reg c GS, k - 28 := reg c FS, k - 32 := reg c ES, k - 36 := reg c DS,
          k - 40 := reg c EAX, k - 44 := reg c EBP, k - 48 := reg c EDI, k - 52 := reg c ESI, k - 56 := reg c EBX,
          k - 60 := reg c ECX, k - 64 := reg c EDX)\<rparr>"
  by (rule cpu.equality) (simp_all add: interrupt_def run_SAVE_ALL push_def Let_def fun_upd_twist)

lemma interrupt_words:
  shows "words (run SAVE_ALL (interrupt k ip c)) (k - 4) = reg c SS"
    "words (run SAVE_ALL (interrupt k ip c)) (k - 8) = reg c ESP"
    "words (run SAVE_ALL (interrupt k ip c)) (k - 12) = eflags c"
    "words (run SAVE_ALL (interrupt k ip c)) (k - 16) = reg c CS"
    "words (run SAVE_ALL (interrupt k ip c)) (k - 20) = ip"
    "words (run SAVE_ALL (interrupt k ip c)) (k - 24) = reg c GS"
    "words (run SAVE_ALL (interrupt k ip c)) (k - 28) = reg c FS"
    "words (run SAVE_ALL (interrupt k ip c)) (k - 32) = reg c ES"
    "words (run SAVE_ALL (interrupt k ip c)) (k - 36) = reg c DS"
    "words (run SAVE_ALL (interrupt k ip c)) (k - 40) = reg c EAX"
    "words (run SAVE_ALL (interrupt k ip c)) (k - 44) = reg c EBP"
    "words (run SAVE_ALL (interrupt k ip c)) (k - 48) = reg c EDI"
    "words (run SAVE_ALL (interrupt k ip c)) (k - 52) = reg c ESI"
    "words (run SAVE_ALL (interrupt k ip c)) (k - 56) = reg c EBX"
    "words (run SAVE_ALL (interrupt k ip c)) (k - 60) = reg c ECX"
    "words (run SAVE_ALL (interrupt k ip c)) (k - 64) = reg c EDX"
  by (simp_all add: interrupt_state)

lemma iret_state:
  "iret (run RESTORE_ALL d) =
     (let s = reg d ESP; m = words d in
      (m (s + 44), d\<lparr>reg := (reg d)(EDX := m s, ECX := m (s + 4), EBX := m (s + 8), ESI := m (s + 12), EDI := m (s + 16),
         EBP := m (s + 20), EAX := m (s + 24), DS := m (s + 28), ES := m (s + 32), FS := m (s + 36), GS := m (s + 40),
         CS := m (s + 48), ESP := m (s + 56), SS := m (s + 60)), eflags := m (s + 52)\<rparr>))"
  by (simp add: iret_def pop_def run_RESTORE_ALL Let_def fun_upd_twist add.commute [of _ "reg d ESP"])

lemma interrupt_slots:
  assumes "\<forall>a\<in>interrupt_frame k. m a = m' a"
  shows "m (k - 4) = m' (k - 4)" "m (k - 8) = m' (k - 8)" "m (k - 12) = m' (k - 12)"
    "m (k - 16) = m' (k - 16)" "m (k - 20) = m' (k - 20)" "m (k - 24) = m' (k - 24)"
    "m (k - 28) = m' (k - 28)" "m (k - 32) = m' (k - 32)" "m (k - 36) = m' (k - 36)"
    "m (k - 40) = m' (k - 40)" "m (k - 44) = m' (k - 44)" "m (k - 48) = m' (k - 48)"
    "m (k - 52) = m' (k - 52)" "m (k - 56) = m' (k - 56)" "m (k - 60) = m' (k - 60)"
    "m (k - 64) = m' (k - 64)"
  using assms by (simp_all add: interrupt_frame_def kernel_frame_def)

lemma leave_interrupt:
  assumes sp: "reg d ESP = k - 64"
    and same: "\<forall>a\<in>interrupt_frame k. words d a = words (run SAVE_ALL (interrupt k ip c)) a"
    and regs: "c' = snd (iret (run RESTORE_ALL d))"
  shows "iret (run RESTORE_ALL d) = (ip, c')" "reg c' = reg c" "eflags c' = eflags c" "words c' = words d"
    "port_out c' = port_out d"
proof -
  note w = interrupt_slots [OF same, unfolded interrupt_words]
  show "iret (run RESTORE_ALL d) = (ip, c')" "eflags c' = eflags c" "words c' = words d" "port_out c' = port_out d"
    using w by (simp_all add: regs iret_state Let_def sp)
  show "reg c' = reg c"
    by (rule reg_eqI) (use w in \<open>simp_all add: regs iret_state Let_def sp\<close>)
qed

text \<open>The places where the two handlers call their routines.\<close>

definition at_clock :: "dword \<Rightarrow> cpu \<Rightarrow> cpu" where
  "at_clock l c = push l (run (SAVE_ALL @ EOI) c)"

definition at_keyboard :: "dword \<Rightarrow> cpu \<Rightarrow> cpu" where
  "at_keyboard l c = push l (run SAVE_ALL c)"

lemma push_state:
  "words (push v c) = (words c)(reg c ESP - 4 := v)" "reg (push v c) = (reg c)(ESP := reg c ESP - 4)"
  "port_out (push v c) = port_out c" "eflags (push v c) = eflags c" "msrs (push v c) = msrs c"
  by (simp_all add: push_def Let_def)

lemma run_EOI:
  "run EOI c = c\<lparr>reg := (reg c)(EAX := set_low_byte (reg c EAX) 0x20), port_out := (0x20, 0x20) # port_out c\<rparr>"
proof -
  have "(ucast (set_low_byte v 0x20) :: byte) = 0x20" for v
    by (rule bit_word_eqI) (auto simp: set_low_byte_def bit_simps)
  then show ?thesis
    by (simp add: EOI_def)
qed

lemma interrupt_sp: "reg (run SAVE_ALL (interrupt k ip c)) ESP = k - 64"
  by (simp add: interrupt_state)

lemma at_clock_words:
  assumes "a \<in> interrupt_frame k"
  shows "words (at_clock l (interrupt k ip c)) a = words (run SAVE_ALL (interrupt k ip c)) a"
  using assms by (simp add: at_clock_def push_state run_EOI interrupt_sp interrupt_frame_def)

lemma at_keyboard_words:
  assumes "a \<in> interrupt_frame k"
  shows "words (at_keyboard l (interrupt k ip c)) a = words (run SAVE_ALL (interrupt k ip c)) a"
  using assms by (simp add: at_keyboard_def push_state interrupt_sp interrupt_frame_def)

text \<open>
  C10. A clock interrupt in user mode leaves no trace in the program: it continues at the same instruction with all its
  registers and flags as they were, even if other processes have run in between; only the memory is as the clock routine
  has left it.
\<close>

theorem clock_interrupt_transparent:
  assumes r: "cdecl routine K (at_clock l (interrupt k ip c))" "interrupt_frame k \<subseteq> K"
    and d: "d = routine (at_clock l (interrupt k ip c))"
  shows "\<exists>c'. clock_handler routine l (interrupt k ip c) = (ip, c') \<and> reg c' = reg c \<and> eflags c' = eflags c \<and>
     words c' = words d \<and> port_out c' = port_out d"
proof -
  have h: "clock_handler routine l (interrupt k ip c) = iret (run RESTORE_ALL d)"
    by (simp add: clock_handler_def call_def d at_clock_def)
  have sp: "reg d ESP = k - 64"
    using cdeclD(1) [OF r(1)] by (simp add: d at_clock_def push_state run_EOI interrupt_sp)
  have "\<forall>a\<in>interrupt_frame k. words d a = words (run SAVE_ALL (interrupt k ip c)) a"
    using cdeclD(12) [OF r(1)] r(2) at_clock_words [of _ k l ip c] by (auto simp: d)
  from leave_interrupt [OF sp this refl] h show ?thesis
    by metis
qed

definition some_cpu :: cpu where
  "some_cpu = \<lparr>reg = (\<lambda>_. 0)(ESP := 0x81BF00, CS := USER_CS32, SS := USER_DS32), eflags = 0x202, words = (\<lambda>_. 5),
     creg0 = 1, creg3 = 0, msrs = (\<lambda>r. if r = 0x174 then 0x10 else 0x20000), gdtr = (0, 0), idtr = (0, 0), ldtr = 0, tr = 0,
     port_in = (\<lambda>_. []), port_out = []\<rparr>"

definition idle_routine :: "cpu \<Rightarrow> cpu" where
  "idle_routine c = c\<lparr>reg := (reg c)(ESP := reg c ESP + 4, EAX := 7, ECX := 8, EDX := 9)\<rparr>"

lemma clock_interrupt_transparent_witness:
  "\<exists>c'. clock_handler idle_routine 0x1111 (interrupt 0x20000 0x800123 some_cpu) = (0x800123, c') \<and> reg c' = reg some_cpu"
  using clock_interrupt_transparent [of idle_routine UNIV "0x1111" "0x20000" "0x800123" some_cpu, OF _ _ refl]
  by (auto simp: cdecl_def kept_def idle_routine_def)

lemma keyboard_interrupt_transparent:
  assumes r: "cdecl routine K (at_keyboard l (interrupt k ip c))" "interrupt_frame k \<subseteq> K"
    and d: "d = routine (at_keyboard l (interrupt k ip c))"
  shows "\<exists>c'. keyboard_handler routine l (interrupt k ip c) = (ip, c') \<and> reg c' = reg c \<and> eflags c' = eflags c \<and>
     words c' = words d \<and> port_out c' = (0x20, 0x20) # port_out d"
proof -
  have h: "keyboard_handler routine l (interrupt k ip c) = iret (run RESTORE_ALL (run EOI d))"
    by (simp add: keyboard_handler_def call_def d at_keyboard_def)
  have sp: "reg (run EOI d) ESP = k - 64"
    using cdeclD(1) [OF r(1)] by (simp add: d at_keyboard_def push_state run_EOI interrupt_sp)
  have "\<forall>a\<in>interrupt_frame k. words (run EOI d) a = words (run SAVE_ALL (interrupt k ip c)) a"
    using cdeclD(12) [OF r(1)] r(2) at_keyboard_words [of _ k l ip c] by (auto simp: d run_EOI)
  note out = leave_interrupt [OF sp this refl]
  have e: "words (run EOI d) = words d" "port_out (run EOI d) = (0x20, 0x20) # port_out d"
    by (simp_all add: run_EOI)
  show ?thesis
    unfolding h using out [unfolded e] by blast
qed

section \<open>Page faults and int 0x80\<close>

text \<open>
  A page fault pushes its error code behind the place of the program. The handler passes the faulting instruction to its
  routine, which never comes back.
\<close>

definition fault :: "dword \<Rightarrow> dword \<Rightarrow> dword \<Rightarrow> cpu \<Rightarrow> cpu" where
  "fault k ip err c = push err (interrupt k ip c)"

definition pagefault_handler :: "dword \<Rightarrow> cpu \<Rightarrow> cpu" where
  "pagefault_handler l c = push l (run (SAVE_ALL @ [Pushl (Ind 0x30 ESP)]) c)"

lemma pagefault_reports_eip:
  "words (pagefault_handler l (fault k ip err c)) (reg (pagefault_handler l (fault k ip err c)) ESP + 4) = ip"
  by (simp add: pagefault_handler_def fault_def run_SAVE_ALL push_def interrupt_def Let_def)

text \<open>The older entry through \<open>int\<close>, which \<open>entry.S\<close> still has.\<close>

definition system_call_code :: "(cpu \<Rightarrow> cpu) list \<Rightarrow> dword \<Rightarrow> cpu \<Rightarrow> (dword \<times> cpu) option" where
  "system_call_code T l c =
     (let c = run SAVE_ALL c; n = reg c EAX;
          is_error = [Movl (Imm (- 38)) (Reg EAX)];
          leave = (\<lambda>c. iret (run ([Movl (Reg EAX) (Ind 0x18 ESP)] @ RESTORE_ALL) c))
      in
      if sint n < 0 then Some (leave (run is_error c))
      else if sint n > 36 then Some (leave (run is_error c))
      else if unat n < length T then Some (leave (call (T ! unat n) l c))
      else None)"

lemma system_call_code_returns:
  assumes n: "0 \<le> sint (reg c EAX)" "unat (reg c EAX) < length T" and T: "length T = 36"
    and f: "cdecl (T ! unat (reg c EAX)) K (at_keyboard l (interrupt k ip c))" "kernel_frame k - params k \<subseteq> K"
    and d: "d = (T ! unat (reg c EAX)) (at_keyboard l (interrupt k ip c))"
  shows "\<exists>c'. system_call_code T l (interrupt k ip c) = Some (ip, c') \<and> reg c' EAX = reg d EAX \<and>
     (\<forall>r. r \<notin> {EAX, EBX, ECX, EDX} \<longrightarrow> reg c' r = reg c r) \<and> eflags c' = eflags c \<and>
     words c' = (words d)(k - 40 := reg d EAX)"
proof -
  let ?i = "run SAVE_ALL (interrupt k ip c)"
  let ?e = "run [Movl (Reg EAX) (Ind 0x18 ESP)] d"
  have eax: "reg ?i EAX = reg c EAX"
    by (simp add: interrupt_state)
  have small: "sint (reg c EAX) \<le> 36"
    using n(2) T small_sint [OF less_trans, of "reg c EAX" 36] by linarith
  have h: "system_call_code T l (interrupt k ip c) = Some (iret (run RESTORE_ALL ?e))"
    using n small unfolding system_call_code_def Let_def eax d by (simp add: call_def at_keyboard_def)
  have sp: "reg d ESP = k - 64"
    using cdeclD(1) [OF f(1)] by (simp add: d at_keyboard_def push_state interrupt_sp)
  have same: "\<forall>a\<in>kernel_frame k - params k. words d a = words ?i a"
  proof
    fix a
    assume a: "a \<in> kernel_frame k - params k"
    then have "a \<in> K" and "a \<in> interrupt_frame k"
      using f(2) by (blast, simp add: interrupt_frame_def params_def)
    then show "words d a = words ?i a"
      using cdeclD(12) [OF f(1)] at_keyboard_words by (simp add: d)
  qed
  note w = saved_slots [OF same, unfolded interrupt_words]
  define c' where "c' = snd (iret (run RESTORE_ALL ?e))"
  have "iret (run RESTORE_ALL ?e) = (ip, c')" "reg c' EAX = reg d EAX" "eflags c' = eflags c"
      "words c' = (words d)(k - 40 := reg d EAX)"
    using w by (simp_all add: c'_def iret_state Let_def sp)
  moreover have "reg c' r = reg c r" if "r \<notin> {EAX, EBX, ECX, EDX}" for r
    using w that by (cases r) (simp_all add: c'_def iret_state Let_def sp)
  ultimately show ?thesis
    using h by simp
qed

end
