(* ===== verification/Stub_Code.thy ===== *)
theory Stub_Code
  imports Entry_Code
begin

text \<open>
  The listings of \<open>Wrappers.S\<close> from the first instruction of a stub to its \<open>ret\<close>, run through the handler of
  \<open>entry.S\<close>. \<open>l\<close> is the label behind the \<open>sysenter\<close> of the stub and \<open>errno\<close> the address of the variable.
\<close>

section \<open>The listings\<close>

definition write_code :: "dword \<Rightarrow> instr list" where
  "write_code l =
    [Pushl (Reg EBP), Movl (Reg ESP) (Reg EBP), Pushl (Reg EBX), Movl (Ind 0x10 EBP) (Reg EBX),
     Movl (Ind 0x0c EBP) (Reg ECX), Movl (Ind 0x08 EBP) (Reg EDX), Movl (Imm 4) (Reg EAX), Pushl (Reg ECX),
     Pushl (Reg EDX), Pushl (Imm l), Pushl (Reg EBP), Movl (Reg ESP) (Reg EBP)]"

definition gettime_code :: "dword \<Rightarrow> instr list" where
  "gettime_code l =
    [Pushl (Reg EBP), Movl (Reg ESP) (Reg EBP), Movl (Imm 10) (Reg EAX), Pushl (Reg ECX), Pushl (Reg EDX),
     Pushl (Imm l), Pushl (Reg EBP), Movl (Reg ESP) (Reg EBP)]"

definition getpid_code :: "dword \<Rightarrow> instr list" where
  "getpid_code l =
    [Pushl (Reg EBP), Movl (Reg ESP) (Reg EBP), Pushl (Reg ECX), Pushl (Reg EDX), Movl (Imm 20) (Reg EAX),
     Pushl (Imm l), Pushl (Reg EBP), Movl (Reg ESP) (Reg EBP)]"

definition fork_code :: "dword \<Rightarrow> instr list" where
  "fork_code l =
    [Pushl (Reg EBP), Movl (Reg ESP) (Reg EBP), Pushl (Reg ECX), Pushl (Reg EDX), Movl (Imm 2) (Reg EAX),
     Pushl (Imm l), Pushl (Reg EBP), Movl (Reg ESP) (Reg EBP)]"

definition exit_code :: "dword \<Rightarrow> instr list" where
  "exit_code l =
    [Pushl (Reg EBP), Movl (Reg ESP) (Reg EBP), Pushl (Reg ECX), Pushl (Reg EDX), Movl (Imm 1) (Reg EAX),
     Pushl (Imm l), Pushl (Reg EBP), Movl (Reg ESP) (Reg EBP)]"

definition block_code :: "dword \<Rightarrow> instr list" where
  "block_code l =
    [Pushl (Reg EBP), Movl (Reg ESP) (Reg EBP), Pushl (Reg ECX), Pushl (Reg EDX), Movl (Imm 21) (Reg EAX),
     Pushl (Imm l), Pushl (Reg EBP), Movl (Reg ESP) (Reg EBP)]"

definition unblock_code :: "dword \<Rightarrow> instr list" where
  "unblock_code l =
    [Pushl (Reg EBP), Movl (Reg ESP) (Reg EBP), Movl (Ind 0x08 EBP) (Reg EDX), Pushl (Reg ECX),
     Pushl (Reg EDX), Movl (Imm 22) (Reg EAX), Pushl (Imm l), Pushl (Reg EBP), Movl (Reg ESP) (Reg EBP)]"

definition read_code :: "dword \<Rightarrow> instr list" where
  "read_code l =
    [Pushl (Reg EBP), Movl (Reg ESP) (Reg EBP), Movl (Ind 0x08 EBP) (Reg EDX), Movl (Ind 0x0c EBP) (Reg ECX),
     Pushl (Reg ECX), Pushl (Reg EDX), Movl (Imm 3) (Reg EAX), Pushl (Imm l), Pushl (Reg EBP),
     Movl (Reg ESP) (Reg EBP)]"

definition get_stats_code :: "dword \<Rightarrow> instr list" where
  "get_stats_code l =
    [Pushl (Reg EBP), Movl (Reg ESP) (Reg EBP), Movl (Ind 0x08 EBP) (Reg EDX), Pushl (Reg ECX),
     Pushl (Reg EDX), Movl (Imm 35) (Reg EAX), Pushl (Imm l), Pushl (Reg EBP), Movl (Reg ESP) (Reg EBP)]"

definition gotoxy_code :: "dword \<Rightarrow> instr list" where
  "gotoxy_code l =
    [Pushl (Reg EBP), Movl (Reg ESP) (Reg EBP), Movl (Ind 0x08 EBP) (Reg EDX), Movl (Ind 0x0c EBP) (Reg ECX),
     Pushl (Reg ECX), Pushl (Reg EDX), Movl (Imm 23) (Reg EAX), Pushl (Imm l), Pushl (Reg EBP),
     Movl (Reg ESP) (Reg EBP)]"

definition set_color_code :: "dword \<Rightarrow> instr list" where
  "set_color_code l =
    [Pushl (Reg EBP), Movl (Reg ESP) (Reg EBP), Movl (Ind 0x08 EBP) (Reg EDX), Movl (Ind 0x0c EBP) (Reg ECX),
     Pushl (Reg ECX), Pushl (Reg EDX), Movl (Imm 24) (Reg EAX), Pushl (Imm l), Pushl (Reg EBP),
     Movl (Reg ESP) (Reg EBP)]"

definition shmat_code :: "dword \<Rightarrow> instr list" where
  "shmat_code l =
    [Pushl (Reg EBP), Movl (Reg ESP) (Reg EBP), Movl (Ind 0x08 EBP) (Reg EDX), Movl (Ind 0x0c EBP) (Reg ECX),
     Pushl (Reg ECX), Pushl (Reg EDX), Movl (Imm 25) (Reg EAX), Pushl (Imm l), Pushl (Reg EBP),
     Movl (Reg ESP) (Reg EBP)]"

definition shmdt_code :: "dword \<Rightarrow> instr list" where
  "shmdt_code l =
    [Pushl (Reg EBP), Movl (Reg ESP) (Reg EBP), Movl (Ind 0x08 EBP) (Reg EDX), Pushl (Reg ECX),
     Pushl (Reg EDX), Movl (Imm 26) (Reg EAX), Pushl (Imm l), Pushl (Reg EBP), Movl (Reg ESP) (Reg EBP)]"

definition shmrm_code :: "dword \<Rightarrow> instr list" where
  "shmrm_code l =
    [Pushl (Reg EBP), Movl (Reg ESP) (Reg EBP), Movl (Ind 0x08 EBP) (Reg EDX), Pushl (Reg ECX),
     Pushl (Reg EDX), Movl (Imm 27) (Reg EAX), Pushl (Imm l), Pushl (Reg EBP), Movl (Reg ESP) (Reg EBP)]"

lemmas code_defs = gettime_code_def getpid_code_def fork_code_def exit_code_def block_code_def unblock_code_def read_code_def
  get_stats_code_def gotoxy_code_def set_color_code_def shmat_code_def shmdt_code_def shmrm_code_def

section \<open>A stub from its call to its return\<close>

datatype user_call =
    C_write | C_gettime | C_getpid | C_fork | C_exit | C_block | C_unblock | C_read | C_get_stats | C_gotoxy | C_set_color
  | C_shmat | C_shmdt | C_shmrm

fun stub_code :: "user_call \<Rightarrow> dword \<Rightarrow> instr list" where
  "stub_code C_write = write_code"
| "stub_code C_gettime = gettime_code"
| "stub_code C_getpid = getpid_code"
| "stub_code C_fork = fork_code"
| "stub_code C_exit = exit_code"
| "stub_code C_block = block_code"
| "stub_code C_unblock = unblock_code"
| "stub_code C_read = read_code"
| "stub_code C_get_stats = get_stats_code"
| "stub_code C_gotoxy = gotoxy_code"
| "stub_code C_set_color = set_color_code"
| "stub_code C_shmat = shmat_code"
| "stub_code C_shmdt = shmdt_code"
| "stub_code C_shmrm = shmrm_code"

text \<open>
  Behind the \<open>sysenter\<close> all stubs are alike, but \<open>exit\<close> looks at no answer and \<open>write\<close> takes back the \<open>ebx\<close> that it has
  saved.
\<close>

definition stub_return :: "instr list" where
  "stub_return = [Popl (Reg EBP), Addl (Imm 4) (Reg ESP), Popl (Reg EDX), Popl (Reg ECX)]"

fun stub_check :: "user_call \<Rightarrow> dword \<Rightarrow> cpu \<Rightarrow> cpu" where
  "stub_check C_exit errno c = c"
| "stub_check _ errno c =
     (if sint (reg c EAX) \<ge> 0 then c
      else run [Negl (Reg EAX), Movl (Reg EAX) (Abs errno), Movl (Imm (- 1)) (Reg EAX)] c)"

fun stub_leave :: "user_call \<Rightarrow> instr list" where
  "stub_leave C_write = [Popl (Reg EBX), Popl (Reg EBP)]"
| "stub_leave _ = [Popl (Reg EBP)]"

text \<open>If the kernel goes back to another place than the label, the stub does not continue.\<close>

definition run_stub :: "(cpu \<Rightarrow> (dword \<times> cpu) option) \<Rightarrow> dword \<Rightarrow> dword \<Rightarrow> user_call \<Rightarrow> cpu \<Rightarrow> (dword \<times> cpu) option" where
  "run_stub enter l errno u c = do {
     (ip, c) \<leftarrow> enter (sysenter_cpu (run (stub_code u l) c));
     if ip = l then Some (ret (run (stub_leave u) (stub_check u errno (run stub_return c)))) else None }"

text \<open>Specification: the number of a call and of its parameters.\<close>

fun stub_number :: "user_call \<Rightarrow> dword" where
  "stub_number C_write = 4"
| "stub_number C_gettime = 10"
| "stub_number C_getpid = 20"
| "stub_number C_fork = 2"
| "stub_number C_exit = 1"
| "stub_number C_block = 21"
| "stub_number C_unblock = 22"
| "stub_number C_read = 3"
| "stub_number C_get_stats = 35"
| "stub_number C_gotoxy = 23"
| "stub_number C_set_color = 24"
| "stub_number C_shmat = 25"
| "stub_number C_shmdt = 26"
| "stub_number C_shmrm = 27"

fun stub_params :: "user_call \<Rightarrow> nat" where
  "stub_params C_write = 3"
| "stub_params C_read = 2"
| "stub_params C_gotoxy = 2"
| "stub_params C_set_color = 2"
| "stub_params C_shmat = 2"
| "stub_params C_unblock = 1"
| "stub_params C_get_stats = 1"
| "stub_params C_shmdt = 1"
| "stub_params C_shmrm = 1"
| "stub_params _ = 0"

text \<open>The stack and the registers with which a stub enters the kernel.\<close>

definition stub_edx :: "user_call \<Rightarrow> cpu \<Rightarrow> dword" where
  "stub_edx u c = (if stub_params u \<ge> 1 then arg c 1 else reg c EDX)"

definition stub_ecx :: "user_call \<Rightarrow> cpu \<Rightarrow> dword" where
  "stub_ecx u c = (if stub_params u \<ge> 2 then arg c 2 else reg c ECX)"

lemma write_code_state:
  assumes s: "reg c ESP = s"
  shows "run (write_code l) c =
     c\<lparr>reg := (reg c)(ESP := s - 24, EBP := s - 24, EAX := 4, EDX := arg c 1, ECX := arg c 2, EBX := arg c 3),
       words := (words c)(s - 4 := reg c EBP, s - 8 := reg c EBX, s - 12 := arg c 2, s - 16 := arg c 1, s - 20 := l,
         s - 24 := s - 4)\<rparr>"
  by (rule cpu.equality) (simp_all add: write_code_def push_def Let_def s arg_def fun_upd_twist flip)

text \<open>All stubs but \<open>write\<close> and \<open>gettime\<close> have the same listing up to the parameters they load.\<close>

definition plain_listing :: "nat \<Rightarrow> dword \<Rightarrow> dword \<Rightarrow> instr list" where
  "plain_listing p n l =
    [Pushl (Reg EBP), Movl (Reg ESP) (Reg EBP)] @
    take p [Movl (Ind 0x08 EBP) (Reg EDX), Movl (Ind 0x0c EBP) (Reg ECX)] @
    [Pushl (Reg ECX), Pushl (Reg EDX), Movl (Imm n) (Reg EAX), Pushl (Imm l), Pushl (Reg EBP), Movl (Reg ESP) (Reg EBP)]"

lemma stub_code_plain:
  "u \<noteq> C_write \<Longrightarrow> u \<noteq> C_gettime \<Longrightarrow> stub_code u l = plain_listing (stub_params u) (stub_number u) l"
  by (cases u) (simp_all add: code_defs plain_listing_def)

lemma run_gettime: "run (gettime_code l) c = run (plain_listing 0 10 l) c"
  by (simp add: gettime_code_def plain_listing_def push_def Let_def fun_upd_twist)

lemma plain_listing_state:
  assumes s: "reg c ESP = s" and p: "p = 0 \<or> p = 1 \<or> p = 2"
  shows "run (plain_listing p n l) c =
     (let x = (if p \<ge> 1 then arg c 1 else reg c EDX); y = (if p \<ge> 2 then arg c 2 else reg c ECX) in
      c\<lparr>reg := (reg c)(ESP := s - 20, EBP := s - 20, EAX := n, EDX := x, ECX := y),
        words := (words c)(s - 4 := reg c EBP, s - 8 := y, s - 12 := x, s - 16 := l, s - 20 := s - 4)\<rparr>)"
  using p by (elim disjE; intro cpu.equality reg_eqI)
    (simp_all add: plain_listing_def push_def Let_def s arg_def fun_upd_twist flip)

lemma plain_code_state:
  assumes s: "reg c ESP = s" and u: "u \<noteq> C_write"
  shows "run (stub_code u l) c =
     c\<lparr>reg := (reg c)(ESP := s - 20, EBP := s - 20, EAX := stub_number u, EDX := stub_edx u c, ECX := stub_ecx u c),
       words := (words c)(s - 4 := reg c EBP, s - 8 := stub_ecx u c, s - 12 := stub_edx u c, s - 16 := l,
         s - 20 := s - 4)\<rparr>"
proof -
  have "run (stub_code u l) c = run (plain_listing (stub_params u) (stub_number u) l) c"
    using stub_code_plain [OF u] run_gettime by (cases "u = C_gettime") simp_all
  moreover have "stub_params u = 0 \<or> stub_params u = 1 \<or> stub_params u = 2"
    using u by (cases u; simp)
  ultimately show ?thesis
    using plain_listing_state [OF s] by (simp add: Let_def stub_edx_def stub_ecx_def)
qed

text \<open>The words of the user stack that a call uses; the parameters lie above them.\<close>

definition stub_stack :: "dword \<Rightarrow> dword set" where
  "stub_stack s = {s, s - 4, s - 8, s - 12, s - 16, s - 20, s - 24}"

text \<open>The words of the caller of the routine: the frame but the parameters the routine has, and the user stack.\<close>

definition param_words :: "user_call \<Rightarrow> dword \<Rightarrow> dword set" where
  "param_words u k = set (take (stub_params u) [k - 64, k - 60, k - 56])"

definition call_words :: "user_call \<Rightarrow> dword \<Rightarrow> dword \<Rightarrow> dword set" where
  "call_words u k s = kernel_frame k - param_words u k - {k - 68} \<union> stub_stack s"

text \<open>
  What the caller of a stub sees, when \<open>d\<close> is the state in which the routine has come back: the answer, or -1 and \<open>errno\<close>;
  in memory only the slot of \<open>eax\<close> on the kernel stack is written besides.
\<close>

definition stub_result :: "user_call \<Rightarrow> dword \<Rightarrow> dword \<Rightarrow> cpu \<Rightarrow> cpu \<Rightarrow> cpu \<Rightarrow> bool" where
  "stub_result u k errno c d c' \<longleftrightarrow>
     (let r = reg d EAX; m = (words d)(k - 40 := r) in
      reg c' EAX = (if sint r \<ge> 0 then r else - 1) \<and>
      words c' = (if sint r \<ge> 0 then m else m(errno := - r)) \<and>
      reg c' ESP = reg c ESP + 4 \<and> reg c' CS = USER_CS32 \<and> reg c' SS = USER_DS32 \<and>
      (\<forall>r\<in>{EBX, ESI, EDI, EBP, DS, ES, FS, GS}. reg c' r = reg c r))"

lemma call_words_frame: "kernel_frame k - params k \<subseteq> call_words u k s"
proof -
  have "param_words u k \<subseteq> params k"
    by (cases u) (simp_all add: params_def param_words_def)
  then show ?thesis
    by (auto simp: call_words_def params_def)
qed

lemma call_words_ebx: "u \<noteq> C_write \<Longrightarrow> k - 56 \<in> call_words u k s"
  by (cases u) (simp_all add: call_words_def kernel_frame_def param_words_def)

lemma return_state:
  assumes "reg c ESP = v"
  shows "run stub_return c =
     c\<lparr>reg := (reg c)(EBP := words c v, EDX := words c (v + 8), ECX := words c (v + 12), ESP := v + 16)\<rparr>"
  using assms by (intro cpu.equality reg_eqI) (simp_all add: stub_return_def pop_def Let_def flip)

text \<open>The kernel part, for any listing that leaves the frame of a stub on the user stack.\<close>

lemma sysenter_part:
  assumes c0: "reg e EBP = v" "words e (v + 4) = l" "reg e EAX = n"
    and k: "ucast (msrs e 0x175) = k" "msrs e 0x174 = 0x10" and apart: "v + 4 \<notin> kernel_frame k"
    and n: "0 \<le> sint n" "unat n < length T" and T: "length T = 36"
    and f: "cdecl (T ! unat n) K (at_call m (sysenter_cpu e))" "kernel_frame k - params k \<subseteq> K"
    and cs: "msrs ((T ! unat n) (at_call m (sysenter_cpu e))) 0x174 = 0x10"
    and d: "d = (T ! unat n) (at_call m (sysenter_cpu e))"
  shows "\<exists>c1. syscall_handler_sysenter T m (sysenter_cpu e) = Some (l, c1) \<and>
     reg c1 EAX = reg d EAX \<and> reg c1 ESP = v \<and> reg c1 CS = USER_CS32 \<and> reg c1 SS = USER_DS32 \<and>
     (\<forall>r\<in>{EBP, EDI, ESI, DS, ES, FS, GS}. reg c1 r = reg e r) \<and>
     reg c1 EBX = words d (k - 56) \<and> words c1 = (words d)(k - 40 := reg d EAX)"
  using sysenter_handler_calls [where c = "sysenter_cpu e" and k = k and T = T and l = m and K = K and d = d] assms
  by (auto simp: sysenter_cpu_def back_in_user_def)

lemma stub_stack_words:
  assumes "cdecl f (call_words u k s) e" "a \<in> stub_stack s"
  shows "words (f e) a = words e a"
  by (rule cdeclD(12) [OF assms(1)]) (use assms(2) in \<open>simp add: call_words_def\<close>)

lemma at_call_user_words:
  assumes "reg c ESP = k" "reg c EBP + 4 \<notin> kernel_frame k" "a \<notin> kernel_frame k"
  shows "words (at_call l c) a = words c a"
  using assms by (simp add: at_call_state [of c k] entered_state [of c k] kernel_frame_def)

lemma stub_number_small: "0 \<le> sint (stub_number u)" "unat (stub_number u) < 36"
  by (cases u; simp)+

lemma stub_check_other:
  "u \<noteq> C_exit \<Longrightarrow> stub_check u errno c = (if sint (reg c EAX) \<ge> 0 then c
     else c\<lparr>reg := (reg c)(EAX := - 1), words := (words c)(errno := - reg c EAX)\<rparr>)"
  by (cases u; simp)

lemma plain_leave: "u \<noteq> C_write \<Longrightarrow> stub_leave u = [Popl (Reg EBP)]"
  by (cases u; simp)

text \<open>From the listing up to its \<open>sysenter\<close> to the instruction behind it.\<close>

lemma stub_kernel_part:
  assumes e0: "reg e0 EBP = v" "words e0 (v + 4) = l" "reg e0 EAX = stub_number u" "v + 4 \<in> stub_stack s"
    and k: "ucast (msrs e0 0x175) = k" "msrs e0 0x174 = 0x10" and apart: "stub_stack s \<inter> kernel_frame k = {}"
    and T: "length T = 36" and e: "e = at_call m (sysenter_cpu e0)" and d: "d = (T ! unat (stub_number u)) e"
    and f: "cdecl (T ! unat (stub_number u)) (call_words u k s) e" "msrs d 0x174 = 0x10"
  obtains c1 where "syscall_handler_sysenter T m (sysenter_cpu e0) = Some (l, c1)"
      "reg c1 EAX = reg d EAX" "reg c1 ESP = v" "reg c1 CS = USER_CS32" "reg c1 SS = USER_DS32"
      "\<forall>r\<in>{EBP, EDI, ESI, DS, ES, FS, GS}. reg c1 r = reg e0 r" "words c1 = (words d)(k - 40 := reg d EAX)"
      "\<And>a. a \<in> stub_stack s \<Longrightarrow> words c1 a = words e0 a" "u \<noteq> C_write \<Longrightarrow> reg c1 EBX = reg e0 EBX"
proof -
  have v: "v + 4 \<notin> kernel_frame k"
    using apart e0(4) by blast
  obtain c1 where c1: "syscall_handler_sysenter T m (sysenter_cpu e0) = Some (l, c1)"
      "reg c1 EAX = reg d EAX" "reg c1 ESP = v" "reg c1 CS = USER_CS32" "reg c1 SS = USER_DS32"
      "\<forall>r\<in>{EBP, EDI, ESI, DS, ES, FS, GS}. reg c1 r = reg e0 r"
      "reg c1 EBX = words d (k - 56)" "words c1 = (words d)(k - 40 := reg d EAX)"
    using sysenter_part [where e = e0 and v = v and l = l and n = "stub_number u" and k = k and T = T and m = m and
        K = "call_words u k s" and d = d] v k T f d e e0 stub_number_small [of u] call_words_frame [of k u s] by auto
  have sp: "reg (sysenter_cpu e0) ESP = k" "reg (sysenter_cpu e0) EBP + 4 \<notin> kernel_frame k"
    using v k e0 by (simp_all add: sysenter_cpu_def)
  have user: "words c1 a = words e0 a" if "a \<in> stub_stack s" for a
  proof -
    have a: "a \<notin> kernel_frame k"
      using that apart by blast
    then have "a \<noteq> k - 40"
      by (auto simp: kernel_frame_def)
    then show ?thesis
      using stub_stack_words [OF f(1) that] at_call_user_words [OF sp a, of m] by (simp add: c1 d e sysenter_cpu_def)
  qed
  have ebx: "reg c1 EBX = reg e0 EBX" if "u \<noteq> C_write"
  proof -
    have "words d (k - 56) = words e (k - 56)"
      unfolding d by (rule cdeclD(12) [OF f(1)]) (rule call_words_ebx [OF that])
    then show ?thesis
      by (simp add: c1 e at_call_state [OF sp] entered_state [OF sp]) (simp add: sysenter_cpu_def)
  qed
  show thesis
    by (rule that [OF c1(1-6) c1(8) user ebx])
qed

lemma run_stub_out:
  assumes "syscall_handler_sysenter T m (sysenter_cpu (run (stub_code u l) c)) = Some (l, c1)"
    and "out = ret (run (stub_leave u) (stub_check u errno (run stub_return c1)))"
    and "fst out = words c s" "stub_result u k errno c d (snd out)"
  shows "\<exists>c'. run_stub (syscall_handler_sysenter T m) l errno u c = Some (words c s, c') \<and> stub_result u k errno c d c'"
  using assms by (intro exI [of _ "snd out"]) (simp add: run_stub_def prod_eq_iff)

lemmas stub_exit_simps = stub_check_other ret_def pop_def Let_def stub_result_def

lemma plain_stub:
  assumes u: "u \<noteq> C_exit" "u \<noteq> C_write" and s: "reg c ESP = s"
    and k: "ucast (msrs c 0x175) = k" "msrs c 0x174 = 0x10"
    and apart: "stub_stack s \<inter> kernel_frame k = {}" "errno \<notin> stub_stack s" and T: "length T = 36"
    and e: "e = at_call m (sysenter_cpu (run (stub_code u l) c))"
    and d: "d = (T ! unat (stub_number u)) e"
    and f: "cdecl (T ! unat (stub_number u)) (call_words u k s) e" "msrs d 0x174 = 0x10"
  shows "\<exists>c'. run_stub (syscall_handler_sysenter T m) l errno u c = Some (words c s, c') \<and> stub_result u k errno c d c'"
proof -
  let ?e = "run (stub_code u l) c"
  note c0 = plain_code_state [OF s u(2), of l]
  have e0: "reg ?e EBP = s - 20" "words ?e (s - 20 + 4) = l" "reg ?e EAX = stub_number u" "s - 20 + 4 \<in> stub_stack s"
      "ucast (msrs ?e 0x175) = k" "msrs ?e 0x174 = 0x10"
    by (simp_all add: c0 k stub_stack_def)
  obtain c1 where c1: "syscall_handler_sysenter T m (sysenter_cpu ?e) = Some (l, c1)"
      "reg c1 EAX = reg d EAX" "reg c1 ESP = s - 20" "reg c1 CS = USER_CS32" "reg c1 SS = USER_DS32"
      "\<forall>r\<in>{EBP, EDI, ESI, DS, ES, FS, GS}. reg c1 r = reg ?e r" "words c1 = (words d)(k - 40 := reg d EAX)"
      and user: "\<And>a. a \<in> stub_stack s \<Longrightarrow> words c1 a = words ?e a" and ebx: "u \<noteq> C_write \<Longrightarrow> reg c1 EBX = reg ?e EBX"
    by (rule stub_kernel_part [OF e0(1-6) apart(1) T e d f], rule that)
  have m: "words c1 (s - 20) = s - 4" "words c1 (s - 12) = stub_edx u c" "words c1 (s - 8) = stub_ecx u c"
      "words c1 (s - 4) = reg c EBP" "words c1 s = words c s"
    by (simp_all add: user stub_stack_def c0)
  have errno: "errno \<noteq> s - 4" "errno \<noteq> s"
    using apart(2) by (auto simp: stub_stack_def)
  show ?thesis
  proof (rule run_stub_out [OF c1(1) refl])
    show "fst (ret (run (stub_leave u) (stub_check u errno (run stub_return c1)))) = words c s"
      using m errno u(1) by (simp add: return_state [OF c1(3)] plain_leave [OF u(2)] stub_exit_simps)
    show "stub_result u k errno c d (snd (ret (run (stub_leave u) (stub_check u errno (run stub_return c1)))))"
      using m errno c1(6) ebx u
      by (simp add: return_state [OF c1(3)] plain_leave stub_exit_simps c1(2,4,5) s c0) (simp add: c1(7))
  qed
qed

lemma write_stub:
  assumes s: "reg c ESP = s"
    and k: "ucast (msrs c 0x175) = k" "msrs c 0x174 = 0x10"
    and apart: "stub_stack s \<inter> kernel_frame k = {}" "errno \<notin> stub_stack s" and T: "length T = 36"
    and e: "e = at_call m (sysenter_cpu (run (stub_code C_write l) c))"
    and d: "d = (T ! unat (stub_number C_write)) e"
    and f: "cdecl (T ! unat (stub_number C_write)) (call_words C_write k s) e" "msrs d 0x174 = 0x10"
  shows "\<exists>c'. run_stub (syscall_handler_sysenter T m) l errno C_write c = Some (words c s, c') \<and>
     stub_result C_write k errno c d c'"
proof -
  let ?e = "run (stub_code C_write l) c"
  have c0: "?e = c\<lparr>reg := (reg c)(ESP := s - 24, EBP := s - 24, EAX := 4, EDX := arg c 1, ECX := arg c 2, EBX := arg c 3),
       words := (words c)(s - 4 := reg c EBP, s - 8 := reg c EBX, s - 12 := arg c 2, s - 16 := arg c 1, s - 20 := l,
         s - 24 := s - 4)\<rparr>"
    using write_code_state [OF s, of l] by simp
  have e0: "reg ?e EBP = s - 24" "words ?e (s - 24 + 4) = l" "reg ?e EAX = stub_number C_write"
      "s - 24 + 4 \<in> stub_stack s" "ucast (msrs ?e 0x175) = k" "msrs ?e 0x174 = 0x10"
    unfolding c0 by (simp_all add: k stub_stack_def)
  obtain c1 where c1: "syscall_handler_sysenter T m (sysenter_cpu ?e) = Some (l, c1)"
      "reg c1 EAX = reg d EAX" "reg c1 ESP = s - 24" "reg c1 CS = USER_CS32" "reg c1 SS = USER_DS32"
      "\<forall>r\<in>{EBP, EDI, ESI, DS, ES, FS, GS}. reg c1 r = reg ?e r" "words c1 = (words d)(k - 40 := reg d EAX)"
      and user: "\<And>a. a \<in> stub_stack s \<Longrightarrow> words c1 a = words ?e a"
    by (rule stub_kernel_part [OF e0(1-6) apart(1) T e d f], rule that)
  have m: "words c1 (s - 24) = s - 4" "words c1 (s - 16) = arg c 1" "words c1 (s - 12) = arg c 2"
      "words c1 (s - 8) = reg c EBX" "words c1 (s - 4) = reg c EBP" "words c1 s = words c s"
    by (simp_all only: user stub_stack_def insert_iff simp_thms) (simp_all add: c0 [unfolded stub_code.simps])
  have errno: "errno \<noteq> s - 4" "errno \<noteq> s - 8" "errno \<noteq> s"
    using apart(2) by (auto simp: stub_stack_def)
  have regs: "\<forall>r\<in>{EDI, ESI, DS, ES, FS, GS}. reg c1 r = reg c r"
    using c1(6) unfolding c0 by simp
  show ?thesis
  proof (rule run_stub_out [OF c1(1) refl])
    show "fst (ret (run (stub_leave C_write) (stub_check C_write errno (run stub_return c1)))) = words c s"
      using m errno by (simp add: return_state [OF c1(3)] stub_exit_simps)
    show "stub_result C_write k errno c d (snd (ret (run (stub_leave C_write) (stub_check C_write errno (run stub_return c1)))))"
      using m errno regs by (simp add: return_state [OF c1(3)] stub_exit_simps c1(2,4,5) s) (simp add: c1(7))
  qed
qed

text \<open>The routine finds the arguments of the call as its parameters.\<close>

lemma routine_params:
  assumes s: "reg c ESP = s" and k: "ucast (msrs c 0x175) = k" and apart: "stub_stack s \<inter> kernel_frame k = {}"
    and e: "e = at_call m (sysenter_cpu (run (stub_code u l) c))" and i: "i < stub_params u"
  shows "words e (reg e ESP + 4 * of_nat (Suc i)) = arg c (Suc i)"
proof -
  let ?e = "run (stub_code u l) c"
  have v: "reg ?e EBP + 4 \<notin> kernel_frame k"
  proof -
    have "reg ?e EBP + 4 \<in> stub_stack s"
      using plain_code_state [OF s, of u l] write_code_state [OF s, of l]
      by (cases "u = C_write") (simp_all add: stub_stack_def)
    then show ?thesis
      using apart by blast
  qed
  have m: "msrs ?e = msrs c"
    using plain_code_state [OF s, of u l] write_code_state [OF s, of l] by (cases "u = C_write") simp_all
  have sp: "reg (sysenter_cpu ?e) ESP = k" "reg (sysenter_cpu ?e) EBP + 4 \<notin> kernel_frame k"
    using v k m by (simp_all add: sysenter_cpu_def)
  have w: "reg e ESP = k - 68" "words e (k - 64) = reg ?e EDX" "words e (k - 60) = reg ?e ECX"
      "words e (k - 56) = reg ?e EBX"
    by (simp_all add: e at_call_state [OF sp] entered_state [OF sp]) (simp_all add: sysenter_cpu_def)
  have edx: "reg ?e EDX = arg c 1" if "1 \<le> stub_params u"
    using that plain_code_state [OF s, of u l] write_code_state [OF s, of l]
    by (cases "u = C_write") (simp_all add: stub_edx_def)
  have ecx: "reg ?e ECX = arg c 2" if "2 \<le> stub_params u"
    using that plain_code_state [OF s, of u l] write_code_state [OF s, of l]
    by (cases "u = C_write") (simp_all add: stub_ecx_def)
  have ebx: "reg ?e EBX = arg c 3" if "u = C_write"
    using that write_code_state [OF s, of l] by simp
  have "stub_params u \<le> 2" if "u \<noteq> C_write"
    using that by (cases u; simp)
  moreover have "stub_params u \<le> 3"
    by (cases u; simp)
  ultimately consider "i = 0" "1 \<le> stub_params u" | "i = 1" "2 \<le> stub_params u" | "i = 2" "u = C_write"
    using i by fastforce
  then show ?thesis
  proof cases
    case 1
    have "words e (k - 64) = arg c 1" using w(2) edx 1 by simp
    then show ?thesis by (simp add: w(1) 1)
  next
    case 2
    have "words e (k - 60) = arg c 2" using w(3) ecx 2 by simp
    then show ?thesis by (simp add: w(1) 2 numeral_2_eq_2 [symmetric])
  next
    case 3
    have "words e (k - 56) = arg c 3" using w(4) ebx 3 by simp
    then show ?thesis by (simp add: w(1) 3)
  qed
qed

text \<open>
  C9. A call of a stub of \<open>Wrappers.S\<close> reaches the routine of its number in \<open>sys_call_table\<close> with the arguments of the
  call as its parameters, and comes back to the caller of the stub: with the answer, or with -1 and the error number in
  \<open>errno\<close>, and with the stack and the registers that a compiled function leaves alone as they were.
\<close>

theorem stub_calls_routine:
  assumes u: "u \<noteq> C_exit" and s: "reg c ESP = s"
    and k: "ucast (msrs c 0x175) = k" "msrs c 0x174 = 0x10"
    and apart: "stub_stack s \<inter> kernel_frame k = {}" "errno \<notin> stub_stack s" and T: "length T = 36"
    and e: "e = at_call m (sysenter_cpu (run (stub_code u l) c))"
    and d: "d = (T ! unat (stub_number u)) e"
    and f: "cdecl (T ! unat (stub_number u)) (call_words u k s) e" "msrs d 0x174 = 0x10"
  shows "(\<forall>i < stub_params u. words e (reg e ESP + 4 * of_nat (Suc i)) = arg c (Suc i)) \<and>
     (\<exists>c'. run_stub (syscall_handler_sysenter T m) l errno u c = Some (words c s, c') \<and> stub_result u k errno c d c')"
proof (intro conjI allI impI)
  show "words e (reg e ESP + 4 * of_nat (Suc i)) = arg c (Suc i)" if "i < stub_params u" for i
    by (rule routine_params [OF s k(1) apart(1) e that])
  show "\<exists>c'. run_stub (syscall_handler_sysenter T m) l errno u c = Some (words c s, c') \<and> stub_result u k errno c d c'"
  proof (cases "u = C_write")
    case True
    show ?thesis
      using write_stub [OF s k apart T e [unfolded True] d [unfolded True] f(1) [unfolded True] f(2)] by (simp add: True)
  next
    case False
    show ?thesis
      by (rule plain_stub [OF u False s k apart T e d f])
  qed
qed

definition refusing :: "cpu \<Rightarrow> cpu" where
  "refusing c = c\<lparr>reg := (reg c)(ESP := reg c ESP + 4, EAX := - 14)\<rparr>"

lemma stub_calls_routine_witness:
  "\<exists>c'. run_stub (syscall_handler_sysenter (replicate 36 refusing) 0x1111) 0x2222 0x900000 C_read some_cpu = Some (5, c') \<and>
     reg c' EAX = - 1 \<and> words c' 0x900000 = 14"
proof -
  have n: "replicate 36 refusing ! unat (stub_number C_read) = refusing"
    by simp
  have "\<exists>c'. run_stub (syscall_handler_sysenter (replicate 36 refusing) 0x1111) 0x2222 0x900000 C_read some_cpu =
        Some (words some_cpu 0x81BF00, c') \<and>
      stub_result C_read 0x20000 0x900000 some_cpu
        ((replicate 36 refusing ! unat (stub_number C_read))
          (at_call 0x1111 (sysenter_cpu (run (stub_code C_read 0x2222) some_cpu)))) c'"
    by (rule stub_calls_routine [OF _ _ _ _ _ _ _ refl refl, THEN conjunct2])
      (simp_all add: n cdecl_def refusing_def kept_def, simp_all add: some_cpu_def stub_stack_def kernel_frame_def
        at_call_def entered_def sysenter_frame_def run_SAVE_ALL push_def Let_def sysenter_cpu_def read_code_def)
  then show ?thesis
    unfolding n by (auto simp: stub_result_def Let_def refusing_def some_cpu_def)
qed

end
