(* ===== verification/Hardware_Code.thy ===== *)
theory Hardware_Code
  imports Assembly
begin

text \<open>
  \<open>hardware.S\<close> and \<open>writeMSR\<close> of \<open>extras.S\<close> as listings, and \<open>disable_blinking\<close> of \<open>io.c\<close>, which drives the display
  through them. A function runs from its first instruction, where its return address is on top of the stack and its
  parameters above it, to its \<open>ret\<close>.
\<close>

section \<open>The listings\<close>

definition framed :: "instr list \<Rightarrow> instr list" where
  "framed body = [Pushl (Reg EBP), Movl (Reg ESP) (Reg EBP)] @ body @ [Popl (Reg EBP)]"

definition get_eflags_code :: "instr list" where
  "get_eflags_code = [Pushfl, Popl (Reg EAX)]"

definition set_eflags_code :: "instr list" where
  "set_eflags_code = [Pushl (Imm 0), Popfl]"

definition set_idt_reg_code :: "instr list" where
  "set_idt_reg_code = framed [Movl (Ind 8 EBP) (Reg EAX), Lidt (Ind 0 EAX)]"

definition set_gdt_reg_code :: "instr list" where
  "set_gdt_reg_code = framed [Movl (Ind 8 EBP) (Reg EAX), Lgdt (Ind 0 EAX)]"

definition set_ldt_reg_code :: "instr list" where
  "set_ldt_reg_code = framed [Movl (Ind 8 EBP) (Reg EAX), Lldt (Reg EAX)]"

definition set_task_reg_code :: "instr list" where
  "set_task_reg_code = framed [Movl (Ind 8 EBP) (Reg EAX), Ltr (Reg EAX)]"

definition return_gate_code :: "dword \<Rightarrow> instr list" where
  "return_gate_code p_rdtr =
    [Pushl (Reg EBP), Movl (Reg ESP) (Reg EBP), Movl (Ind 8 EBP) (Reg EAX), Movw (Reg EAX) (Reg ES),
     Movw (Reg EAX) (Reg DS), Movl (Ind 16 EBP) (Reg EAX), Subl (Imm 16) (Reg EAX), Movl (Abs p_rdtr) (Reg ECX),
     Movl (Ind 0 ECX) (Reg ECX), Movl (Reg ECX) (Ind 12 EAX), Pushl (Ind 12 EBP), Pushl (Reg EAX), Pushl (Ind 20 EBP),
     Pushl (Ind 24 EBP)]"

text \<open>\<open>delay\<close> only jumps to its own \<open>ret\<close>.\<close>

definition enable_int_code :: "instr list" where
  "enable_int_code = framed [Movb_al 0xfc, Outb_al 0x21, Sti]"

definition inb_code :: "instr list" where
  "inb_code = framed [Movl (Ind 8 EBP) (Reg EDX), Inb_dx]"

definition outb_code :: "instr list" where
  "outb_code = framed [Movl (Ind 8 EBP) (Reg EDX), Movl (Ind 12 EBP) (Reg EAX), Outb_dx]"

definition bochs_out_code :: "instr list" where
  "bochs_out_code = framed [Movl (Ind 8 EBP) (Reg EAX), Outb_al 0xe9]"

definition set_cr3_code :: "instr list" where
  "set_cr3_code = framed [Movl (Ind 8 EBP) (Reg EAX), Mov_to_cr3 (Reg EAX)]"

definition read_cr0_code :: "instr list" where
  "read_cr0_code = [Mov_from_cr0 (Reg EAX)]"

definition write_cr0_code :: "instr list" where
  "write_cr0_code = framed [Movl (Ind 8 EBP) (Reg EAX), Mov_to_cr0 (Reg EAX)]"

definition sti_code :: "instr list" where
  "sti_code = [Sti]"

definition current_code :: "instr list" where
  "current_code = [Movl (Reg ESP) (Reg EAX), Andl (Imm 0xFFFFF000) (Reg EAX)]"

definition set_seg_regs_code :: "instr list" where
  "set_seg_regs_code =
    [Pushl (Reg EBP), Movl (Reg ESP) (Reg EBP), Movl (Ind 8 EBP) (Reg EAX), Cld, Movw (Reg EAX) (Reg DS),
     Movw (Reg EAX) (Reg ES), Movw (Reg EAX) (Reg FS), Movw (Reg EAX) (Reg GS), Movl (Ind 12 EBP) (Reg EAX),
     Movl (Ind 16 EBP) (Reg ECX), Subl (Imm 0x10) (Reg ECX), Movl (Ind 4 EBP) (Reg EDX), Movw (Reg EAX) (Reg SS),
     Movl (Reg ECX) (Reg ESP), Pushl (Reg EDX)]"

definition writeMSR_code :: "instr list" where
  "writeMSR_code =
    [Pushl (Reg EBP), Movl (Reg ESP) (Reg EBP), Movl (Ind 8 EBP) (Reg ECX), Movl (Imm 0) (Reg EDX),
     Movl (Ind 0xC EBP) (Reg EAX), Wrmsr, Popl (Reg EBP)]"

text \<open>\<open>lret\<close> to an outer level takes the stack of that level, too.\<close>

definition lret_outer :: "cpu \<Rightarrow> dword \<times> cpu" where
  "lret_outer c =
     (let (ip, c) = pop c; (cs, c) = pop c; (p, c) = pop c; (s, c) = pop c
      in (ip, c\<lparr>reg := (reg c)(CS := cs, ESP := p, SS := s)\<rparr>))"

definition fun_code :: "instr list \<Rightarrow> cpu \<Rightarrow> dword \<times> cpu" where
  "fun_code is c = ret (run is c)"

definition return_gate :: "dword \<Rightarrow> cpu \<Rightarrow> dword \<times> cpu" where
  "return_gate p_rdtr c = lret_outer (run (return_gate_code p_rdtr) c)"

section \<open>What they do\<close>

text \<open>
  Every framed function comes back with the stack and \<open>ebp\<close> of its caller; the parameters of its body are at 8 and 12 above
  \<open>ebp\<close>.
\<close>

lemma framed_returns:
  assumes "reg (run body (run [Pushl (Reg EBP), Movl (Reg ESP) (Reg EBP)] c)) ESP = reg c ESP - 4"
    and "words (run body (run [Pushl (Reg EBP), Movl (Reg ESP) (Reg EBP)] c)) =
      (words c)(reg c ESP - 4 := reg c EBP)"
  shows "fun_code (framed body) c =
     (words c (reg c ESP), (run body (run [Pushl (Reg EBP), Movl (Reg ESP) (Reg EBP)] c))
        \<lparr>reg := (reg (run body (run [Pushl (Reg EBP), Movl (Reg ESP) (Reg EBP)] c)))
           (EBP := reg c EBP, ESP := reg c ESP + 4)\<rparr>)"
  using assms by (simp add: fun_code_def framed_def ret_def pop_def Let_def)

definition inb :: "hword \<Rightarrow> cpu \<Rightarrow> byte \<times> cpu" where
  "inb p c = (case port_in c p of [] \<Rightarrow> (0xFF, c) | b # bs \<Rightarrow> (b, c\<lparr>port_in := (port_in c)(p := bs)\<rparr>))"

definition outb :: "hword \<Rightarrow> byte \<Rightarrow> cpu \<Rightarrow> cpu" where
  "outb p v c = c\<lparr>port_out := (p, v) # port_out c\<rparr>"

lemma low_byte [simp]: "(ucast (set_low_byte v b) :: byte) = b"
  by (rule bit_word_eqI) (auto simp: set_low_byte_def bit_simps)

lemma inb_code_correct:
  "\<exists>c'. fun_code inb_code c = (arg c 0, c') \<and> ucast (reg c' EAX) = fst (inb (ucast (arg c 1)) c) \<and>
     port_in c' = port_in (snd (inb (ucast (arg c 1)) c)) \<and> port_out c' = port_out c \<and> reg c' ESP = reg c ESP + 4 \<and>
     reg c' EBP = reg c EBP"
  by (simp add: inb_code_def fun_code_def framed_def ret_def pop_def push_def Let_def arg_def inb_def flip
      split: list.split)

lemma outb_code_correct:
  "\<exists>c'. fun_code outb_code c = (arg c 0, c') \<and> port_out c' = port_out (outb (ucast (arg c 1)) (ucast (arg c 2)) c) \<and>
     port_in c' = port_in c \<and> reg c' ESP = reg c ESP + 4 \<and> reg c' EBP = reg c EBP"
  by (simp add: outb_code_def fun_code_def framed_def ret_def pop_def push_def Let_def arg_def outb_def flip)

lemma writeMSR_code_correct:
  "\<exists>c'. fun_code writeMSR_code c = (arg c 0, c') \<and> msrs c' = (msrs c)(arg c 1 := ucast (arg c 2)) \<and>
     reg c' ESP = reg c ESP + 4 \<and> reg c' EBP = reg c EBP"
  by (simp add: writeMSR_code_def fun_code_def ret_def pop_def push_def Let_def arg_def flip)

lemma set_cr3_code_correct:
  "\<exists>c'. fun_code set_cr3_code c = (arg c 0, c') \<and> creg3 c' = arg c 1 \<and> reg c' ESP = reg c ESP + 4 \<and> reg c' EBP = reg c EBP"
  by (simp add: set_cr3_code_def fun_code_def framed_def ret_def pop_def push_def Let_def arg_def flip)

lemma paging_code_correct:
  "fst (fun_code read_cr0_code c) = arg c 0" "reg (snd (fun_code read_cr0_code c)) EAX = creg0 c"
  "fst (fun_code write_cr0_code c) = arg c 0" "creg0 (snd (fun_code write_cr0_code c)) = arg c 1"
  by (simp_all add: read_cr0_code_def write_cr0_code_def fun_code_def framed_def ret_def pop_def push_def Let_def arg_def flip)

lemma table_register_code_correct:
  "idtr (snd (fun_code set_idt_reg_code c)) = table_at (arg c 1) (push (reg c EBP) c)"
  "gdtr (snd (fun_code set_gdt_reg_code c)) = table_at (arg c 1) (push (reg c EBP) c)"
  "ldtr (snd (fun_code set_ldt_reg_code c)) = arg c 1 AND 0xFFFF"
  "tr (snd (fun_code set_task_reg_code c)) = arg c 1 AND 0xFFFF"
  by (simp_all add: set_idt_reg_code_def set_gdt_reg_code_def set_ldt_reg_code_def set_task_reg_code_def fun_code_def
      framed_def ret_def pop_def push_def Let_def arg_def table_at_def flip)

lemma flags_code_correct:
  "reg (snd (fun_code get_eflags_code c)) EAX = eflags c" "eflags (snd (fun_code set_eflags_code c)) = 0"
  by (simp_all add: get_eflags_code_def set_eflags_code_def fun_code_def ret_def pop_def push_def Let_def)

text \<open>Only the clock and the keyboard interrupt are let through, and interrupts are on.\<close>

lemma enable_int_code_correct:
  "\<exists>c'. fun_code enable_int_code c = (arg c 0, c') \<and> port_out c' = (0x21, 0xfc) # port_out c \<and> eflags c' = eflags c OR 0x200 \<and>
     reg c' ESP = reg c ESP + 4 \<and> reg c' EBP = reg c EBP"
  by (simp add: enable_int_code_def fun_code_def framed_def ret_def pop_def push_def Let_def arg_def flip)

lemma bochs_out_code_correct:
  "\<exists>c'. fun_code bochs_out_code c = (arg c 0, c') \<and> port_out c' = (0xe9, ucast (arg c 1)) # port_out c \<and>
     reg c' ESP = reg c ESP + 4 \<and> reg c' EBP = reg c EBP"
  by (simp add: bochs_out_code_def fun_code_def framed_def ret_def pop_def push_def Let_def arg_def flip)

section \<open>disable_blinking\<close>

definition disable_blinking :: "cpu \<Rightarrow> cpu" where
  "disable_blinking c =
     (let (_, c) = inb 0x3DA c;
          c = outb 0x3C0 0x10 c;
          (v, c) = inb 0x3C1 c;
          v = v AND NOT 0x08;
          (_, c) = inb 0x3DA c;
          c = outb 0x3C0 0x10 c;
          c = outb 0x3C0 v c
      in outb 0x3C0 0x20 c)"

text \<open>
  The attribute controller gets the value of its mode register back, without the blink bit, and the screen is on again.
\<close>

lemma disable_blinking_ports:
  assumes "port_in c 0x3C1 = b # bs"
  shows "port_out (disable_blinking c) = [(0x3C0, 0x20), (0x3C0, b AND NOT 0x08), (0x3C0, 0x10), (0x3C0, 0x10)] @ port_out c"
    "port_in (disable_blinking c) 0x3C1 = bs"
  using assms by (auto simp: disable_blinking_def inb_def outb_def Let_def split: list.split)

section \<open>Segment registers and the way to user mode\<close>

text \<open>
  \<open>set_seg_regs\<close> goes on behind its call on the new stack, a little below its top. It never pops \<open>ebp\<close>: its caller continues
  with the frame pointer of the function it called.
\<close>

lemma set_seg_regs_moves_stack:
  assumes "arg c 3 - 20 \<noteq> reg c ESP"
  shows "\<exists>c'. fun_code set_seg_regs_code c = (arg c 0, c') \<and> reg c' ESP = arg c 3 - 16 \<and> reg c' SS = arg c 2 AND 0xFFFF \<and>
     (\<forall>r\<in>{DS, ES, FS, GS}. reg c' r = arg c 1 AND 0xFFFF) \<and> reg c' EBP = reg c ESP - 4 \<and>
     eflags c' = eflags c AND NOT 0x400"
  using assms
  by (simp add: set_seg_regs_code_def fun_code_def ret_def pop_def push_def Let_def arg_def flip)

text \<open>
  \<open>return_gate\<close> goes to the instruction and the stack of its parameters with their selectors, and hands the word behind
  \<open>p_rdtr\<close> to the program at the top of its stack.
\<close>

lemma return_gate_enters_user:
  assumes s: "reg c ESP = s" and e: "arg c 3 - 4 \<notin> {s - 8, s - 12, s - 16, s - 20, s - 4, s + 8, s + 16, s + 20}"
    and p: "p_rdtr \<noteq> s - 4" "words c p_rdtr \<noteq> s - 4"
  shows "\<exists>c'. return_gate p_rdtr c = (arg c 5, c') \<and> reg c' CS = arg c 4 \<and> reg c' SS = arg c 2 \<and>
     reg c' ESP = arg c 3 - 16 \<and> reg c' DS = arg c 1 AND 0xFFFF \<and> reg c' ES = arg c 1 AND 0xFFFF \<and>
     words c' (arg c 3 - 4) = words c (words c p_rdtr)"
  using assms
  by (auto simp: return_gate_def return_gate_code_def lret_outer_def pop_def push_def Let_def arg_def flip)

end
