(* ===== verification/Switch_Code.thy ===== *)
theory Switch_Code
  imports Entry_Code Hardware_Code Kernel
begin

text \<open>
  \<open>task_switch\<close> and \<open>cambio_pila\<close> of \<open>extras.S\<close>: how one process leaves the processor in the middle of a kernel routine and
  goes on there later, and how a new process comes out of the kernel for the first time.
\<close>

definition cambio_pila_code :: "instr list" where
  "cambio_pila_code =
    [Pushl (Reg EBP), Movl (Reg ESP) (Reg EBP), Movl (Ind 8 EBP) (Reg EAX), Movl (Reg EBP) (Ind 0 EAX),
     Movl (Ind 12 EBP) (Reg ESP), Popl (Reg EBP)]"

definition task_switch_enter :: "instr list" where
  "task_switch_enter =
    [Pushl (Reg EBP), Movl (Reg ESP) (Reg EBP), Pushl (Reg ESI), Pushl (Reg EDI), Pushl (Reg EBX), Pushl (Ind 8 EBP)]"

definition task_switch_leave :: "instr list" where
  "task_switch_leave =
    [Addl (Imm 4) (Reg ESP), Popl (Reg EBX), Popl (Reg EDI), Popl (Reg ESI), Movl (Reg EBP) (Reg ESP), Popl (Reg EBP)]"

definition task_switch_code :: "(cpu \<Rightarrow> cpu) \<Rightarrow> dword \<Rightarrow> cpu \<Rightarrow> dword \<times> cpu" where
  "task_switch_code inner l c = ret (run task_switch_leave (call inner l (run task_switch_enter c)))"

section \<open>cambio_pila\<close>

text \<open>
  The call with the address \<open>p\<close> of the field \<open>kernel_esp\<close> and the stack \<open>new\<close>: the place of the saved \<open>ebp\<close> goes to \<open>p\<close>,
  and the return is from the stack \<open>new\<close>.
\<close>

lemma cambio_pila_state:
  assumes s: "reg c ESP = s" and new: "arg c 2 = new" and p: "arg c 1 = p" "p \<noteq> s + 8"
  shows "fun_code cambio_pila_code c =
     (let m = (words c)(s - 4 := reg c EBP, p := s - 4) in
      (m (new + 4), c\<lparr>reg := (reg c)(EAX := p, EBP := m new, ESP := new + 8), words := m\<rparr>))"
  using p new s
  by (auto intro!: cpu.equality reg_eqI simp: cambio_pila_code_def fun_code_def ret_def pop_def push_def Let_def arg_def flip)

text \<open>
  A process that gives the processor away in \<open>cambio_pila\<close> goes on as if the call had returned: whenever another
  call of \<open>cambio_pila\<close> is given the stack that the first one saved, with the two words there unchanged, it returns to the
  caller of the first one, on its stack and with its \<open>ebp\<close>.
\<close>

theorem cambio_pila_comes_back:
  assumes a: "reg a ESP = s" "arg a 1 = p" "p \<notin> {s + 8, s - 4, s}"
    and b: "reg b ESP = t" "arg b 2 = saved" "arg b 1 = q" "q \<notin> {t + 8, s - 4, s}" "t - 4 \<notin> {s - 4, s}"
    and saved: "saved = words (snd (fun_code cambio_pila_code a)) p"
    and same: "\<forall>x\<in>{s - 4, s}. words b x = words (snd (fun_code cambio_pila_code a)) x"
  shows "\<exists>c'. fun_code cambio_pila_code b = (arg a 0, c') \<and> reg c' ESP = reg a ESP + 4 \<and> reg c' EBP = reg a EBP"
proof -
  have left: "words (snd (fun_code cambio_pila_code a)) = (words a)(s - 4 := reg a EBP, p := s - 4)"
    using cambio_pila_state [OF a(1) refl a(2)] a(3) by (simp add: Let_def)
  have "saved = s - 4" "words b (s - 4) = reg a EBP" "words b s = arg a 0"
    using same a(1,3) by (auto simp: saved left arg_def)
  then show ?thesis
    using cambio_pila_state [OF b(1,2,3)] b(4,5) a(1) by (auto simp: Let_def)
qed

section \<open>task_switch\<close>

text \<open>
  \<open>task_switch\<close> is a call that keeps the registers of its caller although the processes in between use them: if
  \<open>inner_task_switch\<close> comes back on its stack with \<open>ebp\<close> and the words of that stack as they were, whatever is in \<open>ebx\<close>,
  \<open>esi\<close> and \<open>edi\<close> then, \<open>task_switch\<close> returns to its caller with all of them as before.
\<close>

theorem task_switch_keeps_registers:
  assumes s: "reg c ESP = s" and e: "e = push l (run task_switch_enter c)"
    and inner: "reg (inner e) ESP = reg e ESP + 4" "reg (inner e) EBP = reg e EBP"
      "\<forall>x\<in>{s, s - 4, s - 8, s - 12, s - 16}. words (inner e) x = words e x"
  shows "words e (reg e ESP + 4) = arg c 1 \<and>
     (\<exists>c'. task_switch_code inner l c = (arg c 0, c') \<and> reg c' ESP = s + 4 \<and>
        (\<forall>r\<in>{EBX, ESI, EDI, EBP}. reg c' r = reg c r))"
proof -
  have enter: "run task_switch_enter c =
      c\<lparr>reg := (reg c)(EBP := s - 4, ESP := s - 20),
        words := (words c)(s - 4 := reg c EBP, s - 8 := reg c ESI, s - 12 := reg c EDI, s - 16 := reg c EBX,
          s - 20 := arg c 1)\<rparr>"
    by (rule cpu.equality) (simp_all add: task_switch_enter_def push_def Let_def s arg_def flip fun_upd_twist)
  have e1: "reg e ESP = s - 24" "reg e EBP = s - 4" "words e s = arg c 0" "words e (s - 4) = reg c EBP"
      "words e (s - 8) = reg c ESI" "words e (s - 12) = reg c EDI" "words e (s - 16) = reg c EBX"
      "words e (s - 20) = arg c 1"
    by (simp_all add: e enter push_state s arg_def)
  define d where "d = inner e"
  have d: "reg d ESP = s - 20" "reg d EBP = s - 4" "words d s = arg c 0" "words d (s - 4) = reg c EBP"
      "words d (s - 8) = reg c ESI" "words d (s - 12) = reg c EDI" "words d (s - 16) = reg c EBX"
    using inner e1 by (simp_all add: d_def)
  have "task_switch_code inner l c = ret (run task_switch_leave d)"
    by (simp add: task_switch_code_def call_def d_def e)
  then show ?thesis
    using d e1 by (simp add: task_switch_leave_def ret_def pop_def Let_def)
qed

section \<open>The first run of a child\<close>

text \<open>
  What \<open>sys_fork\<close> leaves on the stack of the child that ends at \<open>kc\<close>: the frame of the parent's call with the address behind
  the call (17 words copied from the stack that ends at \<open>kp\<close>), and below it \<open>ret_from_fork\<close> and a zero for \<open>ebp\<close>.
\<close>

definition child_stack :: "(dword \<Rightarrow> dword) \<Rightarrow> dword \<Rightarrow> (dword \<Rightarrow> dword) \<Rightarrow> dword \<Rightarrow> dword \<Rightarrow> bool" where
  "child_stack m kc m0 kp rff \<longleftrightarrow>
     (\<forall>a\<in>kernel_frame kc. m a = m0 (kp - (kc - a))) \<and> m (kc - 72) = rff \<and> m (kc - 76) = 0"

text \<open>\<open>ret_from_fork\<close> is the one-line function of \<open>sys.c\<close>: a compiled function whose answer is 0.\<close>

definition answers_zero :: "(cpu \<Rightarrow> cpu) \<Rightarrow> dword set \<Rightarrow> cpu \<Rightarrow> bool" where
  "answers_zero f K c \<longleftrightarrow> cdecl f K c \<and> reg (f c) EAX = 0 \<and> msrs (f c) = msrs c"

lemma frame_at_other_stack:
  assumes "reg c EBP + 4 \<notin> kernel_frame (reg c ESP)" "reg c EBP + 4 \<notin> kernel_frame kc"
    and "a \<in> kernel_frame kc"
  shows "words (at_call m (c\<lparr>reg := (reg c)(ESP := kc)\<rparr>)) a = words (at_call m c) (reg c ESP - (kc - a))"
proof -
  let ?c = "c\<lparr>reg := (reg c)(ESP := kc)\<rparr>"
  have k: "reg ?c ESP = kc" "reg ?c EBP + 4 \<notin> kernel_frame kc"
    using assms(2) by simp_all
  show ?thesis
    using assms(3) unfolding kernel_frame_def
    by (auto simp: at_call_state [OF k] entered_state [OF k] at_call_state [OF refl assms(1)] entered_state [OF refl assms(1)])
qed

text \<open>
  C11. A child that has never run comes out of \<open>cambio_pila\<close> into \<open>ret_from_fork\<close>, from there to the end of the system call
  handler, and into user mode behind the \<open>sysenter\<close> of its parent's \<open>fork\<close>: with the registers the parent entered with,
  and 0 in \<open>eax\<close>.
\<close>

theorem child_leaves_kernel:
  assumes c: "u_entry = reg c EBP + 4" "u_entry \<notin> kernel_frame (reg c ESP)" "u_entry \<notin> kernel_frame kc"
    and b: "reg b ESP = t" "arg b 2 = kc - 76" "arg b 1 = q" "q \<noteq> t + 8" "q \<notin> kernel_frame kc \<union> {kc - 72, kc - 76}"
      "t - 4 \<notin> kernel_frame kc \<union> {kc - 72, kc - 76}"
    and stack: "child_stack (words b) kc (words (at_call m c)) (reg c ESP) rff"
    and f: "answers_zero f (kernel_frame kc) d" "d = snd (fun_code cambio_pila_code b)"
    and cs: "msrs b 0x174 = 0x10"
  shows "fst (fun_code cambio_pila_code b) = rff \<and> words d (reg d ESP) = m \<and>
     (\<exists>c'. sysenter_fin (f d) = (words c u_entry, c') \<and> back_in_user c 0 c' \<and> reg c' EBX = reg c EBX)"
proof -
  let ?c = "c\<lparr>reg := (reg c)(ESP := kc)\<rparr>"
  have k: "reg ?c ESP = kc" "reg ?c EBP + 4 \<notin> kernel_frame kc"
    using c by simp_all
  have u: "reg c EBP + 4 \<notin> kernel_frame (reg c ESP)"
    using c by simp
  have cp: "fun_code cambio_pila_code b =
      (let n = (words b)(t - 4 := reg b EBP, q := t - 4) in
       (n (kc - 76 + 4), b\<lparr>reg := (reg b)(EAX := q, EBP := n (kc - 76), ESP := kc - 76 + 8), words := n\<rparr>))"
    by (rule cambio_pila_state [OF b(1,2,3,4)])
  have d_reg: "reg d ESP = kc - 68" "msrs d = msrs b"
    using f(2) cp by (simp_all add: Let_def)
  have d_words: "words d a = words b a" if "a \<in> kernel_frame kc \<union> {kc - 72, kc - 76}" for a
    using that b(5,6) f(2) cp by (auto simp: Let_def)
  have first: "fst (fun_code cambio_pila_code b) = rff"
    using stack b(5,6) by (auto simp: cp Let_def child_stack_def)
  have frame: "words d a = words (at_call m ?c) a" if a: "a \<in> kernel_frame kc" for a
  proof -
    have "words b a = words (at_call m c) (reg c ESP - (kc - a))"
      using stack a by (simp add: child_stack_def)
    then show ?thesis
      using frame_at_other_stack [OF u k(2) [simplified] a, of m] d_words [of a] a by simp
  qed
  have label: "words d (kc - 68) = m"
    using frame [of "kc - 68"] by (simp add: kernel_frame_def at_call_state [OF k])
  have g: "reg (f d) ESP = kc - 64" "reg (f d) EAX = 0" "msrs (f d) = msrs b"
      "\<forall>a\<in>kernel_frame kc. words (f d) a = words d a"
    using f(1) d_reg cdeclD(12) by (auto simp: answers_zero_def cdecl_def)
  have same: "\<forall>a\<in>kernel_frame kc - params kc. words (f d) a = words (at_call m ?c) a"
    using g(4) frame by simp
  have cs': "msrs (f d) 0x174 = 0x10"
    using g cs by simp
  obtain c' where c': "sysenter_fin (f d) = (words ?c (reg ?c EBP + 4), c')" "back_in_user ?c (reg (f d) EAX) c'"
      "reg c' EBX = words (f d) (kc - 56)"
    using sysenter_fin_returns [OF k g(1) same cs'] by blast
  have "words (f d) (kc - 56) = reg c EBX"
    using g(4) frame [of "kc - 56"] by (simp add: kernel_frame_def at_call_state [OF k] entered_state [OF k])
  then show ?thesis
    using c' first label d_reg g(2) by (simp add: back_in_user_def c(1))
qed

section \<open>current\<close>

lemma page_of_address:
  assumes "r < PAGE_SIZE" "t < 2 ^ 20"
  shows "(of_nat (t * PAGE_SIZE + r) :: dword) AND 0xFFFFF000 = of_nat (t * PAGE_SIZE)"
proof -
  let ?x = "of_nat (t * PAGE_SIZE + r) :: dword"
  have m: "(0xFFFFF000 :: dword) = NOT (mask 12)"
    by (simp add: mask_eq_exp_minus_1)
  have "?x AND 0xFFFFF000 = push_bit 12 (drop_bit 12 ?x)"
    unfolding m by (rule bit_word_eqI) (auto simp: bit_simps)
  also have "\<dots> = ?x - take_bit 12 ?x"
    using bits_ident [of 12 ?x] by (simp add: algebra_simps)
  also have "take_bit 12 ?x = of_nat r"
  proof (rule word_unat_eq_iff [THEN iffD2])
    have "t * 4096 + r < 2 ^ 32"
      using assms by simp
    then have u: "unat ?x = t * 4096 + r"
      by (simp add: unat_of_nat take_bit_nat_eq_self del: of_nat_add of_nat_mult)
    show "unat (take_bit 12 ?x) = unat (of_nat r :: dword)"
      unfolding unsigned_take_bit_eq u using assms(1) by (simp add: take_bit_eq_mod unat_of_nat)
  qed
  finally show ?thesis
    by simp
qed

text \<open>
  Everywhere on the kernel stack of a process \<open>current\<close> answers the address of its \<open>task_union\<close>.
\<close>

theorem current_finds_task:
  assumes "1 \<le> j" "j \<le> 1024" "t < 2 ^ 20" "reg c ESP = KERNEL_ESP t - 4 * of_nat j"
  shows "fst (fun_code current_code c) = arg c 0 \<and> reg (snd (fun_code current_code c)) EAX = of_nat (t * PAGE_SIZE)"
proof -
  have "(4 :: dword) * of_nat j = of_nat (4 * j)"
    by simp
  moreover have "(of_nat (1024 * 4) :: dword) - of_nat (4 * j) = of_nat (4096 - 4 * j)"
    using assms(2) by (simp add: of_nat_diff)
  ultimately have "reg c ESP = of_nat (t * PAGE_SIZE + (4096 - 4 * j))"
    unfolding assms(4) KERNEL_ESP_def of_nat_add by (metis add_diff_eq)
  then have "reg c ESP AND 0xFFFFF000 = of_nat (t * PAGE_SIZE)"
    using page_of_address [of "4096 - 4 * j" t] assms(1-3) by simp
  then show ?thesis
    by (simp add: current_code_def fun_code_def ret_def pop_def Let_def arg_def)
qed

section \<open>Instances\<close>

definition a_cpu :: "dword \<Rightarrow> (dword \<Rightarrow> dword) \<Rightarrow> cpu" where
  "a_cpu s m = \<lparr>reg = (\<lambda>_. 0)(ESP := s, EBX := 3, ESI := 4, EDI := 5, EBP := 0x81BF10), eflags = 2, words = m, creg0 = 1,
     creg3 = 0, msrs = (\<lambda>_. 0x10), gdtr = (0, 0), idtr = (0, 0), ldtr = 0, tr = 0, port_in = (\<lambda>_. []), port_out = []\<rparr>"

lemma current_finds_task_witness:
  "reg (snd (fun_code current_code (a_cpu (KERNEL_ESP 301 - 4 * of_nat 17) (\<lambda>_. 0)))) EAX = of_nat (301 * PAGE_SIZE)"
  using current_finds_task [of 17 301 "a_cpu (KERNEL_ESP 301 - 4 * of_nat 17) (\<lambda>_. 0)"] by (simp add: a_cpu_def)

lemma cambio_pila_comes_back_witness:
  "\<exists>c'. fun_code cambio_pila_code
        (a_cpu 0x8000 ((words (snd (fun_code cambio_pila_code (a_cpu 0x5000 ((\<lambda>_. 0)(0x5000 := 0x1234, 0x5004 := 0x100))))))
          (0x8004 := 0x200, 0x8008 := 0x4FFC))) = (0x1234, c') \<and> reg c' ESP = 0x5004 \<and> reg c' EBP = 0x81BF10"
  (is "\<exists>c'. fun_code _ ?b = _ \<and> _")
proof -
  let ?a = "a_cpu 0x5000 ((\<lambda>_. 0)(0x5000 := 0x1234, 0x5004 := 0x100))"
  have l: "words (snd (fun_code cambio_pila_code ?a)) = ((\<lambda>_. 0)(0x5000 := 0x1234, 0x5004 := 0x100, 0x4FFC := 0x81BF10, 0x100 := 0x4FFC))"
    by (simp add: cambio_pila_state [OF refl refl refl] a_cpu_def arg_def Let_def)
  have "\<exists>c'. fun_code cambio_pila_code ?b = (arg ?a 0, c') \<and> reg c' ESP = reg ?a ESP + 4 \<and> reg c' EBP = reg ?a EBP"
    by (rule cambio_pila_comes_back [where s = "0x5000" and p = "0x100" and t = "0x8000" and saved = "0x4FFC" and q = "0x200"])
      (simp_all only: l, simp_all add: a_cpu_def arg_def)
  then show ?thesis
    by (simp add: a_cpu_def arg_def)
qed

text \<open>An inner routine that comes back with other values in the registers.\<close>

definition busy :: "cpu \<Rightarrow> cpu" where
  "busy c = c\<lparr>reg := (reg c)(ESP := reg c ESP + 4, EAX := 7, EBX := 7, ESI := 7, EDI := 7)\<rparr>"

lemma task_switch_keeps_registers_witness:
  "\<exists>c'. task_switch_code busy 0x99 (a_cpu 0x8000 (\<lambda>a. a)) = (0x8000, c') \<and> reg c' EBX = 3 \<and> reg c' ESI = 4 \<and> reg c' EDI = 5"
proof -
  let ?c = "a_cpu 0x8000 (\<lambda>a. a)"
  have "\<exists>c'. task_switch_code busy 0x99 ?c = (arg ?c 0, c') \<and> reg c' ESP = 0x8000 + 4 \<and>
      (\<forall>r\<in>{EBX, ESI, EDI, EBP}. reg c' r = reg ?c r)"
    by (rule task_switch_keeps_registers [OF _ refl, THEN conjunct2]) (simp_all add: busy_def a_cpu_def)
  then show ?thesis
    by (auto simp: a_cpu_def arg_def)
qed

definition zero_answer :: "cpu \<Rightarrow> cpu" where
  "zero_answer c = c\<lparr>reg := (reg c)(ESP := reg c ESP + 4, EAX := 0)\<rparr>"

definition child_words :: "dword \<Rightarrow> dword" where
  "child_words a =
     (if a \<in> kernel_frame 0x9000 then words (at_call 0x55 (a_cpu 0x5000 (\<lambda>_. 7))) (0x5000 - (0x9000 - a))
      else if a = 0x9000 - 72 then 0x77 else if a = 0xC004 then 0x100 else if a = 0xC008 then 0x9000 - 76 else 0)"

lemma child_leaves_kernel_witness:
  "\<exists>c'. sysenter_fin (zero_answer (snd (fun_code cambio_pila_code (a_cpu 0xC000 child_words)))) = (7, c') \<and> reg c' EAX = 0"
proof -
  let ?c = "a_cpu 0x5000 (\<lambda>_. 7)"
  have "fst (fun_code cambio_pila_code (a_cpu 0xC000 child_words)) = 0x77 \<and>
      words (snd (fun_code cambio_pila_code (a_cpu 0xC000 child_words)))
        (reg (snd (fun_code cambio_pila_code (a_cpu 0xC000 child_words))) ESP) = 0x55 \<and>
      (\<exists>c'. sysenter_fin (zero_answer (snd (fun_code cambio_pila_code (a_cpu 0xC000 child_words)))) = (words ?c 0x81BF14, c') \<and>
         back_in_user ?c 0 c' \<and> reg c' EBX = reg ?c EBX)"
  proof (rule child_leaves_kernel [where kc = "0x9000" and t = "0xC000" and q = "0x100" and rff = "0x77", OF _ _ _ _ _ _ _ _ _ _ _ refl])
    show "child_stack (words (a_cpu 0xC000 child_words)) 0x9000 (words (at_call 0x55 ?c)) (reg ?c ESP) 0x77"
      by (simp add: child_stack_def a_cpu_def) (simp add: child_words_def a_cpu_def kernel_frame_def)
    show "answers_zero zero_answer (kernel_frame 0x9000) (snd (fun_code cambio_pila_code (a_cpu 0xC000 child_words)))"
      by (simp add: answers_zero_def zero_answer_def cdecl_def kept_def)
  qed (simp_all add: a_cpu_def arg_def kernel_frame_def child_words_def)
  then show ?thesis
    by (auto simp: back_in_user_def a_cpu_def)
qed

end
