(* ===== verification/Spec2Isabelle.thy ===== *)
theory Spec2Isabelle
  imports Build User_Fork Boot_Sector Stub_Code Switch_Code
begin

text \<open>
  A verification library of ZeOS, a small teaching kernel for one 32-bit x86 processor, with the tool that makes its
  disk image. The kernel runs processes in their own address spaces, schedules them round robin on the clock, and offers
  fork, exit, read, write, gettime, getpid, block, unblock, a text screen and shared memory pages.

  \<^bold>\<open>How the program works.\<close> \<open>build.c\<close> joins the boot sector, the kernel and the user program to an image and writes the
  two lengths into the header of the kernel. The boot sector (\<open>bootsect.S\<close>) loads what follows it to \<open>KERNEL_START\<close> and
  jumps to \<open>main\<close> (\<open>system.c\<close>), which sets up the descriptor tables, the frames, the idle process and the first process, copies
  the user program to its pages and enters user mode. From there on the kernel runs when it is entered: by a
  stub of \<open>Wrappers.S\<close> through the handler of \<open>entry.S\<close>, by the clock or by the keyboard. A PCB and its kernel stack share
  one page; processes are linked in rings (\<open>list.c\<close>) for the ready queue, the blocked processes, the readers of the keyboard, all tasks, and the
  children of each process.

  \<^bold>\<open>How the model is built.\<close> Every definition translates a piece of code named in its section; the state is passed
  explicitly; \<open>None\<close> is a page fault or a jump through a wild pointer, whose handler never returns. Machine integers are
  words where they wrap. The theories, from the bottom:

  \<^item> \<open>Prelude\<close>: machine types, constants (\<open>include/types.h\<close>, \<open>mm_address.h\<close>, \<open>errno.h\<close>), shared lemmas on words and loops.
  \<^item> \<open>Queue_Interface\<close> and \<open>Lists\<close>: the locale \<open>node_queues\<close> of several queues over one set of nodes, and its implementation by
    the links of \<open>list.c\<close> and \<open>list.h\<close>; every client proof (families, queues) is done once against the interface.
  \<^item> \<open>Frames\<close>, \<open>Paging\<close>, \<open>Machine\<close>: the byte map of frames and its allocator, page table entries with their bit fields
    (\<open>mm.c\<close>, \<open>types.h\<close>), and the memory behind the page walk that \<open>CR3\<close> selects.
  \<^item> \<open>Utils\<close>, \<open>Keyboard\<close>, \<open>Screen\<close>, \<open>Text\<close>, \<open>Descriptors\<close>: the copy routines and \<open>access_ok\<close> (\<open>utils.c\<close>), the circular buffer
    (\<open>devices.c\<close>), the console (\<open>io.c\<close>), number printing (\<open>libc.c\<close>, \<open>utils.c\<close>, \<open>io.c\<close>), segments, gates and the TSS
    (\<open>mm.c\<close>, \<open>interrupt.c\<close>).
  \<^item> \<open>Kernel\<close>: the whole state (\<open>sched.h\<close>, the globals of \<open>sched.c\<close>, \<open>sys.c\<close>, \<open>devices.c\<close>). A PCB is named by its frame;
    a saved kernel stack is represented by the place where the process resumes (\<open>resume_point\<close>).
  \<^item> \<open>Sched\<close>, \<open>Blocking\<close>, \<open>Shared_Memory\<close>, \<open>Process\<close>, \<open>Fork\<close>, \<open>Exit\<close>: \<open>sched.c\<close> and the system calls of \<open>sys.c\<close>.
  \<^item> \<open>Boot\<close>: \<open>main\<close> and the initialisation; \<open>Dispatch\<close>: \<open>entry.S\<close>, \<open>sys_call_table.S\<close>, \<open>interrupt.c\<close>, and \<open>kernel_step\<close>, one
    entry into the kernel from user mode to user mode; \<open>Build\<close>: \<open>build.c\<close> over a host file system.
  \<^item> \<open>Memory_Map\<close>, \<open>Invariant\<close>, \<open>Moves\<close>, \<open>User_Memory\<close>, \<open>Fork_Space\<close>, \<open>Fork_Call\<close>, \<open>Shared_Space\<close>, \<open>Steps\<close>, \<open>Whole\<close>,
    \<open>Boot_Memory\<close>, \<open>Boot_Processes\<close>: the proofs that span components.

  The user level, from the bottom:

  \<^item> \<open>User_Calls\<close>: the stubs and \<open>perror\<close> over an environment of one system call and accesses to memory (\<open>user_env\<close>);
    \<open>User_Programs\<close>: the seven tests and the menu of \<open>user.c\<close> over it.
  \<^item> \<open>Program_Simulation\<close>: the locale \<open>simulation\<close>: if each access and each call of one environment is matched in another, so
    is every program. \<open>Process_View\<close> is a small environment, the view of a process that runs alone: its bytes, the keys typed,
    the screen, the shared pages. \<open>User_Kernel\<close> interprets the locale (\<open>alone\<close>): the whole kernel follows this view.
  \<^item> \<open>View_Programs\<close>, \<open>View_Stress\<close>: what the programs do on the view; \<open>User_Tests\<close>, \<open>User_Fork\<close>: what they do on the kernel.

  The instruction level:

  \<^item> \<open>Assembly\<close>: registers, ports, a memory of aligned words, instructions, and the calling convention \<open>cdecl\<close> of compiled
    functions. \<open>Entry_Code\<close>, \<open>Stub_Code\<close>, \<open>Hardware_Code\<close>, \<open>Switch_Code\<close>: the listings of \<open>entry.S\<close>, \<open>Wrappers.S\<close>, \<open>hardware.S\<close> and
    \<open>extras.S\<close> on it. They justify what the other theories take for granted: that a stub reaches the routine with its
    arguments, that an interrupt leaves no trace in the registers, and that a process that has given the processor away goes
    on where it was (\<open>resume_point\<close>).
  \<^item> \<open>Boot_Sector\<close>: the loop of \<open>bootsect.S\<close> that reads the image, in 16-bit arithmetic.

  \<^bold>\<open>What is proved.\<close> \<open>kernel_ok\<close> is the invariant between two entries: the queues and families are rings that agree with
  the PCBs (\<open>sched_ok\<close>, \<open>family_ok\<close>), each frame has at most one use and each process sees the kernel and its own pages
  (\<open>mem_ok\<close>), a shared page counts the tables that map it (\<open>shm_ok\<close>), every suspended process has a place to resume
  (\<open>resumes_ok\<close>) and the next entry uses the stack of the running process (\<open>stack_ok\<close>). \<open>main\<close> establishes it
  (\<open>main_ok\<close>), every entry keeps it (\<open>kernel_step_ok\<close>), so no reachable entry faults and no process changes the data
  of another. Below this, each component has its own theorems: the rings refine lists, the allocator gives the first free
  frame, the scheduler is round robin and fair, the blocking calls consume or wait, reads return what is typed, fork copies
  and exit releases, shared pages count references, the console keeps its cursor on the screen, printed numbers read back,
  and the image holds the program that the boot sector loads and the first process then finds at the start of its memory.

  For the user programs, whatever a turn of the menu does on the view of a process that runs alone, it does on the kernel
  (\<open>menu_follows_view\<close>); from this follow what the screen test shows, that \<open>read_int\<close> reads back what \<open>itoa\<close> prints, that a
  stub reports errors in \<open>errno\<close>, and that the stress test on the booted machine makes exactly as many children as the memory
  allows. \<open>fork_returns_twice\<close> follows both returns of \<open>fork\<close>. On the instructions, \<open>stub_calls_routine\<close> runs each stub through
  the handler and back, \<open>clock_interrupt_transparent\<close> is about the interrupted program, \<open>cambio_pila_comes_back\<close>,
  \<open>task_switch_keeps_registers\<close> and \<open>child_leaves_kernel\<close> are about the change of the stack, \<open>current_finds_task\<close> about the
  PCB at the bottom of it, and \<open>image_is_loaded\<close> about the loader.

  \<^bold>\<open>Bounds and fuel.\<close> No definition takes fuel. Loops over arrays are folds over the index range of the code; the other loops
  are total functions with a measure, or \<open>partial_function (option)\<close> where the code may loop for ever (\<open>strlen\<close>, walking a
  corrupt ring, the loader), and then returning is proved. The loader needs an image of fewer than \<open>0x8000\<close> paragraphs
  (512 kB): a longer one is read over the boot sector itself. The bounds of the boot proof are those of the image: kernel and
  user program end below \<open>0x1FF000\<close>, the program has at most 28 pages, and the 35 frames that boot takes end below 4 MB, within the memory
  that the allocator manages.

  \<^bold>\<open>What is assumed.\<close> \<open>event_ok\<close> restricts the entries of the theorems on reachable states: a process does not call
  \<open>exit\<close> (\<open>exit_leaves_stale_child\<close> shows why the invariant fails then), nor number 36 (which jumps behind the table); a
  buffer that passes \<open>access_ok\<close> lies in the image of the process (\<open>access_ok_range\<close> shows that the test is one page too
  generous); a scan code has an entry in \<open>char_map\<close>; the idle process makes no calls. \<open>bootable\<close> says that the globals are as
  the loader leaves them. \<open>set_handlers\<close> and \<open>zeos_show_clock\<close> of the binary library \<open>libzeos.a\<close> are parameters; the
  latter keeps the screen well formed. The kernel reaches page tables through the identity mapping of low memory: the model
  names them by their frame. Fork unmaps page 512, which is part of that mapping (\<open>fork_unmaps_page_512\<close>); the model goes on
  with the table by its frame.

  A user program reaches memory through the page walk without its protection bits, and is interrupted only at its
  calls; the addresses of its variables and strings are parameters. On the instruction level a compiled function is any
  function that keeps to \<open>cdecl\<close>: it leaves the words of its caller alone. The stacks named in a theorem do not overlap, and
  the stack pointers are multiples of four. The BIOS of the boot sector is a parameter that reads the disk (\<open>reads_disk\<close>).

  \<^bold>\<open>Not modelled.\<close> Of \<open>bootsect.S\<close>: moving the sector, messages, the A20 line, the interrupt controller and the change to
  protected mode, which only drive devices before the kernel runs. The TLB. \<open>libzeos.a\<close>, of which there is no source.
\<close>

section \<open>From the image to the first process\<close>

text \<open>What \<open>main\<close> finds: everything behind the boot sector at \<open>KERNEL_START\<close>; paging is off.\<close>

definition loaded :: "byte list \<Rightarrow> kernel \<Rightarrow> bool" where
  "loaded img k \<longleftrightarrow> \<not> paging (mach k) \<and>
     (\<forall>x. x + 512 < length img \<longrightarrow> ram (mach k) (0x10000 + x) = img ! (512 + x))"

text \<open>The variable \<open>syssize\<close> of the boot sector: the two bytes at 500, where \<open>build\<close> writes the paragraphs.\<close>

definition boot_syssize :: "byte list \<Rightarrow> hword" where
  "boot_syssize img = of_nat (unat (img ! 500) + 256 * unat (img ! 501))"

lemma boot_sector_loads:
  assumes host: "good_host fs argv bs s u buf out" "build_main fs argv buf out = Inr out'"
    and small: "(length s + length u + 15) div 16 < 0x8000"
    and disk: "reads_disk int13 disk" "\<And>i. i < length (written out') \<Longrightarrow> disk i = written out' ! i"
  obtains t where "read_it int13 (boot_syssize (written out')) 0x1000 m = Some t"
    and "\<And>k. \<not> paging (mach k) \<Longrightarrow> ram (mach k) = mem t \<Longrightarrow> loaded (written out') k"
proof -
  let ?n = "boot_syssize (written out')"
  have "unat (written out' ! 500) + 256 * unat (written out' ! 501) = (length s + length u + 15) div 16"
    using built_paragraphs [OF host] small by simp
  then have n: "unat ?n = (length s + length u + 15) div 16"
    unfolding boot_syssize_def using small by (simp add: unat_of_nat take_bit_nat_eq_self del: of_nat_add of_nat_mult)
  then have "unat ?n < 0x8000"
    using small by simp
  then obtain t where t: "read_it int13 ?n 0x1000 m = Some t" "at_sector disk m (sectors_read ?n) t"
    by (rule read_it_loads [OF disk(1)])
  have room: "length s + length u \<le> 512 * sectors_read ?n"
    by (simp add: sectors_read_def n)
  have "mem t (0x10000 + x) = written out' ! (512 + x)" if "x + 512 < length (written out')" for x
  proof -
    have "x < 512 * sectors_read ?n"
      using that room built_image(3) [OF host] by simp
    then show ?thesis
      using t(2) disk(2) [of "512 + x"] that by (simp add: at_sector_def add.commute)
  qed
  then show thesis
    by (intro that [OF t(1)]) (simp add: loaded_def)
qed

text \<open>\<open>*p_sys_size\<close> and \<open>*p_usr_size\<close>, which \<open>main\<close> and \<open>init_mm\<close> read.\<close>

lemma loaded_lengths:
  assumes l: "loaded xs k" and n: "520 \<le> length xs"
  shows "load_dword (mach k) KERNEL_START = Some (lb xs 128)"
    and "load_dword (mach k) (KERNEL_START + 4) = Some (lb xs 129)"
proof -
  have t: "translate (mach k) va = Some (unat va)" for va
    using l by (simp add: loaded_def translate_paging_off)
  have r: "ram (mach k) (65536 + x) = xs ! (512 + x)" if "x < 8" for x
    using l n that by (simp add: loaded_def)
  note r8 = r [of 0] r [of 1] r [of 2] r [of 3] r [of 4] r [of 5] r [of 6] r [of 7]
  show "load_dword (mach k) KERNEL_START = Some (lb xs 128)"
    using r8 by (simp add: load_dword_def t dword_of_bytes_def lb_def)
  show "load_dword (mach k) (KERNEL_START + 4) = Some (lb xs 129)"
    using r8 by (simp add: load_dword_def t dword_of_bytes_def lb_def)
qed

lemma loaded_program_is_started:
  assumes "good_host fs argv bs s u buf out" and "build_main fs argv buf out = Inr out'"
    and "length s < 2 ^ 24" and "length u < 2 ^ 24" and "loaded (written out') k"
    and "load_dword (mach k) KERNEL_START = Some (sys_size img)"
    and "load_dword (mach k) (KERNEL_START + 4) = Some (usr_size img)" and "bootable img k"
  shows "\<exists>gdt' idt' K. main set_handlers img gdt idt k = Some (gdt', idt', K) \<and>
     (\<forall>x < length u. image_byte K (current K) (0x800000 + x) = u ! x)"
proof -
  note b = built_image [OF assms(1,2)]
  have s12: "12 \<le> length s" using assms(1) by (simp add: good_host_def)
  have "sys_size img = lb (written out') 128" "usr_size img = lb (written out') 129"
    using loaded_lengths [OF assms(5)] assms(6,7) b(3) s12 by simp_all
  then have sizes: "unat (sys_size img) = length s" "unat (usr_size img) = length u"
    using b(7,8) assms(3,4) by simp_all
  obtain gdt' idt' K where K: "main set_handlers img gdt idt k = Some (gdt', idt', K)"
      "\<And>x. x < length u \<Longrightarrow> image_byte K (current K) (0x800000 + x) = ram (mach k) (0x10000 + length s + x)"
    by (rule main_ok [OF assms(8), of set_handlers gdt idt]) (unfold sizes, blast)
  have "ram (mach k) (0x10000 + length s + x) = u ! x" if "x < length u" for x
    using assms(5) b(3) b(6) [OF that] that by (simp add: loaded_def add.assoc)
  then show ?thesis using K by simp
qed

text \<open>
  C5. From the files to the running process: \<open>build\<close> makes an image, the boot sector reads it from the disk, and \<open>main\<close>
  runs on the memory it leaves. The loader ends, the lengths \<open>main\<close> reads are those \<open>build\<close> has written, the program stands
  behind the kernel in memory, and it is copied through the new page tables to the pages of the first process, which finds
  it at the start of its memory, byte for byte.
\<close>

theorem built_program_is_started:
  assumes host: "good_host fs argv bs s u buf out" "build_main fs argv buf out = Inr out'"
    and small: "(length s + length u + 15) div 16 < 0x8000"
    and disk: "reads_disk int13 disk" "\<And>i. i < length (written out') \<Longrightarrow> disk i = written out' ! i"
  shows "\<exists>t. read_it int13 (boot_syssize (written out')) 0x1000 m = Some t \<and>
     (\<forall>k img. \<not> paging (mach k) \<and> ram (mach k) = mem t \<and> load_dword (mach k) KERNEL_START = Some (sys_size img) \<and>
        load_dword (mach k) (KERNEL_START + 4) = Some (usr_size img) \<and> bootable img k \<longrightarrow>
        (\<exists>gdt' idt' K. main set_handlers img gdt idt k = Some (gdt', idt', K) \<and>
           (\<forall>x < length u. image_byte K (current K) (0x800000 + x) = u ! x)))"
proof -
  obtain t where t: "read_it int13 (boot_syssize (written out')) 0x1000 m = Some t"
      and l: "\<And>k. \<not> paging (mach k) \<Longrightarrow> ram (mach k) = mem t \<Longrightarrow> loaded (written out') k"
    by (rule boot_sector_loads [OF host small disk], blast+)
  have "length s + length u + 15 < 16 * 0x8000"
    using small by (simp add: div_less_iff_less_mult)
  then have len: "length s < 2 ^ 24" "length u < 2 ^ 24"
    by simp_all
  have "\<exists>gdt' idt' K. main set_handlers img gdt idt k = Some (gdt', idt', K) \<and>
      (\<forall>x < length u. image_byte K (current K) (0x800000 + x) = u ! x)"
    if k: "loaded (written out') k" "load_dword (mach k) KERNEL_START = Some (sys_size img)"
      "load_dword (mach k) (KERNEL_START + 4) = Some (usr_size img)" "bootable img k" for k img
    by (rule loaded_program_is_started [OF host len k])
  then show ?thesis
    using t l by blast
qed

text \<open>The machine of the witness: the three small files, built, on a disk, and loaded.\<close>

definition loaded_kernel :: "memory \<Rightarrow> kernel" where
  "loaded_kernel m = boot_kernel\<lparr>mach := (mach boot_kernel)\<lparr>ram := m\<rparr>, buffer_sys := 0x10200\<rparr>"

lemma loaded_kernel_bootable: "bootable (small_image\<lparr>sys_size := 1500, usr_size := 3\<rparr>) (loaded_kernel m)"
  using boot_kernel_bootable by (simp add: bootable_def loaded_kernel_def small_image_def)

lemma loaded_kernel_off: "\<not> paging (mach (loaded_kernel m))" "ram (mach (loaded_kernel m)) = m"
  by (simp_all add: loaded_kernel_def boot_kernel_def paging_def)

theorem built_program_is_started_witness:
  "\<forall>gdt idt. \<exists>out' t gdt' idt' K. build_main small_host build_args (replicate 1024 0) fresh_out = Inr out' \<and>
     read_it (some_bios (\<lambda>i. written out' ! i)) (boot_syssize (written out')) 0x1000 (\<lambda>_. 0) = Some t \<and>
     main (\<lambda>t. t) (small_image\<lparr>sys_size := 1500, usr_size := 3\<rparr>) gdt idt (loaded_kernel (mem t)) = Some (gdt', idt', K) \<and>
     image_byte K (current K) 0x800001 = 6"
proof (intro allI)
  fix gdt idt
  let ?img = "small_image\<lparr>sys_size := 1500, usr_size := 3\<rparr>"
  obtain out' where out': "build_main small_host build_args (replicate 1024 0) fresh_out = Inr out'"
    using build_main_cases [OF small_host_good] empty_boot_file_ok by auto
  let ?disk = "\<lambda>i. written out' ! i"
  have small: "(length (replicate 1500 (9 :: byte)) + length [5, 6, 7 :: byte] + 15) div 16 < (0x8000 :: nat)" by simp
  note b = built_image [OF small_host_good out']
  obtain t where t: "read_it (some_bios ?disk) (boot_syssize (written out')) 0x1000 (\<lambda>_. 0) = Some t"
      and l: "\<And>k. \<not> paging (mach k) \<Longrightarrow> ram (mach k) = mem t \<Longrightarrow> loaded (written out') k"
    by (rule boot_sector_loads [OF small_host_good out' small reads_some_bios refl, of "\<lambda>_. 0"], blast+)
  have "unat (lb (written out') 128) = unat (1500 :: dword)" "unat (lb (written out') 129) = unat (3 :: dword)"
    using b(7,8) by simp_all
  then have sizes: "lb (written out') 128 = 1500" "lb (written out') 129 = 3" by (simp_all only: word_unat_eq_iff)
  have "520 \<le> length (written out')" using b(3) by simp
  note len = loaded_lengths [OF l [OF loaded_kernel_off] this, unfolded sizes]
  have "\<exists>t'. read_it (some_bios ?disk) (boot_syssize (written out')) 0x1000 (\<lambda>_. 0) = Some t' \<and>
      (\<forall>k img. \<not> paging (mach k) \<and> ram (mach k) = mem t' \<and> load_dword (mach k) KERNEL_START = Some (sys_size img) \<and>
        load_dword (mach k) (KERNEL_START + 4) = Some (usr_size img) \<and> bootable img k \<longrightarrow>
        (\<exists>gdt' idt' K. main (\<lambda>t. t) img gdt idt k = Some (gdt', idt', K) \<and>
           (\<forall>x < length [5, 6, 7 :: byte]. image_byte K (current K) (0x800000 + x) = [5, 6, 7] ! x)))"
    by (rule built_program_is_started [OF small_host_good out' small reads_some_bios refl])
  then have "\<exists>gdt' idt' K. main (\<lambda>t. t) ?img gdt idt (loaded_kernel (mem t)) = Some (gdt', idt', K) \<and>
      (\<forall>x < length [5, 6, 7 :: byte]. image_byte K (current K) (0x800000 + x) = [5, 6, 7] ! x)"
    using t len loaded_kernel_bootable [of "mem t"] loaded_kernel_off [of "mem t"] by simp
  then obtain gdt' idt' K where K: "main (\<lambda>t. t) ?img gdt idt (loaded_kernel (mem t)) = Some (gdt', idt', K)"
      "\<forall>x < length [5, 6, 7 :: byte]. image_byte K (current K) (0x800000 + x) = [5, 6, 7] ! x" by blast
  have "image_byte K (current K) 0x800001 = 6" using K(2) [rule_format, of 1] by simp
  then show "\<exists>out' t gdt' idt' K. build_main small_host build_args (replicate 1024 0) fresh_out = Inr out' \<and>
     read_it (some_bios (\<lambda>i. written out' ! i)) (boot_syssize (written out')) 0x1000 (\<lambda>_. 0) = Some t \<and>
     main (\<lambda>t. t) ?img gdt idt (loaded_kernel (mem t)) = Some (gdt', idt', K) \<and> image_byte K (current K) 0x800001 = 6"
    using out' t K(1) by blast
qed



end
